(* ===== verification/Prelude.thy ===== *)
theory Prelude
  imports Main "HOL-Library.Word" "HOL-Library.Monad_Syntax"
begin

text \<open>
  Shared vocabulary of the development: the collections of rewrite rules the component
  theories fill, C's 32-bit \<open>int\<close> with the wrap-around written out, and generic lemmas on
  lists and function updates.
\<close>

named_theorems kernel_list_simps \<open>functional equations of the intrusive list operations\<close>
named_theorems refine_simps \<open>equations that relate a concrete operation to its abstract list\<close>

subsection \<open>C integers\<close>

text \<open>An \<open>int\<close> of the sources is 32 bits wide; \<open>wrap32\<close> is the value two's complement
  arithmetic leaves in it, \<open>int32\<close> says that a mathematical integer is representable.\<close>

definition INT_MAX :: int where "INT_MAX = 2 ^ 31 - 1"
definition INT_MIN :: int where "INT_MIN = - (2 ^ 31)"

definition int32 :: "int \<Rightarrow> bool" where
  "int32 n \<longleftrightarrow> INT_MIN \<le> n \<and> n \<le> INT_MAX"

definition wrap32 :: "int \<Rightarrow> int" where
  "wrap32 n = (n + 2 ^ 31) mod 2 ^ 32 - 2 ^ 31"

lemma int32_iff: "int32 n \<longleftrightarrow> - 2147483648 \<le> n \<and> n < 2147483648"
  by (auto simp: int32_def INT_MAX_def INT_MIN_def)

lemma wrap32_id [simp]: "int32 n \<Longrightarrow> wrap32 n = n"
  by (simp add: wrap32_def int32_iff)

lemma wrap32_range: "int32 (wrap32 n)"
proof -
  have "0 \<le> (n + 2147483648) mod 4294967296" and "(n + 2147483648) mod 4294967296 < 4294967296"
    by simp_all
  then show ?thesis by (simp add: int32_iff wrap32_def)
qed

subsection \<open>Lists\<close>

lemma distinct_split_unique:
  "as @ x # bs = cs @ x # ds \<Longrightarrow> distinct (as @ x # bs) \<Longrightarrow> as = cs \<and> bs = ds"
proof (induction as arbitrary: cs)
  case Nil
  then show ?case by (cases cs) auto
next
  case (Cons a as)
  then show ?case by (cases cs) auto
qed

lemma in_set_removeAll_distinct:
  "distinct (as @ x # bs) \<Longrightarrow> removeAll x (as @ x # bs) = as @ bs"
  by (induction as) auto

text \<open>Evaluates the first step of a monadic sequence before the rest is looked at.\<close>

lemma bind_left_cong: "m = m' \<Longrightarrow> Option.bind m f = Option.bind m' f"
  by simp

lemma set_upt_Suc_le [simp]: "a \<le> b \<Longrightarrow> set [a..<Suc b] = insert b (set [a..<b])"
  by auto

end
