(* ===== verification/KernelList.thy ===== *)
theory KernelList
  imports Prelude
begin

text \<open>
  \<open>project2/buddy/list.h\<close>: the intrusive circular doubly linked list of the Linux kernel.
  A \<open>struct list_head\<close> lives at an address; the two pointer fields of all of them are the
  two maps of the record \<open>list_mem\<close>. The addresses the buddy allocator uses are the heads
  \<open>free_area[o]\<close>, the \<open>list\<close> fields of \<open>g_pages[i]\<close>, and the poison value
  \<open>0x1010\<close> that \<open>list_del\<close> stores. Each operation is the sequence of assignments of the
  C body, so that aliasing between \<open>prev\<close>, \<open>next\<close> and \<open>new\<close> has the effect it has in C.
  The lemmas relate them to the list of entries a head stands for (\<open>is_list\<close>).
\<close>

subsection \<open>Memory\<close>

datatype laddr = Head nat | Entry nat | Poison

record list_mem =
  nxt :: "laddr \<Rightarrow> laddr"
  prv :: "laddr \<Rightarrow> laddr"

definition set_next :: "laddr \<Rightarrow> laddr \<Rightarrow> list_mem \<Rightarrow> list_mem" where
  "set_next p v h = h\<lparr>nxt := (nxt h)(p := v)\<rparr>"

definition set_prev :: "laddr \<Rightarrow> laddr \<Rightarrow> list_mem \<Rightarrow> list_mem" where
  "set_prev p v h = h\<lparr>prv := (prv h)(p := v)\<rparr>"

lemma nxt_set [simp]:
  "nxt (set_next p v h) = (nxt h)(p := v)" "nxt (set_prev p v h) = nxt h"
  "prv (set_next p v h) = prv h" "prv (set_prev p v h) = (prv h)(p := v)"
  by (simp_all add: set_next_def set_prev_def)

subsection \<open>Operations\<close>

definition INIT_LIST_HEAD :: "laddr \<Rightarrow> list_mem \<Rightarrow> list_mem" where
  "INIT_LIST_HEAD p h = set_prev p p (set_next p p h)"

definition list_add_between :: "laddr \<Rightarrow> laddr \<Rightarrow> laddr \<Rightarrow> list_mem \<Rightarrow> list_mem" where
  "list_add_between new prev next h =
     (let h = set_prev next new h;
          h = set_next new next h;
          h = set_prev new prev h
      in set_next prev new h)"

definition list_add :: "laddr \<Rightarrow> laddr \<Rightarrow> list_mem \<Rightarrow> list_mem" where
  "list_add new head h = list_add_between new head (nxt h head) h"

definition list_add_tail :: "laddr \<Rightarrow> laddr \<Rightarrow> list_mem \<Rightarrow> list_mem" where
  "list_add_tail new head h = list_add_between new (prv h head) head h"

definition list_del_between :: "laddr \<Rightarrow> laddr \<Rightarrow> list_mem \<Rightarrow> list_mem" where
  "list_del_between prev next h = set_next prev next (set_prev next prev h)"

definition list_del :: "laddr \<Rightarrow> list_mem \<Rightarrow> list_mem" where
  "list_del entry h =
     (let h = list_del_between (prv h entry) (nxt h entry) h;
          h = set_next entry Poison h
      in set_prev entry Poison h)"

definition list_del_init :: "laddr \<Rightarrow> list_mem \<Rightarrow> list_mem" where
  "list_del_init entry h =
     INIT_LIST_HEAD entry (list_del_between (prv h entry) (nxt h entry) h)"

definition list_move :: "laddr \<Rightarrow> laddr \<Rightarrow> list_mem \<Rightarrow> list_mem" where
  "list_move e head h = list_add e head (list_del_between (prv h e) (nxt h e) h)"

definition list_move_tail :: "laddr \<Rightarrow> laddr \<Rightarrow> list_mem \<Rightarrow> list_mem" where
  "list_move_tail e head h = list_add_tail e head (list_del_between (prv h e) (nxt h e) h)"

definition list_empty :: "laddr \<Rightarrow> list_mem \<Rightarrow> bool" where
  "list_empty head h \<longleftrightarrow> nxt h head = head"

definition list_splice_at :: "laddr \<Rightarrow> laddr \<Rightarrow> list_mem \<Rightarrow> list_mem" where
  "list_splice_at l head h =
     (let first = nxt h l; last = prv h l; at = nxt h head;
          h = set_prev first head h;
          h = set_next head first h;
          h = set_next last at h
      in set_prev at last h)"

definition list_splice :: "laddr \<Rightarrow> laddr \<Rightarrow> list_mem \<Rightarrow> list_mem" where
  "list_splice l head h = (if \<not> list_empty l h then list_splice_at l head h else h)"

definition list_splice_init :: "laddr \<Rightarrow> laddr \<Rightarrow> list_mem \<Rightarrow> list_mem" where
  "list_splice_init l head h =
     (if \<not> list_empty l h then INIT_LIST_HEAD l (list_splice_at l head h) else h)"

text \<open>\<open>list_for_each(pos, head)\<close>: the sequence of values \<open>pos\<close> takes. The loop returns only
  if the walk comes back to the head, so it is a partial function.\<close>

partial_function (option) list_walk :: "laddr \<Rightarrow> laddr \<Rightarrow> list_mem \<Rightarrow> laddr list option" where
  "list_walk pos head h =
     (if pos = head then Some []
      else do { ps \<leftarrow> list_walk (nxt h pos) head h; Some (pos # ps) })"

definition list_for_each :: "laddr \<Rightarrow> list_mem \<Rightarrow> laddr list option" where
  "list_for_each head h = list_walk (nxt h head) head h"

partial_function (option) list_walk_prev :: "laddr \<Rightarrow> laddr \<Rightarrow> list_mem \<Rightarrow> laddr list option" where
  "list_walk_prev pos head h =
     (if pos = head then Some []
      else do { ps \<leftarrow> list_walk_prev (prv h pos) head h; Some (pos # ps) })"

definition list_for_each_prev :: "laddr \<Rightarrow> list_mem \<Rightarrow> laddr list option" where
  "list_for_each_prev head h = list_walk_prev (prv h head) head h"

declare list_walk.simps [code] list_walk_prev.simps [code]

subsection \<open>The list a head stands for\<close>

primrec dseg :: "list_mem \<Rightarrow> laddr \<Rightarrow> laddr list \<Rightarrow> laddr \<Rightarrow> bool" where
  "dseg h p [] q \<longleftrightarrow> nxt h p = q \<and> prv h q = p"
| "dseg h p (x # xs) q \<longleftrightarrow> nxt h p = x \<and> prv h x = p \<and> dseg h x xs q"

definition is_list :: "list_mem \<Rightarrow> laddr \<Rightarrow> laddr list \<Rightarrow> bool" where
  "is_list h hp xs \<longleftrightarrow> dseg h hp xs hp \<and> distinct (hp # xs)"

lemma dseg_append: "dseg h p (as @ x # bs) q \<longleftrightarrow> dseg h p as x \<and> dseg h x bs q"
  by (induction as arbitrary: p) auto

lemma dseg_cong:
  assumes "\<And>a. a \<in> set (p # xs) \<Longrightarrow> nxt h' a = nxt h a"
    and "\<And>a. a \<in> set (xs @ [q]) \<Longrightarrow> prv h' a = prv h a"
  shows "dseg h' p xs q = dseg h p xs q"
  using assms by (induction xs arbitrary: p) auto

lemma dseg_first: "dseg h p xs q \<Longrightarrow> nxt h p = (case xs of [] \<Rightarrow> q | x # _ \<Rightarrow> x)"
  by (cases xs) auto

lemma dseg_last: "dseg h p xs q \<Longrightarrow> prv h q = (if xs = [] then p else last xs)"
  by (induction xs arbitrary: p) auto

lemma is_list_Nil: "is_list h hp [] \<longleftrightarrow> nxt h hp = hp \<and> prv h hp = hp"
  by (auto simp: is_list_def)

lemma is_list_distinct: "is_list h hp xs \<Longrightarrow> distinct xs \<and> hp \<notin> set xs"
  by (simp add: is_list_def)

lemma is_list_frame:
  assumes "is_list h hp xs"
    and "\<And>a. a \<in> set (hp # xs) \<Longrightarrow> nxt h' a = nxt h a \<and> prv h' a = prv h a"
  shows "is_list h' hp xs"
proof -
  have "dseg h' hp xs hp = dseg h hp xs hp"
    by (rule dseg_cong) (use assms(2) in auto)
  with assms(1) show ?thesis by (simp add: is_list_def)
qed

text \<open>What is reachable from a head through \<open>next\<close> is determined, so the list is unique.\<close>

lemma dseg_unique:
  "dseg h p xs q \<Longrightarrow> dseg h p ys q \<Longrightarrow> q \<notin> set xs \<Longrightarrow> q \<notin> set ys \<Longrightarrow> xs = ys"
proof (induction xs arbitrary: p ys)
  case Nil
  then show ?case by (cases ys) auto
next
  case (Cons x xs)
  then show ?case by (cases ys) auto
qed

lemma is_list_unique: "is_list h hp xs \<Longrightarrow> is_list h hp ys \<Longrightarrow> xs = ys"
  by (auto simp: is_list_def intro: dseg_unique)

subsection \<open>Each operation on the list it acts on\<close>

lemma list_empty_iff [refine_simps]: "is_list h hp xs \<Longrightarrow> list_empty hp h \<longleftrightarrow> xs = []"
  by (cases xs) (auto simp: is_list_def list_empty_def)

lemma INIT_LIST_HEAD_empty: "is_list (INIT_LIST_HEAD p h) p []"
  by (simp add: is_list_Nil INIT_LIST_HEAD_def)

lemma INIT_LIST_HEAD_other:
  "is_list h l ys \<Longrightarrow> p \<notin> set (l # ys) \<Longrightarrow> is_list (INIT_LIST_HEAD p h) l ys"
  by (erule is_list_frame) (auto simp: INIT_LIST_HEAD_def)

lemma list_add_between_fields:
  "nxt (list_add_between new p q h) = (nxt h)(new := q, p := new)"
  "prv (list_add_between new p q h) = (prv h)(q := new, new := p)"
  by (simp_all add: list_add_between_def)

lemma list_del_between_fields:
  "nxt (list_del_between p q h) = (nxt h)(p := q)"
  "prv (list_del_between p q h) = (prv h)(q := p)"
  by (simp_all add: list_del_between_def)

lemma INIT_LIST_HEAD_fields:
  "nxt (INIT_LIST_HEAD p h) = (nxt h)(p := p)"
  "prv (INIT_LIST_HEAD p h) = (prv h)(p := p)"
  by (simp_all add: INIT_LIST_HEAD_def)

lemmas list_fields = list_add_between_fields list_del_between_fields INIT_LIST_HEAD_fields

lemma list_add_is_list [kernel_list_simps]:
  assumes "is_list h hp xs" and "new \<notin> set (hp # xs)"
  shows "is_list (list_add new hp h) hp (new # xs)"
proof (cases xs)
  case Nil
  with assms show ?thesis by (auto simp: is_list_def list_add_def list_fields)
next
  case (Cons x ys)
  have tail: "dseg (list_add new hp h) x ys hp = dseg h x ys hp"
    by (rule dseg_cong) (use assms Cons in \<open>auto simp: is_list_def list_add_def list_fields\<close>)
  show ?thesis using assms Cons tail
    by (auto simp: is_list_def list_add_def list_fields)
qed

lemma list_add_tail_is_list [kernel_list_simps]:
  assumes "is_list h hp xs" and "new \<notin> set (hp # xs)"
  shows "is_list (list_add_tail new hp h) hp (xs @ [new])"
proof (cases xs rule: rev_cases)
  case Nil
  with assms show ?thesis by (auto simp: is_list_def list_add_tail_def list_fields)
next
  case (snoc ys x)
  have l: "prv h hp = x" using assms snoc dseg_last [of h hp xs hp] by (auto simp: is_list_def)
  have "dseg (list_add_tail new hp h) hp ys x = dseg h hp ys x"
    by (rule dseg_cong) (use assms snoc l in \<open>auto simp: is_list_def list_add_tail_def list_fields\<close>)
  with assms snoc l show ?thesis
    by (auto simp: is_list_def dseg_append list_add_tail_def list_fields)
qed

lemma dseg_del_between:
  "p \<notin> set (x # xs) \<Longrightarrow> q \<notin> set (xs @ [r]) \<Longrightarrow> dseg (list_del_between p q h) x xs r = dseg h x xs r"
  by (rule dseg_cong) (auto simp: list_fields)

lemma list_unlink:
  assumes "is_list h hp (as @ x # bs)"
  shows "is_list (list_del_between (prv h x) (nxt h x) h) hp (as @ bs)"
proof -
  let ?p = "if as = [] then hp else last as" and ?q = "case bs of [] \<Rightarrow> hp | b # _ \<Rightarrow> b"
  have segs: "dseg h hp as x" "dseg h x bs hp" and d: "distinct (hp # as @ x # bs)"
    using assms by (auto simp: is_list_def dseg_append)
  have p: "prv h x = ?p" using segs(1) by (rule dseg_last)
  have q: "nxt h x = ?q" using segs(2) by (rule dseg_first)
  let ?h = "list_del_between ?p ?q h"
  have pre: "dseg ?h hp as ?q" using segs(1) d
  proof (induction as rule: rev_induct)
    case Nil
    with q show ?case by (auto simp: list_fields split: list.splits)
  next
    case (snoc a as)
    have "dseg (list_del_between (if as @ [a] = [] then hp else last (as @ [a])) ?q h) hp as a
        = dseg h hp as a"
      by (rule dseg_cong) (use snoc.prems in \<open>auto simp: list_fields split: list.splits\<close>)
    with snoc.prems show ?case by (auto simp: dseg_append list_fields split: list.splits)
  qed
  show ?thesis
  proof (cases bs)
    case Nil
    with pre d p q show ?thesis by (simp add: is_list_def)
  next
    case (Cons b cs)
    have p': "?p \<notin> set (b # cs)" using d Cons by (cases as rule: rev_cases) auto
    have "dseg (list_del_between ?p b h) b cs hp = dseg h b cs hp"
      by (rule dseg_del_between [OF p']) (use d Cons in auto)
    with pre d p q Cons segs(2) show ?thesis by (simp add: is_list_def dseg_append)
  qed
qed

lemma list_unlink_neighbours:
  assumes "is_list h hp (as @ x # bs)"
  shows "prv h x \<in> set (hp # as @ bs)" and "nxt h x \<in> set (hp # as @ bs)"
proof -
  have segs: "dseg h hp as x" "dseg h x bs hp"
    using assms by (auto simp: is_list_def dseg_append)
  show "prv h x \<in> set (hp # as @ bs)" using dseg_last [OF segs(1)] by auto
  show "nxt h x \<in> set (hp # as @ bs)" using dseg_first [OF segs(2)] by (auto split: list.splits)
qed

lemma list_del_init_is_list [kernel_list_simps]:
  assumes "is_list h hp (as @ x # bs)"
  shows "is_list (list_del_init x h) hp (as @ bs)" and "is_list (list_del_init x h) x []"
proof -
  have "x \<notin> set (hp # as @ bs)" using assms by (auto simp: is_list_def)
  with list_unlink [OF assms] show "is_list (list_del_init x h) hp (as @ bs)"
    unfolding list_del_init_def by (rule INIT_LIST_HEAD_other)
  show "is_list (list_del_init x h) x []"
    unfolding list_del_init_def by (rule INIT_LIST_HEAD_empty)
qed

lemma list_del_is_list [kernel_list_simps]:
  assumes "is_list h hp (as @ x # bs)"
  shows "is_list (list_del x h) hp (as @ bs)"
    and "nxt (list_del x h) x = Poison" and "prv (list_del x h) x = Poison"
proof -
  have "x \<notin> set (hp # as @ bs)" using assms by (auto simp: is_list_def)
  with list_unlink [OF assms] show "is_list (list_del x h) hp (as @ bs)"
    by (elim is_list_frame) (auto simp: list_del_def)
qed (simp_all add: list_del_def)

lemma list_move_is_list [kernel_list_simps]:
  assumes "is_list h hp (as @ x # bs)"
  shows "is_list (list_move x hp h) hp (x # as @ bs)"
    and "is_list (list_move_tail x hp h) hp (as @ bs @ [x])"
proof -
  have x: "x \<notin> set (hp # as @ bs)" using assms by (auto simp: is_list_def)
  show "is_list (list_move x hp h) hp (x # as @ bs)"
    unfolding list_move_def by (rule list_add_is_list [OF list_unlink [OF assms] x])
  show "is_list (list_move_tail x hp h) hp (as @ bs @ [x])"
    using list_add_tail_is_list [OF list_unlink [OF assms] x] by (simp add: list_move_tail_def)
qed

subsection \<open>Frame rules: other lists are untouched\<close>

lemma list_add_other [kernel_list_simps]:
  assumes "is_list h hp xs" and "is_list h l ys"
    and "set (l # ys) \<inter> set (hp # xs) = {}" and "new \<notin> set (l # ys)"
  shows "is_list (list_add new hp h) l ys"
proof (rule is_list_frame [OF assms(2)])
  fix a assume a: "a \<in> set (l # ys)"
  have "nxt h hp \<in> set (hp # xs)"
    using assms(1) dseg_first [of h hp xs hp] by (auto simp: is_list_def split: list.splits)
  with a assms(3,4) show "nxt (list_add new hp h) a = nxt h a \<and> prv (list_add new hp h) a = prv h a"
    by (auto simp: list_add_def list_fields)
qed

lemma list_del_init_other [kernel_list_simps]:
  assumes "is_list h hp (as @ x # bs)" and "is_list h l ys"
    and "set (l # ys) \<inter> set (hp # as @ x # bs) = {}"
  shows "is_list (list_del_init x h) l ys"
proof (rule is_list_frame [OF assms(2)])
  fix a assume "a \<in> set (l # ys)"
  with assms(3) list_unlink_neighbours [OF assms(1)]
  show "nxt (list_del_init x h) a = nxt h a \<and> prv (list_del_init x h) a = prv h a"
    by (auto simp: list_del_init_def list_fields)
qed

subsection \<open>Splicing and iteration\<close>

lemma list_splice_is_list [kernel_list_simps]:
  assumes l: "is_list h l ys" and hp: "is_list h hp xs" and dis: "set (l # ys) \<inter> set (hp # xs) = {}"
  shows "is_list (list_splice l hp h) hp (ys @ xs)"
    and "is_list (list_splice_init l hp h) l []"
proof -
  show "is_list (list_splice l hp h) hp (ys @ xs)"
  proof (cases ys)
    case Nil
    with l hp show ?thesis by (simp add: list_splice_def list_empty_iff)
  next
    case (Cons y zs)
    have ends: "nxt h l = y" "prv h l = last (y # zs)"
      using l Cons dseg_last [of h l ys l] by (auto simp: is_list_def)
    let ?at = "case xs of [] \<Rightarrow> hp | x # _ \<Rightarrow> x" and ?h = "list_splice_at l hp h"
    have at: "nxt h hp = ?at" using hp dseg_first by (auto simp: is_list_def)
    have at_in: "?at \<in> set (hp # xs)" by (auto split: list.splits)
    have lst: "last (y # zs) \<in> set (y # zs)" by (rule last_in_set) simp
    have f: "nxt ?h = (nxt h)(hp := y, last (y # zs) := ?at)"
        "prv ?h = (prv h)(y := hp, ?at := last (y # zs))"
      using ends at by (simp_all add: list_splice_at_def Let_def)
    have mid: "dseg h y zs l" using l Cons by (simp add: is_list_def)
    have seg1: "dseg ?h y zs ?at"
    proof (cases zs rule: rev_cases)
      case Nil
      with f show ?thesis by simp
    next
      case (snoc ws w)
      have "dseg ?h y ws w = dseg h y ws w"
        by (rule dseg_cong) (use f snoc dis at_in l Cons in \<open>auto simp: is_list_def\<close>)
      with mid snoc f dis at_in Cons show ?thesis by (auto simp: dseg_append)
    qed
    show ?thesis
    proof (cases xs)
      case Nil
      with seg1 f dis Cons l hp lst show ?thesis
        by (auto simp: is_list_def list_splice_def list_empty_def ends)
    next
      case (Cons x us)
      have "dseg ?h x us hp = dseg h x us hp"
        by (rule dseg_cong) (use f dis Cons lst \<open>ys = y # zs\<close> hp in \<open>auto simp: is_list_def\<close>)
      with seg1 f dis Cons \<open>ys = y # zs\<close> l hp lst show ?thesis
        by (auto simp: is_list_def list_splice_def list_empty_def ends dseg_append)
    qed
  qed
  show "is_list (list_splice_init l hp h) l []"
    using l by (auto simp: list_splice_init_def list_empty_iff INIT_LIST_HEAD_empty)
qed

lemma list_walk_dseg:
  "dseg h p xs q \<Longrightarrow> q \<notin> set xs \<Longrightarrow> list_walk (nxt h p) q h = Some xs"
  by (induction xs arbitrary: p) (auto simp: list_walk.simps)

lemma list_for_each_is_list [refine_simps]: "is_list h hp xs \<Longrightarrow> list_for_each hp h = Some xs"
  by (auto simp: is_list_def list_for_each_def intro: list_walk_dseg)

lemma list_walk_prev_dseg:
  "dseg h p xs q \<Longrightarrow> p \<notin> set xs \<Longrightarrow> list_walk_prev (prv h q) p h = Some (rev xs)"
proof (induction xs arbitrary: q rule: rev_induct)
  case Nil
  then show ?case by (simp add: list_walk_prev.simps)
next
  case (snoc x xs)
  then have "list_walk_prev (prv h x) p h = Some (rev xs)" "prv h q = x" "x \<noteq> p"
    by (auto simp: dseg_append)
  then show ?case by (simp add: list_walk_prev.simps)
qed

lemma list_for_each_prev_is_list [refine_simps]:
  "is_list h hp xs \<Longrightarrow> list_for_each_prev hp h = Some (rev xs)"
  by (auto simp: is_list_def list_for_each_prev_def intro: list_walk_prev_dseg)


subsection \<open>The interface clients use\<close>

text \<open>
  A client owns a family of heads, one per index of \<open>S\<close>, and moves entries between them.
  What it relies on is this locale; \<open>list_family\<close> is its view of the memory.
\<close>

definition list_family ::
  "('h \<Rightarrow> laddr \<Rightarrow> laddr list \<Rightarrow> bool) \<Rightarrow> 'h \<Rightarrow> nat set \<Rightarrow> (nat \<Rightarrow> nat list) \<Rightarrow> bool" where
  "list_family reps h S fl \<longleftrightarrow>
     (\<forall>k \<in> S. reps h (Head k) (map Entry (fl k)) \<and> distinct (fl k)) \<and>
     (\<forall>k \<in> S. \<forall>l \<in> S. k \<noteq> l \<longrightarrow> set (fl k) \<inter> set (fl l) = {})"

locale intrusive_list =
  fixes reps :: "'h \<Rightarrow> laddr \<Rightarrow> laddr list \<Rightarrow> bool"
    and init :: "laddr \<Rightarrow> 'h \<Rightarrow> 'h"
    and add :: "laddr \<Rightarrow> laddr \<Rightarrow> 'h \<Rightarrow> 'h"
    and del :: "laddr \<Rightarrow> 'h \<Rightarrow> 'h"
    and next_of :: "'h \<Rightarrow> laddr \<Rightarrow> laddr"
    and empty :: "laddr \<Rightarrow> 'h \<Rightarrow> bool"
    and each :: "laddr \<Rightarrow> 'h \<Rightarrow> laddr list option"
  assumes reps_init: "reps (init l h) l []"
    and reps_init_other: "reps h l xs \<Longrightarrow> p \<notin> set (l # xs) \<Longrightarrow> reps (init p h) l xs"
    and reps_add: "reps h l xs \<Longrightarrow> p \<notin> set (l # xs) \<Longrightarrow> reps (add p l h) l (p # xs)"
    and reps_add_other: "reps h l xs \<Longrightarrow> reps h k ys \<Longrightarrow> set (k # ys) \<inter> set (l # xs) = {} \<Longrightarrow>
      p \<notin> set (k # ys) \<Longrightarrow> reps (add p l h) k ys"
    and reps_del: "reps h l (as @ p # bs) \<Longrightarrow> reps (del p h) l (as @ bs)"
    and reps_del_other: "reps h l (as @ p # bs) \<Longrightarrow> reps h k ys \<Longrightarrow>
      set (k # ys) \<inter> set (l # as @ p # bs) = {} \<Longrightarrow> reps (del p h) k ys"
    and reps_first: "reps h l (x # xs) \<Longrightarrow> next_of h l = x"
    and reps_empty: "reps h l xs \<Longrightarrow> empty l h \<longleftrightarrow> xs = []"
    and reps_each: "reps h l xs \<Longrightarrow> each l h = Some xs"
begin

lemma family_disjoint:
  "list_family reps h S fl \<Longrightarrow> k \<in> S \<Longrightarrow> l \<in> S \<Longrightarrow> k \<noteq> l \<Longrightarrow> set (fl k) \<inter> set (fl l) = {}"
  by (simp add: list_family_def)

lemma family_reps:
  "list_family reps h S fl \<Longrightarrow> k \<in> S \<Longrightarrow> reps h (Head k) (map Entry (fl k)) \<and> distinct (fl k)"
  by (simp add: list_family_def)

lemma family_init:
  assumes "\<forall>k \<in> S. reps h (Head k) []"
  shows "list_family reps h S (\<lambda>_. [])"
  using assms by (simp add: list_family_def)

lemma family_add:
  assumes fam: "list_family reps h S fl" and k: "k \<in> S" and p: "\<forall>l \<in> S. p \<notin> set (fl l)"
  shows "list_family reps (add (Entry p) (Head k) h) S (fl(k := p # fl k))"
proof -
  have "reps (add (Entry p) (Head k) h) (Head l) (map Entry ((fl(k := p # fl k)) l))" if l: "l \<in> S" for l
  proof (cases "l = k")
    case True
    with fam k p reps_add [of h "Head k" "map Entry (fl k)" "Entry p"] show ?thesis
      by (auto simp: list_family_def)
  next
    case False
    have dis: "set (Head l # map Entry (fl l)) \<inter> set (Head k # map Entry (fl k)) = {}"
      using family_disjoint [OF fam l k False] False by auto
    have "reps (add (Entry p) (Head k) h) (Head l) (map Entry (fl l))"
      by (rule reps_add_other [OF _ _ dis])
        (use family_reps [OF fam] k l p in \<open>auto\<close>)
    with False show ?thesis by simp
  qed
  with fam k p show ?thesis by (auto simp: list_family_def)
qed

lemma family_del:
  assumes fam: "list_family reps h S fl" and k: "k \<in> S" and p: "p \<in> set (fl k)"
  shows "list_family reps (del (Entry p) h) S (fl(k := remove1 p (fl k)))"
proof -
  obtain as bs where split: "fl k = as @ p # bs" using p by (auto simp: in_set_conv_decomp)
  have d: "distinct (fl k)" using family_reps [OF fam k] by simp
  have here: "reps h (Head k) (map Entry as @ Entry p # map Entry bs)"
    using family_reps [OF fam k] split by simp
  have rem: "remove1 p (fl k) = as @ bs" using d split by (auto simp: remove1_append)
  have "reps (del (Entry p) h) (Head l) (map Entry ((fl(k := as @ bs)) l))" if l: "l \<in> S" for l
  proof (cases "l = k")
    case True
    with reps_del [OF here] show ?thesis by simp
  next
    case False
    then have "set (fl l) \<inter> set (fl k) = {}" "reps h (Head l) (map Entry (fl l))"
      using fam k l by (auto simp: list_family_def)
    with reps_del_other [OF here, of "Head l" "map Entry (fl l)"] False split show ?thesis by auto
  qed
  moreover have "distinct (as @ bs)" and "set (as @ bs) \<subseteq> set (fl k)" using d split by auto
  ultimately show ?thesis using fam k unfolding rem list_family_def
    by (auto simp del: set_append) blast+
qed

lemma family_first:
  "list_family reps h S fl \<Longrightarrow> k \<in> S \<Longrightarrow> fl k \<noteq> [] \<Longrightarrow> next_of h (Head k) = Entry (hd (fl k))"
  by (cases "fl k") (auto simp: list_family_def reps_first)

lemma family_empty:
  "list_family reps h S fl \<Longrightarrow> k \<in> S \<Longrightarrow> empty (Head k) h \<longleftrightarrow> fl k = []"
  using reps_empty by (fastforce simp: list_family_def)

lemma family_each:
  "list_family reps h S fl \<Longrightarrow> k \<in> S \<Longrightarrow> each (Head k) h = Some (map Entry (fl k))"
  by (auto simp: list_family_def reps_each)

end

interpretation kl: intrusive_list is_list INIT_LIST_HEAD list_add list_del_init nxt list_empty list_for_each
proof
  fix h l xs assume "is_list h l xs"
  then show "list_empty l h \<longleftrightarrow> xs = []" "list_for_each l h = Some xs"
    by (simp_all add: refine_simps)
next
  fix h l x xs assume "is_list h l (x # xs)"
  then show "nxt h l = x" by (simp add: is_list_def)
qed (blast intro: INIT_LIST_HEAD_empty INIT_LIST_HEAD_other kernel_list_simps)+

end
