(* ===== verification/Buddy.thy ===== *)
theory Buddy
  imports KernelList "HOL-Library.Multiset"
begin

text \<open>
  \<open>project2/buddy/buddy.c\<close>: the buddy allocator over a 1 MiB area of 256 pages. An address
  is its offset from \<open>g_memory\<close>, a page its index in \<open>g_pages\<close>; the free lists are the
  pointer structures of theory KernelList, with \<open>Head k\<close> the address of \<open>free_area[k]\<close> and
  \<open>Entry i\<close> the address of \<open>g_pages[i].list\<close>. \<open>None\<close> is undefined behaviour of the C
  (a shift past the width of \<open>int\<close>, an index outside \<open>g_pages\<close>).
\<close>

unbundle bit_operations_syntax

subsection \<open>Data\<close>

definition MIN_ORDER :: nat where [simp]: "MIN_ORDER = 12"
definition MAX_ORDER :: nat where [simp]: "MAX_ORDER = 20"
definition PAGE_SIZE :: nat where [simp]: "PAGE_SIZE = 2 ^ MIN_ORDER"

definition n_pages :: nat where [simp]: "n_pages = 2 ^ MAX_ORDER div PAGE_SIZE"

record page_t =
  order :: nat
  free :: bool

record buddy_state =
  links :: list_mem
  g_pages :: "nat \<Rightarrow> page_t"

definition PAGE_TO_ADDR :: "nat \<Rightarrow> nat" where
  "PAGE_TO_ADDR page_idx = page_idx * PAGE_SIZE"

definition ADDR_TO_PAGE :: "nat \<Rightarrow> nat" where
  "ADDR_TO_PAGE addr = addr div PAGE_SIZE"

definition BUDDY_ADDR :: "nat \<Rightarrow> nat \<Rightarrow> nat" where
  "BUDDY_ADDR addr k = addr XOR 2 ^ k"

definition set_order :: "nat \<Rightarrow> nat \<Rightarrow> buddy_state \<Rightarrow> buddy_state" where
  "set_order i k s = s\<lparr>g_pages := (g_pages s)(i := (g_pages s i)\<lparr>order := k\<rparr>)\<rparr>"

definition set_free :: "nat \<Rightarrow> bool \<Rightarrow> buddy_state \<Rightarrow> buddy_state" where
  "set_free i b s = s\<lparr>g_pages := (g_pages s)(i := (g_pages s i)\<lparr>free := b\<rparr>)\<rparr>"

definition on_links :: "(list_mem \<Rightarrow> list_mem) \<Rightarrow> buddy_state \<Rightarrow> buddy_state" where
  "on_links f s = s\<lparr>links := f (links s)\<rparr>"

text \<open>\<open>list_entry\<close>: from the address of a \<open>list\<close> field back to its page.\<close>

fun list_entry :: "laddr \<Rightarrow> nat option" where
  "list_entry (Entry i) = Some i"
| "list_entry (Head k) = None"
| "list_entry Poison = None"

subsection \<open>Operations\<close>

definition buddy_init :: "buddy_state \<Rightarrow> buddy_state" where
  "buddy_init s =
     (let s = fold (\<lambda>i s. on_links (INIT_LIST_HEAD (Entry i)) (set_free i False (set_order i 0 s)))
                [0..<n_pages] s;
          s = fold (\<lambda>k. on_links (INIT_LIST_HEAD (Head k))) [MIN_ORDER..<Suc MAX_ORDER] s;
          s = set_order 0 MAX_ORDER s;
          s = set_free 0 True s
      in on_links (list_add (Entry 0) (Head MAX_ORDER)) s)"

text \<open>\<open>while ((1 << order) < sz) order++\<close>: the shift is on a 32-bit \<open>int\<close>, so it is
  undefined from 31 on.\<close>

function find_order :: "nat \<Rightarrow> int \<Rightarrow> nat option" where
  "find_order k sz =
     (if 31 \<le> k then None
      else if 2 ^ k < sz then find_order (Suc k) sz
      else Some k)"
  by pat_completeness auto
termination by (relation "measure (\<lambda>(k, sz). 31 - k)") auto

declare find_order.simps [simp del]

function find_free_area :: "nat \<Rightarrow> buddy_state \<Rightarrow> nat" where
  "find_free_area found s =
     (if found \<le> MAX_ORDER \<and> list_empty (Head found) (links s)
      then find_free_area (Suc found) s else found)"
  by pat_completeness auto
termination by (relation "measure (\<lambda>(found, s). Suc MAX_ORDER - found)") auto

declare find_free_area.simps [simp del]

text \<open>Step 4 of \<open>buddy_alloc\<close>: one split per order between the block found and the one wanted.\<close>

primrec buddy_split :: "nat \<Rightarrow> nat \<Rightarrow> nat \<Rightarrow> buddy_state \<Rightarrow> buddy_state" where
  "buddy_split page k 0 s = s"
| "buddy_split page k (Suc found) s =
     (if k < Suc found then
        let addr = PAGE_TO_ADDR page;
            buddy_addr = BUDDY_ADDR addr found;
            buddy = ADDR_TO_PAGE buddy_addr;
            s = set_order buddy found s;
            s = set_free buddy True s;
            s = on_links (list_add (Entry buddy) (Head found)) s;
            s = set_order page found s
        in buddy_split page k found s
      else s)"

text \<open>The result is \<open>Some (r, s)\<close> with \<open>r = None\<close> for \<open>NULL\<close>.\<close>

definition buddy_alloc :: "int \<Rightarrow> buddy_state \<Rightarrow> (nat option \<times> buddy_state) option" where
  "buddy_alloc sz s =
     (if sz \<le> 0 then Some (None, s)
      else do {
        k \<leftarrow> find_order MIN_ORDER sz;
        if k > MAX_ORDER then Some (None, s)
        else let found = find_free_area k s in
          if found > MAX_ORDER then Some (None, s)
          else do {
            page \<leftarrow> list_entry (nxt (links s) (Head found));
            let s = on_links (list_del_init (Entry page)) s;
            let s = set_free page False s;
            let s = buddy_split page k found s;
            let s = set_order page k s;
            let s = set_free page False s;
            Some (Some (PAGE_TO_ADDR page), s)
          }
      })"

text \<open>The coalescing loop of \<open>buddy_free\<close>: it returns the final \<open>page\<close>, \<open>order\<close> and state.\<close>

function buddy_coalesce ::
  "nat \<Rightarrow> nat \<Rightarrow> nat \<Rightarrow> buddy_state \<Rightarrow> nat \<times> nat \<times> buddy_state" where
  "buddy_coalesce addr page k s =
     (if k < MAX_ORDER then
        let buddy_addr = BUDDY_ADDR addr k;
            buddy = ADDR_TO_PAGE buddy_addr
        in if \<not> free (g_pages s buddy) \<or> order (g_pages s buddy) \<noteq> k then (page, k, s)
           else
             let s = on_links (list_del_init (Entry buddy)) s;
                 s = set_free buddy False s;
                 (addr, page) = (if buddy_addr < addr then (buddy_addr, buddy) else (addr, page));
                 s = set_order page (Suc k) s;
                 s = set_free page True s
             in buddy_coalesce addr page (Suc k) s
      else (page, k, s))"
  by pat_completeness auto
termination by (relation "measure (\<lambda>(addr, page, k, s). MAX_ORDER - k)") auto

declare buddy_coalesce.simps [simp del]

definition buddy_free :: "nat \<Rightarrow> buddy_state \<Rightarrow> buddy_state option" where
  "buddy_free addr s =
     (let page = ADDR_TO_PAGE addr in
      if page \<ge> n_pages then None
      else
        let k = order (g_pages s page);
            s = set_free page True s;
            (page, k, s) = buddy_coalesce addr page k s
        in Some (on_links (list_add (Entry page) (Head k)) s))"

text \<open>\<open>buddy_dump\<close> prints, per order, the number of free blocks and the block size in KiB.\<close>

fun buddy_dump_orders :: "nat list \<Rightarrow> buddy_state \<Rightarrow> (nat \<times> nat) list option" where
  "buddy_dump_orders [] s = Some []"
| "buddy_dump_orders (k # ks) s = do {
     ps \<leftarrow> list_for_each (Head k) (links s);
     rest \<leftarrow> buddy_dump_orders ks s;
     Some ((length ps, 2 ^ k div 1024) # rest)
   }"

definition buddy_dump :: "buddy_state \<Rightarrow> (nat \<times> nat) list option" where
  "buddy_dump s = buddy_dump_orders [MIN_ORDER..<Suc MAX_ORDER] s"

subsection \<open>Buddies as page indices\<close>

definition blk :: "nat \<Rightarrow> nat" where
  "blk k = 2 ^ (k - 12)"

definition bud :: "nat \<Rightarrow> nat \<Rightarrow> nat" where
  "bud p k = (if 2 * blk k dvd p then p + blk k else p - blk k)"

lemma blk_pos [simp]: "0 < blk k" by (simp add: blk_def)

lemma blk_Suc: "12 \<le> k \<Longrightarrow> blk (Suc k) = 2 * blk k"
  by (simp add: blk_def Suc_diff_le flip: power_Suc)

lemma blk_mult: "k \<le> l \<Longrightarrow> \<exists>c. blk l = blk k * c"
  by (rule exI [of _ "2 ^ (l - 12 - (k - 12))"]) (simp add: blk_def flip: power_add)

lemma blk_256: "k \<le> 20 \<Longrightarrow> blk k dvd 256"
proof -
  assume "k \<le> 20"
  then have "(2::nat) ^ (k - 12) dvd 2 ^ 8" by (intro le_imp_power_dvd) simp
  then show ?thesis by (simp add: blk_def)
qed

lemma xor_one: "(m::nat) XOR 1 = (if even m then m + 1 else m - 1)"
  using xor_one_eq [of m] by (auto elim: oddE evenE)

lemma two_blk_dvd: "2 * blk k dvd blk k * m \<longleftrightarrow> even m"
  using blk_pos [of k] by (simp add: mult.commute [of 2] del: blk_pos)

lemma ADDR_TO_PAGE_PAGE: "ADDR_TO_PAGE (PAGE_TO_ADDR p) = p"
  by (simp add: ADDR_TO_PAGE_def PAGE_TO_ADDR_def)

lemma buddy_page:
  assumes "12 \<le> k" and "blk k dvd p"
  shows "ADDR_TO_PAGE (BUDDY_ADDR (PAGE_TO_ADDR p) k) = bud p k"
    and "BUDDY_ADDR (PAGE_TO_ADDR p) k = PAGE_TO_ADDR (bud p k)"
proof -
  from assms(2) obtain m where p: "p = blk k * m" ..
  let ?j = "k - 12"
  have k: "(2::nat) ^ k = 4096 * 2 ^ ?j" using assms(1) power_add [of "2::nat" 12 ?j] by simp
  have "PAGE_TO_ADDR p XOR 2 ^ k = push_bit k m XOR push_bit k 1"
    by (simp add: PAGE_TO_ADDR_def p blk_def push_bit_eq_mult k ac_simps)
  also have "\<dots> = push_bit k (m XOR 1)" by (simp only: push_bit_xor)
  also have "\<dots> = PAGE_TO_ADDR (blk k * (m XOR 1))"
    by (simp add: PAGE_TO_ADDR_def blk_def push_bit_eq_mult k ac_simps)
  also have "blk k * (m XOR 1) = bud p k"
  proof -
    have "2 * blk k dvd p \<longleftrightarrow> even m" unfolding p by (rule two_blk_dvd)
    then show ?thesis by (simp add: xor_one [simplified] bud_def p algebra_simps)
  qed
  finally show "BUDDY_ADDR (PAGE_TO_ADDR p) k = PAGE_TO_ADDR (bud p k)"
    by (simp add: BUDDY_ADDR_def)
  then show "ADDR_TO_PAGE (BUDDY_ADDR (PAGE_TO_ADDR p) k) = bud p k"
    by (simp add: ADDR_TO_PAGE_def PAGE_TO_ADDR_def)
qed


subsection \<open>The partition of the memory into blocks\<close>

text \<open>
  \<open>B p = Some k\<close>: a block of order \<open>k\<close>, free or allocated, starts at page \<open>p\<close>. The blocks
  are aligned to their size, disjoint, and together cover the 256 pages.
\<close>

definition blocks :: "(nat \<rightharpoonup> nat) \<Rightarrow> bool" where
  "blocks B \<longleftrightarrow>
     (\<forall>p k. B p = Some k \<longrightarrow> 12 \<le> k \<and> k \<le> 20 \<and> blk k dvd p \<and> p + blk k \<le> 256) \<and>
     (\<forall>p k q l. B p = Some k \<longrightarrow> B q = Some l \<longrightarrow> p < q \<longrightarrow> p + blk k \<le> q) \<and>
     (\<forall>q < 256. \<exists>p k. B p = Some k \<and> p \<le> q \<and> q < p + blk k)"

lemma blocksD:
  assumes "blocks B" and "B p = Some k"
  shows "12 \<le> k" "k \<le> 20" "blk k dvd p" "p + blk k \<le> 256"
  using assms by (auto simp: blocks_def)

lemma blocks_disjoint:
  "blocks B \<Longrightarrow> B p = Some k \<Longrightarrow> B q = Some l \<Longrightarrow> p < q \<Longrightarrow> p + blk k \<le> q"
  by (simp add: blocks_def)

lemma blocks_cover: "blocks B \<Longrightarrow> q < 256 \<Longrightarrow> \<exists>p k. B p = Some k \<and> p \<le> q \<and> q < p + blk k"
  by (simp add: blocks_def)

text \<open>Two aligned intervals that meet are nested.\<close>

lemma aligned_nested:
  assumes "blk k dvd p" and "blk l dvd q" and "l \<le> k" and "p < q + blk l" and "q < p + blk k"
  shows "p \<le> q" and "q + blk l \<le> p + blk k"
proof -
  obtain c where c: "blk k = blk l * c" using blk_mult [OF assms(3)] ..
  with assms(1) have "blk l dvd p" by (metis dvd_mult_left)
  then obtain a where a: "p = blk l * a" ..
  from assms(2) obtain b where b: "q = blk l * b" ..
  have "blk l * a < blk l * Suc b" using assms(4) a b by simp
  then have ab: "a \<le> b" by (simp only: mult_less_cancel1 less_Suc_eq_le)
  with a b show "p \<le> q" by simp
  have "blk l * b < blk l * (a + c)" using assms(5) a b c by (simp add: distrib_left)
  then have "Suc b \<le> a + c" by (simp only: mult_less_cancel1 Suc_le_eq)
  then have "blk l * Suc b \<le> blk l * (a + c)" by (rule mult_le_mono2)
  then show "q + blk l \<le> p + blk k" using a b c by (simp add: distrib_left)
qed

lemma bud_props:
  assumes "12 \<le> k" and "blk k dvd p"
  shows "blk k dvd bud p k" and "bud p k \<noteq> p" and "bud (bud p k) k = p"
    and "2 * blk k dvd min p (bud p k)" and "max p (bud p k) = min p (bud p k) + blk k"
proof -
  obtain m where p: "p = blk k * m" using assms(2) ..
  have even: "2 * blk k dvd p \<longleftrightarrow> even m" unfolding p by (rule two_blk_dvd)
  show "bud p k \<noteq> p" using even p by (auto simp: bud_def elim: oddE)
  show "blk k dvd bud p k" using assms(2) by (simp add: bud_def)
  consider n where "m = 2 * n" | n where "m = 2 * n + 1" by (meson evenE oddE)
  then have "bud (bud p k) k = p \<and> 2 * blk k dvd min p (bud p k) \<and>
      max p (bud p k) = min p (bud p k) + blk k"
  proof cases
    case (1 n)
    have "bud p k = p + blk k" using even 1 by (simp add: bud_def)
    moreover have "\<not> 2 * blk k dvd p + blk k"
      using 1 two_blk_dvd [of k "Suc m"] by (simp add: p add.commute)
    ultimately show ?thesis using even 1 by (simp add: bud_def)
  next
    case (2 n)
    have e: "bud p k = p - blk k" using even 2 by (simp add: bud_def)
    have q: "p = 2 * blk k * n + blk k" using 2 p by (simp add: algebra_simps)
    then have "bud p k = 2 * blk k * n" using e by simp
    with q show ?thesis by (simp add: bud_def)
  qed
  then show "bud (bud p k) k = p" "2 * blk k dvd min p (bud p k)"
    "max p (bud p k) = min p (bud p k) + blk k" by auto
qed

lemma bud_bound:
  assumes "12 \<le> k" "k < 20" "blk k dvd p" "p + blk k \<le> 256"
  shows "bud p k + blk k \<le> 256"
proof -
  note bp = bud_props [OF assms(1,3)]
  have "blk (Suc k) dvd 256" using assms(2) by (intro blk_256) simp
  then have d: "2 * blk k dvd 256" using assms(1) by (simp add: blk_Suc)
  from d bp(4) have "2 * blk k dvd 256 - min p (bud p k)" by (rule dvd_diff_nat)
  moreover have "256 - min p (bud p k) > 0"
    using assms(4) blk_pos [of k] by (simp del: blk_pos) 
  ultimately have "2 * blk k \<le> 256 - min p (bud p k)" by (rule dvd_imp_le)
  with bp(5) blk_pos [of k] max.cobounded2 [of "bud p k" p] show ?thesis by linarith
qed

text \<open>The buddy page of a block is itself the start of a block, no larger than it: this is why
  reading \<open>free\<close> and \<open>order\<close> of the buddy page is enough.\<close>

lemma buddy_is_block:
  assumes B: "blocks B" and p: "B p = Some k" and k: "k < 20"
  shows "\<exists>l \<le> k. B (bud p k) = Some l"
proof -
  note pk = blocksD [OF B p]
  note bp = bud_props [OF pk(1,3)]
  let ?b = "bud p k"
  have "?b < 256" using bud_bound [OF pk(1) k pk(3,4)] blk_pos [of k] by (simp del: blk_pos)
  then obtain r l where r: "B r = Some l" "r \<le> ?b" "?b < r + blk l"
    using blocks_cover [OF B] by blast
  note rl = blocksD [OF B r(1)]
  show ?thesis
  proof (cases "l \<le> k")
    case True
    have "?b \<le> r" by (rule aligned_nested(1) [OF bp(1) rl(3) True])
      (use r blk_pos [of k] in \<open>simp_all del: blk_pos\<close>)
    with r True show ?thesis by (metis le_antisym)
  next
    case False
    have le: "Suc k \<le> l" using False by simp
    let ?m = "min p ?b"
    have md: "blk (Suc k) dvd ?m" using bp(4) pk(1) by (simp add: blk_Suc)
    have sz: "blk (Suc k) = 2 * blk k" using pk(1) by (rule blk_Suc)
    have "r \<le> ?m" "?m + blk (Suc k) \<le> r + blk l"
      using aligned_nested [OF rl(3) md le] r bp(5) sz by linarith+
    then have "r \<le> p" "p < r + blk l" using bp(5) sz blk_pos [of k] by linarith+
    moreover have "p \<noteq> r" using p r(1) False by auto
    ultimately have "r < p" by simp
    from blocks_disjoint [OF B r(1) p this] \<open>p < r + blk l\<close> show ?thesis by simp
  qed
qed

lemma split_blocks:
  assumes B: "blocks B" and p: "B p = Some (Suc k)" and k: "12 \<le> k"
  shows "blocks (B(p \<mapsto> k, p + blk k \<mapsto> k))" and "bud p k = p + blk k"
    and "B (p + blk k) = None" and "blk k dvd p"
proof -
  note pk = blocksD [OF B p]
  have sz: "blk (Suc k) = 2 * blk k" using k by (rule blk_Suc)
  have d2: "2 * blk k dvd p" using pk(3) sz by simp
  then show bud: "bud p k = p + blk k" by (simp add: bud_def)
  show dv: "blk k dvd p" using d2 by (rule dvd_mult_right)
  show none: "B (p + blk k) = None"
  proof (rule ccontr)
    assume "B (p + blk k) \<noteq> None"
    then obtain l where "B (p + blk k) = Some l" by blast
    from blocks_disjoint [OF B p this] sz blk_pos [of k] show False by simp
  qed
  let ?B = "B(p \<mapsto> k, p + blk k \<mapsto> k)"
  have "12 \<le> l \<and> l \<le> 20 \<and> blk l dvd q \<and> q + blk l \<le> 256" if "?B q = Some l" for q l
    using that blocksD [OF B, of q l] pk sz k dv by (auto split: if_splits)
  moreover have "q + blk l \<le> r" if q: "?B q = Some l" and r: "?B r = Some m" and lt: "q < r" for q l r m
  proof -
    have old: "q < p \<Longrightarrow> q + blk l \<le> p" if "B q = Some l"
      using blocks_disjoint [OF B that p] .
    have old': "p < r \<Longrightarrow> p + 2 * blk k \<le> r" if "B r = Some m"
      using blocks_disjoint [OF B p that] sz by simp
    have old'': "p < q \<Longrightarrow> p + 2 * blk k \<le> q" if "B q = Some l"
      using blocks_disjoint [OF B p that] sz by simp
    show ?thesis using q r lt old old' old'' blocks_disjoint [OF B, of q l r m]
      by (cases q p rule: linorder_cases) (auto split: if_splits)
  qed
  moreover have "\<exists>r l. ?B r = Some l \<and> r \<le> q \<and> q < r + blk l" if q: "q < 256" for q
  proof -
    obtain r l where r: "B r = Some l" "r \<le> q" "q < r + blk l"
      using blocks_cover [OF B q] by blast
    show ?thesis
    proof (cases "r = p")
      case True
      then have l: "l = Suc k" using r p by simp
      show ?thesis
      proof (cases "q < p + blk k")
        case True
        with \<open>r = p\<close> r blk_pos [of k] show ?thesis by (intro exI [of _ p] exI [of _ k]) auto
      next
        case False
        with \<open>r = p\<close> r l sz show ?thesis by (intro exI [of _ "p + blk k"] exI [of _ k]) auto
      qed
    next
      case False
      with r none show ?thesis by (intro exI [of _ r] exI [of _ l]) auto
    qed
  qed
  ultimately show "blocks ?B" unfolding blocks_def by blast
qed

lemma merge_blocks:
  assumes B: "blocks B" and p: "B p = Some k" and b: "B (bud p k) = Some k" and k: "k < 20"
  shows "blocks (B(min p (bud p k) \<mapsto> Suc k, max p (bud p k) := None))"
proof -
  note pk = blocksD [OF B p] note bk = blocksD [OF B b]
  note bp = bud_props [OF pk(1,3)]
  let ?l = "min p (bud p k)" and ?u = "max p (bud p k)"
  have u: "?u = ?l + blk k" by (rule bp(5))
  have sz: "blk (Suc k) = 2 * blk k" using pk(1) by (rule blk_Suc)
  have Bl: "B ?l = Some k" and Bu: "B ?u = Some k" using p b by (simp_all add: min_def max_def)
  let ?B = "B(?l \<mapsto> Suc k, ?u := None)"
  have ne: "?l \<noteq> ?u" using u blk_pos [of k] by (simp del: blk_pos)
  have "12 \<le> m \<and> m \<le> 20 \<and> blk m dvd q \<and> q + blk m \<le> 256" if q: "?B q = Some m" for q m
  proof (cases "q = ?l")
    case True
    with q ne have "m = Suc k" by simp
    moreover have "?u + blk k \<le> 256" using blocksD(4) [OF B Bu] .
    ultimately show ?thesis using True pk(1) k bp(4) sz u by simp
  next
    case False
    with q have "B q = Some m" by (simp split: if_splits)
    from blocksD [OF B this] show ?thesis by simp
  qed
  moreover have "q + blk m \<le> r" if q: "?B q = Some m" and r: "?B r = Some n" and lt: "q < r" for q m r n
  proof -
    have r': "B r = Some (if r = ?l then k else n)" and "r \<noteq> ?u"
      using r Bl by (auto split: if_splits)
    have q': "B q = Some (if q = ?l then k else m)" and "q \<noteq> ?u"
      using q Bl by (auto split: if_splits)
    show ?thesis
    proof (cases "q = ?l")
      case True
      with q ne have m: "m = Suc k" by simp
      have "?l + blk k \<le> r" using blocks_disjoint [OF B Bl r'] lt True by simp
      with \<open>r \<noteq> ?u\<close> u have "?u < r" by simp
      from blocks_disjoint [OF B Bu r' this] show ?thesis using True m sz u by simp
    next
      case False
      with blocks_disjoint [OF B q' r' lt] show ?thesis by simp
    qed
  qed
  moreover have "\<exists>r m. ?B r = Some m \<and> r \<le> q \<and> q < r + blk m" if q: "q < 256" for q
  proof -
    obtain r m where r: "B r = Some m" "r \<le> q" "q < r + blk m"
      using blocks_cover [OF B q] by blast
    show ?thesis
    proof (cases "r = ?l \<or> r = ?u")
      case True
      then have "m = k" using r Bl Bu by auto
      with True r u sz ne have "?l \<le> q \<and> q < ?l + blk (Suc k)" by auto
      with ne show ?thesis by (intro exI [of _ ?l] exI [of _ "Suc k"]) auto
    next
      case False
      with r show ?thesis by (intro exI [of _ r] exI [of _ m]) auto
    qed
  qed
  ultimately show ?thesis unfolding blocks_def by blast
qed


subsection \<open>The state invariant\<close>

text \<open>
  \<open>buddy_rel s B A T\<close>: the state \<open>s\<close> represents the partition \<open>B\<close>, where the blocks that
  start at a page of \<open>A\<close> are allocated, those that start at a page of \<open>T\<close> are in transit
  (in no list, inside \<open>buddy_alloc\<close> or \<open>buddy_free\<close>), and all others are on the free
  list of their order. The last clause: two free buddies of one order never coexist.
\<close>

definition free_lists :: "list_mem \<Rightarrow> (nat \<rightharpoonup> nat) \<Rightarrow> nat set \<Rightarrow> bool" where
  "free_lists h B U \<longleftrightarrow>
     (\<exists>fl. list_family is_list h {12..20} fl \<and> (\<forall>k \<in> {12..20}. set (fl k) = {p. B p = Some k \<and> p \<notin> U}))"

definition coalesced :: "(nat \<rightharpoonup> nat) \<Rightarrow> nat set \<Rightarrow> bool" where
  "coalesced B U \<longleftrightarrow>
     (\<forall>p k. B p = Some k \<longrightarrow> k < 20 \<longrightarrow> B (bud p k) = Some k \<longrightarrow> p \<in> U \<or> bud p k \<in> U)"

definition descriptors :: "(nat \<Rightarrow> page_t) \<Rightarrow> (nat \<rightharpoonup> nat) \<Rightarrow> nat set \<Rightarrow> nat set \<Rightarrow> bool" where
  "descriptors g B A T \<longleftrightarrow>
     (\<forall>p k. B p = Some k \<longrightarrow> order (g p) = k \<and> (p \<notin> T \<longrightarrow> (free (g p) \<longleftrightarrow> p \<notin> A)))"

definition buddy_rel :: "buddy_state \<Rightarrow> (nat \<rightharpoonup> nat) \<Rightarrow> nat set \<Rightarrow> nat set \<Rightarrow> bool" where
  "buddy_rel s B A T \<longleftrightarrow>
     blocks B \<and> A \<union> T \<subseteq> dom B \<and> A \<inter> T = {} \<and>
     descriptors (g_pages s) B A T \<and> free_lists (links s) B (A \<union> T) \<and> coalesced B (A \<union> T)"

text \<open>\<open>owned\<close>: the blocks the client holds, as a map from first page to order.\<close>

definition buddy_inv :: "buddy_state \<Rightarrow> (nat \<rightharpoonup> nat) \<Rightarrow> bool" where
  "buddy_inv s owned \<longleftrightarrow> (\<exists>B. buddy_rel s B (dom owned) {} \<and> owned \<subseteq>\<^sub>m B)"

lemma buddy_relD:
  assumes "buddy_rel s B A T"
  shows "blocks B" "A \<union> T \<subseteq> dom B" "A \<inter> T = {}" "descriptors (g_pages s) B A T"
    "free_lists (links s) B (A \<union> T)" "coalesced B (A \<union> T)"
  using assms by (simp_all add: buddy_rel_def)

lemma free_lists_empty:
  assumes "free_lists h B U" and "k \<in> {12..20}"
  shows "list_empty (Head k) h \<longleftrightarrow> (\<forall>p. B p = Some k \<longrightarrow> p \<in> U)"
proof -
  obtain fl where fl: "list_family is_list h {12..20} fl" "set (fl k) = {p. B p = Some k \<and> p \<notin> U}"
    using assms by (auto simp: free_lists_def)
  from kl.family_empty [OF fl(1) assms(2)] have "list_empty (Head k) h \<longleftrightarrow> set (fl k) = {}" by simp
  with fl(2) show ?thesis by auto
qed

lemma free_lists_first:
  assumes "free_lists h B U" and "k \<in> {12..20}" and "\<not> list_empty (Head k) h"
  shows "\<exists>p. nxt h (Head k) = Entry p \<and> B p = Some k \<and> p \<notin> U"
proof -
  obtain fl where fl: "list_family is_list h {12..20} fl" "set (fl k) = {p. B p = Some k \<and> p \<notin> U}"
    using assms by (auto simp: free_lists_def)
  from kl.family_empty [OF fl(1) assms(2)] assms(3) have ne: "fl k \<noteq> []" by simp
  with kl.family_first [OF fl(1) assms(2)] hd_in_set [OF ne] fl(2) show ?thesis by auto
qed

lemma free_lists_remove:
  assumes "free_lists h B U" and p: "B p = Some k" "p \<notin> U" and k: "k \<in> {12..20}"
  shows "free_lists (list_del_init (Entry p) h) B (insert p U)"
proof -
  obtain fl where fl: "list_family is_list h {12..20} fl"
    "\<forall>k \<in> {12..20}. set (fl k) = {p. B p = Some k \<and> p \<notin> U}"
    using assms(1) by (auto simp: free_lists_def)
  have pin: "p \<in> set (fl k)" using fl(2) k p by blast
  have "distinct (fl k)" using kl.family_reps [OF fl(1) k] by simp
  then have "\<forall>l \<in> {12..20}. set ((fl(k := remove1 p (fl k))) l) = {q. B q = Some l \<and> q \<notin> insert p U}"
    using fl(2) p(1) by auto
  with kl.family_del [OF fl(1) k pin] show ?thesis unfolding free_lists_def by blast
qed

lemma free_lists_insert:
  assumes "free_lists h B (insert p U)" and p: "B p = Some k" "p \<notin> U" and k: "k \<in> {12..20}"
  shows "free_lists (list_add (Entry p) (Head k) h) B U"
proof -
  obtain fl where fl: "list_family is_list h {12..20} fl"
    "\<forall>k \<in> {12..20}. set (fl k) = {q. B q = Some k \<and> q \<notin> insert p U}"
    using assms(1) by (auto simp: free_lists_def)
  have pn: "\<forall>l \<in> {12..20}. p \<notin> set (fl l)" using fl(2) by auto
  have "\<forall>l \<in> {12..20}. set ((fl(k := p # fl k)) l) = {q. B q = Some l \<and> q \<notin> U}"
    using fl(2) p by auto
  with kl.family_add [OF fl(1) k pn] show ?thesis unfolding free_lists_def by blast
qed

text \<open>Only the blocks outside \<open>U\<close> matter to the lists.\<close>

lemma free_lists_cong:
  assumes "free_lists h B U" and "\<And>p k. (B p = Some k \<and> p \<notin> U) = (B' p = Some k \<and> p \<notin> U')"
  shows "free_lists h B' U'"
  using assms unfolding free_lists_def by simp

lemma updates [simp]:
  "links (set_order i k s) = links s" "links (set_free i b s) = links s"
  "links (on_links f s) = f (links s)" "g_pages (on_links f s) = g_pages s"
  "g_pages (set_order i k s) = (g_pages s)(i := (g_pages s i)\<lparr>order := k\<rparr>)"
  "g_pages (set_free i b s) = (g_pages s)(i := (g_pages s i)\<lparr>free := b\<rparr>)"
  by (simp_all add: set_order_def set_free_def on_links_def)

subsection \<open>Allocation, step by step\<close>

lemma rel_take:
  assumes rel: "buddy_rel s B A {}" and p: "B p = Some k" "p \<notin> A"
  shows "buddy_rel (set_free p False (on_links (list_del_init (Entry p)) s)) B A {p}"
proof -
  note r = buddy_relD [OF rel]
  have k: "k \<in> {12..20}" using blocksD [OF r(1) p(1)] by simp
  have "free_lists (list_del_init (Entry p) (links s)) B (A \<union> {p})"
    using free_lists_remove [of "links s" B A p k] r(5) p k by simp
  moreover have "coalesced B (A \<union> {p})" using r(6) by (auto simp: coalesced_def)
  moreover have "descriptors ((g_pages s)(p := (g_pages s p)\<lparr>free := False\<rparr>)) B A {p}"
    using r(4) by (auto simp: descriptors_def)
  ultimately show ?thesis using r p by (auto simp: buddy_rel_def)
qed

definition split_once :: "nat \<Rightarrow> nat \<Rightarrow> buddy_state \<Rightarrow> buddy_state" where
  "split_once page k s =
     (let b = bud page k in
      set_order page k (on_links (list_add (Entry b) (Head k)) (set_free b True (set_order b k s))))"

lemma rel_split_once:
  assumes rel: "buddy_rel s B A {p}" and p: "B p = Some (Suc k)" and k: "12 \<le> k"
  shows "buddy_rel (split_once p k s) (B(p \<mapsto> k, bud p k \<mapsto> k)) A {p}"
proof -
  note r = buddy_relD [OF rel]
  note sp = split_blocks [OF r(1) p k]
  let ?b = "bud p k" and ?B = "B(p \<mapsto> k, bud p k \<mapsto> k)"
  have b: "?b \<noteq> p" "B ?b = None" "?b \<notin> A" using sp r(2) by auto
  have k20: "k \<in> {12..20}" "k < 20" using blocksD(2) [OF r(1) p] k by simp_all
  have "free_lists (links s) ?B (insert ?b (A \<union> {p}))"
    by (rule free_lists_cong [OF r(5)]) (use b in auto)
  then have "free_lists (list_add (Entry ?b) (Head k) (links s)) ?B (A \<union> {p})"
    by (rule free_lists_insert) (use b k20 in auto)
  moreover have "coalesced ?B (A \<union> {p})"
    unfolding coalesced_def
  proof (intro allI impI)
    fix q l assume q: "?B q = Some l" "l < 20" "?B (bud q l) = Some l"
    show "q \<in> A \<union> {p} \<or> bud q l \<in> A \<union> {p}"
    proof (cases "q = ?b")
      case True
      with q have "l = k" by simp
      with True bud_props(3) [OF k sp(4)] show ?thesis by simp
    next
      case qb: False
      show ?thesis
      proof (cases "bud q l = ?b")
        case True
        with q have "l = k" by simp
        have q': "B q = Some k \<or> q = p" using q qb \<open>l = k\<close> by (auto split: if_splits)
        then have "blk k dvd q" using blocksD(3) [OF r(1), of q k] sp(4) by auto
        then have "q = bud ?b k" using bud_props(3) [OF k, of q] True \<open>l = k\<close> by simp
        also have "\<dots> = p" by (rule bud_props(3) [OF k sp(4)])
        finally show ?thesis by simp
      next
        case False
        with qb q r(6) show ?thesis by (auto simp: coalesced_def split: if_splits)
      qed
    qed
  qed
  moreover have "descriptors (g_pages (split_once p k s)) ?B A {p}"
    using r(4) b by (auto simp: descriptors_def split_once_def Let_def)
  ultimately show ?thesis
    using r sp(1) b unfolding buddy_rel_def sp(2)
    by (auto simp: split_once_def sp(2) Let_def)
qed

lemma buddy_split_Suc:
  assumes "12 \<le> k" and "blk k dvd p"
  shows "buddy_split p j (Suc k) s = (if j < Suc k then buddy_split p j k (split_once p k s) else s)"
  by (simp add: buddy_page [OF assms] split_once_def Let_def ADDR_TO_PAGE_PAGE)

declare buddy_split.simps(2) [simp del]

lemma rel_buddy_split:
  assumes "buddy_rel s B A {p}" and "B p = Some found" and "12 \<le> k" and "k \<le> found"
  shows "\<exists>B'. buddy_rel (buddy_split p k found s) B' A {p} \<and> B' p = Some k \<and>
    (\<forall>q \<in> A. B' q = B q)"
  using assms
proof (induction found arbitrary: s B)
  case 0
  then show ?case by simp
next
  case (Suc f)
  show ?case
  proof (cases "k < Suc f")
    case True
    then have f: "12 \<le> f" using Suc.prems by simp
    note r = buddy_relD [OF Suc.prems(1)]
    note sp = split_blocks [OF r(1) Suc.prems(2) f]
    let ?B = "B(p \<mapsto> f, bud p f \<mapsto> f)"
    have keep: "\<forall>q \<in> A. ?B q = B q" and p: "?B p = Some f" using sp r(2,3) by auto
    obtain B' where B': "buddy_rel (buddy_split p k f (split_once p f s)) B' A {p}"
        "B' p = Some k" "\<forall>q \<in> A. B' q = ?B q"
      using Suc.IH [OF rel_split_once [OF Suc.prems(1,2) f] p Suc.prems(3)] True by auto
    with keep True show ?thesis by (auto simp: buddy_split_Suc [OF f sp(4)])
  next
    case False
    with Suc.prems have "k = Suc f" by simp
    with Suc.prems show ?thesis by (auto simp: buddy_split.simps)
  qed
qed

lemma rel_grant:
  assumes rel: "buddy_rel s B A {p}" and p: "B p = Some k"
  shows "buddy_rel (set_free p False (set_order p k s)) B (insert p A) {}"
  using buddy_relD [OF rel] p by (auto simp: buddy_rel_def descriptors_def)


subsection \<open>Freeing, step by step\<close>

lemma rel_release:
  assumes rel: "buddy_rel s B A {}" and p: "p \<in> A"
  shows "buddy_rel (set_free p True s) B (A - {p}) {p}"
proof -
  have "A - {p} \<union> {p} = A" using p by auto
  then show ?thesis using buddy_relD [OF rel] p by (auto simp: buddy_rel_def descriptors_def)
qed

definition merge_once :: "nat \<Rightarrow> nat \<Rightarrow> buddy_state \<Rightarrow> buddy_state" where
  "merge_once page k s =
     (let b = bud page k; l = min page b;
          s = set_free b False (on_links (list_del_init (Entry b)) s)
      in set_free l True (set_order l (Suc k) s))"

lemma rel_merge_once:
  assumes rel: "buddy_rel s B A {p}" and p: "B p = Some k" and k: "k < 20"
    and free: "free (g_pages s (bud p k))" "order (g_pages s (bud p k)) = k"
  shows "buddy_rel (merge_once p k s)
      (B(min p (bud p k) \<mapsto> Suc k, max p (bud p k) := None)) A {min p (bud p k)}"
    and "max p (bud p k) \<notin> A" and "min p (bud p k) \<notin> A" and "B (bud p k) = Some k"
proof -
  note r = buddy_relD [OF rel]
  note pk = blocksD [OF r(1) p]
  note bp = bud_props [OF pk(1,3)]
  let ?b = "bud p k" and ?l = "min p (bud p k)" and ?u = "max p (bud p k)"
  let ?B = "B(?l \<mapsto> Suc k, ?u := None)"
  obtain l where l: "B ?b = Some l" using buddy_is_block [OF r(1) p k] by blast
  with r(4) free(2) have b: "B ?b = Some k" by (auto simp: descriptors_def)
  then show "B (bud p k) = Some k" .
  have bA: "?b \<notin> A" using r(4) b free(1) bp(2) by (auto simp: descriptors_def)
  have pA: "p \<notin> A" using r(3) by auto
  show nA: "?u \<notin> A" "?l \<notin> A" using bA pA by (auto simp: min_def max_def)
  have k20: "k \<in> {12..20}" using pk(1,2) by simp
  have "free_lists (list_del_init (Entry ?b) (links s)) B (insert ?b (A \<union> {p}))"
    by (rule free_lists_remove) (use r(5) b bA bp(2) k20 in auto)
  then have fl: "free_lists (list_del_init (Entry ?b) (links s)) ?B (A \<union> {?l})"
    by (rule free_lists_cong) (use p b in \<open>auto simp: min_def max_def\<close>)
  have co: "coalesced ?B (A \<union> {?l})"
    unfolding coalesced_def
  proof (intro allI impI)
    fix q m assume q: "?B q = Some m" "m < 20" "?B (bud q m) = Some m"
    show "q \<in> A \<union> {?l} \<or> bud q m \<in> A \<union> {?l}"
    proof (cases "q = ?l \<or> bud q m = ?l")
      case False
      with q have "B q = Some m" "B (bud q m) = Some m" "q \<noteq> ?u" "bud q m \<noteq> ?u"
        by (auto split: if_splits)
      with r(6) q(2) have "q \<in> A \<union> {p} \<or> bud q m \<in> A \<union> {p}" by (simp add: coalesced_def)
      moreover have "p = ?l \<or> p = ?u" by (auto simp: min_def max_def)
      ultimately show ?thesis using False \<open>q \<noteq> ?u\<close> \<open>bud q m \<noteq> ?u\<close> by auto
    qed auto
  qed
  have ne: "?u \<noteq> ?l" using bp(2) by (auto simp: min_def max_def)
  have de: "descriptors (g_pages (merge_once p k s)) ?B A {?l}"
    using r(4) p b ne bA pA
    by (auto simp: descriptors_def merge_once_def Let_def min_def max_def split: if_splits)
  have "A \<union> {?l} \<subseteq> dom ?B" using r(2) nA ne by auto
  with merge_blocks [OF r(1) p b k] fl co de nA show
    "buddy_rel (merge_once p k s) ?B A {?l}"
    by (auto simp: buddy_rel_def merge_once_def Let_def)
qed

lemma rel_put:
  assumes rel: "buddy_rel s B A {p}" and p: "B p = Some k"
    and free: "free (g_pages s p)"
    and stop: "k = 20 \<or> \<not> free (g_pages s (bud p k)) \<or> order (g_pages s (bud p k)) \<noteq> k"
  shows "buddy_rel (on_links (list_add (Entry p) (Head k)) s) B A {}"
proof -
  note r = buddy_relD [OF rel]
  note pk = blocksD [OF r(1) p]
  have pA: "p \<notin> A" using r(3) by auto
  have k20: "k \<in> {12..20}" using pk by simp
  have "free_lists (list_add (Entry p) (Head k) (links s)) B A"
    by (rule free_lists_insert) (use r(5) p pA k20 in auto)
  moreover have "coalesced B A"
    unfolding coalesced_def
  proof (intro allI impI)
    fix q m assume q: "B q = Some m" "m < 20" "B (bud q m) = Some m"
    note qm = blocksD [OF r(1) q(1)]
    have nop: False if "k < 20" "B (bud p k) = Some k" "bud p k \<notin> A"
      using stop that r(4) bud_props(2) [OF pk(1,3)] by (auto simp: descriptors_def)
    have "q \<in> insert p A \<or> bud q m \<in> insert p A" using r(6) q by (simp add: coalesced_def)
    moreover have "bud q m \<in> A" if "q = p" using nop q that p by auto
    moreover have "q \<in> A" if "bud q m = p"
    proof -
      have m: "m = k" using that q(3) p by simp
      have "bud p k = q" using bud_props(3) [OF qm(1,3)] that m by simp
      with nop q m show ?thesis by auto
    qed
    ultimately show "q \<in> A \<or> bud q m \<in> A" by auto
  qed
  moreover have "descriptors (g_pages s) B A {}"
    using r(4) free pA by (auto simp: descriptors_def)
  ultimately show ?thesis using r by (auto simp: buddy_rel_def)
qed

lemma buddy_coalesce_unfold:
  assumes "12 \<le> k" and "blk k dvd p"
  shows "buddy_coalesce (PAGE_TO_ADDR p) p k s =
    (if k < 20 \<and> free (g_pages s (bud p k)) \<and> order (g_pages s (bud p k)) = k
     then buddy_coalesce (PAGE_TO_ADDR (min p (bud p k))) (min p (bud p k)) (Suc k) (merge_once p k s)
     else (p, k, s))"
proof -
  have lt: "PAGE_TO_ADDR (bud p k) < PAGE_TO_ADDR p \<longleftrightarrow> bud p k < p"
    by (simp add: PAGE_TO_ADDR_def)
  show ?thesis
    by (subst buddy_coalesce.simps)
      (auto simp: buddy_page [OF assms] ADDR_TO_PAGE_PAGE merge_once_def Let_def lt min_def)
qed

lemma rel_buddy_coalesce:
  assumes "buddy_rel s B A {p}" and "B p = Some k" and "free (g_pages s p)"
    and "buddy_coalesce (PAGE_TO_ADDR p) p k s = (p', k', s')"
  shows "\<exists>B'. buddy_rel (on_links (list_add (Entry p') (Head k')) s') B' A {} \<and> (\<forall>q \<in> A. B' q = B q)"
  using assms
proof (induction "20 - k" arbitrary: s B p k)
  case 0
  note pk = blocksD [OF buddy_relD(1) [OF 0(2)] 0(3)]
  with 0 have "k = 20" by simp
  with 0(5) buddy_coalesce_unfold [OF pk(1,3)] have "p' = p" "k' = k" "s' = s" by auto
  with rel_put [OF 0(2-4)] \<open>k = 20\<close> show ?case by auto
next
  case (Suc n)
  note pk = blocksD [OF buddy_relD(1) [OF Suc(3)] Suc(4)]
  show ?case
  proof (cases "k < 20 \<and> free (g_pages s (bud p k)) \<and> order (g_pages s (bud p k)) = k")
    case False
    with Suc(6) buddy_coalesce_unfold [OF pk(1,3)] have "p' = p" "k' = k" "s' = s" by auto
    moreover have "k = 20 \<or> \<not> free (g_pages s (bud p k)) \<or> order (g_pages s (bud p k)) \<noteq> k"
      using False pk(2) by auto
    ultimately show ?thesis using rel_put [OF Suc(3-5)] by auto
  next
    case True
    let ?l = "min p (bud p k)" and ?u = "max p (bud p k)"
    let ?B = "B(?l \<mapsto> Suc k, ?u := None)"
    have t: "k < 20" "free (g_pages s (bud p k))" "order (g_pages s (bud p k)) = k" using True by auto
    note m = rel_merge_once [OF Suc(3,4) t]
    have ne: "?l \<noteq> ?u" using bud_props(2) [OF pk(1,3)] by (auto simp: min_def max_def)
    have "free (g_pages (merge_once p k s) ?l)" by (simp add: merge_once_def Let_def)
    moreover have "buddy_coalesce (PAGE_TO_ADDR ?l) ?l (Suc k) (merge_once p k s) = (p', k', s')"
      using Suc(6) True buddy_coalesce_unfold [OF pk(1,3)] by simp
    moreover have "n = 20 - Suc k" "?B ?l = Some (Suc k)" using Suc(2) ne by simp_all
    ultimately obtain B' where
      "buddy_rel (on_links (list_add (Entry p') (Head k')) s') B' A {}" "\<forall>q \<in> A. B' q = ?B q"
      using Suc(1) [of "Suc k" "merge_once p k s" ?B ?l] m(1) by blast
    moreover have "\<forall>q \<in> A. ?B q = B q" using m(2,3) by auto
    ultimately show ?thesis by auto
  qed
qed


subsection \<open>The two searches of \<open>buddy_alloc\<close>\<close>

lemma find_order_Some:
  "find_order j sz = Some k \<Longrightarrow> j \<le> k \<and> k \<le> 30 \<and> sz \<le> 2 ^ k \<and> (k = j \<or> 2 ^ (k - 1) < sz)"
proof (induction j sz rule: find_order.induct)
  case (1 j sz)
  show ?case
  proof (cases "31 \<le> j \<or> sz \<le> 2 ^ j")
    case True
    with "1.prems" show ?thesis by (auto simp: find_order.simps [of j sz] split: if_splits)
  next
    case False
    then have "find_order (Suc j) sz = Some k" using "1.prems" by (simp add: find_order.simps [of j sz])
    with "1.IH" False have "Suc j \<le> k \<and> k \<le> 30 \<and> sz \<le> 2 ^ k \<and> (k = Suc j \<or> 2 ^ (k - 1) < sz)" by simp
    with False show ?thesis by auto
  qed
qed

lemma find_order_fits: "j \<le> 30 \<Longrightarrow> sz \<le> 2 ^ 30 \<Longrightarrow> \<exists>k. find_order j sz = Some k"
proof (induction j sz rule: find_order.induct)
  case (1 j sz)
  show ?case
  proof (cases "2 ^ j < sz")
    case True
    with 1(3) have "(2::int) ^ j < 2 ^ 30" by linarith
    then have "j < 30" by (simp only: power_strict_increasing_iff)
    with 1 True show ?thesis by (subst find_order.simps) simp
  next
    case False
    with 1(2) show ?thesis by (subst find_order.simps) simp
  qed
qed

lemma find_order_undefined: "2 ^ 30 < sz \<Longrightarrow> find_order j sz = None"
proof (induction j sz rule: find_order.induct)
  case (1 j sz)
  have "(2::int) ^ j \<le> 2 ^ 30" if "j < 31" using that by (intro power_increasing) auto
  with 1 show ?case by (subst find_order.simps) force
qed

lemma find_free_area_props:
  "k \<le> 20 \<Longrightarrow> k \<le> find_free_area k s \<and> find_free_area k s \<le> 21 \<and>
    (\<forall>j. k \<le> j \<longrightarrow> j < find_free_area k s \<longrightarrow> list_empty (Head j) (links s)) \<and>
    (find_free_area k s \<le> 20 \<longrightarrow> \<not> list_empty (Head (find_free_area k s)) (links s))"
proof (induction k s rule: find_free_area.induct)
  case (1 k s)
  show ?case
  proof (cases "list_empty (Head k) (links s)")
    case False
    then show ?thesis using 1(2) by (simp add: find_free_area.simps [of k s])
  next
    case True
    show ?thesis
    proof (cases "k = 20")
      case True
      with \<open>list_empty (Head k) (links s)\<close> have "find_free_area k s = 21"
        by (simp add: find_free_area.simps [of 20 s] find_free_area.simps [of 21 s])
      with True \<open>list_empty (Head k) (links s)\<close> show ?thesis by (auto simp: less_Suc_eq le_less numeral_eq_Suc)
    next
      case False
      with True 1 show ?thesis
        by (simp add: find_free_area.simps [of k s]) (metis Suc_leD le_antisym not_less_eq_eq)
    qed
  qed
qed

subsection \<open>Initialisation\<close>

lemma init_pages:
  "\<forall>i < n. is_list (links (fold (\<lambda>i s. on_links (INIT_LIST_HEAD (Entry i)) (set_free i False (set_order i 0 s))) [0..<n] s)) (Entry i) []"
  by (induction n) (auto simp: INIT_LIST_HEAD_empty less_Suc_eq intro!: INIT_LIST_HEAD_other)

lemma init_heads:
  "k \<le> n \<Longrightarrow> \<forall>j. k \<le> j \<and> j < n \<longrightarrow>
    is_list (links (fold (\<lambda>k. on_links (INIT_LIST_HEAD (Head k))) [k..<n] s)) (Head j) []"
proof (induction n)
  case 0
  then show ?case by simp
next
  case (Suc n)
  show ?case
  proof (intro allI impI)
    fix j assume j: "k \<le> j \<and> j < Suc n"
    then have "k \<le> n" by simp
    with Suc.IH j have "is_list (links (fold (\<lambda>k. on_links (INIT_LIST_HEAD (Head k))) [k..<n] s)) (Head j) []"
      if "j \<noteq> n" using that by simp
    with \<open>k \<le> n\<close> show "is_list (links (fold (\<lambda>k. on_links (INIT_LIST_HEAD (Head k))) [k..<Suc n] s)) (Head j) []"
      by (cases "j = n") (simp_all add: INIT_LIST_HEAD_empty INIT_LIST_HEAD_other)
  qed
qed

lemma init_g_pages: "g_pages (fold (\<lambda>k. on_links (f k)) ks s) = g_pages s"
  by (induction ks arbitrary: s) auto

lemma buddy_init_rel: "buddy_rel (buddy_init s) [0 \<mapsto> 20] {} {}"
proof -
  let ?B = "[0 \<mapsto> 20] :: nat \<rightharpoonup> nat"
  define s1 where "s1 = fold (\<lambda>i s. on_links (INIT_LIST_HEAD (Entry i)) (set_free i False (set_order i 0 s))) [0..<n_pages] s"
  define s2 where "s2 = fold (\<lambda>k. on_links (INIT_LIST_HEAD (Head k))) [MIN_ORDER..<Suc MAX_ORDER] s1"
  have init: "buddy_init s = on_links (list_add (Entry 0) (Head 20)) (set_free 0 True (set_order 0 20 s2))"
    unfolding buddy_init_def s2_def s1_def Let_def by simp
  have "\<forall>k \<in> {12..20}. is_list (links s2) (Head k) []"
    using init_heads [of 12 "Suc 20" s1] unfolding s2_def by (simp add: less_Suc_eq_le)
  then have fam: "list_family is_list (links s2) {12..20} (\<lambda>_. [])" by (rule kl.family_init)
  have "blocks ?B" by (auto simp: blocks_def blk_def)
  moreover have "free_lists (list_add (Entry 0) (Head 20) (links s2)) ?B {}"
    using kl.family_add [OF fam, of 20 0] by (auto simp: free_lists_def intro!: exI)
  moreover have "coalesced ?B {}" by (auto simp: coalesced_def)
  moreover have "descriptors (g_pages (buddy_init s)) ?B {} {}" by (simp add: init descriptors_def)
  ultimately show ?thesis by (simp add: buddy_rel_def init)
qed

lemma buddy_init_inv: "buddy_inv (buddy_init s) Map.empty"
  using buddy_init_rel unfolding buddy_inv_def by (intro exI [of _ "[0 \<mapsto> 20]"]) auto

subsection \<open>Maximal coalescing\<close>

text \<open>An aligned region none of whose pages is owned lies inside one free block: otherwise a
  smallest block inside it and its buddy, which is also inside it, are free and of one order.\<close>

lemma region_in_block:
  assumes B: "blocks B" and co: "coalesced B A" and A: "A \<subseteq> dom B"
    and k: "12 \<le> k" "k \<le> 20" and al: "blk k dvd r" and in_mem: "r + blk k \<le> 256"
    and clear: "\<And>q l. q \<in> A \<Longrightarrow> B q = Some l \<Longrightarrow> q + blk l \<le> r \<or> r + blk k \<le> q"
  shows "\<exists>p l. B p = Some l \<and> k \<le> l \<and> p \<notin> A \<and> p \<le> r \<and> r + blk k \<le> p + blk l"
proof (rule ccontr)
  assume none: "\<not> ?thesis"
  let ?P = "\<lambda>l. \<exists>q. B q = Some l \<and> r \<le> q \<and> q + blk l \<le> r + blk k"
  have notA: "q \<notin> A" if q: "B q = Some l" "q < r + blk k" "r < q + blk l" for q l
    using clear [of q l] q by auto
  have small: "l < k" if q: "B q = Some l" "q < r + blk k" "r < q + blk l" for q l
  proof (rule ccontr)
    assume "\<not> l < k"
    then have "k \<le> l" by simp
    from aligned_nested [OF blocksD(3) [OF B q(1)] al this q(2,3)] this none notA [OF q] q(1)
    show False by blast
  qed
  have nested: "r \<le> q \<and> q + blk l \<le> r + blk k" if q: "B q = Some l" "q < r + blk k" "r < q + blk l" for q l
    using aligned_nested [OF al blocksD(3) [OF B q(1)]] small [OF q] q by simp
  obtain q0 l0 where "B q0 = Some l0" "q0 \<le> r" "r < q0 + blk l0"
    using blocks_cover [OF B, of r] in_mem blk_pos [of k] by (metis le_neq_implies_less less_add_same_cancel1 less_le_trans not_less)
  then have ex: "?P l0" using nested [of q0 l0] blk_pos [of k] by (metis le_less_trans less_add_same_cancel1)
  define l where "l = (LEAST l. ?P l)"
  have "?P l" unfolding l_def by (rule LeastI [of ?P, OF ex])
  then obtain q where q: "B q = Some l" "r \<le> q" "q + blk l \<le> r + blk k" by blast
  note ql = blocksD [OF B q(1)]
  have meets: "q < r + blk k" "r < q + blk l" using q(2,3) blk_pos [of l] by linarith+
  have lk: "l < k" by (rule small [OF q(1) meets])
  note bq = bud_props [OF ql(1,3)]
  let ?m = "min q (bud q l)"
  have md: "blk (Suc l) dvd ?m" using bq(4) ql(1) by (simp add: blk_Suc)
  have sz: "blk (Suc l) = 2 * blk l" using ql(1) by (rule blk_Suc)
  have inside: "r \<le> ?m" "?m + blk (Suc l) \<le> r + blk k"
    using aligned_nested [OF al md, of] lk q(2,3) bq(5) sz blk_pos [of l] by linarith+
  obtain l' where l': "l' \<le> l" "B (bud q l) = Some l'"
    using buddy_is_block [OF B q(1)] lk k by auto
  have "blk l' \<le> blk l" using l'(1) by (auto simp: blk_def intro: power_increasing)
  then have in_b: "r \<le> bud q l" "bud q l + blk l' \<le> r + blk k"
    using inside bq(5) sz by linarith+
  then have "?P l'" using l'(2) by blast
  then have "l \<le> l'" unfolding l_def by (rule Least_le)
  with l' have b: "B (bud q l) = Some l" by simp
  have "q \<notin> A" by (rule notA [OF q(1) meets])
  moreover have "bud q l \<notin> A"
    by (rule notA [OF b]) (use in_b blk_pos [of l] \<open>l \<le> l'\<close> l'(1) in \<open>simp_all del: blk_pos\<close>)
  moreover have "l < 20" using lk k(2) by simp
  ultimately show False using co q(1) b unfolding coalesced_def by blast
qed


subsection \<open>The operations against the invariant\<close>

lemma buddy_invE:
  assumes "buddy_inv s owned"
  obtains B where "buddy_rel s B (dom owned) {}" "\<And>p k. owned p = Some k \<Longrightarrow> B p = Some k"
  using assms unfolding buddy_inv_def map_le_def by (metis domI)

lemma buddy_invI:
  "buddy_rel s B A {} \<Longrightarrow> A = dom owned \<Longrightarrow> (\<And>p k. owned p = Some k \<Longrightarrow> B p = Some k) \<Longrightarrow> buddy_inv s owned"
  unfolding buddy_inv_def map_le_def by (metis domIff not_None_eq)

text \<open>Every path of \<open>buddy_alloc\<close>: either \<open>NULL\<close> and nothing changes, or a block is granted.\<close>

lemma buddy_alloc_cases:
  assumes rel: "buddy_rel s B A {}" and res: "buddy_alloc sz s = Some (r, s')"
  obtains (null) "r = None" "s' = s"
      "sz \<le> 0 \<or> (\<exists>k. find_order 12 sz = Some k \<and> (\<forall>j p. k \<le> j \<and> B p = Some j \<longrightarrow> p \<in> A))"
    | (block) p k B' where "r = Some (PAGE_TO_ADDR p)" "0 < sz" "find_order 12 sz = Some k" "k \<le> 20"
        "p \<notin> A" "buddy_rel s' B' (insert p A) {}" "B' p = Some k" "\<And>q. q \<in> A \<Longrightarrow> B' q = B q"
proof (cases "sz \<le> 0")
  case True
  with res null show ?thesis by (simp add: buddy_alloc_def)
next
  case pos: False
  with res obtain k where k: "find_order 12 sz = Some k" by (auto simp: buddy_alloc_def split: Option.bind_splits)
  have k12: "12 \<le> k" using find_order_Some [OF k] by simp
  note r = buddy_relD [OF rel]
  show ?thesis
  proof (cases "20 < k")
    case True
    then have "\<forall>j p. k \<le> j \<and> B p = Some j \<longrightarrow> p \<in> A" using blocksD(2) [OF r(1)] by fastforce
    with True pos k res null show ?thesis by (auto simp: buddy_alloc_def)
  next
    case False
    let ?f = "find_free_area k s"
    have f: "k \<le> ?f" "\<forall>j. k \<le> j \<longrightarrow> j < ?f \<longrightarrow> list_empty (Head j) (links s)"
        "?f \<le> 20 \<Longrightarrow> \<not> list_empty (Head ?f) (links s)"
      using find_free_area_props [of k s] False by auto
    show ?thesis
    proof (cases "20 < ?f")
      case True
      have "p \<in> A" if "k \<le> j" "B p = Some j" for j p
        using free_lists_empty [OF r(5), of j] f(2) True that blocksD(1,2) [OF r(1) that(2)] by auto
      with True False pos k res null show ?thesis by (auto simp: buddy_alloc_def)
    next
      case fnd: False
      have f20: "?f \<in> {12..20}" using fnd f(1) k12 by simp
      obtain p where p: "nxt (links s) (Head ?f) = Entry p" "B p = Some ?f" "p \<notin> A"
        using free_lists_first [OF r(5) f20 f(3)] fnd by auto
      let ?s1 = "set_free p False (on_links (list_del_init (Entry p)) s)"
      obtain B' where B': "buddy_rel (buddy_split p k ?f ?s1) B' A {p}" "B' p = Some k" "\<forall>q \<in> A. B' q = B q"
        using rel_buddy_split [OF rel_take [OF rel p(2,3)] p(2) k12 f(1)] by blast
      have "(r, s') = (Some (PAGE_TO_ADDR p), set_free p False (set_order p k (buddy_split p k ?f ?s1)))"
        using res pos k False fnd p(1) by (simp add: buddy_alloc_def)
      with B' rel_grant [OF B'(1,2)] pos k False p(3) show ?thesis by (intro block [of p k B']) auto
    qed
  qed
qed

lemma buddy_alloc_total:
  assumes rel: "buddy_rel s B A {}" and k: "find_order 12 sz = Some k"
  shows "\<exists>r s'. buddy_alloc sz s = Some (r, s')"
proof (cases "k \<le> 20 \<and> find_free_area k s \<le> 20")
  case True
  then have "find_free_area k s \<in> {12..20}" "\<not> list_empty (Head (find_free_area k s)) (links s)"
    using find_free_area_props [of k s] find_order_Some [OF k] by auto
  from free_lists_first [OF buddy_relD(5) [OF rel] this]
  obtain p where "nxt (links s) (Head (find_free_area k s)) = Entry p" by blast
  with k True show ?thesis by (auto simp: buddy_alloc_def)
qed (use k in \<open>auto simp: buddy_alloc_def\<close>)

lemma buddy_free_owned:
  assumes inv: "buddy_inv s owned" and p: "owned p = Some k"
  shows "\<exists>s'. buddy_free (PAGE_TO_ADDR p) s = Some s' \<and> buddy_inv s' (owned(p := None))"
proof -
  obtain B where B: "buddy_rel s B (dom owned) {}" "\<And>p k. owned p = Some k \<Longrightarrow> B p = Some k"
    using buddy_invE [OF inv] by blast
  note r = buddy_relD [OF B(1)] note pk = blocksD [OF r(1) B(2) [OF p]]
  have ord: "order (g_pages s p) = k" using r(4) B(2) [OF p] by (simp add: descriptors_def)
  have "p < 256" using pk(4) blk_pos [of k] by linarith
  obtain p' k' s' where c: "buddy_coalesce (PAGE_TO_ADDR p) p k (set_free p True s) = (p', k', s')"
    by (cases "buddy_coalesce (PAGE_TO_ADDR p) p k (set_free p True s)") auto
  have rel: "buddy_rel (set_free p True s) B (dom owned - {p}) {p}"
    by (rule rel_release [OF B(1)]) (use p in auto)
  obtain B' where B': "buddy_rel (on_links (list_add (Entry p') (Head k')) s') B' (dom owned - {p}) {}"
      "\<forall>q \<in> dom owned - {p}. B' q = B q"
    using rel_buddy_coalesce [OF rel B(2) [OF p] _ c] by auto
  have "B' q = Some l" if "(owned(p := None)) q = Some l" for q l
    using that B'(2) B(2) [of q l] by (metis DiffI domI fun_upd_apply option.distinct(1) singletonD)
  then have "buddy_inv (on_links (list_add (Entry p') (Head k')) s') (owned(p := None))"
    by (intro buddy_invI [OF B'(1)]) auto
  with c ord \<open>p < 256\<close> show ?thesis by (simp add: buddy_free_def ADDR_TO_PAGE_PAGE)
qed

lemma buddy_dump_orders_some:
  assumes "list_family is_list (links s) {12..20} fl" and "set ks \<subseteq> {12..20}"
  shows "buddy_dump_orders ks s = Some (map (\<lambda>k. (length (fl k), 2 ^ k div 1024)) ks)"
  using assms(2) by (induction ks) (auto simp: kl.family_each [OF assms(1)])

lemma buddy_dump_counts:
  assumes "buddy_rel s B A {}"
  shows "buddy_dump s = Some (map (\<lambda>k. (card {p. B p = Some k \<and> p \<notin> A}, 2 ^ k div 1024)) [12..<21])"
proof -
  from buddy_relD(5) [OF assms] obtain fl where fl: "list_family is_list (links s) {12..20} fl"
      "\<forall>k \<in> {12..20}. set (fl k) = {p. B p = Some k \<and> p \<notin> A}"
    by (auto simp: free_lists_def)
  have "length (fl k) = card {p. B p = Some k \<and> p \<notin> A}" if "k \<in> {12..20}" for k
    using fl(2) kl.family_reps [OF fl(1) that] that by (metis distinct_card)
  then have "map (\<lambda>k. (length (fl k), 2 ^ k div 1024)) [12..<21] =
      map (\<lambda>k. (card {p. B p = Some k \<and> p \<notin> A}, 2 ^ k div 1024)) [12..<21]"
    by (intro map_cong) auto
  moreover have "set [MIN_ORDER..<Suc MAX_ORDER] \<subseteq> {12..20}" by auto
  ultimately show ?thesis
    unfolding buddy_dump_def by (simp add: buddy_dump_orders_some [OF fl(1)] del: upt_Suc upt_rec_numeral)
qed


subsection \<open>The free blocks are determined by what the client owns\<close>

text \<open>\<open>unowned owned p k\<close>: no page of the aligned region of order \<open>k\<close> at \<open>p\<close> is owned.\<close>

definition unowned :: "(nat \<rightharpoonup> nat) \<Rightarrow> nat \<Rightarrow> nat \<Rightarrow> bool" where
  "unowned owned p k \<longleftrightarrow> (\<forall>q l. owned q = Some l \<longrightarrow> q + blk l \<le> p \<or> p + blk k \<le> q)"

definition maximal_free :: "(nat \<rightharpoonup> nat) \<Rightarrow> nat \<Rightarrow> nat \<Rightarrow> bool" where
  "maximal_free owned p k \<longleftrightarrow>
     12 \<le> k \<and> k \<le> 20 \<and> blk k dvd p \<and> p + blk k \<le> 256 \<and> unowned owned p k \<and>
     (k < 20 \<longrightarrow> \<not> unowned owned (min p (bud p k)) (Suc k))"

lemma unowned_in_block:
  assumes rel: "buddy_rel s B (dom owned) {}" and sub: "\<And>p k. owned p = Some k \<Longrightarrow> B p = Some k"
    and k: "12 \<le> k" "k \<le> 20" and r: "blk k dvd r" "r + blk k \<le> 256" "unowned owned r k"
  shows "\<exists>p l. B p = Some l \<and> k \<le> l \<and> p \<notin> dom owned \<and> p \<le> r \<and> r + blk k \<le> p + blk l"
proof (rule region_in_block [OF buddy_relD(1) [OF rel] _ _ k r(1,2)])
  show "coalesced B (dom owned)" "dom owned \<subseteq> dom B" using buddy_relD(2,6) [OF rel] by auto
  fix q l assume "q \<in> dom owned" "B q = Some l"
  with sub have "owned q = Some l" by fastforce
  with r(3) show "q + blk l \<le> r \<or> r + blk k \<le> q" by (simp add: unowned_def)
qed

lemma free_blocks_canonical:
  assumes rel: "buddy_rel s B (dom owned) {}" and sub: "\<And>p k. owned p = Some k \<Longrightarrow> B p = Some k"
  shows "(B p = Some k \<and> p \<notin> dom owned) = maximal_free owned p k"
proof
  note r = buddy_relD [OF rel]
  assume p: "B p = Some k \<and> p \<notin> dom owned"
  note pk = blocksD [OF r(1) conjunct1 [OF p]]
  have "unowned owned p k"
    unfolding unowned_def
  proof (intro allI impI)
    fix q l assume q: "owned q = Some l"
    with p have "q \<noteq> p" by auto
    with blocks_disjoint [OF r(1)] p sub [OF q] show "q + blk l \<le> p \<or> p + blk k \<le> q"
      by (meson linorder_neqE_nat)
  qed
  moreover have "\<not> unowned owned (min p (bud p k)) (Suc k)" if k20: "k < 20"
  proof
    assume u: "unowned owned (min p (bud p k)) (Suc k)"
    note bp = bud_props [OF pk(1,3)]
    have sz: "blk (Suc k) = 2 * blk k" using pk(1) by (rule blk_Suc)
    have "bud p k + blk k \<le> 256" by (rule bud_bound [OF pk(1) k20 pk(3,4)])
    then have "min p (bud p k) + blk (Suc k) \<le> 256" using pk(4) bp(5) sz by linarith
    moreover have "blk (Suc k) dvd min p (bud p k)" using bp(4) sz by simp
    ultimately obtain q l where q: "B q = Some l" "Suc k \<le> l" "q \<le> min p (bud p k)"
        "min p (bud p k) + blk (Suc k) \<le> q + blk l"
      using unowned_in_block [OF rel sub, of "Suc k" "min p (bud p k)"] k20 pk(1) u by auto
    have "q \<noteq> p" using q(1,2) p by auto
    moreover have "q \<le> p" "p < q + blk l" using q(3,4) bp(5) sz blk_pos [of k] by linarith+
    ultimately show False using blocks_disjoint [OF r(1) q(1) conjunct1 [OF p]] by simp
  qed
  ultimately show "maximal_free owned p k" using pk by (simp add: maximal_free_def)
next
  note r = buddy_relD [OF rel]
  assume m: "maximal_free owned p k"
  then have mk: "12 \<le> k" "k \<le> 20" "blk k dvd p" "p + blk k \<le> 256" "unowned owned p k"
    by (simp_all add: maximal_free_def)
  obtain q l where q: "B q = Some l" "k \<le> l" "q \<notin> dom owned" "q \<le> p" "p + blk k \<le> q + blk l"
    using unowned_in_block [OF rel sub mk] by blast
  note ql = blocksD [OF r(1) q(1)]
  have "l = k"
  proof (rule ccontr)
    assume "l \<noteq> k"
    with q(2) have le: "Suc k \<le> l" by simp
    note bp = bud_props [OF mk(1,3)]
    have sz: "blk (Suc k) = 2 * blk k" using mk(1) by (rule blk_Suc)
    have "blk (Suc k) dvd min p (bud p k)" using bp(4) sz by simp
    from aligned_nested [OF ql(3) this le]
    have "q \<le> min p (bud p k)" "min p (bud p k) + blk (Suc k) \<le> q + blk l"
      using q(4,5) bp(5) sz blk_pos [of k] by linarith+
    then have "unowned owned (min p (bud p k)) (Suc k)"
      unfolding unowned_def
    proof (intro allI impI)
      fix x m assume x: "owned x = Some m"
      with q(3) have "x \<noteq> q" by auto
      then have "x + blk m \<le> q \<or> q + blk l \<le> x"
        using blocks_disjoint [OF r(1)] q(1) sub [OF x] by (meson linorder_neqE_nat)
      with \<open>q \<le> min p (bud p k)\<close> \<open>min p (bud p k) + blk (Suc k) \<le> q + blk l\<close>
      show "x + blk m \<le> min p (bud p k) \<or> min p (bud p k) + blk (Suc k) \<le> x" by linarith
    qed
    with m le ql(2) show False by (simp add: maximal_free_def)
  qed
  with q have "q = p" by simp
  with q \<open>l = k\<close> show "B p = Some k \<and> p \<notin> dom owned" by simp
qed

lemma buddy_dump_owned:
  assumes "buddy_inv s owned"
  shows "buddy_dump s = Some (map (\<lambda>k. (card {p. maximal_free owned p k}, 2 ^ k div 1024)) [12..<21])"
proof -
  obtain B where B: "buddy_rel s B (dom owned) {}" "\<And>p k. owned p = Some k \<Longrightarrow> B p = Some k"
    using buddy_invE [OF assms] by blast
  show ?thesis using buddy_dump_counts [OF B(1)] by (simp add: free_blocks_canonical [OF B])
qed


subsection \<open>Sizes add up\<close>

lemma blocks_sum:
  assumes B: "blocks B"
  shows "finite (dom B)" and "(\<Sum>p \<in> dom B. blk (the (B p))) = 256"
proof -
  have sub: "dom B \<subseteq> {..<256}"
  proof
    fix p assume "p \<in> dom B"
    then obtain k where "B p = Some k" by blast
    from blocksD(4) [OF B this] blk_pos [of k] show "p \<in> {..<256}" by (simp del: blk_pos)
  qed
  then show fin: "finite (dom B)" by (rule finite_subset) simp
  let ?I = "\<lambda>p. {p..<p + blk (the (B p))}"
  have "?I p \<inter> ?I q = {}" if pq: "p \<in> dom B" "q \<in> dom B" "p \<noteq> q" for p q
  proof (cases "p < q")
    case True
    with pq blocks_disjoint [OF B] show ?thesis by fastforce
  next
    case False
    with pq have "q < p" by simp
    with pq blocks_disjoint [OF B] show ?thesis by fastforce
  qed
  then have "card (\<Union>p \<in> dom B. ?I p) = (\<Sum>p \<in> dom B. card (?I p))"
    using fin by (intro card_UN_disjoint) auto
  moreover have "(\<Union>p \<in> dom B. ?I p) = {..<256}"
  proof (intro equalityI subsetI)
    fix q assume "q \<in> (\<Union>p \<in> dom B. ?I p)"
    then obtain p k where "B p = Some k" "q < p + blk k" by auto
    with blocksD(4) [OF B] show "q \<in> {..<256}" by fastforce
  next
    fix q :: nat assume "q \<in> {..<256}"
    then have "q < 256" by simp
    from blocks_cover [OF B this] show "q \<in> (\<Union>p \<in> dom B. ?I p)" by force
  qed
  ultimately show "(\<Sum>p \<in> dom B. blk (the (B p))) = 256" by simp
qed

lemma kib_blk: "12 \<le> k \<Longrightarrow> 2 ^ k div 1024 = 4 * blk k"
proof -
  assume "12 \<le> k"
  then have "(2::nat) ^ k = 1024 * (4 * blk k)"
    using power_add [of "2::nat" 12 "k - 12"] by (simp add: blk_def)
  then show ?thesis by simp
qed

subsection \<open>Properties\<close>

text \<open>C1: A block \<open>buddy_alloc\<close> returns is the smallest power of two that fits the request
  (at least a page), aligned to its size, inside the memory area and disjoint from every block
  the client still holds; the state then accounts for it.\<close>

theorem buddy_alloc_grants:
  assumes "buddy_inv s owned" and "buddy_alloc sz s = Some (Some a, s')"
  shows "\<exists>p k. a = PAGE_TO_ADDR p \<and> owned p = None \<and> sz \<le> 2 ^ k \<and> (k = MIN_ORDER \<or> 2 ^ (k - 1) < sz) \<and>
    2 ^ k dvd a \<and> a + 2 ^ k \<le> 2 ^ MAX_ORDER \<and>
    (\<forall>q l. owned q = Some l \<longrightarrow> PAGE_TO_ADDR q + 2 ^ l \<le> a \<or> a + 2 ^ k \<le> PAGE_TO_ADDR q) \<and>
    buddy_inv s' (owned(p \<mapsto> k))"
proof -
  have addr: "PAGE_TO_ADDR p + 2 ^ k = 4096 * (p + blk k)" "PAGE_TO_ADDR p = 4096 * p" "2 ^ k = 4096 * blk k"
    if "12 \<le> k" for p k
    using that power_add [of "2::nat" 12 "k - 12"] by (simp_all add: PAGE_TO_ADDR_def blk_def)
  obtain B where B: "buddy_rel s B (dom owned) {}" "\<And>p k. owned p = Some k \<Longrightarrow> B p = Some k"
    using buddy_invE [OF assms(1)] by blast
  from B(1) assms(2) show ?thesis
  proof (cases rule: buddy_alloc_cases)
    case (block p k B')
    note r = buddy_relD [OF block(6)]
    note pk = blocksD [OF r(1) block(7)]
    have keep: "B' q = Some l" if "owned q = Some l" for q l using block(8) B(2) that by (metis domI)
    have "PAGE_TO_ADDR q + 2 ^ l \<le> a \<or> a + 2 ^ k \<le> PAGE_TO_ADDR q" if q: "owned q = Some l" for q l
    proof -
      have "q \<noteq> p" using q block(5) by auto
      then have "q + blk l \<le> p \<or> p + blk k \<le> q"
        using blocks_disjoint [OF r(1)] keep [OF q] block(7) by (meson linorder_neqE_nat)
      moreover have "12 \<le> l" using blocksD(1) [OF r(1) keep [OF q]] .
      ultimately show ?thesis using addr [OF pk(1)] addr [of l] block(1) by simp linarith
    qed
    moreover have "buddy_inv s' (owned(p \<mapsto> k))"
      by (rule buddy_invI [OF block(6)]) (use keep block(7) in \<open>auto split: if_splits\<close>)
    moreover have "2 ^ k dvd a" "a + 2 ^ k \<le> 2 ^ MAX_ORDER" using block(1) pk by (simp_all add: addr)
    ultimately show ?thesis using block find_order_Some [OF block(3)] by (intro exI [of _ p] exI [of _ k]) auto
  qed simp
qed

lemma find_order_44K: "find_order 12 45056 = Some 16"
  by (simp add: find_order.simps)

text \<open>The static state before \<open>buddy_init\<close>, which overwrites every field that is read later.\<close>

definition buddy_bss :: buddy_state where
  "buddy_bss = \<lparr>links = \<lparr>nxt = \<lambda>_. Poison, prv = \<lambda>_. Poison\<rparr>, g_pages = \<lambda>_. \<lparr>order = 0, free = False\<rparr>\<rparr>"

lemma first_alloc: "\<exists>a s'. buddy_alloc 45056 (buddy_init s) = Some (Some a, s')"
proof -
  obtain r s' where res: "buddy_alloc 45056 (buddy_init s) = Some (r, s')"
    using buddy_alloc_total [OF buddy_init_rel find_order_44K] by blast
  from buddy_init_rel res show ?thesis
  proof (cases rule: buddy_alloc_cases)
    case null
    then have "16 \<le> j \<longrightarrow> [0 \<mapsto> (20::nat)] p \<noteq> Some j" for j and p :: nat
      by (simp add: find_order_44K)
    from this [of 20 0] show ?thesis by simp
  next
    case block
    with res show ?thesis by simp
  qed
qed

theorem buddy_alloc_grants_witness:
  "\<exists>a s' p k. buddy_alloc 45056 (buddy_init buddy_bss) = Some (Some a, s') \<and> a = PAGE_TO_ADDR p \<and>
    2 ^ k dvd a \<and> buddy_inv s' [p \<mapsto> k]"
proof -
  obtain a s' where r: "buddy_alloc 45056 (buddy_init buddy_bss) = Some (Some a, s')"
    using first_alloc [of buddy_bss] by blast
  from buddy_alloc_grants [OF buddy_init_inv r] r show ?thesis by auto
qed

text \<open>C2: For a request of order \<open>k\<close>, \<open>buddy_alloc\<close> returns \<open>NULL\<close> exactly when every
  aligned region of that size meets a block the client holds, and then the state is unchanged:
  external fragmentation never makes a request fail.\<close>

theorem buddy_alloc_null_iff:
  assumes "buddy_inv s owned" and "0 < sz" and "find_order MIN_ORDER sz = Some k" and "k \<le> MAX_ORDER"
  shows "buddy_alloc sz s = Some (None, s) \<longleftrightarrow>
    \<not> (\<exists>r. blk k dvd r \<and> r + blk k \<le> n_pages \<and> unowned owned r k)"
proof -
  obtain B where B: "buddy_rel s B (dom owned) {}" "\<And>p k. owned p = Some k \<Longrightarrow> B p = Some k"
    using buddy_invE [OF assms(1)] by blast
  have k: "find_order 12 sz = Some k" "12 \<le> k" "k \<le> 20"
    using assms(3,4) find_order_Some [of 12 sz k] by simp_all
  from buddy_alloc_total [OF B(1) k(1)] obtain r s' where res: "buddy_alloc sz s = Some (r, s')" by blast
  show ?thesis
    using B(1) res
  proof (cases rule: buddy_alloc_cases)
    case null
    have "\<not> (blk k dvd r \<and> r + blk k \<le> 256 \<and> unowned owned r k)" for r
      using unowned_in_block [OF B k(2,3), of r] null(3) k(1) assms(2) by fastforce
    with null res show ?thesis by simp
  next
    case (block p k' B')
    note r = buddy_relD [OF block(6)]
    have [simp]: "k' = k" using block(3) k(1) by simp
    note pk = blocksD [OF r(1) block(7)]
    have "unowned owned p k"
      unfolding unowned_def
    proof (intro allI impI)
      fix q l assume q: "owned q = Some l"
      then have "B' q = Some l" "q \<noteq> p" using block(5,8) B(2) by (metis domI)+
      then show "q + blk l \<le> p \<or> p + blk k \<le> q"
        using blocks_disjoint [OF r(1)] block(7) by (metis \<open>k' = k\<close> linorder_neqE_nat)
    qed
    with pk res block(1) show ?thesis by auto
  qed
qed

theorem buddy_alloc_null_iff_witness:
  "\<not> buddy_alloc 45056 (buddy_init buddy_bss) = Some (None, buddy_init buddy_bss)"
proof -
  have "\<exists>r. blk 16 dvd r \<and> r + blk 16 \<le> n_pages \<and> unowned Map.empty r 16"
    by (intro exI [of _ 0]) (simp add: blk_def unowned_def)
  moreover have "buddy_alloc 45056 (buddy_init buddy_bss) = Some (None, buddy_init buddy_bss) \<longleftrightarrow>
      \<not> (\<exists>r. blk 16 dvd r \<and> r + blk 16 \<le> n_pages \<and> unowned Map.empty r 16)"
    by (rule buddy_alloc_null_iff [OF buddy_init_inv]) (simp_all add: find_order_44K)
  ultimately show ?thesis by blast
qed

text \<open>C3: Freeing a block the client holds returns, and leaves the state of an allocator whose
  client holds all the other blocks and no longer this one.\<close>

theorem buddy_free_releases:
  assumes "buddy_inv s owned" and "owned p = Some k"
  shows "\<exists>s'. buddy_free (PAGE_TO_ADDR p) s = Some s' \<and> buddy_inv s' (owned(p := None))"
  by (rule buddy_free_owned [OF assms])

lemma first_owned: "\<exists>s p k. buddy_inv s [p \<mapsto> k]"
proof -
  obtain a s' where r: "buddy_alloc 45056 (buddy_init buddy_bss) = Some (Some a, s')"
    using first_alloc [of buddy_bss] by blast
  from buddy_init_rel r show ?thesis
  proof (cases rule: buddy_alloc_cases)
    case (block p k B')
    have "buddy_inv s' [p \<mapsto> k]" by (rule buddy_invI [OF block(6)]) (use block(7) in \<open>auto split: if_splits\<close>)
    then show ?thesis by blast
  qed simp
qed

theorem buddy_free_releases_witness:
  "\<exists>s p k s'. buddy_inv s [p \<mapsto> k] \<and> buddy_free (PAGE_TO_ADDR p) s = Some s' \<and> buddy_inv s' Map.empty"
proof -
  obtain s p k where inv: "buddy_inv s [p \<mapsto> k]" using first_owned by blast
  from buddy_free_releases [OF this, of p k] inv show ?thesis by auto
qed

text \<open>C4: What \<open>buddy_dump\<close> prints depends only on the blocks the client holds: an allocation
  followed by the free of the block it returned prints the same line again.\<close>

theorem buddy_alloc_free_roundtrip:
  assumes "buddy_inv s owned" and "buddy_alloc sz s = Some (Some a, s')"
  shows "\<exists>s''. buddy_free a s' = Some s'' \<and> buddy_inv s'' owned \<and> buddy_dump s'' = buddy_dump s"
proof -
  obtain B where B: "buddy_rel s B (dom owned) {}" "\<And>p k. owned p = Some k \<Longrightarrow> B p = Some k"
    using buddy_invE [OF assms(1)] by blast
  from B(1) assms(2) show ?thesis
  proof (cases rule: buddy_alloc_cases)
    case (block p k B')
    have keep: "B' q = Some l" if "owned q = Some l" for q l using block(8) B(2) that by (metis domI)
    have inv: "buddy_inv s' (owned(p \<mapsto> k))"
      by (rule buddy_invI [OF block(6)]) (use keep block(7) in \<open>auto split: if_splits\<close>)
    have "(owned(p \<mapsto> k))(p := None) = owned" using block(5) by auto
    with buddy_free_owned [OF inv, of p k] block(1) obtain s'' where
      "buddy_free a s' = Some s''" "buddy_inv s'' owned" by auto
    with assms(1) show ?thesis by (simp add: buddy_dump_owned)
  qed simp
qed

theorem buddy_alloc_free_roundtrip_witness:
  "\<exists>a s' s''. buddy_alloc 45056 (buddy_init buddy_bss) = Some (Some a, s') \<and>
    buddy_free a s' = Some s'' \<and> buddy_dump s'' = buddy_dump (buddy_init buddy_bss)"
proof -
  obtain a s' where r: "buddy_alloc 45056 (buddy_init buddy_bss) = Some (Some a, s')"
    using first_alloc [of buddy_bss] by blast
  from buddy_alloc_free_roundtrip [OF buddy_init_inv r] r show ?thesis by blast
qed

text \<open>C5: Every KiB is either on a free list or in a block the client holds: the amounts
  \<open>buddy_dump\<close> prints and the sizes of the blocks held add up to 1024 KiB.\<close>

theorem buddy_dump_conservation:
  assumes "buddy_inv s owned"
  shows "\<exists>d. buddy_dump s = Some d \<and>
    (\<Sum>(count, kib) \<leftarrow> d. count * kib) + (\<Sum>p \<in> dom owned. 2 ^ the (owned p) div 1024) = 1024"
proof -
  obtain B where B: "buddy_rel s B (dom owned) {}" "\<And>p k. owned p = Some k \<Longrightarrow> B p = Some k"
    using buddy_invE [OF assms] by blast
  note r = buddy_relD [OF B(1)]
  let ?F = "dom B - dom owned" and ?kib = "\<lambda>p. 4 * blk (the (B p))"
  let ?d = "map (\<lambda>k. (card {p. B p = Some k \<and> p \<notin> dom owned}, 2 ^ k div 1024)) [12..<21]"
  have "(\<Sum>(count, kib) \<leftarrow> ?d. count * kib) =
      (\<Sum>k \<in> set [12..<21]. card {p. B p = Some k \<and> p \<notin> dom owned} * (2 ^ k div 1024))"
    unfolding map_map comp_def by (simp only: prod.case sum_set_upt_conv_sum_list_nat)
  also have "\<dots> = (\<Sum>k \<in> {12..<21}. \<Sum>p \<in> {p \<in> ?F. the (B p) = k}. ?kib p)"
  proof (rule sum.cong [OF set_upt])
    fix k :: nat assume "k \<in> {12..<21}"
    moreover have "{p. B p = Some k \<and> p \<notin> dom owned} = {p \<in> ?F. the (B p) = k}" by auto
    ultimately show "card {p. B p = Some k \<and> p \<notin> dom owned} * (2 ^ k div 1024) =
        (\<Sum>p \<in> {p \<in> ?F. the (B p) = k}. ?kib p)"
      by (simp add: kib_blk)
  qed
  also have "\<dots> = (\<Sum>p \<in> ?F. ?kib p)"
  proof (rule sum.group)
    show "(\<lambda>p. the (B p)) ` ?F \<subseteq> {12..<21}" using blocksD(1,2) [OF r(1)] by fastforce
  qed (use blocks_sum(1) [OF r(1)] in auto)
  finally have "(\<Sum>(count, kib) \<leftarrow> ?d. count * kib) = (\<Sum>p \<in> ?F. ?kib p)" .
  moreover have "(\<Sum>p \<in> dom owned. 2 ^ the (owned p) div 1024) = (\<Sum>p \<in> dom owned. ?kib p)"
  proof (rule sum.cong)
    fix p assume "p \<in> dom owned"
    then obtain k where k: "owned p = Some k" by blast
    with B(2) [OF k] blocksD(1) [OF r(1) B(2) [OF k]]
    show "2 ^ the (owned p) div 1024 = ?kib p" by (simp add: kib_blk)
  qed simp
  moreover have "(\<Sum>p \<in> ?F. ?kib p) + (\<Sum>p \<in> dom owned. ?kib p) = (\<Sum>p \<in> dom B. ?kib p)"
    using r(2) blocks_sum(1) [OF r(1)] by (intro sum.subset_diff [symmetric]) auto
  moreover have "(\<Sum>p \<in> dom B. ?kib p) = 4 * (\<Sum>p \<in> dom B. blk (the (B p)))"
    by (rule sum_distrib_left [symmetric])
  ultimately show ?thesis
    using buddy_dump_counts [OF B(1)] blocks_sum(2) [OF r(1)] by simp
qed

theorem buddy_dump_conservation_witness:
  "\<exists>d. buddy_dump (buddy_init buddy_bss) = Some d \<and> (\<Sum>(count, kib) \<leftarrow> d. count * kib) = 1024"
  using buddy_dump_conservation [OF buddy_init_inv [of buddy_bss]] by simp

text \<open>C6: The request sizes on which \<open>buddy_alloc\<close> has no defined result are exactly those
  above 1 GiB: the loop then computes \<open>1 << 31\<close> instead of rejecting the request.\<close>

theorem buddy_alloc_undefined_iff:
  assumes "buddy_inv s owned"
  shows "buddy_alloc sz s = None \<longleftrightarrow> 2 ^ 30 < sz"
proof (cases "sz \<le> 2 ^ 30")
  case False
  then show ?thesis by (simp add: buddy_alloc_def find_order_undefined)
next
  case True
  obtain k where k: "find_order 12 sz = Some k" using find_order_fits [of 12 sz] True by auto
  obtain B where B: "buddy_rel s B (dom owned) {}" using assms unfolding buddy_inv_def by blast
  from buddy_alloc_total [OF B k] have "buddy_alloc sz s \<noteq> None" by auto
  with True show ?thesis by simp
qed


theorem buddy_alloc_undefined_iff_witness:
  "buddy_alloc 2000000000 (buddy_init buddy_bss) = None"
  by (subst buddy_alloc_undefined_iff [OF buddy_init_inv [of buddy_bss]]) simp

subsection \<open>Clients\<close>

text \<open>A client allocates and frees in any order; \<open>Release i\<close> frees the \<open>i\<close>-th of the blocks it still
  holds, if there are as many. The result is what it holds at the end, newest first.\<close>

datatype client_step = Request int | Release nat

fun client :: "client_step list \<Rightarrow> nat list \<Rightarrow> buddy_state \<Rightarrow> (nat list \<times> buddy_state) option" where
  "client [] held s = Some (held, s)"
| "client (Request sz # steps) held s =
     do { (r, s) \<leftarrow> buddy_alloc sz s; client steps (case r of None \<Rightarrow> held | Some a \<Rightarrow> a # held) s }"
| "client (Release i # steps) held s =
     (if i < length held
      then do { s \<leftarrow> buddy_free (held ! i) s; client steps (take i held @ drop (Suc i) held) s }
      else client steps held s)"

fun free_all :: "nat list \<Rightarrow> buddy_state \<Rightarrow> buddy_state option" where
  "free_all [] s = Some s"
| "free_all (a # as) s = do { s \<leftarrow> buddy_free a s; free_all as s }"

definition holds :: "nat list \<Rightarrow> buddy_state \<Rightarrow> bool" where
  "holds held s \<longleftrightarrow> (\<exists>owned. buddy_inv s owned \<and> distinct held \<and> set held = PAGE_TO_ADDR ` dom owned)"

lemma PAGE_TO_ADDR_eq [simp]: "PAGE_TO_ADDR p = PAGE_TO_ADDR q \<longleftrightarrow> p = q"
  by (simp add: PAGE_TO_ADDR_def)

lemma holds_request:
  assumes "holds held s" and "sz \<le> 2 ^ 30"
  shows "\<exists>r s'. buddy_alloc sz s = Some (r, s') \<and> holds (case r of None \<Rightarrow> held | Some a \<Rightarrow> a # held) s'"
proof -
  obtain owned where inv: "buddy_inv s owned" and held: "distinct held" "set held = PAGE_TO_ADDR ` dom owned"
    using assms(1) by (auto simp: holds_def)
  obtain B where B: "buddy_rel s B (dom owned) {}" "\<And>p k. owned p = Some k \<Longrightarrow> B p = Some k"
    using buddy_invE [OF inv] by blast
  obtain k where "find_order 12 sz = Some k" using find_order_fits [of 12 sz] assms(2) by auto
  then obtain r s' where res: "buddy_alloc sz s = Some (r, s')" using buddy_alloc_total [OF B(1)] by blast
  from B(1) res show ?thesis
  proof (cases rule: buddy_alloc_cases)
    case null
    then show ?thesis using res assms(1) by simp
  next
    case (block p k B')
    have "B' q = Some l" if "owned q = Some l" for q l using block(8) B(2) that by (metis domI)
    then have "buddy_inv s' (owned(p \<mapsto> k))"
      by (intro buddy_invI [OF block(6)]) (use block(7) in \<open>auto split: if_splits\<close>)
    moreover have "PAGE_TO_ADDR p \<notin> set held" using held(2) block(5) by auto
    ultimately have "holds (PAGE_TO_ADDR p # held) s'" using held unfolding holds_def by (intro exI) auto
    then show ?thesis using res block(1) by simp
  qed
qed

lemma holds_free:
  assumes "holds held s" and "a \<in> set held" and "distinct held'" and "set held' = set held - {a}"
  shows "\<exists>s'. buddy_free a s = Some s' \<and> holds held' s'"
proof -
  obtain owned p k where inv: "buddy_inv s owned" and held: "set held = PAGE_TO_ADDR ` dom owned"
    and p: "a = PAGE_TO_ADDR p" "owned p = Some k" using assms(1,2) by (auto simp: holds_def)
  obtain s' where s': "buddy_free a s = Some s'" "buddy_inv s' (owned(p := None))"
    using buddy_free_owned [OF inv p(2)] p(1) by blast
  have "set held' = PAGE_TO_ADDR ` dom (owned(p := None))" using assms(4) held p(1) by auto
  then show ?thesis using s' assms(3) unfolding holds_def by blast
qed

lemma holds_client:
  "holds held s \<Longrightarrow> \<forall>sz. Request sz \<in> set steps \<longrightarrow> sz \<le> 2 ^ 30
    \<Longrightarrow> \<exists>held' s'. client steps held s = Some (held', s') \<and> holds held' s'"
proof (induction steps held s rule: client.induct)
  case (1 held s)
  then show ?case by simp
next
  case (2 sz steps held s)
  obtain r s' where "buddy_alloc sz s = Some (r, s')" "holds (case r of None \<Rightarrow> held | Some a \<Rightarrow> a # held) s'"
    using holds_request [of held s sz] "2.prems" by auto
  with "2.IH" "2.prems"(2) show ?case by fastforce
next
  case (3 i steps held s)
  show ?case
  proof (cases "i < length held")
    case True
    have d: "distinct held" using "3.prems"(1) by (auto simp: holds_def)
    then have e: "distinct (take i held @ held ! i # drop (Suc i) held)" using id_take_nth_drop [OF True] by simp
    have "set held = set (take i held @ held ! i # drop (Suc i) held)" using id_take_nth_drop [OF True] by metis
    then have "set (take i held @ drop (Suc i) held) = set held - {held ! i}" using e by auto
    moreover have "distinct (take i held @ drop (Suc i) held)" using e by auto
    ultimately obtain s' where s': "buddy_free (held ! i) s = Some s'" "holds (take i held @ drop (Suc i) held) s'"
      using holds_free [OF "3.prems"(1) nth_mem [OF True]] by blast
    from "3.IH"(1) [OF True s'] "3.prems"(2) s'(1) True show ?thesis by simp
  next
    case False
    with "3.IH"(2) "3.prems" show ?thesis by auto
  qed
qed

lemma holds_free_all: "holds held s \<Longrightarrow> mset as = mset held \<Longrightarrow> \<exists>s'. free_all as s = Some s' \<and> buddy_inv s' Map.empty"
proof (induction as arbitrary: held s)
  case Nil
  then have "held = []" by simp
  with Nil.prems(1) obtain owned where "buddy_inv s owned" "dom owned = {}" by (auto simp: holds_def)
  then show ?case by simp
next
  case (Cons a as)
  have "distinct held" using Cons.prems(1) by (auto simp: holds_def)
  then have d: "distinct (a # as)" using mset_eq_imp_distinct_iff [OF Cons.prems(2)] by simp
  have "set held = set (a # as)" using mset_eq_setD [OF Cons.prems(2)] by simp
  then have "a \<in> set held" "distinct as" "set as = set held - {a}" using d by auto
  from holds_free [OF Cons.prems(1) this] obtain s' where s': "buddy_free a s = Some s'" "holds as s'" by blast
  from Cons.IH [OF s'(2) refl] s'(1) show ?case by simp
qed

lemma buddy_dump_unheld:
  assumes "buddy_inv s Map.empty"
  shows "buddy_dump s = Some [(0, 4), (0, 8), (0, 16), (0, 32), (0, 64), (0, 128), (0, 256), (0, 512), (1, 1024)]"
proof -
  have m: "maximal_free Map.empty p k \<longleftrightarrow> p = 0 \<and> k = 20" for p k
    by (auto simp: maximal_free_def unowned_def blk_def dvd_def)
  have "{p. maximal_free Map.empty p k} = (if k = 20 then {0} else {})" for k by (auto simp: m)
  then show ?thesis by (simp add: buddy_dump_owned [OF assms] upt_rec_numeral)
qed

text \<open>C7: After any history of requests of at most 1 GiB and frees, from \<open>buddy_init\<close> on, freeing the
  blocks still held, in any order, merges everything: every call returns, and \<open>buddy_dump\<close> then
  prints one block of 1024 KiB and no other.\<close>

theorem buddy_all_freed_coalesces:
  assumes "\<forall>sz. Request sz \<in> set steps \<longrightarrow> sz \<le> 2 ^ 30"
  shows "\<exists>held s. client steps [] (buddy_init s0) = Some (held, s) \<and>
    (\<forall>as. mset as = mset held \<longrightarrow> (\<exists>s'. free_all as s = Some s' \<and> buddy_dump s' =
      Some [(0, 4), (0, 8), (0, 16), (0, 32), (0, 64), (0, 128), (0, 256), (0, 512), (1, 1024)]))"
proof -
  have "holds [] (buddy_init s0)" using buddy_init_inv [of s0] by (auto simp: holds_def)
  from holds_client [OF this assms] show ?thesis using holds_free_all buddy_dump_unheld by metis
qed

text \<open>A block of 64 KiB is split off and freed again.\<close>

theorem buddy_all_freed_coalesces_witness:
  "\<exists>a s s'. buddy_alloc 45056 (buddy_init buddy_bss) = Some (Some a, s) \<and> buddy_free a s = Some s' \<and> buddy_dump s' =
    Some [(0, 4), (0, 8), (0, 16), (0, 32), (0, 64), (0, 128), (0, 256), (0, 512), (1, 1024)]"
proof -
  obtain a s where r: "buddy_alloc 45056 (buddy_init buddy_bss) = Some (Some a, s)" using first_alloc [of buddy_bss] by blast
  then have c: "client [Request 45056] [] (buddy_init buddy_bss) = Some ([a], s)" by simp
  have "\<forall>sz. Request sz \<in> set [Request 45056] \<longrightarrow> sz \<le> 2 ^ 30" by simp
  from buddy_all_freed_coalesces [OF this, of buddy_bss] obtain held t where
    t: "client [Request 45056] [] (buddy_init buddy_bss) = Some (held, t)"
      "\<forall>as. mset as = mset held \<longrightarrow> (\<exists>s'. free_all as t = Some s' \<and> buddy_dump s' =
        Some [(0, 4), (0, 8), (0, 16), (0, 32), (0, 64), (0, 128), (0, 256), (0, 512), (1, 1024)])" by blast
  from t(1) c have "held = [a]" "t = s" by simp_all
  with t(2) obtain s' where
    s': "free_all [a] s = Some s'" "buddy_dump s' =
      Some [(0, 4), (0, 8), (0, 16), (0, 32), (0, 64), (0, 128), (0, 256), (0, 512), (1, 1024)]" by blast
  then have "buddy_free a s = Some s'" by (cases "buddy_free a s") auto
  with r s'(2) show ?thesis by blast
qed

end
