(* ===== verification/CStrings.thy ===== *)
theory CStrings
  imports Prelude
begin

text \<open>
  The C string and \<open>scanf\<close> vocabulary the programs share: a buffer is a list of characters,
  the string in it ends before the first NUL. The \<open>sscanf\<close> directives the sources use
  (\<open>%c\<close>, \<open>%d\<close>, \<open>%x\<close> and literal characters) are scanners that return the rest of the
  input, \<open>None\<close> for a matching failure.
\<close>

definition NUL :: char where "NUL = CHR 0x00"

definition TAB :: char where "TAB = CHR 0x09"
definition NL :: char where "NL = CHR 0x0A"
definition CR :: char where "CR = CHR 0x0D"

lemmas char_consts [simp] = NUL_def TAB_def NL_def CR_def

definition cstr :: "char list \<Rightarrow> string" where
  "cstr buf = takeWhile (\<lambda>c. c \<noteq> NUL) buf"

definition terminated :: "char list \<Rightarrow> bool" where
  "terminated buf \<longleftrightarrow> NUL \<in> set buf"

fun has_prefix :: "string \<Rightarrow> string \<Rightarrow> bool" where
  "has_prefix [] s = True"
| "has_prefix (c # cs) [] = False"
| "has_prefix (c # cs) (d # ds) = (c = d \<and> has_prefix cs ds)"

fun strstr :: "string \<Rightarrow> string \<Rightarrow> bool" where
  "strstr [] needle = has_prefix needle []"
| "strstr (c # cs) needle = (has_prefix needle (c # cs) \<or> strstr cs needle)"

definition char_nat :: "char \<Rightarrow> nat" where
  "char_nat c = (of_char c :: nat)"

definition is_digit :: "char \<Rightarrow> bool" where
  "is_digit c \<longleftrightarrow> 48 \<le> char_nat c \<and> char_nat c \<le> 57"

definition is_lower :: "char \<Rightarrow> bool" where
  "is_lower c \<longleftrightarrow> 97 \<le> char_nat c \<and> char_nat c \<le> 122"

definition is_upper :: "char \<Rightarrow> bool" where
  "is_upper c \<longleftrightarrow> 65 \<le> char_nat c \<and> char_nat c \<le> 90"

definition isalpha :: "char \<Rightarrow> bool" where
  "isalpha c \<longleftrightarrow> is_lower c \<or> is_upper c"

definition isalnum :: "char \<Rightarrow> bool" where
  "isalnum c \<longleftrightarrow> isalpha c \<or> is_digit c"

definition isspace :: "char \<Rightarrow> bool" where
  "isspace c \<longleftrightarrow> c = CHR '' '' \<or> 9 \<le> char_nat c \<and> char_nat c \<le> 13"

lemmas char_class_defs = char_nat_def is_digit_def is_lower_def is_upper_def isalpha_def isalnum_def isspace_def

subsection \<open>Scanners\<close>

fun scan_char :: "string \<Rightarrow> (char \<times> string) option" where
  "scan_char [] = None"
| "scan_char (c # cs) = Some (c, cs)"

fun scan_lit :: "string \<Rightarrow> string \<Rightarrow> string option" where
  "scan_lit [] s = Some s"
| "scan_lit (c # cs) [] = None"
| "scan_lit (c # cs) (d # ds) = (if c = d then scan_lit cs ds else None)"

text \<open>Ordinary characters of a \<open>scanf\<close> format: white space matches any run of it.\<close>

fun scan_text :: "string \<Rightarrow> string \<Rightarrow> string option" where
  "scan_text [] s = Some s"
| "scan_text (c # cs) s =
     (if isspace c then scan_text cs (dropWhile isspace s)
      else case s of [] \<Rightarrow> None | d # ds \<Rightarrow> if c = d then scan_text cs ds else None)"

text \<open>\<open>fgets\<close> with room for \<open>n\<close> characters: the line, the rest of the input, and whether the end
  of the input was met. Without a character it returns \<open>NULL\<close> and leaves the buffer alone.\<close>

fun fgets :: "nat \<Rightarrow> string \<Rightarrow> string \<times> string \<times> bool" where
  "fgets 0 s = ([], s, False)"
| "fgets (Suc n) [] = ([], [], True)"
| "fgets (Suc n) (c # s) =
     (if c = NL then ([c], s, False) else (let (line, rest, eof) = fgets n s in (c # line, rest, eof)))"

definition digit_val :: "char \<Rightarrow> int" where
  "digit_val c = int (char_nat c) - 48"

definition digits_val :: "string \<Rightarrow> int" where
  "digits_val ds = fold (\<lambda>d n. 10 * n + digit_val d) ds 0"

text \<open>\<open>strtol\<close> in base 10 on the text after white space: sign, digits, value saturated to the
  64-bit \<open>long\<close> range, and whether it saturated (\<open>errno = ERANGE\<close>).\<close>

definition LONG_MAX :: int where "LONG_MAX = 2 ^ 63 - 1"

definition saturate_long :: "int \<Rightarrow> int \<times> bool" where
  "saturate_long n =
     (if LONG_MAX < n then (LONG_MAX, True)
      else if n < - LONG_MAX - 1 then (- LONG_MAX - 1, True)
      else (n, False))"

definition split_sign :: "string \<Rightarrow> bool \<times> string" where
  "split_sign s =
     (case s of [] \<Rightarrow> (False, [])
      | c # cs \<Rightarrow> if c = CHR ''-'' then (True, cs) else if c = CHR ''+'' then (False, cs) else (False, s))"

definition strtol_scan :: "string \<Rightarrow> ((int \<times> bool) \<times> string) option" where
  "strtol_scan s =
     (let (neg, t) = split_sign (dropWhile isspace s);
          ds = takeWhile is_digit t
      in if ds = [] then None
         else Some (saturate_long (if neg then - digits_val ds else digits_val ds), dropWhile is_digit t))"

text \<open>\<open>%d\<close> stores the \<open>long\<close> in an \<open>int\<close>; \<open>atoi\<close> is \<open>strtol\<close> cut to \<open>int\<close>, 0 without digits.\<close>

definition scan_int :: "string \<Rightarrow> ((int \<times> bool) \<times> string) option" where
  "scan_int s = map_option (\<lambda>((n, e), r). ((wrap32 n, e), r)) (strtol_scan s)"

definition strtol10 :: "string \<Rightarrow> int" where
  "strtol10 s = (case strtol_scan s of None \<Rightarrow> 0 | Some ((n, e), r) \<Rightarrow> n)"

definition atoi :: "string \<Rightarrow> int" where
  "atoi s = wrap32 (strtol10 s)"

subsection \<open>Printing\<close>

text \<open>\<open>%d\<close>, \<open>%8d\<close> (padded on the left to a width) and \<open>%02x\<close> (of the 32-bit value).\<close>

definition digit_char :: "nat \<Rightarrow> char" where
  "digit_char d = (if d < 10 then char_of (48 + d) else char_of (87 + d))"

fun show_base :: "nat \<Rightarrow> nat \<Rightarrow> string" where
  "show_base b n = (if b < 2 \<or> n < b then [digit_char n] else show_base b (n div b) @ [digit_char (n mod b)])"

definition show_int :: "int \<Rightarrow> string" where
  "show_int n = (if n < 0 then CHR ''-'' # show_base 10 (nat (- n)) else show_base 10 (nat n))"

definition pad_left :: "nat \<Rightarrow> char \<Rightarrow> string \<Rightarrow> string" where
  "pad_left w c s = replicate (w - length s) c @ s"

definition show_hex :: "int \<Rightarrow> string" where
  "show_hex n = show_base 16 (nat (n mod 2 ^ 32))"

text \<open>\<open>%s\<close>; a \<open>NULL\<close> argument prints as \<open>(null)\<close>.\<close>

definition show_cstr :: "string option \<Rightarrow> string" where
  "show_cstr s = (case s of None \<Rightarrow> ''(null)'' | Some s \<Rightarrow> s)"

text \<open>\<open>%x\<close>: an optional sign and \<open>0x\<close>, then hexadecimal digits.\<close>

definition is_hex :: "char \<Rightarrow> bool" where
  "is_hex c \<longleftrightarrow> is_digit c \<or> 97 \<le> char_nat c \<and> char_nat c \<le> 102 \<or> 65 \<le> char_nat c \<and> char_nat c \<le> 70"

definition hex_val :: "char \<Rightarrow> int" where
  "hex_val c = (if is_digit c then digit_val c
     else if char_nat c < 97 then int (char_nat c) - 55 else int (char_nat c) - 87)"

definition scan_hex :: "string \<Rightarrow> (int \<times> string) option" where
  "scan_hex s =
     (let (neg, t) = split_sign (dropWhile isspace s);
          t = (case t of c # d # e # u \<Rightarrow> if c = CHR ''0'' \<and> (d = CHR ''x'' \<or> d = CHR ''X'') \<and> is_hex e then e # u else t
               | _ \<Rightarrow> t);
          ds = takeWhile is_hex t;
          n = min (fold (\<lambda>d n. 16 * n + hex_val d) ds 0) (2 ^ 64 - 1)
      in if ds = [] then None else Some (if neg then - n else n, dropWhile is_hex t))"

declare show_base.simps [simp del]

subsection \<open>Facts\<close>

lemma cstr_append_NUL [simp]: "NUL \<notin> set s \<Longrightarrow> cstr (s @ NUL # rest) = s"
  unfolding cstr_def by (subst takeWhile_append2) auto

lemma NUL_notin_cstr: "NUL \<notin> set (cstr buf)"
  unfolding cstr_def by (auto dest: set_takeWhileD)

lemma terminated_split: "terminated buf \<Longrightarrow> \<exists>rest. buf = cstr buf @ NUL # rest"
  unfolding terminated_def cstr_def
  by (metis (mono_tags, lifting) hd_dropWhile list.collapse dropWhile_eq_Nil_conv takeWhile_dropWhile_id)

lemma has_prefix_iff: "has_prefix p s \<longleftrightarrow> (\<exists>t. s = p @ t)"
  by (induction p s rule: has_prefix.induct) auto

lemma strstr_iff: "strstr s p \<longleftrightarrow> (\<exists>a b. s = a @ p @ b)"
proof (induction s p rule: strstr.induct)
  case (1 needle)
  then show ?case by (auto simp: has_prefix_iff)
next
  case (2 c cs needle)
  have "(\<exists>a b. c # cs = a @ needle @ b) \<longleftrightarrow> (\<exists>b. c # cs = needle @ b) \<or> (\<exists>a b. cs = a @ needle @ b)"
    by (metis Cons_eq_append_conv append_Cons append_Nil)
  with 2 show ?case by (auto simp: has_prefix_iff)
qed

lemma scan_lit_iff: "scan_lit p s = Some r \<longleftrightarrow> s = p @ r"
  by (induction p s rule: scan_lit.induct) auto

end
