(* ===== verification/BuddySim.thy ===== *)
theory BuddySim
  imports Buddy CStrings
begin

text \<open>
  \<open>project2/buddy/simulator.c\<close>: the program that reads \<open>alloc\<close> and \<open>free\<close> commands and
  drives the allocator. A line is the buffer \<open>getline\<close> filled: its characters, a NUL, and
  whatever an earlier, longer line left behind. What the program prints is a list of outputs.
  \<open>None\<close> is undefined behaviour.
\<close>

subsection \<open>Data\<close>

datatype status_t = SUCCESS | OUTOFMEMORY | DOUBLEFREE | BADINPUT

datatype severity_t = ERROR | WARNING

record var_t =
  mem :: "nat option"
  in_use :: bool

datatype sim_output =
    Fault severity_t nat string string
  | Out_of_memory
  | Dump "(nat \<times> nat) list"

record sim =
  var_map :: "char \<Rightarrow> var_t"
  linenum :: nat
  buddy :: buddy_state
  outputs :: "sim_output list"

definition emit :: "sim_output \<Rightarrow> sim \<Rightarrow> sim" where
  "emit out s = s\<lparr>outputs := outputs s @ [out]\<rparr>"

definition set_var :: "char \<Rightarrow> var_t \<Rightarrow> sim \<Rightarrow> sim" where
  "set_var v x s = s\<lparr>var_map := (var_map s)(v := x)\<rparr>"

subsection \<open>Commands\<close>

definition get_var :: "char \<Rightarrow> char option" where
  "get_var var = (if is_lower var \<or> is_upper var then Some var else None)"

definition print_fault :: "string \<Rightarrow> string \<Rightarrow> severity_t \<Rightarrow> sim \<Rightarrow> sim" where
  "print_fault cmd msg sev s = emit (Fault sev (linenum s) msg cmd) s"

definition parse_error :: "string \<Rightarrow> sim \<Rightarrow> status_t \<times> sim" where
  "parse_error cmd s = (BADINPUT, print_fault cmd ''Failed to parse command'' ERROR s)"

text \<open>\<open>sscanf(cmd, "%c=alloc(%d%c)", ...)\<close> with all three conversions made.\<close>

definition scan_alloc :: "string \<Rightarrow> (char \<times> int \<times> char \<times> bool) option" where
  "scan_alloc cmd = do {
     (var, r) \<leftarrow> scan_char cmd;
     r \<leftarrow> scan_lit ''=alloc('' r;
     ((n, err), r) \<leftarrow> scan_int r;
     (alter, r) \<leftarrow> scan_char r;
     Some (var, n, alter, err)
   }"

definition alloc_size :: "int \<Rightarrow> char \<Rightarrow> int" where
  "alloc_size n alter = (if alter = CHR ''k'' \<or> alter = CHR ''K'' then n * 1024 else n)"

definition parse_alloc :: "string \<Rightarrow> sim \<Rightarrow> (status_t \<times> sim) option" where
  "parse_alloc cmd s =
     (case scan_alloc cmd of
        None \<Rightarrow> Some (parse_error cmd s)
      | Some (var_name, n, alter, err) \<Rightarrow>
          if err \<or> alter \<notin> {CHR ''k'', CHR ''K'', CHR '')''} then Some (parse_error cmd s)
          else if \<not> int32 (alloc_size n alter) then None
          else case get_var var_name of
            None \<Rightarrow> Some (parse_error cmd s)
          | Some v \<Rightarrow> do {
              (r, b) \<leftarrow> buddy_alloc (alloc_size n alter) (buddy s);
              let s = set_var v ((var_map s v)\<lparr>mem := r\<rparr>) (s\<lparr>buddy := b\<rparr>);
              if r = None
              then Some (OUTOFMEMORY, emit Out_of_memory (print_fault cmd ''buddy_alloc returned NULL'' WARNING s))
              else Some (SUCCESS, set_var v ((var_map s v)\<lparr>in_use := True\<rparr>) s)
            })"

definition scan_free :: "string \<Rightarrow> char option" where
  "scan_free cmd = do { r \<leftarrow> scan_lit ''free('' cmd; (var, r) \<leftarrow> scan_char r; Some var }"

text \<open>\<open>buddy_free(NULL)\<close> subtracts unrelated pointers: undefined.\<close>

definition parse_free :: "string \<Rightarrow> sim \<Rightarrow> (status_t \<times> sim) option" where
  "parse_free cmd s =
     (case Option.bind (scan_free cmd) get_var of
        None \<Rightarrow> Some (parse_error cmd s)
      | Some v \<Rightarrow>
          if \<not> in_use (var_map s v)
          then Some (DOUBLEFREE, print_fault cmd ''Double free'' ERROR s)
          else do {
            a \<leftarrow> mem (var_map s v);
            b \<leftarrow> buddy_free a (buddy s);
            Some (SUCCESS, set_var v \<lparr>mem = None, in_use = False\<rparr> (s\<lparr>buddy := b\<rparr>))
          })"

text \<open>The in-place removal of white space: \<open>ws_cursor\<close> and the buffer, one step per index.\<close>

definition is_ws :: "char \<Rightarrow> bool" where
  "is_ws c \<longleftrightarrow> c = CHR '' '' \<or> c = NL \<or> c = CR \<or> c = TAB"

definition strip_step :: "nat \<Rightarrow> nat \<times> char list \<Rightarrow> nat \<times> char list" where
  "strip_step i st = (case st of (ws_cursor, cmd) \<Rightarrow>
     if is_ws (cmd ! i) then (ws_cursor, cmd) else (Suc ws_cursor, cmd[ws_cursor := cmd ! i]))"

definition strip :: "char list \<Rightarrow> char list" where
  "strip cmd = snd (fold strip_step [0..<length cmd] (0, cmd))"

definition parse_command :: "char list \<Rightarrow> sim \<Rightarrow> (status_t \<times> sim) option" where
  "parse_command buf s =
     (if buf = [] then None
      else if hd buf = NUL \<or> hd buf = NL \<or> hd buf = CR then Some (SUCCESS, s)
      else
        let cmd = cstr (strip buf) in do {
          (status, s) \<leftarrow>
            (if strstr cmd ''alloc'' then parse_alloc cmd s
             else if strstr cmd ''free'' then parse_free cmd s
             else Some (parse_error cmd s));
          if status \<noteq> SUCCESS then Some (status, s)
          else do { d \<leftarrow> buddy_dump (buddy s); Some (SUCCESS, emit (Dump d) s) }
        })"

fun parse_file :: "char list list \<Rightarrow> sim \<Rightarrow> (status_t \<times> sim) option" where
  "parse_file [] s = Some (SUCCESS, s)"
| "parse_file (buf # bufs) s = do {
     (status, s) \<leftarrow> parse_command buf (s\<lparr>linenum := Suc (linenum s)\<rparr>);
     if status = SUCCESS then parse_file bufs s else Some (status, s)
   }"

text \<open>\<open>main\<close> after the options: clear the variables, initialise, run; the result is whether the
  exit status is \<open>EXIT_SUCCESS\<close>, with the final state.\<close>

definition sim_start :: "buddy_state \<Rightarrow> sim" where
  "sim_start b = \<lparr>var_map = (\<lambda>_. \<lparr>mem = None, in_use = False\<rparr>), linenum = 0, buddy = buddy_init b, outputs = []\<rparr>"

definition simulator_main :: "char list list \<Rightarrow> buddy_state \<Rightarrow> (bool \<times> sim) option" where
  "simulator_main bufs b = do {
     (status, s) \<leftarrow> parse_file bufs (sim_start b);
     Some (status = SUCCESS, s)
   }"

subsection \<open>White space\<close>

text \<open>Compaction in place keeps the characters that are not white space: the prefix written
  so far never overtakes the index read.\<close>

lemma strip_step_pair:
  "strip_step i (w, cmd) = (if is_ws (cmd ! i) then (w, cmd) else (Suc w, cmd[w := cmd ! i]))"
  by (simp add: strip_step_def)

lemma strip_fold:
  assumes "i \<le> length buf"
  shows "\<exists>cmd. fold strip_step [0..<i] (0, buf) = (length (filter (\<lambda>c. \<not> is_ws c) (take i buf)), cmd) \<and>
    length cmd = length buf \<and> take (length (filter (\<lambda>c. \<not> is_ws c) (take i buf))) cmd = filter (\<lambda>c. \<not> is_ws c) (take i buf) \<and>
    drop i cmd = drop i buf"
  using assms
proof (induction i)
  case 0
  then show ?case by simp
next
  case (Suc i)
  let ?f = "\<lambda>i. filter (\<lambda>c. \<not> is_ws c) (take i buf)"
  obtain cmd where IH: "fold strip_step [0..<i] (0, buf) = (length (?f i), cmd)" "length cmd = length buf"
      "take (length (?f i)) cmd = ?f i" "drop i cmd = drop i buf"
    using Suc by auto
  have nth: "cmd ! i = buf ! i"
    using IH(2,4) Suc.prems by (metis Cons_nth_drop_Suc Suc_le_lessD list.inject)
  have tk: "?f (Suc i) = ?f i @ (if is_ws (buf ! i) then [] else [buf ! i])"
    using Suc.prems by (simp add: take_Suc_conv_app_nth)
  have le: "length (?f i) \<le> i" using length_filter_le [of _ "take i buf"] Suc.prems by auto
  have drop: "drop (Suc i) cmd = drop (Suc i) buf" using arg_cong [OF IH(4), of "drop 1"] by simp
  have put: "take (Suc w) (xs[w := x]) = take w xs @ [x]" if "w < length xs" for w x and xs :: "char list"
    using that by (simp add: take_Suc_conv_app_nth)
  show ?case
    using IH(1,2,3) le drop Suc.prems put [of "length (?f i)" cmd]
    by (simp add: strip_step_pair nth tk)
qed

lemma strip_prefix:
  obtains rest where "strip buf = filter (\<lambda>c. \<not> is_ws c) buf @ rest"
proof -
  from strip_fold [of "length buf" buf] have "take (length (filter (\<lambda>c. \<not> is_ws c) buf)) (strip buf) = filter (\<lambda>c. \<not> is_ws c) buf"
      "fst (fold strip_step [0..<length buf] (0, buf)) = length (filter (\<lambda>c. \<not> is_ws c) buf)"
    by (auto simp: strip_def)
  then show thesis using that by (metis append_take_drop_id)
qed

lemma cstr_strip:
  assumes "terminated buf"
  shows "cstr (strip buf) = filter (\<lambda>c. \<not> is_ws c) (cstr buf)"
proof -
  obtain rest where buf: "buf = cstr buf @ NUL # rest" using terminated_split [OF assms] by blast
  obtain rest' where "strip buf = filter (\<lambda>c. \<not> is_ws c) buf @ rest'" by (rule strip_prefix)
  moreover have "filter (\<lambda>c. \<not> is_ws c) buf = filter (\<lambda>c. \<not> is_ws c) (cstr buf) @ NUL # filter (\<lambda>c. \<not> is_ws c) rest"
    by (subst buf) (simp add: is_ws_def del: char_consts, simp)
  moreover have "NUL \<notin> set (filter (\<lambda>c. \<not> is_ws c) (cstr buf))" using NUL_notin_cstr by auto
  ultimately show ?thesis using cstr_append_NUL by simp
qed

subsection \<open>The variables hold distinct blocks\<close>

definition sim_inv :: "sim \<Rightarrow> (nat \<rightharpoonup> nat) \<Rightarrow> bool" where
  "sim_inv s owned \<longleftrightarrow>
     buddy_inv (buddy s) owned \<and>
     (\<forall>v. in_use (var_map s v) \<longrightarrow> (\<exists>p. mem (var_map s v) = Some (PAGE_TO_ADDR p) \<and> p \<in> dom owned)) \<and>
     (\<forall>v w. in_use (var_map s v) \<and> in_use (var_map s w) \<and> mem (var_map s v) = mem (var_map s w) \<longrightarrow> v = w)"

lemma PAGE_TO_ADDR_inj: "PAGE_TO_ADDR p = PAGE_TO_ADDR q \<longleftrightarrow> p = q"
  by (metis ADDR_TO_PAGE_PAGE)

lemma emit_simps [simp]:
  "var_map (emit out s) = var_map s" "buddy (emit out s) = buddy s" "linenum (emit out s) = linenum s"
  "var_map (print_fault cmd msg sev s) = var_map s" "buddy (print_fault cmd msg sev s) = buddy s"
  "fst (parse_error cmd s) = BADINPUT"
  "var_map (set_var v x s) = (var_map s)(v := x)" "buddy (set_var v x s) = buddy s"
  by (simp_all add: emit_def print_fault_def parse_error_def set_var_def)

lemma sim_inv_cong [simp]:
  "sim_inv (emit out s) = sim_inv s" "sim_inv (s\<lparr>linenum := n\<rparr>) = sim_inv s"
  by (simp_all add: sim_inv_def fun_eq_iff)

text \<open>A command is safe when it is defined and, if the run goes on, keeps the invariant.\<close>

definition safe :: "(status_t \<times> sim) option \<Rightarrow> bool" where
  "safe r \<longleftrightarrow> (\<exists>st s'. r = Some (st, s') \<and> (st = SUCCESS \<longrightarrow> (\<exists>owned. sim_inv s' owned)))"

lemma safe_simps [simp]:
  "\<not> safe None" "safe (Some (st, s)) \<longleftrightarrow> (st = SUCCESS \<longrightarrow> (\<exists>owned. sim_inv s owned))" "safe (Some (parse_error cmd s))"
  by (simp_all add: safe_def parse_error_def)

lemma buddy_alloc_held:
  assumes "buddy_inv b owned" and "buddy_alloc sz b = Some (Some a, b')"
  obtains p k where "a = PAGE_TO_ADDR p" "owned p = None" "buddy_inv b' (owned(p \<mapsto> k))"
proof -
  obtain B where B: "buddy_rel b B (dom owned) {}" "\<And>p k. owned p = Some k \<Longrightarrow> B p = Some k"
    using buddy_invE [OF assms(1)] by blast
  from B(1) assms(2) show thesis
  proof (cases rule: buddy_alloc_cases)
    case (block p k B')
    have "B' q = Some l" if "(owned(p \<mapsto> k)) q = Some l" for q l
      using that block(7) block(8) [of q] B(2) [of q] by (cases "q = p") auto
    with block(6) have "buddy_inv b' (owned(p \<mapsto> k))" by (intro buddy_invI [of _ B']) auto
    moreover have "owned p = None" using block(5) by (simp add: domIff)
    ultimately show thesis using block(1) that by auto
  qed simp
qed

lemma buddy_alloc_defined:
  assumes "buddy_inv b owned" and "sz \<le> 2 ^ 30"
  obtains r b' where "buddy_alloc sz b = Some (r, b')"
proof -
  obtain k where k: "find_order 12 sz = Some k" using find_order_fits [of 12 sz] assms(2) by auto
  obtain B where B: "buddy_rel b B (dom owned) {}" using assms(1) unfolding buddy_inv_def by blast
  from buddy_alloc_total [OF B k] that show thesis by blast
qed

lemma sim_inv_var:
  "sim_inv s owned \<Longrightarrow> in_use (var_map s v) \<Longrightarrow> \<exists>p k. mem (var_map s v) = Some (PAGE_TO_ADDR p) \<and> owned p = Some k"
  unfolding sim_inv_def by blast

subsection \<open>One command\<close>

text \<open>Requests the allocator's arithmetic covers: the size after the \<open>k\<close> factor.\<close>

definition request_ok :: "string \<Rightarrow> bool" where
  "request_ok cmd \<longleftrightarrow>
     (case scan_alloc cmd of None \<Rightarrow> True
      | Some (v, n, alter, err) \<Rightarrow> INT_MIN \<le> alloc_size n alter \<and> alloc_size n alter \<le> 2 ^ 30)"

lemma parse_alloc_safe:
  assumes inv: "sim_inv s owned" and ok: "request_ok cmd"
  shows "safe (parse_alloc cmd s)"
proof (cases "scan_alloc cmd")
  case None
  then show ?thesis by (simp add: parse_alloc_def)
next
  case (Some q)
  obtain v n alter err where q: "q = (v, n, alter, err)" by (cases q)
  define n' where "n' = alloc_size n alter"
  have n': "int32 n'" "n' \<le> 2 ^ 30"
    using ok Some unfolding q n'_def request_ok_def int32_def INT_MAX_def by auto
  show ?thesis
  proof (cases "err \<or> alter \<notin> {CHR ''k'', CHR ''K'', CHR '')''} \<or> get_var v = None")
    case True
    then show ?thesis using Some n'(1)
      by (auto simp: parse_alloc_def q n'_def)
  next
    case False
    then have v: "get_var v = Some v" by (auto simp: get_var_def split: if_splits)
    have binv: "buddy_inv (buddy s) owned" using inv by (simp add: sim_inv_def)
    obtain r b' where a: "buddy_alloc n' (buddy s) = Some (r, b')"
      using buddy_alloc_defined [OF binv n'(2)] .
    show ?thesis
    proof (cases r)
      case None
      then show ?thesis using Some False v n'(1) a
        by (auto simp: parse_alloc_def q n'_def Let_def simp del: fun_upd_apply)
    next
      case (Some addr)
      obtain p k where p: "addr = PAGE_TO_ADDR p" "owned p = None" "buddy_inv b' (owned(p \<mapsto> k))"
        using buddy_alloc_held [OF binv a [unfolded Some]] .
      let ?s = "set_var v ((var_map s v)\<lparr>mem := Some addr, in_use := True\<rparr>) (s\<lparr>buddy := b'\<rparr>)"
      have "var_map s w = x \<Longrightarrow> in_use x \<Longrightarrow> \<exists>q l. mem x = Some (PAGE_TO_ADDR q) \<and> owned q = Some l" for w x
        using sim_inv_var [OF inv] by auto
      moreover have "\<forall>w w'. in_use (var_map s w) \<and> in_use (var_map s w') \<and> mem (var_map s w) = mem (var_map s w') \<longrightarrow> w = w'"
        using inv by (simp add: sim_inv_def)
      ultimately have "sim_inv ?s (owned(p \<mapsto> k))"
        using p by (auto simp: sim_inv_def PAGE_TO_ADDR_inj) (metis domI option.distinct(1) PAGE_TO_ADDR_inj option.inject)+
      then show ?thesis using \<open>scan_alloc cmd = Some q\<close> False v n'(1) a
        by (auto simp: parse_alloc_def q n'_def Let_def Some set_var_def fun_upd_same)
    qed
  qed
qed

lemma parse_free_safe:
  assumes inv: "sim_inv s owned"
  shows "safe (parse_free cmd s)"
proof (cases "Option.bind (scan_free cmd) get_var")
  case None
  then show ?thesis by (simp add: parse_free_def)
next
  case (Some v)
  show ?thesis
  proof (cases "in_use (var_map s v)")
    case False
    then show ?thesis using Some by (simp add: parse_free_def)
  next
    case True
    obtain p k where p: "mem (var_map s v) = Some (PAGE_TO_ADDR p)" "owned p = Some k"
      using sim_inv_var [OF inv True] by blast
    have "buddy_inv (buddy s) owned" using inv by (simp add: sim_inv_def)
    from buddy_free_owned [OF this p(2)] obtain b' where
      b': "buddy_free (PAGE_TO_ADDR p) (buddy s) = Some b'" "buddy_inv b' (owned(p := None))" by blast
    have other: "\<exists>q. mem (var_map s w) = Some (PAGE_TO_ADDR q) \<and> q \<in> dom owned \<and> q \<noteq> p"
      if "in_use (var_map s w)" "w \<noteq> v" for w
      using sim_inv_var [OF inv that(1)] that inv True p(1) unfolding sim_inv_def by (metis domI)
    have "sim_inv (set_var v \<lparr>mem = None, in_use = False\<rparr> (s\<lparr>buddy := b'\<rparr>)) (owned(p := None))"
      using b'(2) inv other by (auto simp: sim_inv_def)
    then show ?thesis using Some True p(1) b'(1) by (auto simp: parse_free_def)
  qed
qed

lemma parse_command_stripped:
  assumes "terminated buf" "buf \<noteq> []" "hd buf \<notin> {NUL, NL, CR}"
  shows "parse_command buf s =
    (let cmd = filter (\<lambda>c. \<not> is_ws c) (cstr buf) in do {
       (status, s) \<leftarrow>
         (if strstr cmd ''alloc'' then parse_alloc cmd s
          else if strstr cmd ''free'' then parse_free cmd s
          else Some (parse_error cmd s));
       if status \<noteq> SUCCESS then Some (status, s)
       else do { d \<leftarrow> buddy_dump (buddy s); Some (SUCCESS, emit (Dump d) s) }
     })"
  using assms by (simp add: parse_command_def cstr_strip del: char_consts)

definition line_ok :: "char list \<Rightarrow> bool" where
  "line_ok buf \<longleftrightarrow> terminated buf \<and> request_ok (filter (\<lambda>c. \<not> is_ws c) (cstr buf))"

lemma parse_command_safe:
  assumes inv: "sim_inv s owned" and buf: "line_ok buf"
  shows "safe (parse_command buf s)"
proof (cases "hd buf \<in> {NUL, NL, CR}")
  case True
  have "buf \<noteq> []" using buf by (auto simp: line_ok_def terminated_def)
  then show ?thesis using True inv by (auto simp: parse_command_def)
next
  case False
  define cmd where "cmd = filter (\<lambda>c. \<not> is_ws c) (cstr buf)"
  have b: "terminated buf" "buf \<noteq> []" "request_ok cmd" using buf by (auto simp: line_ok_def terminated_def cmd_def)
  define run where "run = (if strstr cmd ''alloc'' then parse_alloc cmd s
          else if strstr cmd ''free'' then parse_free cmd s else Some (parse_error cmd s))"
  have "safe run"
    unfolding run_def using parse_alloc_safe [OF inv b(3)] parse_free_safe [OF inv] by auto
  then obtain st s' where r: "run = Some (st, s')" "st = SUCCESS \<Longrightarrow> \<exists>owned'. sim_inv s' owned'"
    unfolding safe_def by blast
  show ?thesis
  proof (cases "st = SUCCESS")
    case True
    then obtain owned' where o: "sim_inv s' owned'" using r(2) by blast
    then obtain d where "buddy_dump (buddy s') = Some d" using buddy_dump_owned by (auto simp: sim_inv_def)
    with True o r(1) show ?thesis
      unfolding parse_command_stripped [OF b(1,2) False] cmd_def [symmetric] Let_def run_def [symmetric] by auto
  next
    case st: False
    with r(1) show ?thesis
      unfolding parse_command_stripped [OF b(1,2) False] cmd_def [symmetric] Let_def run_def [symmetric] by auto
  qed
qed

subsection \<open>Properties\<close>

lemma parse_file_safe:
  assumes "sim_inv s owned" and "\<forall>buf \<in> set bufs. line_ok buf"
  shows "safe (parse_file bufs s)"
  using assms
proof (induction bufs arbitrary: s owned)
  case Nil
  then show ?case by auto
next
  case (Cons buf bufs)
  have "sim_inv (s\<lparr>linenum := Suc (linenum s)\<rparr>) owned" using Cons.prems(1) by simp
  then have "safe (parse_command buf (s\<lparr>linenum := Suc (linenum s)\<rparr>))"
    by (rule parse_command_safe) (use Cons.prems in simp)
  then obtain st s' where r: "parse_command buf (s\<lparr>linenum := Suc (linenum s)\<rparr>) = Some (st, s')"
      "st = SUCCESS \<Longrightarrow> \<exists>owned. sim_inv s' owned"
    unfolding safe_def by blast
  show ?case
  proof (cases "st = SUCCESS")
    case True
    then obtain owned' where "sim_inv s' owned'" using r(2) by blast
    from Cons.IH [OF this] show ?thesis using Cons.prems r(1) True by simp
  qed (use r(1) in simp)
qed

text \<open>C8: Whatever commands the input holds, the simulator finishes without undefined behaviour as
  long as no request is beyond the allocator's arithmetic: every \<open>buddy_free\<close> it makes is of a block
  that is held, and when it exits successfully the variables in use hold distinct live blocks.\<close>

theorem simulator_main_safe:
  assumes "\<forall>buf \<in> set bufs. line_ok buf"
  shows "\<exists>ok s. simulator_main bufs b = Some (ok, s) \<and> (ok \<longrightarrow> (\<exists>owned. sim_inv s owned))"
proof -
  have "sim_inv (sim_start b) Map.empty" by (simp add: sim_inv_def sim_start_def buddy_init_inv)
  from parse_file_safe [OF this assms] show ?thesis by (auto simp: simulator_main_def safe_def)
qed

theorem simulator_main_safe_witness:
  "\<exists>ok s. simulator_main [''A = alloc(80K)'' @ [NL, NUL], ''free(A)'' @ [NL, NUL]] buddy_bss = Some (ok, s) \<and>
    (ok \<longrightarrow> (\<exists>owned. sim_inv s owned))"
  by (rule simulator_main_safe) code_simp

text \<open>Removing white space in place, by one pass that reads at \<open>i\<close> and writes at
  \<open>ws_cursor\<close>, leaves the string of the characters of the line that are not white space.\<close>

lemma strip_in_place:
  assumes "terminated buf"
  shows "length (strip buf) = length buf \<and> cstr (strip buf) = filter (\<lambda>c. \<not> is_ws c) (cstr buf)"
  using cstr_strip [OF assms] strip_fold [of "length buf" buf] by (auto simp: strip_def)

lemma strip_in_place_witness:
  "cstr (strip (''a = b'' @ [NL, NUL, CHR ''x''])) = ''a=b''"
  using strip_in_place [of "''a = b'' @ [NL, NUL, CHR ''x'']"]
  by (simp add: terminated_def cstr_def is_ws_def)

text \<open>C9: \<open>free(v)\<close> on a variable in use releases exactly its block, clears the variable and touches
  no other; on a variable not in use it reports a double free and the allocator is unchanged.\<close>

theorem parse_free_releases:
  assumes "sim_inv s owned" and "scan_free cmd = Some v" and "get_var v = Some v"
  shows "if in_use (var_map s v)
    then \<exists>p s'. mem (var_map s v) = Some (PAGE_TO_ADDR p) \<and> p \<in> dom owned \<and> parse_free cmd s = Some (SUCCESS, s') \<and>
           buddy_inv (buddy s') (owned(p := None)) \<and>
           var_map s' = (var_map s)(v := \<lparr>mem = None, in_use = False\<rparr>) \<and> outputs s' = outputs s
    else \<exists>s'. parse_free cmd s = Some (DOUBLEFREE, s') \<and> buddy s' = buddy s \<and> var_map s' = var_map s"
proof (cases "in_use (var_map s v)")
  case False
  with assms show ?thesis by (simp add: parse_free_def)
next
  case True
  obtain p k where p: "mem (var_map s v) = Some (PAGE_TO_ADDR p)" "owned p = Some k"
    using sim_inv_var [OF assms(1) True] by blast
  have "buddy_inv (buddy s) owned" using assms(1) by (simp add: sim_inv_def)
  from buddy_free_owned [OF this p(2)] assms True p show ?thesis
    by (auto simp: parse_free_def set_var_def)
qed

theorem parse_free_releases_witness:
  "\<exists>s'. parse_free ''free(A)'' (sim_start buddy_bss) = Some (DOUBLEFREE, s') \<and>
     buddy s' = buddy_init buddy_bss \<and> (\<forall>v. \<not> in_use (var_map s' v))"
proof -
  have "sim_inv (sim_start buddy_bss) Map.empty" by (simp add: sim_inv_def sim_start_def buddy_init_inv)
  from parse_free_releases [OF this, of "''free(A)''" "CHR ''A''"] show ?thesis
    by (auto simp: sim_start_def scan_free_def get_var_def char_class_defs)
qed

end
