(* ===== verification/PriQueue.thy ===== *)
theory PriQueue
  imports Prelude
begin

text \<open>
  \<open>lab7/.../libpriqueue\<close>: the priority queue, a singly linked list of heap nodes in priority
  order. Nodes live in a heap of allocated cells with a bump allocator (\<open>malloc\<close> is taken to
  succeed, as the code does); addresses are numbers, 0 is \<open>NULL\<close>. An access to memory that is
  not allocated, a \<open>free\<close> of it and an undefined comparison make the operation \<open>None\<close>. Items
  are opaque pointers; the sizes and indices, \<open>int\<close> in the code, are natural numbers, so a queue has
  fewer than \<open>2 ^ 31\<close> nodes; the comparer reads them in the memory \<open>m\<close> of the client.
\<close>

subsection \<open>Nodes\<close>

record node_t =
  item :: nat
  next_node :: nat

record nheap =
  cells :: "nat \<Rightarrow> node_t option"
  brk :: nat

record 'm priqueue_t =
  comparer :: "'m \<Rightarrow> nat \<Rightarrow> nat \<Rightarrow> int option"
  pq_top :: nat

definition empty_nheap :: nheap where
  "empty_nheap = \<lparr>cells = (\<lambda>_. None), brk = 1\<rparr>"

definition load :: "nheap \<Rightarrow> nat \<Rightarrow> node_t option" where
  "load h p = (if p = 0 then None else cells h p)"

definition set_next :: "nat \<Rightarrow> nat \<Rightarrow> nheap \<Rightarrow> nheap option" where
  "set_next p n h = do { c \<leftarrow> load h p; Some (h\<lparr>cells := (cells h)(p := Some (c\<lparr>next_node := n\<rparr>))\<rparr>) }"

definition free_node :: "nat \<Rightarrow> nheap \<Rightarrow> nheap option" where
  "free_node p h = do { c \<leftarrow> load h p; Some (h\<lparr>cells := (cells h)(p := None)\<rparr>) }"

definition new_node :: "nat \<Rightarrow> nat \<Rightarrow> nheap \<Rightarrow> nat \<times> nheap" where
  "new_node x n h =
     (brk h, h\<lparr>cells := (cells h)(brk h := Some \<lparr>item = x, next_node = n\<rparr>), brk := Suc (brk h)\<rparr>)"

definition destroy_node :: "nat \<Rightarrow> nheap \<Rightarrow> (nat \<times> nheap) option" where
  "destroy_node node h =
     (if node = 0 then Some (0, h)
      else do { c \<leftarrow> load h node; h \<leftarrow> free_node node h; Some (item c, h) })"

partial_function (option) destroy_list :: "nat \<Rightarrow> nheap \<Rightarrow> nheap option" where
  "destroy_list node h =
     (if node = 0 then Some h
      else do { c \<leftarrow> load h node; h \<leftarrow> destroy_list (next_node c) h; free_node node h })"

text \<open>\<open>node_at\<close>: the node \<open>index\<close> steps down the chain, \<open>NULL\<close> past its end.\<close>

function node_at :: "nheap \<Rightarrow> nat \<Rightarrow> int \<Rightarrow> nat option" where
  "node_at h node index =
     (if index < 0 \<or> node = 0 then Some 0
      else if index = 0 then Some node
      else do { c \<leftarrow> load h node; node_at h (next_node c) (index - 1) })"
  by pat_completeness auto
termination by (relation "measure (\<lambda>(h, node, index). nat index)") auto

declare node_at.simps [simp del]

partial_function (option) list_size :: "nat \<Rightarrow> nheap \<Rightarrow> nat option" where
  "list_size node h =
     (if node = 0 then Some 0
      else do { c \<leftarrow> load h node; n \<leftarrow> list_size (next_node c) h; Some (1 + n) })"

declare destroy_list.simps [code] list_size.simps [code]

subsection \<open>The queue\<close>

definition priqueue_init :: "('m \<Rightarrow> nat \<Rightarrow> nat \<Rightarrow> int option) \<Rightarrow> 'm priqueue_t" where
  "priqueue_init cmp = \<lparr>comparer = cmp, pq_top = 0\<rparr>"

partial_function (option) offer_loop ::
  "'m \<Rightarrow> nat \<Rightarrow> nat \<Rightarrow> nat \<Rightarrow> nat \<Rightarrow> 'm priqueue_t \<Rightarrow> nheap \<Rightarrow> (nat \<times> 'm priqueue_t \<times> nheap) option" where
  "offer_loop m ptr i prev target q h =
     (if target = 0 then
        let (node, h) = new_node ptr target h
        in do { h \<leftarrow> set_next prev node h; Some (i, q, h) }
      else do {
        c \<leftarrow> load h target;
        cmp \<leftarrow> comparer q m ptr (item c);
        if cmp < 0 then
          let (node, h) = new_node ptr target h
          in if i = 0 then Some (i, q\<lparr>pq_top := node\<rparr>, h)
             else do { h \<leftarrow> set_next prev node h; Some (i, q, h) }
        else offer_loop m ptr (Suc i) target (next_node c) q h
      })"

definition priqueue_offer :: "'m \<Rightarrow> nat \<Rightarrow> 'm priqueue_t \<Rightarrow> nheap \<Rightarrow> (nat \<times> 'm priqueue_t \<times> nheap) option" where
  "priqueue_offer m ptr q h =
     (if pq_top q = 0 then
        let (node, h) = new_node ptr 0 h in Some (0, q\<lparr>pq_top := node\<rparr>, h)
      else offer_loop m ptr 0 0 (pq_top q) q h)"

definition priqueue_at :: "'m priqueue_t \<Rightarrow> nheap \<Rightarrow> int \<Rightarrow> nat option" where
  "priqueue_at q h index = do {
     node \<leftarrow> (if pq_top q = 0 then Some 0 else node_at h (pq_top q) index);
     if node = 0 then Some 0 else do { c \<leftarrow> load h node; Some (item c) }
   }"

definition priqueue_peek :: "'m priqueue_t \<Rightarrow> nheap \<Rightarrow> nat option" where
  "priqueue_peek q h = priqueue_at q h 0"

definition priqueue_remove_at :: "int \<Rightarrow> 'm priqueue_t \<Rightarrow> nheap \<Rightarrow> (nat \<times> 'm priqueue_t \<times> nheap) option" where
  "priqueue_remove_at index q h =
     (if index < 0 \<or> pq_top q = 0 then Some (0, q, h)
      else if index = 0 then do {
        c \<leftarrow> load h (pq_top q);
        (x, h) \<leftarrow> destroy_node (pq_top q) h;
        Some (x, q\<lparr>pq_top := next_node c\<rparr>, h)
      }
      else do {
        prev \<leftarrow> node_at h (pq_top q) (index - 1);
        if prev = 0 then Some (0, q, h)
        else do {
          c \<leftarrow> load h prev;
          if next_node c = 0 then Some (0, q, h)
          else do {
            r \<leftarrow> load h (next_node c);
            h \<leftarrow> set_next prev (next_node r) h;
            (x, h) \<leftarrow> destroy_node (next_node c) h;
            Some (x, q, h)
          }
        }
      })"

definition priqueue_poll :: "'m priqueue_t \<Rightarrow> nheap \<Rightarrow> (nat \<times> 'm priqueue_t \<times> nheap) option" where
  "priqueue_poll q h = priqueue_remove_at 0 q h"

partial_function (option) remove_loop ::
  "nat \<Rightarrow> nat \<Rightarrow> nat \<Rightarrow> nat \<Rightarrow> 'm priqueue_t \<Rightarrow> nheap \<Rightarrow> (nat \<times> 'm priqueue_t \<times> nheap) option" where
  "remove_loop ptr prev target removed q h =
     (if target = 0 then Some (removed, q, h)
      else do {
        c \<leftarrow> load h target;
        if item c = ptr then do {
          q \<leftarrow> (if target = pq_top q then do { t \<leftarrow> load h (pq_top q); Some (q\<lparr>pq_top := next_node t\<rparr>) } else Some q);
          h \<leftarrow> (if prev \<noteq> 0 then set_next prev (next_node c) h else Some h);
          (x, h) \<leftarrow> destroy_node target h;
          remove_loop ptr prev (next_node c) (Suc removed) q h
        }
        else remove_loop ptr target (next_node c) removed q h
      })"

declare offer_loop.simps [code] remove_loop.simps [code]

definition priqueue_remove :: "nat \<Rightarrow> 'm priqueue_t \<Rightarrow> nheap \<Rightarrow> (nat \<times> 'm priqueue_t \<times> nheap) option" where
  "priqueue_remove ptr q h = remove_loop ptr 0 (pq_top q) 0 q h"

definition priqueue_size :: "'m priqueue_t \<Rightarrow> nheap \<Rightarrow> nat option" where
  "priqueue_size q h = list_size (pq_top q) h"

definition priqueue_destroy :: "'m priqueue_t \<Rightarrow> nheap \<Rightarrow> nheap option" where
  "priqueue_destroy q h = destroy_list (pq_top q) h"

subsection \<open>Chains\<close>

text \<open>\<open>chain h p as q\<close>: the nodes from \<open>p\<close> up to \<open>q\<close>, as addresses with their items.\<close>

fun chain :: "nheap \<Rightarrow> nat \<Rightarrow> (nat \<times> nat) list \<Rightarrow> nat \<Rightarrow> bool" where
  "chain h p [] q \<longleftrightarrow> p = q"
| "chain h p ((a, x) # as) q \<longleftrightarrow>
     p = a \<and> a \<noteq> 0 \<and> (\<exists>n. cells h a = Some \<lparr>item = x, next_node = n\<rparr> \<and> chain h n as q)"

lemma chain_append: "chain h p (as @ bs) q \<longleftrightarrow> (\<exists>r. chain h p as r \<and> chain h r bs q)"
  by (induction h p as q rule: chain.induct) (simp_all, blast)

lemma chain_cong:
  "(\<And>a. a \<in> fst ` set as \<Longrightarrow> cells h' a = cells h a) \<Longrightarrow> chain h' p as q = chain h p as q"
  by (induction as arbitrary: p) auto

lemma chain_start_0: "chain h p as 0 \<Longrightarrow> p = 0 \<longleftrightarrow> as = []"
  by (cases as) auto

lemma chain_nonzero: "chain h p as q \<Longrightarrow> a \<in> fst ` set as \<Longrightarrow> a \<noteq> 0 \<and> cells h a \<noteq> None"
proof (induction as arbitrary: p)
  case (Cons b as)
  then show ?case by (cases b) auto
qed simp

text \<open>The queue of nodes \<open>as\<close> beside the rest \<open>F\<close> of the heap.\<close>

definition pq_nodes :: "'m priqueue_t \<Rightarrow> nheap \<Rightarrow> (nat \<Rightarrow> node_t option) \<Rightarrow> (nat \<times> nat) list \<Rightarrow> bool" where
  "pq_nodes q h F as \<longleftrightarrow>
     chain h (pq_top q) as 0 \<and> distinct (map fst as) \<and>
     (\<forall>a. a \<notin> fst ` set as \<longrightarrow> cells h a = F a) \<and> (\<forall>a. a \<in> fst ` set as \<longrightarrow> F a = None) \<and>
     (\<forall>a \<ge> brk h. cells h a = None) \<and> 0 < brk h"

definition pq_rel :: "'m priqueue_t \<Rightarrow> nheap \<Rightarrow> (nat \<Rightarrow> node_t option) \<Rightarrow> nat list \<Rightarrow> bool" where
  "pq_rel q h F xs \<longleftrightarrow> (\<exists>as. map snd as = xs \<and> pq_nodes q h F as)"

lemma pq_nodesD:
  assumes "pq_nodes q h F as"
  shows "chain h (pq_top q) as 0" "distinct (map fst as)" "\<And>a. a \<notin> fst ` set as \<Longrightarrow> cells h a = F a"
    "\<And>a. a \<in> fst ` set as \<Longrightarrow> F a = None" "\<And>a. brk h \<le> a \<Longrightarrow> cells h a = None" "0 < brk h"
  using assms by (simp_all add: pq_nodes_def del: set_map)

lemma pq_rel_init: "cells h = F \<Longrightarrow> (\<forall>a \<ge> brk h. cells h a = None) \<Longrightarrow> 0 < brk h \<Longrightarrow> pq_rel (priqueue_init cmp) h F []"
  by (simp add: pq_rel_def pq_nodes_def priqueue_init_def)

lemma chain_set_next:
  assumes "chain h p (as @ [(a, x)]) q" and "distinct (map fst (as @ [(a, x)]))"
  shows "\<exists>h'. set_next a r h = Some h' \<and> chain h' p (as @ [(a, x)]) r \<and> brk h' = brk h \<and>
    (\<forall>b. b \<noteq> a \<longrightarrow> cells h' b = cells h b)"
proof -
  have a: "chain h p as a" "a \<noteq> 0" "cells h a = Some \<lparr>item = x, next_node = q\<rparr>"
    using assms(1) by (auto simp: chain_append)
  let ?h = "h\<lparr>cells := (cells h)(a := Some \<lparr>item = x, next_node = r\<rparr>)\<rparr>"
  have "chain ?h p as a = chain h p as a" by (rule chain_cong) (use assms(2) in auto)
  with a show ?thesis by (intro exI [of _ ?h]) (auto simp: set_next_def load_def chain_append)
qed

lemma nodes_fresh: "pq_nodes q h F as \<Longrightarrow> brk h \<notin> fst ` set as"
  using chain_nonzero pq_nodesD(1,5) by (metis order_refl)

lemma nodes_insert:
  assumes rel: "pq_nodes q h F (as @ bs)" and as: "chain h (pq_top q) as t" and bs: "chain h t bs 0"
    and new: "new_node x t h = (node, h1)"
  shows "as = [] \<Longrightarrow> pq_nodes (q\<lparr>pq_top := node\<rparr>) h1 F ((node, x) # bs)"
    and "as \<noteq> [] \<Longrightarrow> \<exists>h2. set_next (fst (last as)) node h1 = Some h2 \<and> pq_nodes q h2 F (as @ (node, x) # bs)"
proof -
  note r = pq_nodesD [OF rel]
  have h1: "node = brk h" "brk h1 = Suc (brk h)" "cells h1 = (cells h)(brk h := Some \<lparr>item = x, next_node = t\<rparr>)"
    using new by (auto simp: new_node_def)
  have fresh: "brk h \<notin> fst ` set as" "brk h \<notin> fst ` set bs" using nodes_fresh [OF rel] by auto
  have F: "F (brk h) = None" using r(3,5) nodes_fresh [OF rel] by (metis order_refl)
  have "chain h1 t bs 0 = chain h t bs 0" "chain h1 (pq_top q) as t = chain h (pq_top q) as t"
    using fresh h1(3) by (metis chain_cong fun_upd_other)+
  with as bs h1 r(6) have c1: "chain h1 (pq_top q) as t" "chain h1 node ((node, x) # bs) 0" by auto
  show "pq_nodes (q\<lparr>pq_top := node\<rparr>) h1 F ((node, x) # bs)" if "as = []"
    using that c1 r F fresh h1 unfolding pq_nodes_def by auto
  show "\<exists>h2. set_next (fst (last as)) node h1 = Some h2 \<and> pq_nodes q h2 F (as @ (node, x) # bs)" if "as \<noteq> []"
  proof -
    obtain as' a y where a: "as = as' @ [(a, y)]" using \<open>as \<noteq> []\<close> by (metis rev_exhaust surj_pair)
    obtain h2 where h2: "set_next a node h1 = Some h2" "chain h2 (pq_top q) as node" "brk h2 = brk h1"
        "\<And>b. b \<noteq> a \<Longrightarrow> cells h2 b = cells h1 b"
      using chain_set_next [OF c1(1) [unfolded a], of node] r(2) a by auto
    have "chain h2 node ((node, x) # bs) 0 = chain h1 node ((node, x) # bs) 0"
      by (rule chain_cong, rule h2(4)) (use r(2) fresh h1 a in auto)
    with c1(2) h2(2) have "chain h2 (pq_top q) (as @ (node, x) # bs) 0" unfolding chain_append by blast
    moreover have "cells h2 b = F b" if "b \<notin> fst ` set (as @ (node, x) # bs)" for b
      using that h2(4) r(3) a h1 by auto
    moreover have "a < brk h" using chain_nonzero [OF as, of a] r(5) [of a] a by force
    then have "cells h2 b = None" if "brk h2 \<le> b" for b
      using that h2(3) h2(4) [of b] h1 r(5) [of b] by auto
    ultimately have "pq_nodes q h2 F (as @ (node, x) # bs)"
      using r(2,4) F fresh h1 h2(3) unfolding pq_nodes_def by auto
    with h2(1) a show ?thesis by auto
  qed
qed

text \<open>The sequence an insertion produces: before the first item the new one precedes.\<close>

definition precedes :: "'m priqueue_t \<Rightarrow> 'm \<Rightarrow> nat \<Rightarrow> nat \<Rightarrow> bool" where
  "precedes q m x y \<longleftrightarrow> (case comparer q m x y of None \<Rightarrow> False | Some c \<Rightarrow> c < 0)"

definition insert_spec :: "('a \<Rightarrow> 'a \<Rightarrow> bool) \<Rightarrow> 'a \<Rightarrow> 'a list \<Rightarrow> 'a list" where
  "insert_spec lt x xs = takeWhile (\<lambda>y. \<not> lt x y) xs @ x # dropWhile (\<lambda>y. \<not> lt x y) xs"

lemma insert_spec_simps [simp]:
  "insert_spec lt x [] = [x]"
  "insert_spec lt x (y # ys) = (if lt x y then x # y # ys else y # insert_spec lt x ys)"
  by (simp_all add: insert_spec_def)

lemma offer_loop_nodes:
  assumes "pq_nodes q h F (as @ bs)" "chain h (pq_top q) as t" "chain h t bs 0"
    and "as \<noteq> [] \<Longrightarrow> prev = fst (last as)" "as = [] \<Longrightarrow> bs \<noteq> []"
    and "\<And>y. y \<in> snd ` set bs \<Longrightarrow> comparer q m x y \<noteq> None"
  shows "\<exists>i q' h' cs. offer_loop m x (length as) prev t q h = Some (i, q', h') \<and> pq_nodes q' h' F cs \<and>
    map snd cs = map snd as @ insert_spec (precedes q m) x (map snd bs) \<and> comparer q' = comparer q \<and>
    i = length as + length (takeWhile (\<lambda>y. \<not> precedes q m x y) (map snd bs))"
  using assms
proof (induction bs arbitrary: as t prev)
  case Nil
  obtain node h1 where new: "new_node x t h = (node, h1)" by fastforce
  from nodes_insert(2) [OF Nil(1-3) this] Nil(3-5) new show ?case
    by (subst offer_loop.simps) fastforce
next
  case (Cons b bs)
  obtain a y where b: "b = (a, y)" by fastforce
  obtain n where n: "t = a" "a \<noteq> 0" "cells h a = Some \<lparr>item = y, next_node = n\<rparr>" "chain h n bs 0"
    using Cons.prems(3) b by auto
  obtain c where c: "comparer q m x y = Some c" using Cons.prems(6) [of y] b by auto
  show ?case
  proof (cases "c < 0")
    case True
    obtain node h1 where new: "new_node x t h = (node, h1)" by fastforce
    have pre: "precedes q m x y" using c True by (simp add: precedes_def)
    show ?thesis
    proof (cases "as = []")
      case True
      from nodes_insert(1) [OF Cons.prems(1-3) new True] show ?thesis
        by (subst offer_loop.simps) (use n c \<open>c < 0\<close> new True pre b in \<open>auto simp: load_def intro!: exI\<close>)
    next
      case False
      from nodes_insert(2) [OF Cons.prems(1-3) new False] obtain h2 where
        "set_next (fst (last as)) node h1 = Some h2" "pq_nodes q h2 F (as @ (node, x) # b # bs)" by blast
      then show ?thesis
        by (subst offer_loop.simps) (use n c \<open>c < 0\<close> new False pre b Cons.prems(4) in \<open>auto simp: load_def intro!: exI\<close>)
    qed
  next
    case False
    have "chain h (pq_top q) (as @ [b]) n" using Cons.prems(2) n b by (auto simp: chain_append)
    then have
      "\<exists>i q' h' cs. offer_loop m x (length (as @ [b])) a n q h = Some (i, q', h') \<and> pq_nodes q' h' F cs \<and>
        map snd cs = map snd (as @ [b]) @ insert_spec (precedes q m) x (map snd bs) \<and> comparer q' = comparer q \<and>
        i = length (as @ [b]) + length (takeWhile (\<lambda>y. \<not> precedes q m x y) (map snd bs))"
      by (intro Cons.IH) (use Cons.prems n b in auto)
    moreover have "offer_loop m x (length as) prev t q h = offer_loop m x (Suc (length as)) a n q h"
      by (subst offer_loop.simps) (use n c False in \<open>simp add: load_def\<close>)
    moreover have "\<not> precedes q m x y" using c False by (simp add: precedes_def)
    ultimately show ?thesis using b by simp
  qed
qed

text \<open>Taking the node between \<open>as\<close> and \<open>bs\<close> out.\<close>

lemma nodes_delete:
  assumes rel: "pq_nodes q h F (as @ (a, x) # bs)" and c: "cells h a = Some c"
  shows "as = [] \<Longrightarrow> \<exists>h'. free_node a h = Some h' \<and> pq_nodes (q\<lparr>pq_top := next_node c\<rparr>) h' F bs"
    and "as \<noteq> [] \<Longrightarrow> \<exists>h1 h2. set_next (fst (last as)) (next_node c) h = Some h1 \<and> load h1 a = Some c \<and>
      free_node a h1 = Some h2 \<and> pq_nodes q h2 F (as @ bs) \<and>
      chain h2 (pq_top q) as (next_node c) \<and> chain h2 (next_node c) bs 0"
    and "chain h (next_node c) bs 0" and "item c = x" and "a \<noteq> 0" and "chain h (pq_top q) as a"
proof -
  note r = pq_nodesD [OF rel]
  from r(1) c show bs: "chain h (next_node c) bs 0" and x: "item c = x" and a: "a \<noteq> 0" and as: "chain h (pq_top q) as a"
    by (auto simp: chain_append)
  show "\<exists>h'. free_node a h = Some h' \<and> pq_nodes (q\<lparr>pq_top := next_node c\<rparr>) h' F bs" if "as = []"
  proof -
    let ?h = "h\<lparr>cells := (cells h)(a := None)\<rparr>"
    have "chain ?h (next_node c) bs 0"
      using bs chain_cong [of bs ?h h] r(2) \<open>as = []\<close> by force
    then show ?thesis
      using a c r(2-6) \<open>as = []\<close> by (intro exI [of _ ?h]) (auto simp: free_node_def load_def pq_nodes_def)
  qed
  show "\<exists>h1 h2. set_next (fst (last as)) (next_node c) h = Some h1 \<and> load h1 a = Some c \<and>
      free_node a h1 = Some h2 \<and> pq_nodes q h2 F (as @ bs) \<and>
      chain h2 (pq_top q) as (next_node c) \<and> chain h2 (next_node c) bs 0" if "as \<noteq> []"
  proof -
    obtain as' e y where e: "as = as' @ [(e, y)]" using \<open>as \<noteq> []\<close> by (metis rev_exhaust surj_pair)
    obtain h1 where h1: "set_next e (next_node c) h = Some h1" "chain h1 (pq_top q) as (next_node c)" "brk h1 = brk h"
        "\<And>b. b \<noteq> e \<Longrightarrow> cells h1 b = cells h b"
      using chain_set_next [OF as [unfolded e], of "next_node c"] r(2) e by auto
    let ?h = "h1\<lparr>cells := (cells h1)(a := None)\<rparr>"
    have ne: "a \<noteq> e" "e \<notin> fst ` set bs" "a \<notin> fst ` set as" "a \<notin> fst ` set bs" using r(2) e by auto
    have "chain ?h (next_node c) bs 0 = chain h (next_node c) bs 0"
      by (rule chain_cong) (use h1(4) ne in force)
    moreover have "chain ?h (pq_top q) as (next_node c) = chain h1 (pq_top q) as (next_node c)"
      by (rule chain_cong) (use ne in force)
    ultimately have ch: "chain ?h (pq_top q) as (next_node c)" "chain ?h (next_node c) bs 0" using bs h1(2) by auto
    then have "chain ?h (pq_top q) (as @ bs) 0" by (auto simp: chain_append)
    moreover have "e < brk h" using chain_nonzero [OF as, of e] r(5) [of e] e by force
    then have "cells ?h b = None" if "brk ?h \<le> b" for b
      using that h1(3) h1(4) [of b] r(5) [of b] by auto
    moreover have "cells ?h b = F b" if "b \<notin> fst ` set (as @ bs)" for b
      using that h1(4) [of b] r(3) [of b] r(4) [of a] e by (cases "b = a") auto
    moreover have "F b = None" if "b \<in> fst ` set (as @ bs)" for b using that r(4) [of b] by auto
    ultimately have "pq_nodes q ?h F (as @ bs)" using r(2,6) h1(3) by (auto simp: pq_nodes_def)
    moreover have "load h1 a = Some c" using h1(4) [OF ne(1)] c a by (simp add: load_def)
    ultimately show ?thesis using h1(1) a e ch by (auto simp: free_node_def load_def)
  qed
qed

subsection \<open>The operations on the abstract sequence\<close>

lemma pq_offer:
  assumes "pq_rel q h F xs" and "\<And>y. y \<in> set xs \<Longrightarrow> comparer q m x y \<noteq> None"
  shows "\<exists>q' h'. priqueue_offer m x q h = Some (length (takeWhile (\<lambda>y. \<not> precedes q m x y) xs), q', h') \<and>
    pq_rel q' h' F (insert_spec (precedes q m) x xs) \<and> comparer q' = comparer q"
proof -
  obtain as where as: "map snd as = xs" "pq_nodes q h F as" using assms(1) by (auto simp: pq_rel_def)
  show ?thesis
  proof (cases "as = []")
    case True
    obtain node h1 where new: "new_node x 0 h = (node, h1)" by fastforce
    have top: "pq_top q = 0" using pq_nodesD(1) [OF as(2)] True by simp
    have "pq_nodes (q\<lparr>pq_top := node\<rparr>) h1 F [(node, x)]"
      using nodes_insert(1) [of q h F "[]" "[]" 0 x node h1] as(2) True top new by simp
    then show ?thesis using as(1) True top new by (auto simp: priqueue_offer_def pq_rel_def intro!: exI [of _ "[(node, x)]"])
  next
    case False
    note top = pq_nodesD(1) [OF as(2)]
    have "pq_top q \<noteq> 0" using chain_start_0 [OF top] False by simp
    moreover from offer_loop_nodes [of q h F "[]" as "pq_top q" 0 m x] obtain i q' h' cs where
      "offer_loop m x 0 0 (pq_top q) q h = Some (i, q', h')" "pq_nodes q' h' F cs"
      "map snd cs = insert_spec (precedes q m) x xs" "comparer q' = comparer q"
      "i = length (takeWhile (\<lambda>y. \<not> precedes q m x y) xs)"
      using as top False assms(2) by auto
    ultimately show ?thesis using as(1) by (auto simp: priqueue_offer_def pq_rel_def)
  qed
qed

lemma node_at_chain:
  "chain h p as 0 \<Longrightarrow> node_at h p i = Some (if 0 \<le> i \<and> nat i < length as then fst (as ! nat i) else 0)"
proof (induction as arbitrary: p i)
  case Nil
  then show ?case by (simp add: node_at.simps)
next
  case (Cons b as)
  obtain a x where b: "b = (a, x)" by fastforce
  obtain n where n: "p = a" "a \<noteq> 0" "cells h a = Some \<lparr>item = x, next_node = n\<rparr>" "chain h n as 0"
    using Cons.prems b by auto
  show ?case
  proof (cases "i \<le> 0")
    case True
    then show ?thesis by (subst node_at.simps) (use n b in auto)
  next
    case False
    then have "nat i = Suc (nat (i - 1))" by simp
    with False show ?thesis by (subst node_at.simps) (simp add: n load_def Cons.IH)
  qed
qed

definition item_at :: "nat list \<Rightarrow> int \<Rightarrow> nat" where
  "item_at xs i = (if 0 \<le> i \<and> nat i < length xs then xs ! nat i else 0)"

lemma chain_item:
  assumes "chain h p as q" "k < length as"
  shows "\<exists>c. cells h (fst (as ! k)) = Some c \<and> item c = snd (as ! k) \<and> fst (as ! k) \<noteq> 0"
  using assms
proof (induction as arbitrary: p k)
  case (Cons b as)
  then show ?case by (cases b; cases k) auto
qed simp

lemma pq_at:
  assumes "pq_rel q h F xs"
  shows "priqueue_at q h i = Some (item_at xs i)"
proof -
  obtain as where as: "map snd as = xs" "pq_nodes q h F as" using assms by (auto simp: pq_rel_def)
  note top = pq_nodesD(1) [OF as(2)]
  have len: "length xs = length as" using as(1) by auto
  show ?thesis
  proof (cases "0 \<le> i \<and> nat i < length as")
    case True
    obtain c where "cells h (fst (as ! nat i)) = Some c" "item c = snd (as ! nat i)" "fst (as ! nat i) \<noteq> 0"
      using chain_item [OF top, of "nat i"] True by blast
    moreover have "as \<noteq> []" "xs ! nat i = snd (as ! nat i)" using True as(1) by auto
    ultimately show ?thesis using chain_start_0 [OF top] True len
      by (auto simp: priqueue_at_def node_at_chain [OF top] item_at_def load_def)
  next
    case False
    then show ?thesis using len by (auto simp: priqueue_at_def node_at_chain [OF top] item_at_def)
  qed
qed

lemma list_size_chain: "chain h p as 0 \<Longrightarrow> list_size p h = Some (length as)"
proof (induction as arbitrary: p)
  case Nil
  then show ?case by (simp add: list_size.simps)
next
  case (Cons b as)
  then show ?case by (cases b) (subst list_size.simps, auto simp: load_def)
qed

lemma pq_size: "pq_rel q h F xs \<Longrightarrow> priqueue_size q h = Some (length xs)"
  unfolding pq_rel_def priqueue_size_def using list_size_chain pq_nodesD(1) by (metis length_map)

definition drop_at :: "nat list \<Rightarrow> int \<Rightarrow> nat list" where
  "drop_at xs i = (if 0 \<le> i \<and> nat i < length xs then take (nat i) xs @ drop (Suc (nat i)) xs else xs)"

lemma item_drop_simps [simp]:
  "drop_at (x # xs) 0 = xs" "item_at (x # xs) 0 = x" "item_at [] i = 0" "drop_at [] i = []"
  by (simp_all add: drop_at_def item_at_def)

lemma pq_remove_at:
  assumes "pq_rel q h F xs"
  shows "\<exists>q' h'. priqueue_remove_at i q h = Some (item_at xs i, q', h') \<and> pq_rel q' h' F (drop_at xs i) \<and>
    comparer q' = comparer q"
proof -
  obtain as where as: "map snd as = xs" "pq_nodes q h F as" using assms by (auto simp: pq_rel_def)
  note top = pq_nodesD(1) [OF as(2)]
  have len: "length xs = length as" using as(1) by auto
  show ?thesis
  proof (cases "0 \<le> i \<and> nat i < length as")
    case False
    have "next_node c = 0" if prem: "0 < i" "as \<noteq> []" "nat (i - 1) < length as" "cells h (fst (as ! nat (i - 1))) = Some c" for c
    proof -
      have last: "nat (i - 1) = length as - 1" using prem False by auto
      obtain bs b where b: "as = bs @ [b]" using prem(2) by (metis rev_exhaust)
      then show ?thesis using top prem(4) last by (cases b) (auto simp: chain_append)
    qed
    moreover have "\<exists>c. cells h (fst (as ! k)) = Some c \<and> fst (as ! k) \<noteq> 0" if "k < length as" for k
      using chain_item [OF top that] by blast
    ultimately have "priqueue_remove_at i q h = Some (0, q, h)"
      using False chain_start_0 [OF top] unfolding priqueue_remove_at_def
      by (auto simp: node_at_chain [OF top] load_def) force+
    then show ?thesis using False len assms by (auto simp: item_at_def drop_at_def)
  next
    case True
    define k where "k = nat i"
    obtain bs a x cs where split: "as = bs @ (a, x) # cs" "length bs = k"
      using True id_take_nth_drop [of k as] unfolding k_def by (metis length_take min.absorb4 surj_pair)
    obtain c where c: "cells h a = Some c" using top split by (auto simp: chain_append)
    note d = nodes_delete [OF as(2) [unfolded split(1)] c]
    have spec: "item_at xs i = x" "drop_at xs i = map snd (bs @ cs)"
      using True as(1) split k_def by (auto simp: item_at_def drop_at_def nth_append)
    show ?thesis
    proof (cases "bs = []")
      case True
      then have "i = 0" "pq_top q = a" using split k_def \<open>0 \<le> i \<and> nat i < length as\<close> d(6) by auto
      with d(1) [OF True] d(4,5) c spec True show ?thesis
        by (auto simp: priqueue_remove_at_def destroy_node_def load_def pq_rel_def)
    next
      case False
      obtain bs' e y where e: "bs = bs' @ [(e, y)]" using False by (metis rev_exhaust surj_pair)
      have i: "0 < i" "nat (i - 1) = length bs'" using split(2) e k_def by auto
      have top0: "pq_top q \<noteq> 0" using chain_start_0 [OF top] split by simp
      have e0: "e \<noteq> 0" "\<exists>m. cells h e = Some \<lparr>item = m, next_node = a\<rparr>" using d(6) e by (auto simp: chain_append)
      have at: "node_at h (pq_top q) (i - 1) = Some e"
        using i split(1) e by (simp add: node_at_chain [OF top] nth_append)
      obtain h1 h2 where "set_next e (next_node c) h = Some h1" "load h1 a = Some c" "free_node a h1 = Some h2"
          "pq_nodes q h2 F (bs @ cs)"
        using d(2) [OF False] e by auto
      then have "priqueue_remove_at i q h = Some (x, q, h2)"
        using i(1) top0 at e0 c d(4,5) by (auto simp: priqueue_remove_at_def destroy_node_def load_def)
      with \<open>pq_nodes q h2 F (bs @ cs)\<close> spec show ?thesis
        by (auto simp: pq_rel_def intro!: exI [of _ "bs @ cs"])
    qed
  qed
qed

lemma pq_poll:
  assumes "pq_rel q h F xs"
  shows "\<exists>q' h'. priqueue_poll q h = Some (case xs of [] \<Rightarrow> 0 | x # _ \<Rightarrow> x, q', h') \<and> pq_rel q' h' F (tl xs) \<and>
    comparer q' = comparer q"
  unfolding priqueue_poll_def using pq_remove_at [OF assms, of 0] by (cases xs) auto

lemma remove_loop_nodes:
  assumes "pq_nodes q h F (as @ bs)" "chain h (pq_top q) as t" "chain h t bs 0"
    and "prev = (if as = [] then 0 else fst (last as))" "x \<notin> snd ` set as"
  shows "\<exists>q' h' cs. remove_loop x prev t n q h = Some (n + length (filter (\<lambda>b. snd b = x) bs), q', h') \<and>
    pq_nodes q' h' F cs \<and> cs = as @ filter (\<lambda>b. snd b \<noteq> x) bs \<and> comparer q' = comparer q"
  using assms
proof (induction bs arbitrary: as t prev n q h)
  case Nil
  then show ?case by (subst remove_loop.simps) simp
next
  case (Cons b bs)
  obtain a y where b: "b = (a, y)" by fastforce
  obtain c where c: "t = a" "a \<noteq> 0" "cells h a = Some c" "item c = y" "chain h (next_node c) bs 0"
    using Cons.prems(3) b by auto
  note d = nodes_delete [OF Cons.prems(1) [unfolded b] c(3)]
  show ?case
  proof (cases "y = x")
    case False
    have "chain h (pq_top q) (as @ [b]) (next_node c)"
      using Cons.prems(2) c b d(6) by (cases c) (auto simp: chain_append)
    then have "\<exists>q' h' cs. remove_loop x a (next_node c) n q h = Some (n + length (filter (\<lambda>b. snd b = x) bs), q', h') \<and>
        pq_nodes q' h' F cs \<and> cs = (as @ [b]) @ filter (\<lambda>b. snd b \<noteq> x) bs \<and> comparer q' = comparer q"
      by (intro Cons.IH) (use Cons.prems c b False in auto)
    moreover have "remove_loop x prev t n q h = remove_loop x a (next_node c) n q h"
      by (subst remove_loop.simps) (use c False in \<open>simp add: load_def\<close>)
    ultimately show ?thesis using b False by simp
  next
    case True
    show ?thesis
    proof (cases "as = []")
      case as: True
      obtain h' where h': "free_node a h = Some h'" "pq_nodes (q\<lparr>pq_top := next_node c\<rparr>) h' F bs"
        using d(1) [OF as] by blast
      have "remove_loop x prev t n q h = remove_loop x prev (next_node c) (Suc n) (q\<lparr>pq_top := next_node c\<rparr>) h'"
        by (subst remove_loop.simps) (use c as h' True Cons.prems(4) d(6) in \<open>simp add: load_def destroy_node_def\<close>)
      moreover have "\<exists>q' h'' cs. remove_loop x prev (next_node c) (Suc n) (q\<lparr>pq_top := next_node c\<rparr>) h' =
          Some (Suc n + length (filter (\<lambda>b. snd b = x) bs), q', h'') \<and>
          pq_nodes q' h'' F cs \<and> cs = [] @ filter (\<lambda>b. snd b \<noteq> x) bs \<and> comparer q' = comparer (q\<lparr>pq_top := next_node c\<rparr>)"
        by (rule Cons.IH) (use h' as Cons.prems(4) pq_nodesD(1) [OF h'(2)] in auto)
      ultimately show ?thesis using as b True by simp
    next
      case as: False
      obtain h1 h2 where h: "set_next prev (next_node c) h = Some h1" "load h1 a = Some c" "free_node a h1 = Some h2"
          "pq_nodes q h2 F (as @ bs)" "chain h2 (pq_top q) as (next_node c)" "chain h2 (next_node c) bs 0"
        using d(2) [OF as] Cons.prems(4) as by auto
      have ne: "prev \<noteq> 0" "a \<noteq> pq_top q"
        using as Cons.prems(1,2,4) chain_nonzero [OF Cons.prems(2), of "fst (last as)"] b
        by (auto simp: pq_nodes_def) (cases as; force)
      have "remove_loop x prev t n q h = remove_loop x prev (next_node c) (Suc n) q h2"
        by (subst remove_loop.simps) (use c h True ne in \<open>simp add: load_def destroy_node_def\<close>)
      moreover have "\<exists>q' h' cs. remove_loop x prev (next_node c) (Suc n) q h2 =
          Some (Suc n + length (filter (\<lambda>b. snd b = x) bs), q', h') \<and>
          pq_nodes q' h' F cs \<and> cs = as @ filter (\<lambda>b. snd b \<noteq> x) bs \<and> comparer q' = comparer q"
        by (rule Cons.IH) (use h Cons.prems(4,5) in auto)
      ultimately show ?thesis using b True by simp
    qed
  qed
qed

lemma pq_remove:
  assumes "pq_rel q h F xs"
  shows "\<exists>q' h'. priqueue_remove x q h = Some (count_list xs x, q', h') \<and> pq_rel q' h' F (removeAll x xs) \<and>
    comparer q' = comparer q"
proof -
  obtain as where as: "map snd as = xs" "pq_nodes q h F as" using assms by (auto simp: pq_rel_def)
  have "length (filter (\<lambda>b. snd b = x) as) = count_list xs x" "map snd (filter (\<lambda>b. snd b \<noteq> x) as) = removeAll x xs"
    unfolding as(1) [symmetric] by (induction as) auto
  moreover from remove_loop_nodes [of q h F "[]" as "pq_top q" 0 x 0] obtain q' h' where
    "remove_loop x 0 (pq_top q) 0 q h = Some (length (filter (\<lambda>b. snd b = x) as), q', h')"
    "pq_nodes q' h' F (filter (\<lambda>b. snd b \<noteq> x) as)" "comparer q' = comparer q"
    using as(2) pq_nodesD(1) [OF as(2)] by auto
  ultimately show ?thesis by (auto simp: priqueue_remove_def pq_rel_def)
qed

lemma destroy_chain:
  assumes "chain h p as 0" and "distinct (map fst as)"
  shows "\<exists>h'. destroy_list p h = Some h' \<and> (\<forall>a. cells h' a = (if a \<in> fst ` set as then None else cells h a)) \<and> brk h' = brk h"
  using assms
proof (induction as arbitrary: p)
  case Nil
  then show ?case by (simp add: destroy_list.simps)
next
  case (Cons b as)
  obtain a x where b: "b = (a, x)" by fastforce
  obtain n where n: "p = a" "a \<noteq> 0" "cells h a = Some \<lparr>item = x, next_node = n\<rparr>" "chain h n as 0"
    using Cons.prems b by auto
  obtain h' where "destroy_list n h = Some h'" "\<forall>a. cells h' a = (if a \<in> fst ` set as then None else cells h a)" "brk h' = brk h"
    using Cons.IH [OF n(4)] Cons.prems(2) by auto
  then show ?case
    using n Cons.prems(2) b by (subst destroy_list.simps) (auto simp: load_def free_node_def)
qed

lemma pq_destroy:
  assumes "pq_rel q h F xs"
  shows "\<exists>h'. priqueue_destroy q h = Some h' \<and> cells h' = F"
proof -
  obtain as where as: "pq_nodes q h F as" using assms by (auto simp: pq_rel_def)
  from destroy_chain [OF pq_nodesD(1,2) [OF as]] obtain h' where
    "destroy_list (pq_top q) h = Some h'" "\<forall>a. cells h' a = (if a \<in> fst ` set as then None else cells h a)" by blast
  with pq_nodesD(3,4) [OF as] show ?thesis by (auto simp: priqueue_destroy_def fun_eq_iff)
qed

subsection \<open>The contract of a priority queue\<close>

text \<open>What a client of the queue relies on: an offered item goes before the first item it
  precedes, polling takes the front. \<open>lt\<close> is the strict order the comparer decides in the
  client's memory \<open>m\<close>, on the items it can compare there.\<close>

definition in_order :: "('x \<Rightarrow> 'x \<Rightarrow> bool) \<Rightarrow> 'x list \<Rightarrow> bool" where
  "in_order lt xs \<longleftrightarrow> sorted_wrt (\<lambda>x y. \<not> lt y x) xs"

lemma set_insert_spec [simp]: "set (insert_spec lt x xs) = insert x (set xs)"
  by (induction xs) auto

lemma length_insert_spec [simp]: "length (insert_spec lt x xs) = Suc (length xs)"
  by (induction xs) auto

lemma distinct_insert_spec [simp]: "distinct (insert_spec lt x xs) \<longleftrightarrow> x \<notin> set xs \<and> distinct xs"
  by (induction xs) auto

lemma insert_spec_cong:
  "(\<And>y. y \<in> set xs \<Longrightarrow> lt x y = lt' x y) \<Longrightarrow> insert_spec lt x xs = insert_spec lt' x xs"
  by (induction xs) auto

lemma insert_spec_last: "(\<And>y. y \<in> set xs \<Longrightarrow> \<not> lt x y) \<Longrightarrow> insert_spec lt x xs = xs @ [x]"
  by (induction xs) auto

lemma insert_spec_first: "(\<And>y. y \<in> set xs \<Longrightarrow> lt x y) \<Longrightarrow> insert_spec lt x xs = x # xs"
  by (cases xs) auto

lemma in_order_insert:
  assumes "in_order lt xs" and "\<And>y. y \<in> set xs \<Longrightarrow> lt x y \<Longrightarrow> \<not> lt y x"
    and "\<And>y z. y \<in> set xs \<Longrightarrow> z \<in> set xs \<Longrightarrow> lt z x \<Longrightarrow> lt x y \<Longrightarrow> lt z y"
  shows "in_order lt (insert_spec lt x xs)"
  using assms
proof (induction xs)
  case (Cons y ys)
  have IH: "in_order lt ys \<Longrightarrow> in_order lt (insert_spec lt x ys)"
    by (rule Cons.IH) (use Cons.prems(2,3) in \<open>auto\<close>)
  have tail: "in_order lt ys" "\<And>z. z \<in> set ys \<Longrightarrow> \<not> lt z y" using Cons.prems(1) by (auto simp: in_order_def)
  show ?case
  proof (cases "lt x y")
    case True
    have "\<not> lt z x" if "z \<in> set ys" for z using Cons.prems(3) [of y z] tail(2) [OF that] that True by auto
    with True Cons.prems(1,2) show ?thesis by (auto simp: in_order_def)
  next
    case False
    with IH [OF tail(1)] tail(2) show ?thesis by (auto simp: in_order_def)
  qed
qed (simp add: in_order_def)

locale pri_queue =
  fixes rel :: "'q \<Rightarrow> 'x list \<Rightarrow> bool"
    and lt :: "'q \<Rightarrow> 'm \<Rightarrow> 'x \<Rightarrow> 'x \<Rightarrow> bool"
    and comparable :: "'q \<Rightarrow> 'm \<Rightarrow> 'x \<Rightarrow> 'x \<Rightarrow> bool"
    and offer :: "'m \<Rightarrow> 'x \<Rightarrow> 'q \<Rightarrow> (nat \<times> 'q) option"
    and poll :: "'q \<Rightarrow> ('x \<times> 'q) option"
    and null :: 'x
  assumes offer_law: "rel q xs \<Longrightarrow> (\<And>y. y \<in> set xs \<Longrightarrow> comparable q m x y) \<Longrightarrow>
      \<exists>q'. offer m x q = Some (length (takeWhile (\<lambda>y. \<not> lt q m x y) xs), q') \<and> rel q' (insert_spec (lt q m) x xs) \<and>
        lt q' = lt q \<and> comparable q' = comparable q"
    and poll_law: "rel q xs \<Longrightarrow>
      \<exists>q'. poll q = Some (case xs of [] \<Rightarrow> null | x # _ \<Rightarrow> x, q') \<and> rel q' (tl xs) \<and> lt q' = lt q \<and> comparable q' = comparable q"
begin

lemma offer_in_order:
  assumes "rel q xs" and "in_order (lt q m) xs" and "\<And>y. y \<in> set xs \<Longrightarrow> comparable q m x y"
    and "\<And>y. y \<in> set xs \<Longrightarrow> lt q m x y \<Longrightarrow> \<not> lt q m y x"
    and "\<And>y z. y \<in> set xs \<Longrightarrow> z \<in> set xs \<Longrightarrow> lt q m z x \<Longrightarrow> lt q m x y \<Longrightarrow> lt q m z y"
  obtains i q' where "offer m x q = Some (i, q')" "rel q' (take i xs @ x # drop i xs)" "lt q' = lt q" "comparable q' = comparable q"
    "in_order (lt q m) (take i xs @ x # drop i xs)" "\<forall>y \<in> set (take i xs). \<not> lt q m x y" "i < length xs \<Longrightarrow> lt q m x (xs ! i)"
proof -
  let ?i = "length (takeWhile (\<lambda>y. \<not> lt q m x y) xs)"
  have sp: "insert_spec (lt q m) x xs = take ?i xs @ x # drop ?i xs"
    unfolding insert_spec_def by (metis dropWhile_eq_drop takeWhile_eq_take)
  obtain q' where q': "offer m x q = Some (?i, q')" "rel q' (insert_spec (lt q m) x xs)" "lt q' = lt q" "comparable q' = comparable q"
    using offer_law [OF assms(1,3)] by blast
  moreover have "in_order (lt q m) (insert_spec (lt q m) x xs)" by (rule in_order_insert) (use assms in auto)
  moreover have "\<forall>y \<in> set (take ?i xs). \<not> lt q m x y"
    unfolding takeWhile_eq_take [symmetric] by (auto dest: set_takeWhileD)
  moreover have "lt q m x (xs ! ?i)" if "?i < length xs" using nth_length_takeWhile [OF that] by simp
  ultimately show thesis using that [of ?i q'] unfolding sp by blast
qed

lemma poll_least:
  assumes "rel q (x # xs)" and "in_order (lt q m) (x # xs)"
  obtains q' where "poll q = Some (x, q')" "rel q' xs" "lt q' = lt q" "in_order (lt q m) xs" "\<forall>y \<in> set xs. \<not> lt q m y x"
  using poll_law [OF assms(1)] assms(2) that by (auto simp: in_order_def)

lemma poll_empty: "rel q [] \<Longrightarrow> \<exists>q'. poll q = Some (null, q') \<and> rel q' []"
  using poll_law by fastforce

end

definition pq_comparable :: "'m priqueue_t \<times> nheap \<Rightarrow> 'm \<Rightarrow> nat \<Rightarrow> nat \<Rightarrow> bool" where
  "pq_comparable Q m x y \<longleftrightarrow> comparer (fst Q) m x y \<noteq> None"

interpretation pq: pri_queue "\<lambda>Q. pq_rel (fst Q) (snd Q) F" "\<lambda>Q. precedes (fst Q)" pq_comparable
    "\<lambda>m x Q. priqueue_offer m x (fst Q) (snd Q)" "\<lambda>Q. priqueue_poll (fst Q) (snd Q)" 0 for F
proof (unfold_locales, goal_cases)
  case (1 Q xs m x)
  then show ?case using pq_offer [of "fst Q" "snd Q" F xs m x] unfolding pq_comparable_def precedes_def by fastforce
next
  case (2 Q xs)
  then show ?case using pq_poll [of "fst Q" "snd Q" F xs] unfolding pq_comparable_def precedes_def by (fastforce split: list.splits)
qed

subsection \<open>\<open>queuetest.c\<close>\<close>

text \<open>The array \<open>values\<close> of 100 ints at address \<open>v\<close>; \<open>at v i\<close> is \<open>&values[i]\<close>. The comparers
  subtract ints, which is undefined on overflow.\<close>

type_synonym int_mem = "nat \<Rightarrow> int option"

definition int_sub :: "int \<Rightarrow> int \<Rightarrow> int option" where
  "int_sub a b = (if int32 (a - b) then Some (a - b) else None)"

definition compare1 :: "int_mem \<Rightarrow> nat \<Rightarrow> nat \<Rightarrow> int option" where
  "compare1 m a b = do { x \<leftarrow> m a; y \<leftarrow> m b; int_sub x y }"

definition compare2 :: "int_mem \<Rightarrow> nat \<Rightarrow> nat \<Rightarrow> int option" where
  "compare2 m a b = do { x \<leftarrow> m a; y \<leftarrow> m b; int_sub y x }"

definition value_at :: "nat \<Rightarrow> nat \<Rightarrow> nat" where
  "value_at v i = v + 4 * i"

definition values_mem :: "nat \<Rightarrow> int_mem" where
  "values_mem v a = (if v \<le> a \<and> a < v + 400 \<and> (a - v) mod 4 = 0 then Some (int ((a - v) div 4)) else None)"

fun offer_all :: "'m \<Rightarrow> nat list \<Rightarrow> 'm priqueue_t \<Rightarrow> nheap \<Rightarrow> ('m priqueue_t \<times> nheap) option" where
  "offer_all m [] q h = Some (q, h)"
| "offer_all m (x # xs) q h = do { (i, q, h) \<leftarrow> priqueue_offer m x q h; offer_all m xs q h }"

fun read_all :: "int_mem \<Rightarrow> nat list \<Rightarrow> int_mem priqueue_t \<Rightarrow> nheap \<Rightarrow> int list option" where
  "read_all m [] q h = Some []"
| "read_all m (i # is) q h = do { a \<leftarrow> priqueue_at q h (int i); x \<leftarrow> m a; xs \<leftarrow> read_all m is q h; Some (x # xs) }"

definition queuetest :: "nat \<Rightarrow> (int list list \<times> nheap) option" where
  "queuetest v = do {
     let h = empty_nheap;
     let q = priqueue_init compare1;
     let q2 = priqueue_init compare2;
     let m = values_mem v;
     (q, h) \<leftarrow> offer_all m (map (value_at v) [12, 13, 14, 12, 12]) q h;
     n1 \<leftarrow> priqueue_size q h;
     (a, q, h) \<leftarrow> priqueue_poll q h;
     val \<leftarrow> m a;
     n2 \<leftarrow> priqueue_size q h;
     (vals_removed, q, h) \<leftarrow> priqueue_remove (value_at v 12) q h;
     n3 \<leftarrow> priqueue_size q h;
     (q, h) \<leftarrow> offer_all m (map (value_at v) [10, 30, 20]) q h;
     (q2, h) \<leftarrow> offer_all m (map (value_at v) [10, 30, 20]) q2 h;
     n \<leftarrow> priqueue_size q h;
     xs \<leftarrow> read_all m [0..<n] q h;
     n \<leftarrow> priqueue_size q2 h;
     ys \<leftarrow> read_all m [0..<n] q2 h;
     h \<leftarrow> priqueue_destroy q2 h;
     h \<leftarrow> priqueue_destroy q h;
     Some ([[int n1], [val], [int n2], [int vals_removed], [int n3], xs, ys], h)
   }"

text \<open>The program prints what its messages say is expected, and leaves no node allocated.\<close>

lemmas pq_eval = priqueue_offer_def offer_loop.simps priqueue_at_def node_at.simps priqueue_remove_at_def priqueue_poll_def
  priqueue_remove_def remove_loop.simps priqueue_size_def list_size.simps priqueue_destroy_def destroy_list.simps
  load_def set_next_def free_node_def new_node_def destroy_node_def priqueue_init_def empty_nheap_def

lemma queuetest_expected:
  "map_option fst (queuetest v) =
     Some [[5], [12], [4], [2], [2], [10, 13, 14, 20, 30], [30, 20, 10]]"
  by (simp add: queuetest_def pq_eval compare1_def compare2_def value_at_def values_mem_def int_sub_def int32_iff upt_rec
      cong: bind_left_cong)

subsection \<open>Properties\<close>

definition strict_on :: "'m priqueue_t \<Rightarrow> 'm \<Rightarrow> nat set \<Rightarrow> bool" where
  "strict_on q m A \<longleftrightarrow>
     (\<forall>x \<in> A. \<forall>y \<in> A. precedes q m x y \<longrightarrow> \<not> precedes q m y x) \<and>
     (\<forall>x \<in> A. \<forall>y \<in> A. \<forall>z \<in> A. precedes q m x y \<longrightarrow> precedes q m y z \<longrightarrow> precedes q m x z)"

text \<open>A queue of two of the values of \<open>queuetest.c\<close>, for the witnesses.\<close>

definition sample_q :: "int_mem priqueue_t" where
  "sample_q = \<lparr>comparer = compare1, pq_top = 1\<rparr>"

definition sample_h :: nheap where
  "sample_h = \<lparr>cells = [1 \<mapsto> \<lparr>item = 112, next_node = 2\<rparr>, 2 \<mapsto> \<lparr>item = 116, next_node = 0\<rparr>], brk = 3\<rparr>"

lemma sample_rel: "pq_rel sample_q sample_h Map.empty [112, 116]"
  unfolding pq_rel_def by (intro exI [of _ "[(1, 112), (2, 116)]"]) (auto simp: pq_nodes_def sample_q_def sample_h_def)

lemmas sample_defs = sample_q_def sample_h_def precedes_def compare1_def values_mem_def int_sub_def int32_iff

lemma sample_order: "in_order (precedes sample_q (values_mem 100)) [112, 116]"
  by (simp add: in_order_def sample_defs)

text \<open>C10: With a comparer that is a strict order on the items, offering to a queue in priority
  order links a new node in, returns its index, keeps the order, places the item behind every
  item it does not precede (so equal priorities are served first come first served), and
  leaves the rest of the heap alone.\<close>

theorem priqueue_offer_in_order:
  assumes "pq_rel q h F xs" and "in_order (precedes q m) xs" and "strict_on q m (insert x (set xs))"
    and "\<forall>y \<in> set xs. comparer q m x y \<noteq> None"
  shows "\<exists>i q' h'. priqueue_offer m x q h = Some (i, q', h') \<and> pq_rel q' h' F (take i xs @ x # drop i xs) \<and>
    in_order (precedes q' m) (take i xs @ x # drop i xs) \<and>
    (\<forall>y \<in> set (take i xs). \<not> precedes q m x y) \<and> (i < length xs \<longrightarrow> precedes q m x (xs ! i))"
proof -
  have rel: "pq_rel (fst (q, h)) (snd (q, h)) F xs" using assms(1) by simp
  have cmp: "\<And>y. y \<in> set xs \<Longrightarrow> pq_comparable (q, h) m x y" using assms(4) by (simp add: pq_comparable_def)
  have asym: "precedes (fst (q, h)) m x y \<Longrightarrow> \<not> precedes (fst (q, h)) m y x" if "y \<in> set xs" for y
    using assms(3) that unfolding strict_on_def fst_conv by blast
  have trans: "precedes (fst (q, h)) m z x \<Longrightarrow> precedes (fst (q, h)) m x y \<Longrightarrow> precedes (fst (q, h)) m z y"
    if "y \<in> set xs" "z \<in> set xs" for y z
    using assms(3) that unfolding strict_on_def fst_conv by blast
  have ord: "in_order (precedes (fst (q, h)) m) xs" using assms(2) by simp
  show ?thesis
  proof (rule pq.offer_in_order [OF rel ord cmp asym trans], assumption)
    fix i Q
    assume *: "priqueue_offer m x (fst (q, h)) (snd (q, h)) = Some (i, Q)" "pq_rel (fst Q) (snd Q) F (take i xs @ x # drop i xs)"
      "precedes (fst Q) = precedes (fst (q, h))" "in_order (precedes (fst (q, h)) m) (take i xs @ x # drop i xs)"
      "\<forall>y \<in> set (take i xs). \<not> precedes (fst (q, h)) m x y" "i < length xs \<Longrightarrow> precedes (fst (q, h)) m x (xs ! i)"
    obtain q' h' where "Q = (q', h')" by fastforce
    with * show ?thesis by (intro exI [of _ i] exI [of _ q'] exI [of _ h']) simp
  qed
qed

theorem priqueue_offer_in_order_witness:
  "\<exists>i q' h'. priqueue_offer (values_mem 100) 108 sample_q sample_h = Some (i, q', h') \<and>
    pq_rel q' h' Map.empty (take i [112, 116] @ 108 # drop i [112, 116])"
proof -
  have "strict_on sample_q (values_mem 100) (insert 108 (set [112, 116]))"
    by (simp add: strict_on_def sample_defs)
  moreover have "\<forall>y \<in> set [112, 116]. comparer sample_q (values_mem 100) 108 y \<noteq> None"
    by (simp add: sample_defs)
  ultimately show ?thesis using priqueue_offer_in_order [OF sample_rel sample_order] by blast
qed

text \<open>C11: Polling a queue in priority order removes and returns an item that no other item
  precedes, frees its node and keeps the order of the others; an empty queue gives \<open>NULL\<close>.\<close>

theorem priqueue_poll_least:
  assumes "pq_rel q h F xs" and "in_order (precedes q m) xs"
  shows "\<exists>x q' h'. priqueue_poll q h = Some (x, q', h') \<and>
    (if xs = [] then x = 0 \<and> pq_rel q' h' F []
     else xs = x # tl xs \<and> (\<forall>y \<in> set (tl xs). \<not> precedes q m y x) \<and> pq_rel q' h' F (tl xs) \<and> in_order (precedes q' m) (tl xs))"
proof (cases xs)
  case Nil
  then show ?thesis using pq.poll_empty [of "(q, h)" F] assms(1) by auto
next
  case (Cons x ys)
  have rel: "pq_rel (fst (q, h)) (snd (q, h)) F (x # ys)" using assms(1) Cons by simp
  obtain Q where *: "priqueue_poll q h = Some (x, Q)" "pq_rel (fst Q) (snd Q) F ys" "precedes (fst Q) = precedes q"
      "in_order (precedes q m) ys" "\<forall>y \<in> set ys. \<not> precedes q m y x"
    by (rule pq.poll_least [OF rel, of m]) (use assms(2) Cons in auto)
  obtain q' h' where "Q = (q', h')" by fastforce
  with * Cons show ?thesis by (intro exI [of _ x] exI [of _ q'] exI [of _ h']) simp
qed

theorem priqueue_poll_least_witness:
  "\<exists>q' h'. priqueue_poll sample_q sample_h = Some (112, q', h') \<and> pq_rel q' h' Map.empty [116]"
  using priqueue_poll_least [OF sample_rel sample_order] by auto

text \<open>C12: \<open>priqueue_remove\<close> unlinks and frees every node that holds the pointer, returns their
  number and leaves the other items in their order.\<close>

theorem priqueue_remove_all:
  assumes "pq_rel q h F xs"
  shows "\<exists>q' h'. priqueue_remove x q h = Some (count_list xs x, q', h') \<and> pq_rel q' h' F (removeAll x xs)"
  using pq_remove [OF assms] by blast

theorem priqueue_remove_all_witness:
  "\<exists>q' h'. priqueue_remove 116 sample_q sample_h = Some (1, q', h') \<and> pq_rel q' h' Map.empty [112]"
  using priqueue_remove_all [OF sample_rel, of 116] by simp

text \<open>C13: A queue built by any sequence of offers onto an empty one, on the items the comparer
  can compare, and then destroyed leaves no node of it allocated.\<close>

theorem priqueue_no_leak:
  assumes "pq_rel q h F xs" and "\<forall>x \<in> set ys. \<forall>y \<in> set xs \<union> set ys. comparer q m x y \<noteq> None"
  shows "\<exists>q' h' h''. offer_all m ys q h = Some (q', h') \<and> priqueue_size q' h' = Some (length xs + length ys) \<and>
    priqueue_destroy q' h' = Some h'' \<and> cells h'' = F"
  using assms
proof (induction ys arbitrary: q h xs)
  case Nil
  then show ?case using pq_destroy pq_size by fastforce
next
  case (Cons y ys)
  obtain q' h' zs where off: "priqueue_offer m y q h = Some (length (takeWhile (\<lambda>z. \<not> precedes q m y z) xs), q', h')"
      "pq_rel q' h' F (insert_spec (precedes q m) y xs)" "comparer q' = comparer q"
    using pq_offer [OF Cons.prems(1), of m y] Cons.prems(2) by auto
  from Cons.IH [OF off(2)] off(1,3) Cons.prems(2) show ?case by auto
qed

theorem priqueue_no_leak_witness:
  "\<exists>q' h' h''. offer_all (values_mem 100) [112, 104] sample_q sample_h = Some (q', h') \<and>
    priqueue_destroy q' h' = Some h'' \<and> cells h'' = Map.empty"
  using priqueue_no_leak [OF sample_rel, of "[112, 104]" "values_mem 100"] by (fastforce simp: sample_defs)

end
