(* ===== verification/Float32.thy ===== *)
theory Float32
  imports Prelude
begin

text \<open>
  The single precision arithmetic the scheduler's statistics use: floats whose value is an
  integer (a conversion from \<open>int\<close>, a sum or difference of such floats) and the quotient of two
  of them, rounded to 24 significant bits, ties to even. Overflow and subnormals do not occur
  at these magnitudes. A quotient is a pair \<open>(m, k)\<close> for \<open>m / 2 ^ k\<close>.
\<close>

fun bits :: "nat \<Rightarrow> nat" where
  "bits n = (if n = 0 then 0 else Suc (bits (n div 2)))"

declare bits.simps [simp del]

definition round_half_even :: "int \<Rightarrow> int \<Rightarrow> int" where
  "round_half_even n d =
     (let q = n div d; r = n mod d
      in if 2 * r < d then q else if 2 * r > d then q + 1 else if even q then q else q + 1)"

definition f32_of_int :: "int \<Rightarrow> int" where
  "f32_of_int n =
     (let b = bits (nat \<bar>n\<bar>)
      in if b \<le> 24 then n else sgn n * (round_half_even \<bar>n\<bar> (2 ^ (b - 24)) * 2 ^ (b - 24)))"

definition f32_add :: "int \<Rightarrow> int \<Rightarrow> int" where
  "f32_add x y = f32_of_int (x + y)"

definition f32_sub :: "int \<Rightarrow> int \<Rightarrow> int" where
  "f32_sub x y = f32_of_int (x - y)"

definition f32_div :: "int \<Rightarrow> int \<Rightarrow> int \<times> nat" where
  "f32_div x n =
     (let k = 24 + bits (nat n);
          s = bits (nat (\<bar>x\<bar> * 2 ^ k div n)) - 24
      in (sgn x * (round_half_even (\<bar>x\<bar> * 2 ^ k) (n * 2 ^ s) * 2 ^ s), k))"

text \<open>\<open>printf("%.2f")\<close>, in hundredths.\<close>

definition hundredths :: "int \<times> nat \<Rightarrow> int" where
  "hundredths x = (case x of (m, k) \<Rightarrow> sgn m * round_half_even (\<bar>m\<bar> * 100) (2 ^ k))"

lemma bits_le: "n < 2 ^ k \<Longrightarrow> bits n \<le> k"
proof (induction k arbitrary: n)
  case 0
  then show ?case by (simp add: bits.simps)
next
  case (Suc k)
  then have "n div 2 < 2 ^ k" by auto
  from Suc.IH [OF this] show ?case by (simp add: bits.simps [of n])
qed

lemma f32_exact: "\<bar>n\<bar> < 2 ^ 24 \<Longrightarrow> f32_of_int n = n"
  using bits_le [of "nat \<bar>n\<bar>" 24] by (simp add: f32_of_int_def nat_less_iff)

lemma f32_add_exact: "\<bar>x + y\<bar> < 2 ^ 24 \<Longrightarrow> f32_add x y = x + y"
  by (simp add: f32_add_def f32_exact)

lemma f32_sub_exact: "\<bar>x - y\<bar> < 2 ^ 24 \<Longrightarrow> f32_sub x y = x - y"
  by (simp add: f32_sub_def f32_exact)

text \<open>Rounding is off by half a unit in the last place at most.\<close>

lemma round_half_even_error:
  assumes "0 < d"
  shows "2 * \<bar>round_half_even n d * d - n\<bar> \<le> d"
proof -
  have "d * (n div d) = n - n mod d" "0 \<le> n mod d" "n mod d < d"
    using assms by (simp_all add: minus_mod_eq_mult_div)
  then show ?thesis by (auto simp: round_half_even_def Let_def distrib_left mult.commute [of _ d])
qed

lemma bits_gt: "k \<le> bits n \<Longrightarrow> 0 < k \<Longrightarrow> 2 ^ (k - 1) \<le> n"
proof (induction k arbitrary: n)
  case (Suc k)
  then have n: "n \<noteq> 0" "k \<le> bits (n div 2)" by (auto simp: bits.simps [of n] split: if_splits)
  show ?case
  proof (cases k)
    case (Suc j)
    with Suc.IH [OF n(2)] show ?thesis by auto
  qed (use n in simp)
qed simp

lemma f32_div_error:
  assumes n: "0 < n" and f: "f32_div x n = (m, k)"
  shows "2 ^ 24 * \<bar>m * n - x * 2 ^ k\<bar> \<le> \<bar>x\<bar> * 2 ^ k"
proof (cases "x = 0")
  case True
  with f show ?thesis by (auto simp: f32_div_def Let_def)
next
  case False
  define X where "X = \<bar>x\<bar> * 2 ^ k"
  define s where "s = bits (nat (X div n)) - 24"
  define r where "r = round_half_even X (n * 2 ^ s)"
  have k: "k = 24 + bits (nat n)" and m: "m = sgn x * (r * 2 ^ s)"
    using f by (auto simp: f32_div_def Let_def X_def s_def r_def)
  have bits_self: "n' < 2 ^ bits n'" for n' :: nat
  proof (induction n' rule: less_induct)
    case (less n')
    show ?case
    proof (cases "n' = 0")
      case False
      then have "n' div 2 < 2 ^ bits (n' div 2)" by (intro less) simp
      with False show ?thesis by (subst bits.simps) auto
    qed simp
  qed
  have "n * 2 ^ 24 \<le> 2 ^ k" using bits_self [of "nat n"] n by (simp add: k power_add nat_less_iff)
  also have "2 ^ k \<le> X" using False by (simp add: X_def)
  finally have "2 ^ 24 \<le> X div n" using n by (simp add: zdiv_mono1 [of "n * 2 ^ 24" X n, simplified])
  then have q: "2 ^ 24 \<le> nat (X div n)" by (simp add: nat_le_iff le_nat_iff)
  have "25 \<le> bits (nat (X div n))"
  proof (rule ccontr)
    assume "\<not> 25 \<le> bits (nat (X div n))"
    then have "(2::nat) ^ bits (nat (X div n)) \<le> 2 ^ 24" by (intro power_increasing) auto
    with bits_self [of "nat (X div n)"] q show False by linarith
  qed
  then have "2 ^ (s + 23) \<le> nat (X div n)"
    using bits_gt [of "bits (nat (X div n))" "nat (X div n)"] by (simp add: s_def)
  then have "2 ^ (s + 23) \<le> X div n" by (simp add: le_nat_iff q nat_le_iff)
  then have "n * 2 ^ (s + 23) \<le> n * (X div n)" using n by simp
  also have "\<dots> \<le> X" using n by (simp add: minus_mod_eq_mult_div [symmetric])
  finally have "n * 2 ^ s * 2 ^ 23 \<le> X" by (simp add: power_add algebra_simps)
  moreover have "2 * \<bar>r * (n * 2 ^ s) - X\<bar> \<le> n * 2 ^ s"
    unfolding r_def by (rule round_half_even_error) (use n in simp)
  moreover have "m * n - x * 2 ^ k = sgn x * (r * (n * 2 ^ s) - X)"
    unfolding m X_def by (simp add: algebra_simps) (metis abs_sgn mult.assoc mult.commute mult_sgn_abs)
  then have "\<bar>m * n - x * 2 ^ k\<bar> = \<bar>r * (n * 2 ^ s) - X\<bar>" using False by (simp add: abs_mult)
  moreover have "E * 2 ^ 23 \<le> X \<Longrightarrow> 2 * D \<le> E \<Longrightarrow> 2 ^ 24 * D \<le> X" for D E by simp
  ultimately show ?thesis unfolding X_def [symmetric] by presburger
qed

end
