(* ===== verification/Scheduler.thy ===== *)
theory Scheduler
  imports PriQueue Float32 "HOL-Library.Product_Lexorder"
begin

text \<open>
  \<open>lab7/.../libscheduler\<close>: the scheduler the simulator calls. Jobs are heap objects named by
  addresses (0 is \<open>NULL\<close>); the ready queue is the priority queue of \<open>PriQueue\<close> and holds job
  addresses. Signed overflow, a core index outside the array and an access to a job that is
  not allocated make an operation \<open>None\<close>.
\<close>

subsection \<open>Jobs\<close>

datatype scheme_t = FCFS | SJF | PSJF | PRI | PPRI | RR

record job_t =
  job_number :: int
  arrival_time :: int
  running_time :: int
  remaining_time :: int
  priority :: int
  core_id :: int
  start_time :: int
  finish_time :: int
  last_scheduled_time :: int

type_synonym job_mem = "nat \<Rightarrow> job_t option"

definition deref :: "job_mem \<Rightarrow> nat \<Rightarrow> job_t option" where
  "deref m p = (if p = 0 then None else m p)"

definition compare_fcfs :: "job_mem \<Rightarrow> nat \<Rightarrow> nat \<Rightarrow> int option" where
  "compare_fcfs m a b = do { ja \<leftarrow> deref m a; jb \<leftarrow> deref m b; int_sub (arrival_time ja) (arrival_time jb) }"

definition compare_sjf :: "job_mem \<Rightarrow> nat \<Rightarrow> nat \<Rightarrow> int option" where
  "compare_sjf m a b = do {
     ja \<leftarrow> deref m a; jb \<leftarrow> deref m b;
     if remaining_time ja \<noteq> remaining_time jb then int_sub (remaining_time ja) (remaining_time jb)
     else int_sub (arrival_time ja) (arrival_time jb)
   }"

definition compare_pri :: "job_mem \<Rightarrow> nat \<Rightarrow> nat \<Rightarrow> int option" where
  "compare_pri m a b = do {
     ja \<leftarrow> deref m a; jb \<leftarrow> deref m b;
     if priority ja \<noteq> priority jb then int_sub (priority ja) (priority jb)
     else int_sub (arrival_time ja) (arrival_time jb)
   }"

definition compare_rr :: "job_mem \<Rightarrow> nat \<Rightarrow> nat \<Rightarrow> int option" where
  "compare_rr m a b = do { ja \<leftarrow> deref m a; jb \<leftarrow> deref m b; int_sub (arrival_time ja) (arrival_time jb) }"

subsection \<open>State\<close>

record sched =
  num_cores :: nat
  current_scheme :: scheme_t
  core_job_ptrs :: "nat list"
  job_queue :: "job_mem priqueue_t"
  qnodes :: nheap
  jobs :: job_mem
  job_brk :: nat
  total_wait_time :: int
  total_turnaround_time :: int
  total_response_time :: int
  total_jobs_finished :: int

definition core_at :: "sched \<Rightarrow> int \<Rightarrow> nat option" where
  "core_at s i =
     (if 0 \<le> i \<and> nat i < length (core_job_ptrs s) then Some (core_job_ptrs s ! nat i) else None)"

definition set_core :: "int \<Rightarrow> nat \<Rightarrow> sched \<Rightarrow> sched option" where
  "set_core i p s =
     (if 0 \<le> i \<and> nat i < length (core_job_ptrs s)
      then Some (s\<lparr>core_job_ptrs := (core_job_ptrs s)[nat i := p]\<rparr>) else None)"

definition update_job :: "nat \<Rightarrow> (job_t \<Rightarrow> job_t) \<Rightarrow> sched \<Rightarrow> sched option" where
  "update_job p f s = do { j \<leftarrow> deref (jobs s) p; Some (s\<lparr>jobs := (jobs s)(p := Some (f j))\<rparr>) }"

definition free_job :: "nat \<Rightarrow> sched \<Rightarrow> sched option" where
  "free_job p s = do { j \<leftarrow> deref (jobs s) p; Some (s\<lparr>jobs := (jobs s)(p := None)\<rparr>) }"

definition offer_job :: "nat \<Rightarrow> sched \<Rightarrow> sched option" where
  "offer_job p s = do {
     (i, q, h) \<leftarrow> priqueue_offer (jobs s) p (job_queue s) (qnodes s);
     Some (s\<lparr>job_queue := q, qnodes := h\<rparr>)
   }"

definition poll_job :: "sched \<Rightarrow> (nat \<times> sched) option" where
  "poll_job s = do {
     (p, q, h) \<leftarrow> priqueue_poll (job_queue s) (qnodes s);
     Some (p, s\<lparr>job_queue := q, qnodes := h\<rparr>)
   }"

subsection \<open>Helpers\<close>

fun find_idle :: "nat list \<Rightarrow> sched \<Rightarrow> int option" where
  "find_idle [] s = Some (- 1)"
| "find_idle (i # is) s = do { p \<leftarrow> core_at s (int i); if p = 0 then Some (int i) else find_idle is s }"

definition find_idle_core :: "sched \<Rightarrow> int option" where
  "find_idle_core s = find_idle [0..<num_cores s] s"

definition place_job_on_core :: "nat \<Rightarrow> int \<Rightarrow> int \<Rightarrow> sched \<Rightarrow> sched option" where
  "place_job_on_core job core time s = do {
     s \<leftarrow> set_core core job s;
     s \<leftarrow> update_job job (\<lambda>j. j\<lparr>core_id := core\<rparr>) s;
     s \<leftarrow> update_job job (\<lambda>j. j\<lparr>last_scheduled_time := time\<rparr>) s;
     update_job job (\<lambda>j. if start_time j = - 1 then j\<lparr>start_time := time\<rparr> else j) s
   }"

text \<open>The three lines that charge a job for the time it ran.\<close>

definition charge :: "nat \<Rightarrow> int \<Rightarrow> sched \<Rightarrow> sched option" where
  "charge p time s = do {
     j \<leftarrow> deref (jobs s) p;
     elapsed \<leftarrow> int_sub time (last_scheduled_time j);
     remaining \<leftarrow> int_sub (remaining_time j) elapsed;
     update_job p (\<lambda>j. j\<lparr>remaining_time := remaining, last_scheduled_time := time\<rparr>) s
   }"

fun update_remaining :: "nat list \<Rightarrow> int \<Rightarrow> sched \<Rightarrow> sched option" where
  "update_remaining [] time s = Some s"
| "update_remaining (i # is) time s = do {
     p \<leftarrow> core_at s (int i);
     s \<leftarrow> (if p \<noteq> 0 then charge p time s else Some s);
     update_remaining is time s
   }"

definition update_remaining_times :: "int \<Rightarrow> sched \<Rightarrow> sched option" where
  "update_remaining_times time s = update_remaining [0..<num_cores s] time s"

definition accumulate_stats :: "nat \<Rightarrow> sched \<Rightarrow> sched option" where
  "accumulate_stats p s = do {
     j \<leftarrow> deref (jobs s) p;
     t \<leftarrow> int_sub (finish_time j) (arrival_time j);
     r \<leftarrow> int_sub (start_time j) (arrival_time j);
     let turnaround = f32_of_int t;
     let response = f32_of_int r;
     let wait = f32_sub turnaround (f32_of_int (running_time j));
     n \<leftarrow> int_sub (total_jobs_finished s) (- 1);
     Some (s\<lparr>total_turnaround_time := f32_add (total_turnaround_time s) turnaround,
             total_response_time := f32_add (total_response_time s) response,
             total_wait_time := f32_add (total_wait_time s) wait,
             total_jobs_finished := n\<rparr>)
   }"

subsection \<open>The interface\<close>

definition scheme_comparer :: "scheme_t \<Rightarrow> job_mem \<Rightarrow> nat \<Rightarrow> nat \<Rightarrow> int option" where
  "scheme_comparer scheme =
     (case scheme of FCFS \<Rightarrow> compare_fcfs | SJF \<Rightarrow> compare_sjf | PSJF \<Rightarrow> compare_sjf
      | PRI \<Rightarrow> compare_pri | PPRI \<Rightarrow> compare_pri | RR \<Rightarrow> compare_rr)"

definition scheduler_start_up :: "nat \<Rightarrow> scheme_t \<Rightarrow> sched" where
  "scheduler_start_up cores scheme =
     \<lparr>num_cores = cores, current_scheme = scheme, core_job_ptrs = replicate cores 0,
      job_queue = priqueue_init (scheme_comparer scheme), qnodes = empty_nheap,
      jobs = (\<lambda>_. None), job_brk = 1,
      total_wait_time = 0, total_turnaround_time = 0, total_response_time = 0, total_jobs_finished = 0\<rparr>"

text \<open>The loop that looks for the running job of the lowest priority.\<close>

fun find_worst :: "nat list \<Rightarrow> int \<Rightarrow> nat \<Rightarrow> sched \<Rightarrow> (int \<times> nat) option" where
  "find_worst [] worst_core worst_job s = Some (worst_core, worst_job)"
| "find_worst (i # is) worst_core worst_job s = do {
     running \<leftarrow> core_at s (int i);
     if running = 0 then find_worst is worst_core worst_job s
     else if worst_job = 0 then find_worst is (int i) running s
     else do {
       cmp_result \<leftarrow> (if current_scheme s = PSJF then compare_sjf (jobs s) running worst_job
                      else compare_pri (jobs s) running worst_job);
       if cmp_result > 0 then find_worst is (int i) running s
       else find_worst is worst_core worst_job s
     }
   }"

definition fresh_job :: "int \<Rightarrow> int \<Rightarrow> int \<Rightarrow> int \<Rightarrow> job_t" where
  "fresh_job number time running pri =
     \<lparr>job_number = number, arrival_time = time, running_time = running, remaining_time = running,
      priority = pri, core_id = - 1, start_time = - 1, finish_time = - 1, last_scheduled_time = time\<rparr>"

definition scheduler_new_job :: "int \<Rightarrow> int \<Rightarrow> int \<Rightarrow> int \<Rightarrow> sched \<Rightarrow> (int \<times> sched) option" where
  "scheduler_new_job number time running pri s = do {
     let new_job = job_brk s;
     let s = s\<lparr>jobs := (jobs s)(new_job := Some (fresh_job number time running pri)), job_brk := Suc new_job\<rparr>;
     s \<leftarrow> update_remaining_times time s;
     idle_core \<leftarrow> find_idle_core s;
     if idle_core \<noteq> - 1 then do {
       s \<leftarrow> place_job_on_core new_job idle_core time s;
       Some (idle_core, s)
     }
     else do {
       preempt \<leftarrow>
         (if current_scheme s = PSJF \<or> current_scheme s = PPRI then do {
            (worst_core, worst_job) \<leftarrow> find_worst [0..<num_cores s] (- 1) 0 s;
            if worst_job \<noteq> 0 then do {
              cmp_result \<leftarrow> (if current_scheme s = PSJF then compare_sjf (jobs s) new_job worst_job
                             else compare_pri (jobs s) new_job worst_job);
              Some (if cmp_result < 0 then Some (worst_core, worst_job) else None)
            }
            else Some None
          }
          else Some None);
       case preempt of
         Some (worst_core, worst_job) \<Rightarrow> do {
           s \<leftarrow> update_job worst_job (\<lambda>j. j\<lparr>core_id := - 1\<rparr>) s;
           s \<leftarrow> offer_job worst_job s;
           s \<leftarrow> place_job_on_core new_job worst_core time s;
           Some (worst_core, s)
         }
       | None \<Rightarrow> do { s \<leftarrow> offer_job new_job s; Some (- 1, s) }
     }
   }"

definition dispatch_next :: "int \<Rightarrow> int \<Rightarrow> sched \<Rightarrow> (int \<times> sched) option" where
  "dispatch_next core time s = do {
     (next_job, s) \<leftarrow> poll_job s;
     if next_job = 0 then Some (- 1, s)
     else do {
       s \<leftarrow> place_job_on_core next_job core time s;
       j \<leftarrow> deref (jobs s) next_job;
       Some (job_number j, s)
     }
   }"

definition scheduler_job_finished :: "int \<Rightarrow> int \<Rightarrow> int \<Rightarrow> sched \<Rightarrow> (int \<times> sched) option" where
  "scheduler_job_finished core number time s = do {
     finished \<leftarrow> core_at s core;
     s \<leftarrow> charge finished time s;
     s \<leftarrow> update_job finished (\<lambda>j. j\<lparr>finish_time := time\<rparr>) s;
     s \<leftarrow> accumulate_stats finished s;
     s \<leftarrow> free_job finished s;
     s \<leftarrow> set_core core 0 s;
     dispatch_next core time s
   }"

definition scheduler_quantum_expired :: "int \<Rightarrow> int \<Rightarrow> sched \<Rightarrow> (int \<times> sched) option" where
  "scheduler_quantum_expired core time s = do {
     expired \<leftarrow> core_at s core;
     s \<leftarrow> charge expired time s;
     s \<leftarrow> set_core core 0 s;
     s \<leftarrow> update_job expired (\<lambda>j. j\<lparr>core_id := - 1\<rparr>) s;
     s \<leftarrow> offer_job expired s;
     dispatch_next core time s
   }"

definition average :: "int \<Rightarrow> sched \<Rightarrow> int \<times> nat" where
  "average tot s =
     (if total_jobs_finished s = 0 then (0, 0) else f32_div tot (f32_of_int (total_jobs_finished s)))"

definition scheduler_average_waiting_time :: "sched \<Rightarrow> int \<times> nat" where
  "scheduler_average_waiting_time s = average (total_wait_time s) s"

definition scheduler_average_turnaround_time :: "sched \<Rightarrow> int \<times> nat" where
  "scheduler_average_turnaround_time s = average (total_turnaround_time s) s"

definition scheduler_average_response_time :: "sched \<Rightarrow> int \<times> nat" where
  "scheduler_average_response_time s = average (total_response_time s) s"

fun free_cores :: "nat list \<Rightarrow> sched \<Rightarrow> sched option" where
  "free_cores [] s = Some s"
| "free_cores (i # is) s = do {
     p \<leftarrow> core_at s (int i);
     s \<leftarrow> (if p \<noteq> 0 then do { s \<leftarrow> free_job p s; set_core (int i) 0 s } else Some s);
     free_cores is s
   }"

partial_function (option) free_queue :: "sched \<Rightarrow> sched option" where
  "free_queue s = do {
     (leftover, s) \<leftarrow> poll_job s;
     if leftover = 0 then Some s else do { s \<leftarrow> free_job leftover s; free_queue s }
   }"

declare free_queue.simps [code]

text \<open>The array of the cores, freed at the end, is the empty list then.\<close>

definition scheduler_clean_up :: "sched \<Rightarrow> sched option" where
  "scheduler_clean_up s = do {
     s \<leftarrow> free_cores [0..<num_cores s] s;
     s \<leftarrow> free_queue s;
     h \<leftarrow> priqueue_destroy (job_queue s) (qnodes s);
     Some (s\<lparr>qnodes := h, core_job_ptrs := []\<rparr>)
   }"

text \<open>\<open>scheduler_show_queue\<close>: the pairs it prints as \<open>%d(%d)\<close>.\<close>

fun show_queued :: "nat list \<Rightarrow> sched \<Rightarrow> (int \<times> int) list option" where
  "show_queued [] s = Some []"
| "show_queued (i # is) s = do {
     p \<leftarrow> priqueue_at (job_queue s) (qnodes s) (int i);
     j \<leftarrow> deref (jobs s) p;
     out \<leftarrow> show_queued is s;
     Some ((job_number j, core_id j) # out)
   }"

fun show_running :: "nat list \<Rightarrow> sched \<Rightarrow> (int \<times> int) list option" where
  "show_running [] s = Some []"
| "show_running (c # cs) s = do {
     p \<leftarrow> core_at s (int c);
     here \<leftarrow> (if p \<noteq> 0 then do { j \<leftarrow> deref (jobs s) p; Some [(job_number j, int c)] } else Some []);
     out \<leftarrow> show_running cs s;
     Some (here @ out)
   }"

definition scheduler_show_queue :: "sched \<Rightarrow> (int \<times> int) list option" where
  "scheduler_show_queue s = do {
     n \<leftarrow> priqueue_size (job_queue s) (qnodes s);
     queued \<leftarrow> show_queued [0..<n] s;
     running \<leftarrow> show_running [0..<num_cores s] s;
     Some (queued @ running)
   }"

subsection \<open>Priorities\<close>

text \<open>The order each scheme serves jobs in, and the range of values on which no comparison
  or charge overflows: times below \<open>2 ^ 30\<close>.\<close>

definition BIG :: int where "BIG = 2 ^ 30"

definition job_key :: "scheme_t \<Rightarrow> job_t \<Rightarrow> int \<times> int" where
  "job_key sc j =
     (case sc of FCFS \<Rightarrow> (arrival_time j, 0) | RR \<Rightarrow> (arrival_time j, 0)
      | SJF \<Rightarrow> (remaining_time j, arrival_time j) | PSJF \<Rightarrow> (remaining_time j, arrival_time j)
      | PRI \<Rightarrow> (priority j, arrival_time j) | PPRI \<Rightarrow> (priority j, arrival_time j))"

definition job_ok :: "int \<Rightarrow> job_t \<Rightarrow> bool" where
  "job_ok t j \<longleftrightarrow>
     0 \<le> arrival_time j \<and> arrival_time j \<le> last_scheduled_time j \<and> last_scheduled_time j \<le> t \<and>
     0 \<le> running_time j \<and> running_time j < BIG \<and>
     running_time j - (last_scheduled_time j - arrival_time j) \<le> remaining_time j \<and> remaining_time j \<le> running_time j \<and>
     - BIG < priority j \<and> priority j < BIG \<and>
     (start_time j = - 1 \<or> arrival_time j \<le> start_time j \<and> start_time j \<le> last_scheduled_time j) \<and> finish_time j = - 1"

definition key :: "scheme_t \<Rightarrow> job_mem \<Rightarrow> nat \<Rightarrow> int \<times> int" where
  "key sc m p = job_key sc (the (m p))"

lemma key_upd [simp]:
  "key sc (m(p := x)) q = (if q = p then job_key sc (the x) else key sc m q)"
  by (simp add: key_def)

lemma scheme_comparer_ok:
  assumes "m a = Some ja" "m b = Some jb" "a \<noteq> 0" "b \<noteq> 0" "job_ok t ja" "job_ok t jb" "t < BIG"
  shows "\<exists>c. scheme_comparer sc m a b = Some c \<and> (c < 0 \<longleftrightarrow> job_key sc ja < job_key sc jb) \<and>
    (0 < c \<longleftrightarrow> job_key sc jb < job_key sc ja)"
proof -
  have sub: "int_sub x y = Some (x - y)" if "- BIG \<le> x" "x < BIG" "- BIG \<le> y" "y < BIG" for x y
    using that by (simp add: int_sub_def int32_iff BIG_def)
  have r: "- BIG \<le> arrival_time ja" "arrival_time ja < BIG" "- BIG \<le> arrival_time jb" "arrival_time jb < BIG"
    "- BIG \<le> remaining_time ja" "remaining_time ja < BIG" "- BIG \<le> remaining_time jb" "remaining_time jb < BIG"
    "- BIG \<le> priority ja" "priority ja < BIG" "- BIG \<le> priority jb" "priority jb < BIG"
    using assms(5-7) by (auto simp: job_ok_def BIG_def)
  show ?thesis
    using assms(1-4) sub [OF r(1-4)] sub [OF r(5-8)] sub [OF r(9-12)]
    by (cases sc) (auto simp: scheme_comparer_def compare_fcfs_def compare_sjf_def compare_pri_def compare_rr_def
        deref_def job_key_def less_prod_def)
qed

definition queue_insert :: "scheme_t \<Rightarrow> job_mem \<Rightarrow> nat \<Rightarrow> nat list \<Rightarrow> nat list" where
  "queue_insert sc m = insert_spec (\<lambda>x y. key sc m x < key sc m y)"

lemma set_queue_insert [simp]:
  "set (queue_insert sc m p qs) = insert p (set qs)" "distinct (queue_insert sc m p qs) \<longleftrightarrow> p \<notin> set qs \<and> distinct qs"
  "queue_insert sc m p qs \<noteq> []"
  unfolding queue_insert_def by (simp, simp, cases qs, auto)

lemma queue_insert_cong:
  "p \<notin> set qs \<Longrightarrow> queue_insert sc (m(p \<mapsto> j)) p qs = insert_spec (\<lambda>x y. job_key sc j < key sc m y) p qs"
  unfolding queue_insert_def by (rule insert_spec_cong) auto

lemma queue_insert_agree:
  "(\<And>y. y \<in> insert p (set qs) \<Longrightarrow> m y = m' y) \<Longrightarrow> queue_insert sc m p qs = queue_insert sc m' p qs"
  unfolding queue_insert_def by (rule insert_spec_cong) (simp add: key_def)

lemma sorted_queue_insert: "sorted (map (key sc m) qs) \<Longrightarrow> sorted (map (key sc m) (queue_insert sc m p qs))"
  unfolding queue_insert_def by (induction qs) (auto simp: not_less intro: order_trans less_imp_le)

subsection \<open>Where the jobs are\<close>

text \<open>Every live job is in exactly one place: on one core, or once in the queue, which is in
  priority order. The invariant over the bare data: cores, jobs, allocation bound, queue, time.\<close>

definition core_inv :: "scheme_t \<Rightarrow> nat list \<Rightarrow> job_mem \<Rightarrow> nat \<Rightarrow> nat list \<Rightarrow> int \<Rightarrow> bool" where
  "core_inv sc cores m b qs t \<longleftrightarrow>
     (\<forall>p. m p \<noteq> None \<longleftrightarrow> p \<in> set qs \<or> (p \<noteq> 0 \<and> (\<exists>i < length cores. cores ! i = p))) \<and>
     distinct qs \<and> 0 \<notin> set qs \<and>
     (\<forall>i < length cores. cores ! i \<noteq> 0 \<longrightarrow> cores ! i \<notin> set qs \<and> (\<forall>j < length cores. cores ! j = cores ! i \<longrightarrow> j = i)) \<and>
     (\<forall>p. m p \<noteq> None \<longrightarrow> p < b) \<and> 0 < b \<and>
     (\<forall>p j. m p = Some j \<longrightarrow> job_ok t j) \<and> 0 \<le> t \<and> t < BIG \<and>
     sorted (map (key sc m) qs) \<and>
     (\<forall>p \<in> set qs. core_id (the (m p)) = - 1) \<and>
     (\<forall>i < length cores. cores ! i \<noteq> 0 \<longrightarrow> core_id (the (m (cores ! i))) = int i \<and> start_time (the (m (cores ! i))) \<noteq> - 1)"

lemma core_invD:
  assumes "core_inv sc cores m b qs t"
  shows "\<And>p. m p \<noteq> None \<longleftrightarrow> p \<in> set qs \<or> (p \<noteq> 0 \<and> (\<exists>i < length cores. cores ! i = p))"
    "distinct qs" "0 \<notin> set qs" "\<And>i. i < length cores \<Longrightarrow> cores ! i \<noteq> 0 \<Longrightarrow> cores ! i \<notin> set qs"
    "\<And>i j. i < length cores \<Longrightarrow> cores ! i \<noteq> 0 \<Longrightarrow> j < length cores \<Longrightarrow> cores ! j = cores ! i \<Longrightarrow> j = i"
    "\<And>p j. m p = Some j \<Longrightarrow> p < b" "0 < b" "\<And>p j. m p = Some j \<Longrightarrow> job_ok t j" "0 \<le> t" "t < BIG"
    "sorted (map (key sc m) qs)" "\<And>p. p \<in> set qs \<Longrightarrow> core_id (the (m p)) = - 1"
    "\<And>i. i < length cores \<Longrightarrow> cores ! i \<noteq> 0 \<Longrightarrow> core_id (the (m (cores ! i))) = int i"
    "\<And>i. i < length cores \<Longrightarrow> cores ! i \<noteq> 0 \<Longrightarrow> start_time (the (m (cores ! i))) \<noteq> - 1"
  using assms unfolding core_inv_def by blast+

lemma core_invI:
  assumes "\<And>p. m p \<noteq> None \<longleftrightarrow> p \<in> set qs \<or> (p \<noteq> 0 \<and> (\<exists>i < length cores. cores ! i = p))"
    and "distinct qs" and "0 \<notin> set qs" and "\<And>i. i < length cores \<Longrightarrow> cores ! i \<noteq> 0 \<Longrightarrow> cores ! i \<notin> set qs"
    and "\<And>i j. i < length cores \<Longrightarrow> cores ! i \<noteq> 0 \<Longrightarrow> j < length cores \<Longrightarrow> cores ! j = cores ! i \<Longrightarrow> j = i"
    and "\<And>p. m p \<noteq> None \<Longrightarrow> p < b" and "0 < b" and "\<And>p j. m p = Some j \<Longrightarrow> job_ok t j" and "0 \<le> t" and "t < BIG"
    and "sorted (map (key sc m) qs)" and "\<And>p. p \<in> set qs \<Longrightarrow> core_id (the (m p)) = - 1"
    and "\<And>i. i < length cores \<Longrightarrow> cores ! i \<noteq> 0 \<Longrightarrow> core_id (the (m (cores ! i))) = int i"
    and "\<And>i. i < length cores \<Longrightarrow> cores ! i \<noteq> 0 \<Longrightarrow> start_time (the (m (cores ! i))) \<noteq> - 1"
  shows "core_inv sc cores m b qs t"
  unfolding core_inv_def by (intro conjI allI impI ballI) (rule assms; assumption)+

lemma core_inv_running:
  assumes "core_inv sc cores m b qs t" "i < length cores" "cores ! i \<noteq> 0"
  obtains j where "m (cores ! i) = Some j" "core_id j = int i" "start_time j \<noteq> - 1" "job_ok t j"
  using core_invD(1) [OF assms(1), of "cores ! i"] core_invD(8,13,14) [OF assms(1)] assms(2,3) by force

lemma core_inv_queued:
  assumes "core_inv sc cores m b qs t" "p \<in> set qs"
  obtains j where "m p = Some j" "core_id j = - 1" "job_ok t j" "p \<noteq> 0"
  using core_invD(1) [OF assms(1), of p] core_invD(3,8,12) [OF assms(1)] assms(2) by force

lemma core_inv_brk: "core_inv sc cores m b qs t \<Longrightarrow> b \<le> b' \<Longrightarrow> core_inv sc cores m b' qs t"
  unfolding core_inv_def by (meson less_le_trans)

lemma core_inv_rem_core:
  assumes inv: "core_inv sc cores m b qs t" and i: "i < length cores" "cores ! i = p" "p \<noteq> 0"
  shows "core_inv sc (cores[i := 0]) (m(p := None)) b qs t"
proof -
  note r = core_invD [OF inv]
  let ?m = "m(p := None)" and ?c = "cores[i := 0]"
  have p: "p \<notin> set qs" using r(4) i by auto
  have other: "?c ! k = cores ! k" "cores ! k \<noteq> p" if "k < length cores" "?c ! k \<noteq> 0" for k
    using that r(5) [of i k] i by (auto simp: nth_list_update split: if_splits)
  have "map (key sc ?m) qs = map (key sc m) qs" using p by auto
  with r(11) have sorted: "sorted (map (key sc ?m) qs)" by (simp only:)
  have dom: "?m q \<noteq> None \<longleftrightarrow> q \<in> set qs \<or> (q \<noteq> 0 \<and> (\<exists>j < length ?c. ?c ! j = q))" for q
  proof (cases "q = p")
    case True
    have "?c ! j \<noteq> p" if "j < length cores" for j
      using that other(1,2) [of j] i(3) by (cases "?c ! j = 0") auto
    with True p show ?thesis by auto
  next
    case False
    have "(\<exists>j < length ?c. ?c ! j = q) = (\<exists>j < length cores. cores ! j = q)" if "q \<noteq> 0"
    proof
      assume "\<exists>j < length ?c. ?c ! j = q"
      then obtain k where "k < length cores" "?c ! k = q" by auto
      with other(1) [of k] that show "\<exists>j < length cores. cores ! j = q" by auto
    next
      assume "\<exists>j < length cores. cores ! j = q"
      then obtain k where k: "k < length cores" "cores ! k = q" by auto
      with False i(2) have "k \<noteq> i" by auto
      with k show "\<exists>j < length ?c. ?c ! j = q" by (intro exI [of _ k]) auto
    qed
    with False r(1) [of q] show ?thesis by auto
  qed
  show ?thesis
  proof (rule core_invI [OF dom r(2,3) _ _ _ r(7) _ r(9,10) sorted])
    fix k l assume k: "k < length ?c" "?c ! k \<noteq> 0"
    then have o: "?c ! k = cores ! k" "cores ! k \<noteq> p" "k < length cores" "cores ! k \<noteq> 0" using other [of k] by auto
    show "?c ! k \<notin> set qs" "core_id (the (?m (?c ! k))) = int k" "start_time (the (?m (?c ! k))) \<noteq> - 1"
      using r(4,13,14) [of k] o by auto
    show "l = k" if "l < length ?c" "?c ! l = ?c ! k"
    proof (rule r(5) [OF o(3,4)])
      show "l < length cores" using that(1) by simp
      then show "cores ! l = cores ! k" using other(1) [of l] o(1) that(2) k(2) by simp
    qed
  qed (use r(6,8,12) p in \<open>auto split: if_splits\<close>)
qed

lemma core_inv_rem_queue:
  assumes inv: "core_inv sc cores m b (x # xs) t"
  shows "core_inv sc cores (m(x := None)) b xs t"
proof -
  note r = core_invD [OF inv]
  let ?m = "m(x := None)"
  have x: "x \<notin> set xs" "\<And>i. i < length cores \<Longrightarrow> cores ! i \<noteq> x" using r(2,3) r(4) by force+
  have "map (key sc ?m) xs = map (key sc m) xs" using x by auto
  moreover have "sorted (map (key sc m) xs)" using r(11) by simp
  ultimately have sorted: "sorted (map (key sc ?m) xs)" by (simp only:)
  have dom: "?m q \<noteq> None \<longleftrightarrow> q \<in> set xs \<or> (q \<noteq> 0 \<and> (\<exists>j < length cores. cores ! j = q))" for q
    using r(1) [of q] x by auto
  show ?thesis
    by (rule core_invI [OF dom _ _ _ _ _ r(7) _ r(9,10) sorted])
      (use r(2,3,4,5,6,8,12,13,14) x in \<open>auto split: if_splits\<close>)
qed

lemma core_inv_add_core:
  assumes inv: "core_inv sc cores m b qs t" and p: "m p = None" "p \<noteq> 0" "p < b" and i: "i < length cores" "cores ! i = 0"
    and j: "job_ok t j" "core_id j = int i" "start_time j \<noteq> - 1"
  shows "core_inv sc (cores[i := p]) (m(p \<mapsto> j)) b qs t"
proof -
  note r = core_invD [OF inv]
  let ?m = "m(p \<mapsto> j)" and ?c = "cores[i := p]"
  have pq: "p \<notin> set qs" "\<And>k. k < length cores \<Longrightarrow> cores ! k \<noteq> p" using r(1) [of p] p by auto
  have nth: "?c ! k = (if k = i then p else cores ! k)" if "k < length cores" for k using that by (simp add: nth_list_update)
  have "map (key sc ?m) qs = map (key sc m) qs" using pq by auto
  with r(11) have sorted: "sorted (map (key sc ?m) qs)" by (simp only:)
  have dom: "?m q \<noteq> None \<longleftrightarrow> q \<in> set qs \<or> (q \<noteq> 0 \<and> (\<exists>k < length ?c. ?c ! k = q))" for q
  proof (cases "q = p")
    case True
    then show ?thesis using p i nth [of i] by auto
  next
    case False
    have "(\<exists>k < length ?c. ?c ! k = q) = (\<exists>k < length cores. cores ! k = q)" if "q \<noteq> 0"
    proof
      assume "\<exists>k < length ?c. ?c ! k = q"
      then obtain k where "k < length cores" "?c ! k = q" by auto
      with nth [of k] False show "\<exists>k < length cores. cores ! k = q" by (auto split: if_splits)
    next
      assume "\<exists>k < length cores. cores ! k = q"
      then obtain k where k: "k < length cores" "cores ! k = q" by auto
      then have "k \<noteq> i" using i(2) that by auto
      with nth [of k] k show "\<exists>k < length ?c. ?c ! k = q" by auto
    qed
    with False r(1) [of q] show ?thesis by auto
  qed
  show ?thesis
  proof (rule core_invI [OF dom r(2,3) _ _ _ r(7) _ r(9,10) sorted])
    fix k l assume k: "k < length ?c" "?c ! k \<noteq> 0"
    then have o: "?c ! k = (if k = i then p else cores ! k)" "k < length cores" "k \<noteq> i \<Longrightarrow> cores ! k \<noteq> 0"
      using nth [of k] by auto
    show "?c ! k \<notin> set qs" "core_id (the (?m (?c ! k))) = int k" "start_time (the (?m (?c ! k))) \<noteq> - 1"
      using r(4,13,14) [of k] o pq j by auto
    show "l = k" if "l < length ?c" "?c ! l = ?c ! k"
    proof -
      have l: "l < length cores" "?c ! l = (if l = i then p else cores ! l)" using that(1) nth [of l] by auto
      have eq: "(if l = i then p else cores ! l) = (if k = i then p else cores ! k)" using that(2) l(2) o(1) by simp
      show "l = k"
      proof (cases "l = i \<or> k = i")
        case True
        then show ?thesis using eq pq(2) [OF l(1)] pq(2) [OF o(2)] by (metis (full_types))
      next
        case False
        then show ?thesis using r(5) [OF o(2) o(3) l(1)] eq by simp
      qed
    qed
  qed (use r(6,8,12) p j pq in \<open>auto split: if_splits\<close>)
qed

lemma core_inv_add_queue:
  assumes inv: "core_inv sc cores m b qs t" and p: "m p = None" "p \<noteq> 0" "p < b"
    and j: "job_ok t j" "core_id j = - 1"
  shows "core_inv sc cores (m(p \<mapsto> j)) b (queue_insert sc (m(p \<mapsto> j)) p qs) t"
proof -
  note r = core_invD [OF inv]
  let ?m = "m(p \<mapsto> j)"
  have pq: "p \<notin> set qs" "\<And>k. k < length cores \<Longrightarrow> cores ! k \<noteq> p" using r(1) [of p] p by auto
  have "map (key sc ?m) qs = map (key sc m) qs" using pq by auto
  with r(11) have "sorted (map (key sc ?m) qs)" by (simp only:)
  then have sorted: "sorted (map (key sc ?m) (queue_insert sc ?m p qs))" by (rule sorted_queue_insert)
  have dom: "?m q \<noteq> None \<longleftrightarrow> q \<in> set (queue_insert sc ?m p qs) \<or> (q \<noteq> 0 \<and> (\<exists>k < length cores. cores ! k = q))" for q
    using r(1) [of q] p by auto
  show ?thesis
    by (rule core_invI [OF dom _ _ _ _ _ r(7) _ r(9,10) sorted])
      (use r(2,3,4,5,6,8,12,13,14) pq p j in \<open>auto split: if_splits\<close>)
qed

subsection \<open>Time\<close>

definition tick :: "int \<Rightarrow> job_t \<Rightarrow> job_t" where
  "tick t j = j\<lparr>remaining_time := remaining_time j - (t - last_scheduled_time j), last_scheduled_time := t\<rparr>"

definition ticked :: "int \<Rightarrow> nat set \<Rightarrow> job_mem \<Rightarrow> job_mem" where
  "ticked t A m = (\<lambda>p. if p \<in> A then map_option (tick t) (m p) else m p)"

definition placed :: "int \<Rightarrow> int \<Rightarrow> job_t \<Rightarrow> job_t" where
  "placed c t j = j\<lparr>core_id := c, last_scheduled_time := t,
     start_time := (if start_time j = - 1 then t else start_time j)\<rparr>"

lemma tick_simps [simp]:
  "tick t (tick t j) = tick t j" "core_id (tick t j) = core_id j" "start_time (tick t j) = start_time j"
  "arrival_time (tick t j) = arrival_time j" "priority (tick t j) = priority j" "job_number (tick t j) = job_number j"
  "running_time (tick t j) = running_time j" "last_scheduled_time (tick t j) = t"
  by (simp_all add: tick_def)

lemma placed_simps [simp]:
  "core_id (placed c t j) = c" "arrival_time (placed c t j) = arrival_time j" "priority (placed c t j) = priority j"
  "remaining_time (placed c t j) = remaining_time j" "job_number (placed c t j) = job_number j"
  "running_time (placed c t j) = running_time j" "last_scheduled_time (placed c t j) = t"
  by (simp_all add: placed_def)

lemma job_key_simps [simp]:
  "job_key sc (placed c t j) = job_key sc j" "job_key sc (j\<lparr>core_id := c\<rparr>) = job_key sc j"
  by (simp_all add: job_key_def placed_def split: scheme_t.splits)

lemma job_ok_mono: "job_ok t j \<Longrightarrow> t \<le> t' \<Longrightarrow> job_ok t' j"
  by (auto simp: job_ok_def)

lemma job_ok_tick: "job_ok t j \<Longrightarrow> job_ok t (tick t j)"
  by (auto simp: job_ok_def tick_def)

lemma job_ok_placed: "job_ok t j \<Longrightarrow> job_ok t (placed c t j)"
  by (auto simp: job_ok_def placed_def)

lemma job_ok_core [simp]: "job_ok t (j\<lparr>core_id := c\<rparr>) = job_ok t j"
  by (simp add: job_ok_def)

lemma placed_started: "job_ok t j \<Longrightarrow> 0 \<le> t \<Longrightarrow> start_time (placed c t j) \<noteq> - 1"
  by (auto simp: job_ok_def placed_def)

lemma job_key_tick: "job_ok t j \<Longrightarrow> job_key sc (tick t j) \<le> job_key sc j"
  by (auto simp: job_key_def tick_def job_ok_def less_eq_prod_def split: scheme_t.splits)

lemma core_inv_time: "core_inv sc cores m b qs t \<Longrightarrow> t \<le> t' \<Longrightarrow> t' < BIG \<Longrightarrow> core_inv sc cores m b qs t'"
  unfolding core_inv_def using job_ok_mono by (meson order_trans)

lemma core_inv_ticked:
  assumes inv: "core_inv sc cores m b qs t"
  shows "core_inv sc cores (ticked t (set cores - {0}) m) b qs t"
proof -
  note r = core_invD [OF inv]
  let ?m = "ticked t (set cores - {0}) m"
  have q: "?m p = m p" if "p \<in> set qs" for p
  proof -
    have "p \<notin> set cores - {0}" using that r(4) by (metis DiffE in_set_conv_nth singletonI)
    then show ?thesis by (auto simp: ticked_def)
  qed
  have c: "?m (cores ! i) = map_option (tick t) (m (cores ! i))" if "i < length cores" "cores ! i \<noteq> 0" for i
    using that by (auto simp: ticked_def)
  have "map (key sc ?m) qs = map (key sc m) qs" using q by (simp add: key_def)
  with r(11) have sorted: "sorted (map (key sc ?m) qs)" by (simp only:)
  have none: "?m p = None \<longleftrightarrow> m p = None" for p by (simp add: ticked_def)
  show ?thesis
  proof (rule core_invI [OF _ r(2,3,4,5) _ r(7) _ r(9,10) sorted])
    fix i assume i: "i < length cores" "cores ! i \<noteq> 0"
    obtain j where "m (cores ! i) = Some j" "core_id j = int i" "start_time j \<noteq> - 1"
      by (rule core_inv_running [OF inv i])
    then show "core_id (the (?m (cores ! i))) = int i" "start_time (the (?m (cores ! i))) \<noteq> - 1"
      unfolding c [OF i] by simp_all
  next
    fix p j assume "?m p = Some j"
    then show "job_ok t j" using r(8) by (auto simp: ticked_def job_ok_tick split: if_splits)
  qed (use r(1,6,12) q none in auto)
qed

subsection \<open>What the helpers compute\<close>

lemma charge_ok:
  assumes "jobs s p = Some j" "p \<noteq> 0" "job_ok t j" "t < BIG"
  shows "charge p t s = Some (s\<lparr>jobs := (jobs s)(p \<mapsto> tick t j)\<rparr>)"
  using assms by (auto simp: charge_def deref_def update_job_def int_sub_def int32_iff job_ok_def BIG_def tick_def)

lemma place_ok:
  assumes "jobs s p = Some j" "p \<noteq> 0" "i < length (core_job_ptrs s)"
  shows "place_job_on_core p (int i) t s =
    Some (s\<lparr>core_job_ptrs := (core_job_ptrs s)[i := p], jobs := (jobs s)(p \<mapsto> placed (int i) t j)\<rparr>)"
  using assms by (simp add: place_job_on_core_def set_core_def update_job_def deref_def placed_def)

lemma core_at_nat [simp]: "i < length (core_job_ptrs s) \<Longrightarrow> core_at s (int i) = Some (core_job_ptrs s ! i)"
  by (simp add: core_at_def)

lemma update_remaining_ok:
  assumes "\<forall>i \<in> set is. i < length (core_job_ptrs s)"
    and "\<forall>i \<in> set is. core_job_ptrs s ! i \<noteq> 0 \<longrightarrow> (\<exists>j. jobs s (core_job_ptrs s ! i) = Some j \<and> job_ok t j)" and "t < BIG"
  shows "update_remaining is t s = Some (s\<lparr>jobs := ticked t ((!) (core_job_ptrs s) ` set is - {0}) (jobs s)\<rparr>)"
  using assms(1,2)
proof (induction "is" arbitrary: s)
  case Nil
  have "ticked t {} (jobs s) = jobs s" by (simp add: ticked_def)
  then show ?case by simp
next
  case (Cons i "is")
  show ?case
  proof (cases "core_job_ptrs s ! i = 0")
    case True
    then show ?thesis using Cons by simp
  next
    case False
    then obtain j where j: "jobs s (core_job_ptrs s ! i) = Some j" "job_ok t j" using Cons.prems by auto
    let ?s = "s\<lparr>jobs := (jobs s)(core_job_ptrs s ! i \<mapsto> tick t j)\<rparr>"
    have "update_remaining is t ?s = Some (?s\<lparr>jobs := ticked t ((!) (core_job_ptrs ?s) ` set is - {0}) (jobs ?s)\<rparr>)"
      by (rule Cons.IH) (use Cons.prems j(2) in \<open>auto simp: job_ok_tick\<close>)
    moreover have "ticked t ((!) (core_job_ptrs s) ` set is - {0}) ((jobs s)(core_job_ptrs s ! i \<mapsto> tick t j)) =
        ticked t ((!) (core_job_ptrs s) ` set (i # is) - {0}) (jobs s)"
      using j(1) False by (auto simp: ticked_def fun_eq_iff)
    ultimately show ?thesis using Cons.prems False charge_ok [OF j(1) False j(2) assms(3)] by simp
  qed
qed

lemma update_remaining_times_ok:
  assumes inv: "core_inv sc (core_job_ptrs s) m b qs t" and "length (core_job_ptrs s) = num_cores s"
    and same: "\<And>p. p \<in> set (core_job_ptrs s) - {0} \<Longrightarrow> jobs s p = m p"
  shows "update_remaining_times t s = Some (s\<lparr>jobs := ticked t (set (core_job_ptrs s) - {0}) (jobs s)\<rparr>)"
proof -
  have "update_remaining [0..<num_cores s] t s =
      Some (s\<lparr>jobs := ticked t ((!) (core_job_ptrs s) ` set [0..<num_cores s] - {0}) (jobs s)\<rparr>)"
  proof (rule update_remaining_ok [OF _ _ core_invD(10) [OF inv]])
    have "\<exists>j. jobs s (core_job_ptrs s ! i) = Some j \<and> job_ok t j"
      if i: "i \<in> set [0..<num_cores s]" "core_job_ptrs s ! i \<noteq> 0" for i
    proof -
    obtain j where "m (core_job_ptrs s ! i) = Some j" "job_ok t j"
      using core_inv_running [OF inv _ i(2)] i(1) assms(2) by auto
    moreover have "jobs s (core_job_ptrs s ! i) = m (core_job_ptrs s ! i)" using same i assms(2) by auto
    ultimately show ?thesis by simp
    qed
    then show "\<forall>i \<in> set [0..<num_cores s]. core_job_ptrs s ! i \<noteq> 0 \<longrightarrow> (\<exists>j. jobs s (core_job_ptrs s ! i) = Some j \<and> job_ok t j)"
      by blast
  qed (use assms(2) in simp)
  moreover have "(!) (core_job_ptrs s) ` set [0..<num_cores s] = set (core_job_ptrs s)"
    using assms(2) by (auto simp: in_set_conv_nth)
  ultimately show ?thesis by (simp add: update_remaining_times_def)
qed

lemma find_idle_ok:
  assumes "\<forall>i \<in> set is. i < length (core_job_ptrs s)"
  shows "find_idle is s = Some (case find (\<lambda>i. core_job_ptrs s ! i = 0) is of None \<Rightarrow> - 1 | Some i \<Rightarrow> int i)"
  using assms by (induction "is") auto

lemma find_upt_Some: "find P [0..<n] = Some i \<longleftrightarrow> i < n \<and> P i \<and> (\<forall>k < i. \<not> P k)"
  by (auto simp: find_Some_iff)

lemma find_idle_cases:
  assumes "length (core_job_ptrs s) = num_cores s"
  obtains (none) "find_idle_core s = Some (- 1)" "0 \<notin> set (core_job_ptrs s)"
    | (idle) i where "find_idle_core s = Some (int i)" "i < num_cores s" "core_job_ptrs s ! i = 0"
        "\<forall>k < i. core_job_ptrs s ! k \<noteq> 0"
proof (cases "find (\<lambda>i. core_job_ptrs s ! i = 0) [0..<num_cores s]")
  case None
  then have "find_idle_core s = Some (- 1)" using find_idle_ok [of "[0..<num_cores s]" s] assms
    by (simp add: find_idle_core_def)
  moreover from None have "0 \<notin> set (core_job_ptrs s)" using assms
    by (auto simp: find_None_iff in_set_conv_nth)
  ultimately show thesis by (rule none)
next
  case (Some i)
  then have "find_idle_core s = Some (int i)" using find_idle_ok [of "[0..<num_cores s]" s] assms
    by (simp add: find_idle_core_def)
  with Some idle show thesis by (simp add: find_upt_Some)
qed

lemma find_worst_ok:
  assumes "\<forall>i \<in> insert k (set is). i < length (core_job_ptrs s) \<and> core_job_ptrs s ! i \<noteq> 0 \<and>
      (\<exists>j. jobs s (core_job_ptrs s ! i) = Some j \<and> job_ok t j)"
    and "t < BIG" and sc: "current_scheme s = PSJF \<or> current_scheme s = PPRI"
  shows "\<exists>w \<in> insert k (set is). find_worst is (int k) (core_job_ptrs s ! k) s = Some (int w, core_job_ptrs s ! w) \<and>
    (\<forall>i \<in> insert k (set is). key (current_scheme s) (jobs s) (core_job_ptrs s ! i) \<le> key (current_scheme s) (jobs s) (core_job_ptrs s ! w))"
  using assms(1)
proof (induction "is" arbitrary: k)
  case Nil
  then show ?case by simp
next
  case (Cons i "is")
  let ?key = "\<lambda>i. key (current_scheme s) (jobs s) (core_job_ptrs s ! i)"
  obtain ji jk where j: "jobs s (core_job_ptrs s ! i) = Some ji" "job_ok t ji" "jobs s (core_job_ptrs s ! k) = Some jk" "job_ok t jk"
    using Cons.prems by auto
  have nz: "core_job_ptrs s ! i \<noteq> 0" "core_job_ptrs s ! k \<noteq> 0" "i < length (core_job_ptrs s)" using Cons.prems by auto
  obtain c where c: "scheme_comparer (current_scheme s) (jobs s) (core_job_ptrs s ! i) (core_job_ptrs s ! k) = Some c"
      "0 < c \<longleftrightarrow> ?key k < ?key i"
    using scheme_comparer_ok [OF j(1,3) nz(1,2) j(2,4) assms(2)] j by (auto simp: key_def)
  then have cmp: "(if current_scheme s = PSJF then compare_sjf (jobs s) (core_job_ptrs s ! i) (core_job_ptrs s ! k)
      else compare_pri (jobs s) (core_job_ptrs s ! i) (core_job_ptrs s ! k)) = Some c"
    using sc by (auto simp: scheme_comparer_def)
  show ?case
  proof (cases "0 < c")
    case True
    obtain w where "w \<in> insert i (set is)" "find_worst is (int i) (core_job_ptrs s ! i) s = Some (int w, core_job_ptrs s ! w)"
        "\<forall>l \<in> insert i (set is). ?key l \<le> ?key w"
      using Cons.IH [of i] Cons.prems by auto
    with True c(2) cmp nz show ?thesis by (intro bexI [of _ w]) auto
  next
    case False
    obtain w where "w \<in> insert k (set is)" "find_worst is (int k) (core_job_ptrs s ! k) s = Some (int w, core_job_ptrs s ! w)"
        "\<forall>l \<in> insert k (set is). ?key l \<le> ?key w"
      using Cons.IH [of k] Cons.prems by auto
    with False c(2) cmp nz show ?thesis by (intro bexI [of _ w]) (auto simp: not_less)
  qed
qed

lemma precedes_key:
  assumes "comparer q = scheme_comparer sc" "m x = Some jx" "m y = Some jy" "x \<noteq> 0" "y \<noteq> 0" "job_ok t jx" "job_ok t jy" "t < BIG"
  shows "precedes q m x y \<longleftrightarrow> key sc m x < key sc m y" "comparer q m x y \<noteq> None"
  using scheme_comparer_ok [OF assms(2-8), of sc] assms(1-3) by (auto simp: precedes_def key_def)

lemma offer_job_ok:
  assumes rel: "pq_rel (job_queue s) (qnodes s) Map.empty qs" and cmp: "comparer (job_queue s) = scheme_comparer (current_scheme s)"
    and qs: "\<forall>y \<in> set qs. y \<noteq> 0 \<and> (\<exists>j. jobs s y = Some j \<and> job_ok t j)"
    and p: "jobs s p = Some j" "job_ok t j" "p \<noteq> 0" and t: "t < BIG"
  shows "\<exists>q' h'. offer_job p s = Some (s\<lparr>job_queue := q', qnodes := h'\<rparr>) \<and>
    pq_rel q' h' Map.empty (queue_insert (current_scheme s) (jobs s) p qs) \<and> comparer q' = scheme_comparer (current_scheme s)"
proof -
  have pr: "precedes (job_queue s) (jobs s) p y \<longleftrightarrow> key (current_scheme s) (jobs s) p < key (current_scheme s) (jobs s) y"
      "comparer (job_queue s) (jobs s) p y \<noteq> None" if "y \<in> set qs" for y
    using precedes_key [where q = "job_queue s" and m = "jobs s" and x = p and y = y and t = t, OF cmp p(1)]
      qs that p t by blast+
  have "insert_spec (precedes (job_queue s) (jobs s)) p qs = queue_insert (current_scheme s) (jobs s) p qs"
    unfolding queue_insert_def by (rule insert_spec_cong) (rule pr)
  with pq_offer [OF rel pr(2)] cmp obtain i q' h' where
    "priqueue_offer (jobs s) p (job_queue s) (qnodes s) = Some (i, q', h')"
    "pq_rel q' h' Map.empty (queue_insert (current_scheme s) (jobs s) p qs)" "comparer q' = scheme_comparer (current_scheme s)"
    by fastforce
  then show ?thesis by (intro exI [of _ q'] exI [of _ h']) (simp add: offer_job_def)
qed

lemma poll_job_ok:
  assumes "pq_rel (job_queue s) (qnodes s) Map.empty qs"
  shows "\<exists>q' h'. poll_job s = Some (case qs of [] \<Rightarrow> 0 | x # _ \<Rightarrow> x, s\<lparr>job_queue := q', qnodes := h'\<rparr>) \<and>
    pq_rel q' h' Map.empty (tl qs) \<and> comparer q' = comparer (job_queue s)"
proof -
  from pq_poll [OF assms] obtain q' h' where
    "priqueue_poll (job_queue s) (qnodes s) = Some (case qs of [] \<Rightarrow> 0 | x # _ \<Rightarrow> x, q', h')"
    "pq_rel q' h' Map.empty (tl qs)" "comparer q' = comparer (job_queue s)" by blast
  then show ?thesis by (intro exI [of _ q'] exI [of _ h']) (simp add: poll_job_def)
qed

subsection \<open>The scheduler's invariant\<close>

definition sched_rel :: "sched \<Rightarrow> nat list \<Rightarrow> int \<Rightarrow> bool" where
  "sched_rel s qs t \<longleftrightarrow>
     length (core_job_ptrs s) = num_cores s \<and> 0 < num_cores s \<and>
     pq_rel (job_queue s) (qnodes s) Map.empty qs \<and> comparer (job_queue s) = scheme_comparer (current_scheme s) \<and>
     core_inv (current_scheme s) (core_job_ptrs s) (jobs s) (job_brk s) qs t"

text \<open>What the policy promises: no core idles while a job waits, and, except under the
  non-preemptive schemes that order by something a later job can undercut, no waiting job has
  a higher priority than a running one.\<close>

definition policy :: "sched \<Rightarrow> nat list \<Rightarrow> bool" where
  "policy s qs \<longleftrightarrow>
     (qs \<noteq> [] \<longrightarrow> 0 \<notin> set (core_job_ptrs s)) \<and>
     (current_scheme s \<notin> {SJF, PRI} \<longrightarrow>
       (\<forall>p \<in> set (core_job_ptrs s) - {0}. \<forall>q \<in> set qs. key (current_scheme s) (jobs s) p \<le> key (current_scheme s) (jobs s) q))"

definition sched_ok :: "sched \<Rightarrow> nat list \<Rightarrow> int \<Rightarrow> bool" where
  "sched_ok s qs t \<longleftrightarrow> sched_rel s qs t \<and> policy s qs"

lemma sched_relD:
  assumes "sched_rel s qs t"
  shows "length (core_job_ptrs s) = num_cores s" "0 < num_cores s" "pq_rel (job_queue s) (qnodes s) Map.empty qs"
    "comparer (job_queue s) = scheme_comparer (current_scheme s)"
    "core_inv (current_scheme s) (core_job_ptrs s) (jobs s) (job_brk s) qs t"
  using assms by (simp_all add: sched_rel_def)

lemma sched_ok_start: "0 < cores \<Longrightarrow> sched_ok (scheduler_start_up cores sc) [] 0"
proof -
  assume "0 < cores"
  have "core_inv sc (replicate cores 0) (\<lambda>_. None) 1 [] 0" by (rule core_invI) (auto simp: BIG_def)
  moreover have "pq_rel (priqueue_init (scheme_comparer sc)) empty_nheap Map.empty []"
    by (rule pq_rel_init) (auto simp: empty_nheap_def)
  ultimately show ?thesis using \<open>0 < cores\<close>
    by (simp add: sched_ok_def sched_rel_def policy_def scheduler_start_up_def priqueue_init_def)
qed

text \<open>The tail of the two handlers that free a core: the front of the queue moves to it.\<close>

lemma dispatch_next_ok:
  assumes rel: "sched_rel s qs t" and c: "c < num_cores s" "core_job_ptrs s ! c = 0"
  shows "case qs of
      [] \<Rightarrow> \<exists>q' h'. dispatch_next (int c) t s = Some (- 1, s\<lparr>job_queue := q', qnodes := h'\<rparr>) \<and>
        sched_rel (s\<lparr>job_queue := q', qnodes := h'\<rparr>) [] t
    | x # xs \<Rightarrow> \<exists>q' h' j. jobs s x = Some j \<and>
        dispatch_next (int c) t s = Some (job_number j, s\<lparr>job_queue := q', qnodes := h',
          core_job_ptrs := (core_job_ptrs s)[c := x], jobs := (jobs s)(x \<mapsto> placed (int c) t j)\<rparr>) \<and>
        sched_rel (s\<lparr>job_queue := q', qnodes := h',
          core_job_ptrs := (core_job_ptrs s)[c := x], jobs := (jobs s)(x \<mapsto> placed (int c) t j)\<rparr>) xs t"
proof -
  note r = sched_relD [OF rel]
  obtain q' h' where q': "poll_job s = Some (case qs of [] \<Rightarrow> 0 | x # _ \<Rightarrow> x, s\<lparr>job_queue := q', qnodes := h'\<rparr>)"
      "pq_rel q' h' Map.empty (tl qs)" "comparer q' = comparer (job_queue s)"
    using poll_job_ok [OF r(3)] by blast
  show ?thesis
  proof (cases qs)
    case Nil
    with q' r have "dispatch_next (int c) t s = Some (- 1, s\<lparr>job_queue := q', qnodes := h'\<rparr>) \<and>
        sched_rel (s\<lparr>job_queue := q', qnodes := h'\<rparr>) [] t"
      by (simp add: dispatch_next_def sched_rel_def)
    with Nil show ?thesis by auto
  next
    case (Cons x xs)
    obtain j where j: "jobs s x = Some j" "job_ok t j" "x \<noteq> 0" using core_inv_queued [OF r(5), of x] Cons by auto
    have x: "x < job_brk s" using core_invD(6) [OF r(5) j(1)] .
    have "core_inv (current_scheme s) (core_job_ptrs s) ((jobs s)(x := None)) (job_brk s) xs t"
      using core_inv_rem_queue r(5) Cons by blast
    from core_inv_add_core [OF this _ j(3) x _ c(2), of "placed (int c) t j"] j(2) c(1) r(1) core_invD(9) [OF r(5)]
    have "core_inv (current_scheme s) ((core_job_ptrs s)[c := x]) ((jobs s)(x \<mapsto> placed (int c) t j)) (job_brk s) xs t"
      by (simp add: job_ok_placed placed_started)
    then have "dispatch_next (int c) t s = Some (job_number j, s\<lparr>job_queue := q', qnodes := h',
          core_job_ptrs := (core_job_ptrs s)[c := x], jobs := (jobs s)(x \<mapsto> placed (int c) t j)\<rparr>) \<and>
        sched_rel (s\<lparr>job_queue := q', qnodes := h',
          core_job_ptrs := (core_job_ptrs s)[c := x], jobs := (jobs s)(x \<mapsto> placed (int c) t j)\<rparr>) xs t"
      using q' r j Cons c(1) place_ok [of "s\<lparr>job_queue := q', qnodes := h'\<rparr>" x j c t]
      by (simp add: dispatch_next_def sched_rel_def deref_def)
    with Cons j(1) show ?thesis by auto
  qed
qed

subsection \<open>Arrivals\<close>

lemma fresh_job_simps [simp]:
  "core_id (fresh_job n t r p) = - 1" "arrival_time (fresh_job n t r p) = t" "running_time (fresh_job n t r p) = r"
  "remaining_time (fresh_job n t r p) = r" "priority (fresh_job n t r p) = p" "job_number (fresh_job n t r p) = n"
  by (simp_all add: fresh_job_def)

lemma fresh_job_ok: "0 \<le> t \<Longrightarrow> 0 \<le> r \<Longrightarrow> r < BIG \<Longrightarrow> \<bar>p\<bar> < BIG \<Longrightarrow> job_ok t (fresh_job n t r p)"
  by (auto simp: job_ok_def fresh_job_def)

text \<open>The running jobs of \<open>s\<close> as \<open>update_remaining_times\<close> leaves them.\<close>

definition jobs_at :: "int \<Rightarrow> sched \<Rightarrow> job_mem" where
  "jobs_at t s = ticked t (set (core_job_ptrs s) - {0}) (jobs s)"

lemma policy_ticked:
  assumes "policy s qs" "current_scheme s \<notin> {SJF, PRI}" "p \<in> set (core_job_ptrs s) - {0}" "q \<in> set qs"
    and inv: "core_inv (current_scheme s) (core_job_ptrs s) (jobs s) b qs t"
  shows "key (current_scheme s) (jobs_at t s) p \<le> key (current_scheme s) (jobs_at t s) q"
proof -
  obtain i where i: "i < length (core_job_ptrs s)" "core_job_ptrs s ! i = p" "p \<noteq> 0"
    using assms(3) by (auto simp: in_set_conv_nth)
  obtain j where j: "jobs s p = Some j" "job_ok t j" using core_inv_running [OF inv i(1)] i by metis
  have "q \<notin> set (core_job_ptrs s) - {0}" using core_invD(4) [OF inv] assms(4) by (metis DiffE in_set_conv_nth singletonI)
  then have "jobs_at t s q = jobs s q" by (auto simp: jobs_at_def ticked_def)
  moreover have "jobs_at t s p = Some (tick t j)" using assms(3) j(1) by (simp add: jobs_at_def ticked_def)
  moreover have "key (current_scheme s) (jobs s) p \<le> key (current_scheme s) (jobs s) q"
    using assms(1-4) unfolding policy_def by blast
  ultimately show ?thesis using job_key_tick [OF j(2), of "current_scheme s"] j(1) unfolding key_def by auto
qed

definition same_stats :: "sched \<Rightarrow> sched \<Rightarrow> bool" where
  "same_stats s s' \<longleftrightarrow> num_cores s' = num_cores s \<and> current_scheme s' = current_scheme s \<and>
     total_wait_time s' = total_wait_time s \<and> total_turnaround_time s' = total_turnaround_time s \<and>
     total_response_time s' = total_response_time s \<and> total_jobs_finished s' = total_jobs_finished s"

lemma new_job_cases:
  fixes number :: int
  assumes ok: "sched_ok s qs t" and t: "t \<le> time" "time < BIG" and args: "0 \<le> running" "running < BIG" "\<bar>pri\<bar> < BIG"
  defines "M \<equiv> jobs_at time s" and "sc \<equiv> current_scheme s" and "cores \<equiv> core_job_ptrs s" and "b \<equiv> job_brk s"
    and "j0 \<equiv> fresh_job number time running pri"
  obtains
    (idle) i s' where "scheduler_new_job number time running pri s = Some (int i, s')"
      "i < num_cores s" "cores ! i = 0" "\<forall>k < i. cores ! k \<noteq> 0" "qs = []"
      "core_job_ptrs s' = cores[i := b]" "jobs s' = M(b \<mapsto> placed (int i) time j0)" "sched_ok s' [] time" "same_stats s s'"
    | (preempt) w s' qs' where "scheduler_new_job number time running pri s = Some (int w, s')"
      "w < num_cores s" "0 \<notin> set cores" "sc = PSJF \<or> sc = PPRI" "job_key sc j0 < key sc M (cores ! w)"
      "\<forall>i < num_cores s. key sc M (cores ! i) \<le> key sc M (cores ! w)"
      "core_job_ptrs s' = cores[w := b]" "set qs' = insert (cores ! w) (set qs)" "sched_ok s' qs' time" "same_stats s s'"
      "jobs s' (cores ! w) = Some ((the (M (cores ! w)))\<lparr>core_id := - 1\<rparr>)"
      "jobs s' = M(cores ! w \<mapsto> (the (M (cores ! w)))\<lparr>core_id := - 1\<rparr>, b \<mapsto> placed (int w) time j0)"
    | (wait) s' qs' where "scheduler_new_job number time running pri s = Some (- 1, s')"
      "0 \<notin> set cores" "sc = PSJF \<or> sc = PPRI \<Longrightarrow> \<forall>i < num_cores s. key sc M (cores ! i) \<le> job_key sc j0"
      "core_job_ptrs s' = cores" "jobs s' = M(b \<mapsto> j0)" "qs' = queue_insert sc (M(b \<mapsto> j0)) b qs" "sched_ok s' qs' time" "same_stats s s'"
proof -
  have rel: "sched_rel s qs t" and pol: "policy s qs" using ok by (auto simp: sched_ok_def)
  note r = sched_relD [OF rel]
  have len: "length cores = num_cores s" using r(1) by (simp add: cores_def)
  have I0: "core_inv sc cores (jobs s) b qs time"
    using core_inv_time [OF r(5) t] by (simp add: sc_def cores_def b_def)
  have I1: "core_inv sc cores M (Suc b) qs time"
    using core_inv_brk [OF core_inv_ticked [OF I0], of "Suc b"] by (simp add: M_def jobs_at_def cores_def)
  note inv = core_invD [OF I1]
  have b0: "b \<noteq> 0" "jobs s b = None" using core_invD(6,7) [OF I0] by force+
  have Mb: "M b = None" using b0(2) by (simp add: M_def jobs_at_def ticked_def)
  have bc: "b \<notin> set cores" "b \<notin> set qs" using core_invD(1) [OF I0, of b] b0 by (auto simp: in_set_conv_nth)
  have j0: "job_ok time j0" unfolding j0_def by (rule fresh_job_ok) (use args inv(9) in auto)
  define s1 where "s1 = s\<lparr>jobs := (jobs s)(b \<mapsto> j0), job_brk := Suc b\<rparr>"
  define s2 where "s2 = s\<lparr>jobs := M(b \<mapsto> j0), job_brk := Suc b\<rparr>"
  have "update_remaining_times time s1 = Some (s1\<lparr>jobs := ticked time (set (core_job_ptrs s1) - {0}) (jobs s1)\<rparr>)"
  proof (rule update_remaining_times_ok)
    show "core_inv sc (core_job_ptrs s1) (jobs s) b qs time" using I0 by (simp add: s1_def cores_def)
    show "length (core_job_ptrs s1) = num_cores s1" using r(1) by (simp add: s1_def)
    show "\<And>p. p \<in> set (core_job_ptrs s1) - {0} \<Longrightarrow> jobs s1 p = jobs s p" using bc by (auto simp: s1_def cores_def)
  qed
  moreover have "ticked time (set cores - {0}) ((jobs s)(b \<mapsto> j0)) = M(b \<mapsto> j0)"
    using bc by (auto simp: ticked_def M_def jobs_at_def cores_def fun_eq_iff)
  ultimately have upd: "update_remaining_times time s1 = Some s2" by (simp add: s1_def s2_def cores_def)
  have s2: "core_job_ptrs s2 = cores" "num_cores s2 = num_cores s" "jobs s2 = M(b \<mapsto> j0)" "current_scheme s2 = sc"
      "job_queue s2 = job_queue s" "qnodes s2 = qnodes s" "job_brk s2 = Suc b"
    by (simp_all add: s2_def cores_def sc_def)
  show thesis
  proof (rule find_idle_cases [of s2])
    show "length (core_job_ptrs s2) = num_cores s2" using len by (simp add: s2)
  next
    fix i assume idle': "find_idle_core s2 = Some (int i)" "i < num_cores s2" "core_job_ptrs s2 ! i = 0" "\<forall>k < i. core_job_ptrs s2 ! k \<noteq> 0"
    define s3 where "s3 = s2\<lparr>core_job_ptrs := cores[i := b], jobs := M(b \<mapsto> placed (int i) time j0)\<rparr>"
    have i: "i < length cores" "cores ! i = 0" using idle'(2,3) len by (simp_all add: s2)
    then have qs: "qs = []" using pol unfolding policy_def cores_def by (metis nth_mem)
    have res: "scheduler_new_job number time running pri s = Some (int i, s3)"
      using upd idle'(1) place_ok [of s2 b j0 i time] b0 i
      by (simp add: scheduler_new_job_def Let_def s1_def b_def [symmetric] j0_def [symmetric] s2 s3_def)
    have "core_inv sc (cores[i := b]) (M(b \<mapsto> placed (int i) time j0)) (Suc b) qs time"
      by (rule core_inv_add_core [OF I1 Mb b0(1) _ i]) (use j0 inv(9) in \<open>simp_all add: job_ok_placed placed_started\<close>)
    then have "sched_ok s3 [] time"
      using r qs len unfolding sched_ok_def sched_rel_def policy_def s3_def s2_def by (simp add: sc_def)
    moreover have "same_stats s s3" by (simp add: same_stats_def s3_def s2_def)
    ultimately show thesis using idle [OF res] idle'(2-4) qs by (simp add: s2 s3_def)
  next
    assume none: "find_idle_core s2 = Some (- 1)" "0 \<notin> set (core_job_ptrs s2)"
    have nz: "cores ! i \<noteq> 0" if "i < num_cores s" for i using none(2) that len by (metis nth_mem s2(1))
    have run: "\<exists>j. jobs s2 (cores ! i) = Some j \<and> M (cores ! i) = Some j \<and> job_ok time j" if il: "i < num_cores s" for i
    proof -
      obtain j where "M (cores ! i) = Some j" "job_ok time j"
        using core_inv_running [OF I1 _ nz [OF il]] il len by metis
      moreover have "cores ! i \<noteq> b" using bc(1) il len by (metis nth_mem)
      ultimately show ?thesis by (simp add: s2)
    qed
    have queued: "\<forall>y \<in> set qs. y \<noteq> 0 \<and> (\<exists>j. (M(b \<mapsto> x)) y = Some j \<and> job_ok time j)" for x
    proof
      fix y assume y: "y \<in> set qs"
      obtain j where "M y = Some j" "job_ok time j" "y \<noteq> 0" by (rule core_inv_queued [OF I1 y])
      moreover have "y \<noteq> b" using y bc(2) by auto
      ultimately show "y \<noteq> 0 \<and> (\<exists>j. (M(b \<mapsto> x)) y = Some j \<and> job_ok time j)" by simp
    qed
    have pol2: "key sc M p \<le> key sc M q" if "sc \<notin> {SJF, PRI}" "p \<in> set cores" "p \<noteq> 0" "q \<in> set qs" for p q
      using policy_ticked [OF pol _ _ that(4), of p b time] that I0 by (simp add: sc_def cores_def M_def)
    have npos: "0 < num_cores s" using r(2) .
    have worst: "\<exists>w < num_cores s. find_worst [0..<num_cores s] (- 1) 0 s2 = Some (int w, cores ! w) \<and>
        (\<forall>i < num_cores s. key sc M (cores ! i) \<le> key sc M (cores ! w))" if pre: "sc = PSJF \<or> sc = PPRI"
    proof -
      have u: "[0..<num_cores s] = 0 # [1..<num_cores s]" using npos by (simp add: upt_conv_Cons)
      have first: "find_worst [0..<num_cores s] (- 1) 0 s2 = find_worst [1..<num_cores s] (int 0) (core_job_ptrs s2 ! 0) s2"
        unfolding u using nz [OF npos] npos len core_at_nat [of 0 s2] by (simp add: s2)
      have mem: "i \<in> insert 0 (set [1..<num_cores s]) \<longleftrightarrow> i < num_cores s" for i using npos by auto
      have all: "\<forall>i \<in> insert 0 (set [1..<num_cores s]). i < length (core_job_ptrs s2) \<and> core_job_ptrs s2 ! i \<noteq> 0 \<and>
          (\<exists>j. jobs s2 (core_job_ptrs s2 ! i) = Some j \<and> job_ok time j)"
      proof
        fix i assume "i \<in> insert 0 (set [1..<num_cores s])"
        then have il: "i < num_cores s" using mem by blast
        from run [OF il] nz [OF il] il len show "i < length (core_job_ptrs s2) \<and> core_job_ptrs s2 ! i \<noteq> 0 \<and>
          (\<exists>j. jobs s2 (core_job_ptrs s2 ! i) = Some j \<and> job_ok time j)" unfolding s2(1) by auto
      qed
      have "current_scheme s2 = PSJF \<or> current_scheme s2 = PPRI" using pre by (simp add: s2)
      from find_worst_ok [OF all t(2) this, unfolded s2(1,4)] obtain w where
        w: "w \<in> insert 0 (set [1..<num_cores s])" "find_worst [1..<num_cores s] (int 0) (cores ! 0) s2 = Some (int w, cores ! w)"
          "\<forall>i \<in> insert 0 (set [1..<num_cores s]). key sc (jobs s2) (cores ! i) \<le> key sc (jobs s2) (cores ! w)"
        by blast
      moreover have "key sc (jobs s2) (cores ! i) = key sc M (cores ! i)" if il: "i < num_cores s" for i
        using run [OF il] by (auto simp: key_def)
      ultimately have "w < num_cores s" "\<forall>i < num_cores s. key sc M (cores ! i) \<le> key sc M (cores ! w)"
        unfolding mem by (blast, metis mem)
      with first w(2) show ?thesis by (auto simp: s2)
    qed
    have cmp: "\<exists>c. (if current_scheme s2 = PSJF then compare_sjf (jobs s2) b (cores ! w) else compare_pri (jobs s2) b (cores ! w)) = Some c \<and>
        (c < 0 \<longleftrightarrow> job_key sc j0 < key sc M (cores ! w))" if pre: "sc = PSJF \<or> sc = PPRI" and wl: "w < num_cores s" for w
    proof -
      obtain j where j: "jobs s2 (cores ! w) = Some j" "M (cores ! w) = Some j" "job_ok time j" using run [OF wl] by blast
      have "jobs s2 b = Some j0" by (simp add: s2)
      from scheme_comparer_ok [OF this j(1) b0(1) nz [OF wl] j0 j(3) t(2), of sc] j(2) pre
      show ?thesis unfolding s2(4) by (auto simp: scheme_comparer_def key_def)
    qed
    show thesis
    proof (cases "(sc = PSJF \<or> sc = PPRI) \<and> (\<exists>w < num_cores s. job_key sc j0 < key sc M (cores ! w) \<and>
        find_worst [0..<num_cores s] (- 1) 0 s2 = Some (int w, cores ! w) \<and>
        (\<forall>i < num_cores s. key sc M (cores ! i) \<le> key sc M (cores ! w)))")
      case True
      then obtain w where pre: "sc = PSJF \<or> sc = PPRI" and w: "w < num_cores s" "job_key sc j0 < key sc M (cores ! w)"
        "find_worst [0..<num_cores s] (- 1) 0 s2 = Some (int w, cores ! w)"
        "\<forall>i < num_cores s. key sc M (cores ! i) \<le> key sc M (cores ! w)" by blast
      obtain c where c: "(if current_scheme s2 = PSJF then compare_sjf (jobs s2) b (cores ! w) else compare_pri (jobs s2) b (cores ! w)) = Some c"
        "c < 0" using cmp [OF pre w(1)] w(2) by auto
      obtain jw where jw: "jobs s2 (cores ! w) = Some jw" "M (cores ! w) = Some jw" "job_ok time jw" using run [OF w(1)] by blast
      define jw' where "jw' = jw\<lparr>core_id := - 1\<rparr>"
      have wl: "w < length cores" and wn: "cores ! w \<noteq> 0" "cores ! w \<noteq> b" "cores ! w \<notin> set qs"
        using w(1) len nz [OF w(1)] bc(1) nth_mem [of w cores] inv(4) [of w] by auto
      define s3 where "s3 = s2\<lparr>jobs := M(b \<mapsto> j0, cores ! w \<mapsto> jw')\<rparr>"
      have upd_w: "update_job (cores ! w) (\<lambda>j. j\<lparr>core_id := - 1\<rparr>) s2 = Some s3"
        using jw(1) wn by (simp add: update_job_def deref_def s2 s3_def jw'_def)
      define qs' where "qs' = queue_insert sc (M(b \<mapsto> j0, cores ! w \<mapsto> jw')) (cores ! w) qs"
      have "\<exists>q' h'. offer_job (cores ! w) s3 = Some (s3\<lparr>job_queue := q', qnodes := h'\<rparr>) \<and>
          pq_rel q' h' Map.empty (queue_insert (current_scheme s3) (jobs s3) (cores ! w) qs) \<and> comparer q' = scheme_comparer (current_scheme s3)"
      proof (rule offer_job_ok [of s3 qs time "cores ! w" jw'])
        show "\<forall>y \<in> set qs. y \<noteq> 0 \<and> (\<exists>j. jobs s3 y = Some j \<and> job_ok time j)"
          using queued [of j0] wn(3) by (auto simp: s3_def)
      qed (use r jw(3) t(2) wn in \<open>simp_all add: s3_def s2 sc_def jw'_def\<close>)
      then obtain q' h' where q': "offer_job (cores ! w) s3 = Some (s3\<lparr>job_queue := q', qnodes := h'\<rparr>)"
          "pq_rel q' h' Map.empty qs'" "comparer q' = scheme_comparer sc"
        by (auto simp: s3_def s2 qs'_def)
      define jb where "jb = placed (int w) time j0"
      define s4 where "s4 = s3\<lparr>job_queue := q', qnodes := h', core_job_ptrs := cores[w := b], jobs := M(cores ! w \<mapsto> jw', b \<mapsto> jb)\<rparr>"
      have place: "place_job_on_core b (int w) time (s3\<lparr>job_queue := q', qnodes := h'\<rparr>) = Some s4"
        using place_ok [of "s3\<lparr>job_queue := q', qnodes := h'\<rparr>" b j0 w time] b0(1) wn wl
        by (simp add: s3_def s4_def s2 jb_def fun_upd_twist)
      have res: "scheduler_new_job number time running pri s = Some (int w, s4)"
        using upd none(1) pre w(3) c wn(1) upd_w q'(1) place
        by (auto simp: scheduler_new_job_def Let_def s1_def b_def [symmetric] j0_def [symmetric] s2(2,4))
      have "core_inv sc (cores[w := 0]) (M(cores ! w := None)) (Suc b) qs time"
        by (rule core_inv_rem_core [OF I1 wl refl wn(1)])
      from core_inv_add_queue [OF this, of "cores ! w" jw'] wn jw(2,3) inv(6)
      have "core_inv sc (cores[w := 0]) (M(cores ! w \<mapsto> jw')) (Suc b) (queue_insert sc (M(cores ! w \<mapsto> jw')) (cores ! w) qs) time"
        by (simp add: jw'_def)
      moreover have "queue_insert sc (M(cores ! w \<mapsto> jw')) (cores ! w) qs = qs'"
        unfolding qs'_def by (rule queue_insert_agree) (use bc(2) wn in auto)
      ultimately have "core_inv sc (cores[w := 0]) (M(cores ! w \<mapsto> jw')) (Suc b) qs' time" by simp
      from core_inv_add_core [OF this, of b w jb] Mb b0(1) wl wn(2) j0 inv(9)
      have I4: "core_inv sc (cores[w := b]) (M(cores ! w \<mapsto> jw', b \<mapsto> jb)) (Suc b) qs' time"
        by (simp add: jb_def job_ok_placed placed_started)
      have rel4: "sched_rel s4 qs' time"
        unfolding sched_rel_def using I4 q'(2,3) r(1,2) by (simp add: s4_def s3_def s2 cores_def)
      have key_w: "key sc M (cores ! w) = job_key sc jw" using jw(2) by (simp add: key_def)
      have "policy s4 qs'"
      proof -
        have "0 \<notin> set (cores[w := b])" using none(2) b0(1) by (auto simp: s2 dest: set_update_subset_insert [THEN subsetD])
        moreover have "key sc (jobs s4) p \<le> key sc (jobs s4) q" if pq: "p \<in> set (cores[w := b])" "q \<in> set qs'" for p q
        proof -
          obtain i where i: "i < length cores" "p = (if i = w then b else cores ! i)"
            using pq(1) by (auto simp: in_set_conv_nth nth_list_update)
          have kp: "key sc (jobs s4) p \<le> key sc M (cores ! w)"
          proof (cases "i = w")
            case True
            then show ?thesis using i(2) w(2) by (simp add: s4_def jb_def)
          next
            case False
            then have "cores ! i \<noteq> cores ! w" using inv(5) [OF wl wn(1) i(1)] by auto
            moreover have "cores ! i \<noteq> b" using bc(1) i(1) by auto
            ultimately show ?thesis using w(4) i len False by (simp add: s4_def)
          qed
          have "key sc M (cores ! w) \<le> key sc (jobs s4) q"
          proof (cases "q = cores ! w")
            case True
            then show ?thesis using key_w wn(2) by (simp add: s4_def jw'_def)
          next
            case False
            then have "q \<in> set qs" using pq(2) by (simp add: qs'_def)
            moreover have "q \<noteq> b" using \<open>q \<in> set qs\<close> bc(2) by auto
            ultimately show ?thesis using pol2 [of "cores ! w" q] pre wl wn(1) False by (auto simp: s4_def)
          qed
          with kp show ?thesis by (rule order_trans)
        qed
        ultimately show ?thesis unfolding policy_def by (simp add: s4_def s3_def s2)
      qed
      with rel4 have ok4: "sched_ok s4 qs' time" by (simp add: sched_ok_def)
      show thesis
        by (rule preempt [OF res w(1) _ pre w(2,4) _ _ ok4])
          (use none(2) jw(2) wn(2) in \<open>simp_all add: s2 s4_def qs'_def same_stats_def s3_def s2_def cores_def jw'_def jb_def\<close>)
    next
      case False
      have skip: "\<exists>w c. find_worst [0..<num_cores s] (- 1) 0 s2 = Some (int w, cores ! w) \<and> w < num_cores s \<and>
          (if current_scheme s2 = PSJF then compare_sjf (jobs s2) b (cores ! w) else compare_pri (jobs s2) b (cores ! w)) = Some c \<and>
          \<not> c < 0 \<and> \<not> job_key sc j0 < key sc M (cores ! w) \<and> (\<forall>i < num_cores s. key sc M (cores ! i) \<le> key sc M (cores ! w))"
        if pre: "sc = PSJF \<or> sc = PPRI"
      proof -
        obtain w where w: "w < num_cores s" "find_worst [0..<num_cores s] (- 1) 0 s2 = Some (int w, cores ! w)"
            "\<forall>i < num_cores s. key sc M (cores ! i) \<le> key sc M (cores ! w)"
          using worst [OF pre] by blast
        with False pre have "\<not> job_key sc j0 < key sc M (cores ! w)" by blast
        with cmp [OF pre w(1)] w show ?thesis by blast
      qed
      define qs' where "qs' = queue_insert sc (M(b \<mapsto> j0)) b qs"
      have "\<exists>q' h'. offer_job b s2 = Some (s2\<lparr>job_queue := q', qnodes := h'\<rparr>) \<and>
          pq_rel q' h' Map.empty (queue_insert (current_scheme s2) (jobs s2) b qs) \<and> comparer q' = scheme_comparer (current_scheme s2)"
        by (rule offer_job_ok [of s2 qs time b j0])
          (use r queued [of j0] j0 t(2) b0 in \<open>simp_all add: s2 sc_def\<close>)
      then obtain q' h' where q': "offer_job b s2 = Some (s2\<lparr>job_queue := q', qnodes := h'\<rparr>)"
          "pq_rel q' h' Map.empty qs'" "comparer q' = scheme_comparer sc"
        by (auto simp: s2 qs'_def)
      define s3 where "s3 = s2\<lparr>job_queue := q', qnodes := h'\<rparr>"
      have res: "scheduler_new_job number time running pri s = Some (- 1, s3)"
      proof (cases "sc = PSJF \<or> sc = PPRI")
        case True
        obtain w c where "find_worst [0..<num_cores s] (- 1) 0 s2 = Some (int w, cores ! w)" "w < num_cores s"
          "(if current_scheme s2 = PSJF then compare_sjf (jobs s2) b (cores ! w) else compare_pri (jobs s2) b (cores ! w)) = Some c"
          "\<not> c < 0" using skip [OF True] by blast
        with True show ?thesis using upd none(1) q'(1) nz
          by (auto simp: scheduler_new_job_def Let_def s1_def b_def [symmetric] j0_def [symmetric] s2(2,4) s3_def)
      next
        case False
        then show ?thesis using upd none(1) q'(1)
          by (auto simp: scheduler_new_job_def Let_def s1_def b_def [symmetric] j0_def [symmetric] s2(2,4) s3_def)
      qed
      have I3: "core_inv sc cores (M(b \<mapsto> j0)) (Suc b) qs' time"
        unfolding qs'_def by (rule core_inv_add_queue [OF I1 Mb b0(1) _ j0]) (simp_all add: j0_def)
      have le: "key sc M p \<le> job_key sc j0" if nsc: "sc \<notin> {SJF, PRI}" and p: "p \<in> set cores" for p
      proof -
        obtain i where i: "i < num_cores s" "p = cores ! i" using p len by (auto simp: in_set_conv_nth)
        show ?thesis
        proof (cases "sc = PSJF \<or> sc = PPRI")
          case True
          from skip [OF this] i show ?thesis by (auto simp: not_less intro: order_trans)
        next
          case False
          obtain j where "M (cores ! i) = Some j" "job_ok time j" using run [OF i(1)] by blast
          with False nsc i(2) show ?thesis
            by (cases sc) (auto simp: key_def job_key_def j0_def job_ok_def less_eq_prod_def)
        qed
      qed
      have "policy s3 qs'"
      proof -
        have "key sc (jobs s3) p \<le> key sc (jobs s3) q"
          if "sc \<notin> {SJF, PRI}" "p \<in> set cores" "p \<noteq> 0" "q \<in> set qs'" for p q
        proof -
          have "p \<noteq> b" using that(2) bc(1) by auto
          then show ?thesis
            using le [OF that(1,2)] pol2 [OF that(1-3), of q] that(4) by (cases "q = b") (auto simp: s3_def s2 qs'_def)
        qed
        moreover have "current_scheme s3 = sc" "core_job_ptrs s3 = cores" by (simp_all add: s3_def s2)
        ultimately show ?thesis using none(2) unfolding policy_def s2(1) by blast
      qed
      moreover have "sched_rel s3 qs' time"
        unfolding sched_rel_def using I3 q'(2,3) r(1,2) by (simp add: s3_def s2 cores_def)
      ultimately have ok3: "sched_ok s3 qs' time" by (simp add: sched_ok_def)
      have "\<forall>i < num_cores s. key sc M (cores ! i) \<le> job_key sc j0" if "sc = PSJF \<or> sc = PPRI"
        using le that len by auto
      moreover have "same_stats s s3" by (simp add: same_stats_def s3_def s2_def)
      ultimately show thesis using wait [OF res] none(2) ok3 by (simp add: s2 s3_def qs'_def)
    qed
  qed
qed

subsection \<open>Completions and expirations\<close>

definition next_of :: "nat list \<Rightarrow> nat" where
  "next_of qs = (case qs of [] \<Rightarrow> 0 | x # _ \<Rightarrow> x)"

lemma dispatch_next_cases:
  assumes rel: "sched_rel s qs t" and c: "c < num_cores s" "core_job_ptrs s ! c = 0"
    and busy: "tl qs \<noteq> [] \<Longrightarrow> \<forall>i < num_cores s. i \<noteq> c \<longrightarrow> core_job_ptrs s ! i \<noteq> 0"
    and order: "current_scheme s \<notin> {SJF, PRI} \<Longrightarrow> \<forall>p \<in> set (core_job_ptrs s) - {0}. \<forall>q \<in> set (tl qs).
      key (current_scheme s) (jobs s) p \<le> key (current_scheme s) (jobs s) q"
  obtains s' where
    "dispatch_next (int c) t s = Some (if qs = [] then - 1 else job_number (the (jobs s (next_of qs))), s')"
    "sched_ok s' (tl qs) t" "core_job_ptrs s' = (core_job_ptrs s)[c := next_of qs]"
    "jobs s' = (if qs = [] then jobs s else (jobs s)(next_of qs \<mapsto> placed (int c) t (the (jobs s (next_of qs)))))"
    "current_scheme s' = current_scheme s" "num_cores s' = num_cores s"
    "total_wait_time s' = total_wait_time s" "total_turnaround_time s' = total_turnaround_time s"
    "total_response_time s' = total_response_time s" "total_jobs_finished s' = total_jobs_finished s"
proof (cases qs)
  case Nil
  have "(core_job_ptrs s)[c := 0] = core_job_ptrs s" using c by (metis list_update_id)
  with Nil dispatch_next_ok [OF rel c] that show thesis
    by (auto simp: sched_ok_def policy_def next_of_def)
next
  case (Cons x xs)
  note r = sched_relD [OF rel]
  from dispatch_next_ok [OF rel c] Cons obtain q' h' j where j: "jobs s x = Some j" and
    d: "dispatch_next (int c) t s = Some (job_number j, s\<lparr>job_queue := q', qnodes := h',
          core_job_ptrs := (core_job_ptrs s)[c := x], jobs := (jobs s)(x \<mapsto> placed (int c) t j)\<rparr>)"
       "sched_rel (s\<lparr>job_queue := q', qnodes := h',
          core_job_ptrs := (core_job_ptrs s)[c := x], jobs := (jobs s)(x \<mapsto> placed (int c) t j)\<rparr>) xs t"
    by auto
  define s' where "s' = s\<lparr>job_queue := q', qnodes := h',
          core_job_ptrs := (core_job_ptrs s)[c := x], jobs := (jobs s)(x \<mapsto> placed (int c) t j)\<rparr>"
  let ?sc = "current_scheme s"
  have same: "key ?sc (jobs s') p = key ?sc (jobs s) p" for p by (simp add: s'_def key_def j)
  have xs: "\<forall>q \<in> set xs. key ?sc (jobs s) x \<le> key ?sc (jobs s) q" using core_invD(11) [OF r(5)] Cons by simp
  have "0 \<notin> set ((core_job_ptrs s)[c := x])" if ne: "xs \<noteq> []"
  proof
    assume "0 \<in> set ((core_job_ptrs s)[c := x])"
    then obtain i where "i < num_cores s" "(core_job_ptrs s)[c := x] ! i = 0"
      by (metis in_set_conv_nth length_list_update r(1))
    then show False using busy ne Cons core_invD(3) [OF r(5)] r(1) by (cases "i = c") auto
  qed
  moreover have "key ?sc (jobs s') p \<le> key ?sc (jobs s') q"
    if "?sc \<notin> {SJF, PRI}" "p \<in> set ((core_job_ptrs s)[c := x])" "p \<noteq> 0" "q \<in> set xs" for p q
  proof -
    have "p = x \<or> p \<in> set (core_job_ptrs s) - {0}"
      using that(2,3) set_update_subset_insert [of "core_job_ptrs s" c x] by blast
    then show ?thesis unfolding same using order [OF that(1)] xs that(4) Cons by auto
  qed
  ultimately have "policy s' xs" unfolding policy_def by (auto simp: s'_def)
  then have "sched_ok s' xs t" using d(2) by (simp add: sched_ok_def s'_def)
  with d(1) j Cons that [of s'] show thesis by (simp add: s'_def next_of_def)
qed

lemma core_others:
  assumes "core_inv sc cores m b qs t" "i < length cores" "cores ! i = p" "p \<noteq> 0"
  shows "q \<in> set (cores[i := 0]) - {0} \<longleftrightarrow> q \<in> set cores - {0} \<and> q \<noteq> p"
proof -
  have "k = i" if "k < length cores" "cores ! k = p" for k using core_invD(5) [OF assms(1,2), of k] assms(3,4) that by simp
  note only = this
  show ?thesis
  proof
    assume "q \<in> set (cores[i := 0]) - {0}"
    then obtain k where k: "k < length cores" "cores[i := 0] ! k = q" "q \<noteq> 0" by (auto simp: in_set_conv_nth)
    then have "k \<noteq> i" using assms(2) by auto
    with k only [of k] show "q \<in> set cores - {0} \<and> q \<noteq> p" by auto
  next
    assume q: "q \<in> set cores - {0} \<and> q \<noteq> p"
    then obtain k where k: "k < length cores" "cores ! k = q" by (auto simp: in_set_conv_nth)
    then have "k \<noteq> i" using q assms(3) by auto
    with k have "cores[i := 0] ! k = q" by simp
    with k(1) q show "q \<in> set (cores[i := 0]) - {0}" by (metis Diff_iff length_list_update nth_mem)
  qed
qed

lemma job_finished_cases:
  assumes ok: "sched_ok s qs t" and t: "t \<le> time" "time < BIG" and c: "c < num_cores s" "core_job_ptrs s ! c = p" "p \<noteq> 0"
    and count: "0 \<le> total_jobs_finished s" "total_jobs_finished s < INT_MAX"
  obtains j s' where "jobs s p = Some j" "job_ok t j" "start_time j \<noteq> - 1"
    "scheduler_job_finished (int c) number time s =
      Some (if qs = [] then - 1 else job_number (the (jobs s (next_of qs))), s')"
    "sched_ok s' (tl qs) time" "core_job_ptrs s' = (core_job_ptrs s)[c := next_of qs]" "jobs s' p = None"
    "current_scheme s' = current_scheme s" "num_cores s' = num_cores s"
    "total_turnaround_time s' = f32_add (total_turnaround_time s) (f32_of_int (time - arrival_time j))"
    "total_response_time s' = f32_add (total_response_time s) (f32_of_int (start_time j - arrival_time j))"
    "total_wait_time s' = f32_add (total_wait_time s) (f32_sub (f32_of_int (time - arrival_time j)) (f32_of_int (running_time j)))"
    "total_jobs_finished s' = total_jobs_finished s + 1"
proof -
  have rel: "sched_rel s qs t" and pol: "policy s qs" using ok by (auto simp: sched_ok_def)
  note r = sched_relD [OF rel]
  note inv = core_inv_time [OF r(5) t]
  have cl: "c < length (core_job_ptrs s)" using c(1) r(1) by simp
  obtain j where j: "jobs s p = Some j" "job_ok t j" "start_time j \<noteq> - 1"
    using core_inv_running [OF r(5) cl] c by auto
  have jt: "job_ok time j" using job_ok_mono [OF j(2) t(1)] .
  define s1 where "s1 = s\<lparr>total_turnaround_time := f32_add (total_turnaround_time s) (f32_of_int (time - arrival_time j)),
     total_response_time := f32_add (total_response_time s) (f32_of_int (start_time j - arrival_time j)),
     total_wait_time := f32_add (total_wait_time s) (f32_sub (f32_of_int (time - arrival_time j)) (f32_of_int (running_time j))),
     total_jobs_finished := total_jobs_finished s + 1, jobs := (jobs s)(p := None),
     core_job_ptrs := (core_job_ptrs s)[c := 0]\<rparr>"
  have sub: "int_sub time (arrival_time j) = Some (time - arrival_time j)"
      "int_sub (start_time j) (arrival_time j) = Some (start_time j - arrival_time j)"
      "int_sub (total_jobs_finished s) (- 1) = Some (total_jobs_finished s + 1)"
    using jt j(3) t(2) count by (auto simp: int_sub_def int32_iff job_ok_def BIG_def INT_MAX_def)
  have res: "scheduler_job_finished (int c) number time s = dispatch_next (int c) time s1"
    using charge_ok [OF j(1) c(3) jt t(2)] c cl sub
    by (simp add: scheduler_job_finished_def update_job_def deref_def accumulate_stats_def free_job_def set_core_def Let_def s1_def)
  have "core_inv (current_scheme s) ((core_job_ptrs s)[c := 0]) ((jobs s)(p := None)) (job_brk s) qs time"
    by (rule core_inv_rem_core [OF inv cl c(2,3)])
  then have rel1: "sched_rel s1 qs time" using r(1-4) by (simp add: sched_rel_def s1_def)
  have pq: "p \<notin> set qs" using core_invD(4) [OF r(5) cl] c by simp
  have others: "q \<in> set (core_job_ptrs s1) - {0} \<longleftrightarrow> q \<in> set (core_job_ptrs s) - {0} \<and> q \<noteq> p" for q
    using core_others [OF inv cl c(2,3)] by (simp add: s1_def)
  show thesis
  proof (rule dispatch_next_cases [OF rel1])
    show "c < num_cores s1" "core_job_ptrs s1 ! c = 0" using c(1) cl by (simp_all add: s1_def)
    show "\<forall>i < num_cores s1. i \<noteq> c \<longrightarrow> core_job_ptrs s1 ! i \<noteq> 0" if "tl qs \<noteq> []"
    proof -
      have "qs \<noteq> []" using that by auto
      then have "0 \<notin> set (core_job_ptrs s)" using pol unfolding policy_def by blast
      then show ?thesis using r(1) by (auto simp: s1_def) (metis gr0I nth_mem)
    qed
    show "\<forall>p \<in> set (core_job_ptrs s1) - {0}. \<forall>q \<in> set (tl qs).
        key (current_scheme s1) (jobs s1) p \<le> key (current_scheme s1) (jobs s1) q" if sc: "current_scheme s1 \<notin> {SJF, PRI}"
    proof (intro ballI)
      fix q q' assume q: "q \<in> set (core_job_ptrs s1) - {0}" "q' \<in> set (tl qs)"
      have "q' \<in> set qs" using q(2) by (cases qs) auto
      moreover have "q \<in> set (core_job_ptrs s) - {0}" "q \<noteq> p" using q(1) others by blast+
      moreover have "q' \<noteq> p" using \<open>q' \<in> set qs\<close> pq by auto
      ultimately show "key (current_scheme s1) (jobs s1) q \<le> key (current_scheme s1) (jobs s1) q'"
        using pol sc unfolding policy_def by (auto simp: s1_def)
    qed
  next
    fix s'
    assume d: "dispatch_next (int c) time s1 = Some (if qs = [] then - 1 else job_number (the (jobs s1 (next_of qs))), s')"
      "sched_ok s' (tl qs) time" "core_job_ptrs s' = (core_job_ptrs s1)[c := next_of qs]"
      "jobs s' = (if qs = [] then jobs s1 else (jobs s1)(next_of qs \<mapsto> placed (int c) time (the (jobs s1 (next_of qs)))))"
      "current_scheme s' = current_scheme s1" "num_cores s' = num_cores s1"
      "total_wait_time s' = total_wait_time s1" "total_turnaround_time s' = total_turnaround_time s1"
      "total_response_time s' = total_response_time s1" "total_jobs_finished s' = total_jobs_finished s1"
    have n: "next_of qs \<noteq> p" if "qs \<noteq> []" using that pq by (cases qs) (auto simp: next_of_def)
    show thesis
      by (rule that [OF j, of s']) (use res d n in \<open>auto simp: s1_def\<close>)
  qed
qed

text \<open>The expired job goes back to the queue before the next one is taken.\<close>

lemma quantum_expired_cases:
  assumes ok: "sched_ok s qs t" and t: "t \<le> time" "time < BIG" and c: "c < num_cores s" "core_job_ptrs s ! c = p" "p \<noteq> 0"
  obtains j m qs1 s' where "jobs s p = Some j" "job_ok t j"
    "m = (jobs s)(p \<mapsto> (tick time j)\<lparr>core_id := - 1\<rparr>)" "qs1 = queue_insert (current_scheme s) m p qs"
    "scheduler_quantum_expired (int c) time s = Some (job_number (the (m (next_of qs1))), s')"
    "sched_ok s' (tl qs1) time" "core_job_ptrs s' = (core_job_ptrs s)[c := next_of qs1]"
    "jobs s' = m(next_of qs1 \<mapsto> placed (int c) time (the (m (next_of qs1))))"
    "current_scheme s' = current_scheme s" "num_cores s' = num_cores s"
    "total_wait_time s' = total_wait_time s" "total_turnaround_time s' = total_turnaround_time s"
    "total_response_time s' = total_response_time s" "total_jobs_finished s' = total_jobs_finished s"
proof -
  have rel: "sched_rel s qs t" and pol: "policy s qs" using ok by (auto simp: sched_ok_def)
  note r = sched_relD [OF rel]
  note inv = core_inv_time [OF r(5) t]
  let ?sc = "current_scheme s"
  have cl: "c < length (core_job_ptrs s)" using c(1) r(1) by simp
  obtain j where j: "jobs s p = Some j" "job_ok t j" using core_inv_running [OF r(5) cl] c by auto
  have jt: "job_ok time j" using job_ok_mono [OF j(2) t(1)] .
  have pq: "p \<notin> set qs" using core_invD(4) [OF r(5) cl] c by simp
  have pb: "p < job_brk s" using core_invD(6) [OF r(5) j(1)] .
  define j' where "j' = (tick time j)\<lparr>core_id := - 1\<rparr>"
  define m where "m = (jobs s)(p \<mapsto> j')"
  define qs1 where "qs1 = queue_insert ?sc m p qs"
  define s1 where "s1 = s\<lparr>core_job_ptrs := (core_job_ptrs s)[c := 0], jobs := m\<rparr>"
  have j'ok: "job_ok time j'" using job_ok_tick [OF jt] by (simp add: j'_def)
  have "core_inv ?sc ((core_job_ptrs s)[c := 0]) ((jobs s)(p := None)) (job_brk s) qs time"
    by (rule core_inv_rem_core [OF inv cl c(2,3)])
  from core_inv_add_queue [OF this, of p j'] c(3) pb j'ok
  have inv1: "core_inv ?sc ((core_job_ptrs s)[c := 0]) m (job_brk s) qs1 time" by (simp add: m_def qs1_def j'_def)
  have "\<exists>q' h'. offer_job p s1 = Some (s1\<lparr>job_queue := q', qnodes := h'\<rparr>) \<and>
      pq_rel q' h' Map.empty (queue_insert (current_scheme s1) (jobs s1) p qs) \<and> comparer q' = scheme_comparer (current_scheme s1)"
  proof (rule offer_job_ok [of s1 qs time p j'])
    show "\<forall>y \<in> set qs. y \<noteq> 0 \<and> (\<exists>j. jobs s1 y = Some j \<and> job_ok time j)"
    proof
      fix y assume y: "y \<in> set qs"
      obtain k where "jobs s y = Some k" "job_ok time k" "y \<noteq> 0" by (rule core_inv_queued [OF inv y])
      moreover have "y \<noteq> p" using y pq by auto
      ultimately show "y \<noteq> 0 \<and> (\<exists>j. jobs s1 y = Some j \<and> job_ok time j)" by (simp add: s1_def m_def)
    qed
  qed (use r j'ok t(2) c(3) in \<open>simp_all add: s1_def m_def\<close>)
  then obtain q' h' where q': "offer_job p s1 = Some (s1\<lparr>job_queue := q', qnodes := h'\<rparr>)"
      "pq_rel q' h' Map.empty qs1" "comparer q' = scheme_comparer ?sc"
    by (auto simp: s1_def qs1_def)
  define s2 where "s2 = s1\<lparr>job_queue := q', qnodes := h'\<rparr>"
  have res: "scheduler_quantum_expired (int c) time s = dispatch_next (int c) time s2"
    using charge_ok [OF j(1) c(3) jt t(2)] c cl q'(1)
    by (simp add: scheduler_quantum_expired_def update_job_def deref_def set_core_def s2_def s1_def m_def j'_def)
  have rel2: "sched_rel s2 qs1 time" using inv1 q'(2,3) r(1,2) by (simp add: sched_rel_def s2_def s1_def)
  have others: "q \<in> set (core_job_ptrs s2) - {0} \<longleftrightarrow> q \<in> set (core_job_ptrs s) - {0} \<and> q \<noteq> p" for q
    using core_others [OF inv cl c(2,3)] by (simp add: s2_def s1_def)
  have ne: "qs1 \<noteq> []" by (simp add: qs1_def)
  show thesis
  proof (rule dispatch_next_cases [OF rel2])
    show "c < num_cores s2" "core_job_ptrs s2 ! c = 0" using c(1) cl by (simp_all add: s2_def s1_def)
    show "\<forall>i < num_cores s2. i \<noteq> c \<longrightarrow> core_job_ptrs s2 ! i \<noteq> 0" if tl: "tl qs1 \<noteq> []"
    proof -
      have "qs \<noteq> []" using tl by (auto simp: qs1_def queue_insert_def)
      then have "0 \<notin> set (core_job_ptrs s)" using pol unfolding policy_def by blast
      then show ?thesis using r(1) by (auto simp: s2_def s1_def) (metis gr0I nth_mem)
    qed
    show "\<forall>p \<in> set (core_job_ptrs s2) - {0}. \<forall>q \<in> set (tl qs1).
        key (current_scheme s2) (jobs s2) p \<le> key (current_scheme s2) (jobs s2) q" if sc: "current_scheme s2 \<notin> {SJF, PRI}"
    proof (intro ballI)
      fix a b assume ab: "a \<in> set (core_job_ptrs s2) - {0}" "b \<in> set (tl qs1)"
      have sc': "?sc \<notin> {SJF, PRI}" using sc by (simp add: s2_def s1_def)
      have a: "a \<in> set (core_job_ptrs s) - {0}" "a \<noteq> p" using ab(1) others by blast+
      have p: "p \<in> set (core_job_ptrs s) - {0}" using c cl by auto
      have le: "key ?sc m x \<le> key ?sc m y" if "x \<in> set (core_job_ptrs s) - {0}" "y \<in> set qs" for x y
      proof -
        have "key ?sc (jobs s) x \<le> key ?sc (jobs s) y" using pol sc' that unfolding policy_def by blast
        moreover have "y \<noteq> p" using that(2) pq by auto
        moreover have "key ?sc m x \<le> key ?sc (jobs s) x"
          using job_key_tick [OF jt, of ?sc] j(1) by (simp add: m_def j'_def key_def)
        ultimately show ?thesis by (simp add: m_def)
      qed
      have "b \<in> insert p (set qs)" using ab(2) ne by (metis list.set_sel(2) qs1_def set_queue_insert(1))
      then have "key ?sc m a \<le> key ?sc m b"
      proof
        assume "b = p"
        have "qs \<noteq> []" using ab(2) by (auto simp: qs1_def queue_insert_def)
        then obtain x xs where qs: "qs = x # xs" by (cases qs) auto
        have "\<not> key ?sc m p < key ?sc m x"
        proof
          assume "key ?sc m p < key ?sc m x"
          then have "qs1 = p # qs" unfolding qs1_def qs queue_insert_def by simp
          with ab(2) \<open>b = p\<close> pq show False by simp
        qed
        moreover have "key ?sc m a \<le> key ?sc m x" using le [OF a(1)] qs by simp
        ultimately show ?thesis using \<open>b = p\<close> by simp
      qed (rule le [OF a(1)])
      then show "key (current_scheme s2) (jobs s2) a \<le> key (current_scheme s2) (jobs s2) b" by (simp add: s2_def s1_def)
    qed
  next
    fix s'
    assume d: "dispatch_next (int c) time s2 = Some (if qs1 = [] then - 1 else job_number (the (jobs s2 (next_of qs1))), s')"
      "sched_ok s' (tl qs1) time" "core_job_ptrs s' = (core_job_ptrs s2)[c := next_of qs1]"
      "jobs s' = (if qs1 = [] then jobs s2 else (jobs s2)(next_of qs1 \<mapsto> placed (int c) time (the (jobs s2 (next_of qs1)))))"
      "current_scheme s' = current_scheme s2" "num_cores s' = num_cores s2"
      "total_wait_time s' = total_wait_time s2" "total_turnaround_time s' = total_turnaround_time s2"
      "total_response_time s' = total_response_time s2" "total_jobs_finished s' = total_jobs_finished s2"
    show thesis
      by (rule that [OF j m_def [unfolded j'_def] qs1_def, of s']) (use res d ne in \<open>simp_all add: s2_def s1_def\<close>)
  qed
qed

subsection \<open>Cleaning up and printing\<close>

lemma free_cores_ok:
  assumes "\<forall>i \<in> set is. i < length (core_job_ptrs s)"
    and "core_inv sc (core_job_ptrs s) (jobs s) b qs t"
  shows "\<exists>cores m. free_cores is s = Some (s\<lparr>core_job_ptrs := cores, jobs := m\<rparr>) \<and> core_inv sc cores m b qs t \<and>
    length cores = length (core_job_ptrs s) \<and>
    (\<forall>i < length cores. core_job_ptrs s ! i = 0 \<or> i \<in> set is \<longrightarrow> cores ! i = 0)"
  using assms
proof (induction "is" arbitrary: s)
  case Nil
  then show ?case by (intro exI [of _ "core_job_ptrs s"] exI [of _ "jobs s"]) simp
next
  case (Cons i "is")
  let ?p = "core_job_ptrs s ! i"
  have il: "i < length (core_job_ptrs s)" using Cons.prems by simp
  show ?case
  proof (cases "?p = 0")
    case True
    have step: "free_cores (i # is) s = free_cores is s" using True il by simp
    have "\<forall>i \<in> set is. i < length (core_job_ptrs s)" using Cons.prems(1) by simp
    from Cons.IH [OF this Cons.prems(2)] obtain cores m where
      "free_cores is s = Some (s\<lparr>core_job_ptrs := cores, jobs := m\<rparr>)" "core_inv sc cores m b qs t"
      "length cores = length (core_job_ptrs s)" "\<forall>k < length cores. core_job_ptrs s ! k = 0 \<or> k \<in> set is \<longrightarrow> cores ! k = 0"
      by blast
    with True show ?thesis unfolding step by (intro exI [of _ cores] exI [of _ m]) auto
  next
    case False
    let ?s = "s\<lparr>jobs := (jobs s)(?p := None), core_job_ptrs := (core_job_ptrs s)[i := 0]\<rparr>"
    obtain j where "jobs s ?p = Some j" by (rule core_inv_running [OF Cons.prems(2) il False])
    then have step: "free_cores (i # is) s = free_cores is ?s"
      using False il by (simp add: free_job_def deref_def set_core_def)
    have "\<exists>cores m. free_cores is ?s = Some (?s\<lparr>core_job_ptrs := cores, jobs := m\<rparr>) \<and> core_inv sc cores m b qs t \<and>
        length cores = length (core_job_ptrs ?s) \<and> (\<forall>i < length cores. core_job_ptrs ?s ! i = 0 \<or> i \<in> set is \<longrightarrow> cores ! i = 0)"
      by (rule Cons.IH) (use Cons.prems core_inv_rem_core [OF Cons.prems(2) il refl False] in \<open>auto simp del: fun_upd_apply\<close>)
    then obtain cores m where "free_cores is ?s = Some (?s\<lparr>core_job_ptrs := cores, jobs := m\<rparr>)" "core_inv sc cores m b qs t"
        "length cores = length (core_job_ptrs s)" "\<forall>k < length cores. (core_job_ptrs s)[i := 0] ! k = 0 \<or> k \<in> set is \<longrightarrow> cores ! k = 0"
      by auto
    moreover have "(core_job_ptrs s)[i := 0] ! k = 0" if "core_job_ptrs s ! k = 0 \<or> k = i" for k
      using that il by (cases "k = i") auto
    ultimately show ?thesis unfolding step
      by (intro exI [of _ cores] exI [of _ m]) auto
  qed
qed

lemma free_queue_ok:
  assumes "pq_rel (job_queue s) (qnodes s) Map.empty qs" and "core_inv sc (core_job_ptrs s) (jobs s) b qs t"
  shows "\<exists>s'. free_queue s = Some s' \<and> pq_rel (job_queue s') (qnodes s') Map.empty [] \<and>
    core_inv sc (core_job_ptrs s) (jobs s') b [] t \<and> core_job_ptrs s' = core_job_ptrs s"
  using assms
proof (induction qs arbitrary: s)
  case Nil
  from poll_job_ok [OF Nil(1)] Nil(2) show ?case by (subst free_queue.simps) auto
next
  case (Cons x xs)
  obtain j where j: "jobs s x = Some j" "x \<noteq> 0" using core_inv_queued [OF Cons.prems(2), of x] by auto
  obtain q' h' where q': "poll_job s = Some (x, s\<lparr>job_queue := q', qnodes := h'\<rparr>)" "pq_rel q' h' Map.empty xs"
    using poll_job_ok [OF Cons.prems(1)] by auto
  let ?s = "s\<lparr>job_queue := q', qnodes := h', jobs := (jobs s)(x := None)\<rparr>"
  have "free_queue s = free_queue ?s"
    by (subst free_queue.simps) (use q'(1) j in \<open>simp add: free_job_def deref_def\<close>)
  moreover have "core_inv sc (core_job_ptrs ?s) (jobs ?s) b xs t"
    using core_inv_rem_queue [OF Cons.prems(2)] by simp
  moreover have "pq_rel (job_queue ?s) (qnodes ?s) Map.empty xs" using q'(2) by simp
  ultimately show ?case using Cons.IH [of ?s] by (simp del: fun_upd_apply)
qed

lemma show_queued_ok:
  assumes "pq_rel (job_queue s) (qnodes s) F qs" and "\<forall>y \<in> set qs. y \<noteq> 0 \<and> (\<exists>j. jobs s y = Some j)"
    and "\<forall>i \<in> set is. i < length qs"
  shows "show_queued is s = Some (map (\<lambda>i. let j = the (jobs s (qs ! i)) in (job_number j, core_id j)) is)"
  using assms(3)
proof (induction "is")
  case (Cons i "is")
  then have i: "i < length qs" "qs ! i \<in> set qs" by auto
  with assms(2) obtain j where "qs ! i \<noteq> 0" "jobs s (qs ! i) = Some j" by blast
  with Cons i pq_at [OF assms(1), of "int i"] show ?case by (simp add: item_at_def deref_def)
qed simp

lemma show_running_ok:
  assumes inv: "core_inv sc (core_job_ptrs s) (jobs s) b qs t" and "\<forall>c \<in> set cs. c < length (core_job_ptrs s)"
  shows "show_running cs s = Some (map (\<lambda>c. (job_number (the (jobs s (core_job_ptrs s ! c))), int c))
    (filter (\<lambda>c. core_job_ptrs s ! c \<noteq> 0) cs))"
  using assms(2)
proof (induction cs)
  case (Cons c cs)
  then have c: "c < length (core_job_ptrs s)" by simp
  show ?case
  proof (cases "core_job_ptrs s ! c = 0")
    case False
    obtain j where "jobs s (core_job_ptrs s ! c) = Some j" by (rule core_inv_running [OF inv c False])
    with Cons c False show ?thesis by (simp add: deref_def)
  qed (use Cons c in simp)
qed simp

subsection \<open>Runs of the scheduler\<close>

text \<open>The client's protocol: after \<open>scheduler_start_up\<close>, calls at times that do not go back, with
  arguments in range, and for the core whose job finished or whose quantum expired. The list
  holds the finished jobs with their finishing time, the latest first.\<close>

inductive sched_run :: "nat \<Rightarrow> scheme_t \<Rightarrow> (job_t \<times> int) list \<Rightarrow> sched \<Rightarrow> int \<Rightarrow> bool" for cores scheme where
  start: "0 < cores \<Longrightarrow> sched_run cores scheme [] (scheduler_start_up cores scheme) 0"
| new_job: "sched_run cores scheme fs s t \<Longrightarrow> t \<le> time \<Longrightarrow> time < BIG \<Longrightarrow> 0 \<le> running \<Longrightarrow> running < BIG \<Longrightarrow> \<bar>pri\<bar> < BIG \<Longrightarrow>
    scheduler_new_job number time running pri s = Some (r, s') \<Longrightarrow> sched_run cores scheme fs s' time"
| finished: "sched_run cores scheme fs s t \<Longrightarrow> t \<le> time \<Longrightarrow> time < BIG \<Longrightarrow> int (length fs) < INT_MAX \<Longrightarrow>
    core_at s (int c) = Some p \<Longrightarrow> p \<noteq> 0 \<Longrightarrow> jobs s p = Some j \<Longrightarrow>
    scheduler_job_finished (int c) number time s = Some (r, s') \<Longrightarrow> sched_run cores scheme ((j, time) # fs) s' time"
| expired: "sched_run cores scheme fs s t \<Longrightarrow> t \<le> time \<Longrightarrow> time < BIG \<Longrightarrow>
    core_at s (int c) = Some p \<Longrightarrow> p \<noteq> 0 \<Longrightarrow>
    scheduler_quantum_expired (int c) time s = Some (r, s') \<Longrightarrow> sched_run cores scheme fs s' time"

lemma core_at_Some: "core_at s (int c) = Some p \<longleftrightarrow> c < length (core_job_ptrs s) \<and> core_job_ptrs s ! c = p"
  by (auto simp: core_at_def)

text \<open>The statistics add up the finished jobs, in single precision.\<close>

definition stats_of :: "(job_t \<Rightarrow> int \<Rightarrow> int) \<Rightarrow> (job_t \<times> int) list \<Rightarrow> int" where
  "stats_of f fs = foldr (\<lambda>(j, time) acc. f32_add acc (f j time)) fs 0"

definition turnaround_of :: "job_t \<Rightarrow> int \<Rightarrow> int" where
  "turnaround_of j time = f32_of_int (time - arrival_time j)"

definition response_of :: "job_t \<Rightarrow> int \<Rightarrow> int" where
  "response_of j time = f32_of_int (start_time j - arrival_time j)"

definition waiting_of :: "job_t \<Rightarrow> int \<Rightarrow> int" where
  "waiting_of j time = f32_sub (f32_of_int (time - arrival_time j)) (f32_of_int (running_time j))"

lemma new_job_stats:
  assumes "scheduler_new_job number time running pri s = Some (r, s')" and "sched_ok s qs t" "t \<le> time" "time < BIG"
    "0 \<le> running" "running < BIG" "\<bar>pri\<bar> < BIG"
  shows "(\<exists>qs'. sched_ok s' qs' time) \<and> same_stats s s'"
  by (rule new_job_cases [OF assms(2-7), of number]) (use assms(1) in auto)

lemma sched_run_ok:
  assumes "sched_run cores scheme fs s t"
  shows "(\<exists>qs. sched_ok s qs t) \<and> num_cores s = cores \<and> current_scheme s = scheme \<and>
    total_turnaround_time s = stats_of turnaround_of fs \<and> total_response_time s = stats_of response_of fs \<and>
    total_wait_time s = stats_of waiting_of fs \<and> total_jobs_finished s = int (length fs) \<and>
    (\<forall>(j, time) \<in> set fs. 0 \<le> arrival_time j \<and> arrival_time j \<le> start_time j \<and> start_time j \<le> time \<and> 0 \<le> running_time j)"
  using assms
proof (induction rule: sched_run.induct)
  case start
  then show ?case using sched_ok_start [OF start, of scheme]
    by (auto simp: scheduler_start_up_def stats_of_def)
next
  case (new_job fs s t time running pri number r s')
  then obtain qs where "sched_ok s qs t" by blast
  from new_job_stats [OF new_job(7) this new_job(2-6)] new_job.IH show ?case by (simp add: same_stats_def)
next
  case (finished fs s t time c p j number r s')
  then obtain qs where ok: "sched_ok s qs t" by blast
  have rel: "sched_rel s qs t" using ok by (simp add: sched_ok_def)
  have c: "c < num_cores s" "core_job_ptrs s ! c = p" using finished(5) sched_relD(1) [OF rel] by (auto simp: core_at_Some)
  have count: "0 \<le> total_jobs_finished s" "total_jobs_finished s < INT_MAX" using finished by auto
  show ?case
  proof (rule job_finished_cases [OF ok finished(2,3) c finished(6) count, of number])
    fix j' s''
    assume j': "jobs s p = Some j'" "job_ok t j'" "start_time j' \<noteq> - 1" and
      res: "scheduler_job_finished (int c) number time s = Some (if qs = [] then - 1 else job_number (the (jobs s (next_of qs))), s'')" and
      s'': "sched_ok s'' (tl qs) time" "current_scheme s'' = current_scheme s" "num_cores s'' = num_cores s"
        "total_turnaround_time s'' = f32_add (total_turnaround_time s) (f32_of_int (time - arrival_time j'))"
        "total_response_time s'' = f32_add (total_response_time s) (f32_of_int (start_time j' - arrival_time j'))"
        "total_wait_time s'' = f32_add (total_wait_time s) (f32_sub (f32_of_int (time - arrival_time j')) (f32_of_int (running_time j')))"
        "total_jobs_finished s'' = total_jobs_finished s + 1"
    have eq: "s'' = s'" "j' = j" using res finished(7,8) j'(1) by simp_all
    have "0 \<le> arrival_time j \<and> arrival_time j \<le> start_time j \<and> start_time j \<le> time \<and> 0 \<le> running_time j"
      using j'(2,3) finished(2) unfolding eq job_ok_def by auto
    then show ?thesis
      using s'' finished.IH unfolding eq by (auto simp: stats_of_def turnaround_of_def response_of_def waiting_of_def)
  qed
next
  case (expired fs s t time c p r s')
  then obtain qs where ok: "sched_ok s qs t" by blast
  have rel: "sched_rel s qs t" using ok by (simp add: sched_ok_def)
  have c: "c < num_cores s" "core_job_ptrs s ! c = p" using expired(4) sched_relD(1) [OF rel] by (auto simp: core_at_Some)
  show ?case
  proof (rule quantum_expired_cases [OF ok expired(2,3) c expired(5)])
    fix m qs1 s''
    assume "scheduler_quantum_expired (int c) time s = Some (job_number (the (m (next_of qs1))), s'')"
      "sched_ok s'' (tl qs1) time" "current_scheme s'' = current_scheme s" "num_cores s'' = num_cores s"
      "total_wait_time s'' = total_wait_time s" "total_turnaround_time s'' = total_turnaround_time s"
      "total_response_time s'' = total_response_time s" "total_jobs_finished s'' = total_jobs_finished s"
    then show ?thesis using expired.IH expired(6) by auto
  qed
qed

subsection \<open>A sample run\<close>

text \<open>One core under round robin and one job: it is placed on core 0 at once.\<close>

definition sample_s :: sched where
  "sample_s = (case scheduler_new_job 7 0 5 1 (scheduler_start_up 1 RR) of
     Some (_, s) \<Rightarrow> s | None \<Rightarrow> scheduler_start_up 1 RR)"

lemma sample_step:
  "scheduler_new_job 7 0 5 1 (scheduler_start_up 1 RR) = Some (0, sample_s)"
  "core_job_ptrs sample_s = [1]" "jobs sample_s = [1 \<mapsto> placed 0 0 (tick 0 (fresh_job 7 0 5 1))]"
  "num_cores sample_s = 1" "total_jobs_finished sample_s = 0"
  by (simp_all add: sample_s_def scheduler_new_job_def scheduler_start_up_def Let_def update_remaining_times_def
      find_idle_core_def core_at_def place_job_on_core_def set_core_def update_job_def deref_def placed_def tick_def fresh_job_def)

lemma sample_run: "sched_run 1 RR [] sample_s 0"
  by (rule sched_run.new_job [OF sched_run.start _ _ _ _ _ sample_step(1)]) (simp_all add: BIG_def)

lemma sample_ok: "\<exists>qs. sched_ok sample_s qs 0 \<and> num_cores sample_s = 1"
  using sched_run_ok [OF sample_run] by blast

definition sample_f :: sched where
  "sample_f = (case scheduler_job_finished 0 7 5 sample_s of Some (_, s) \<Rightarrow> s | None \<Rightarrow> sample_s)"

lemma sample_s_eq:
  "sample_s = (scheduler_start_up 1 RR)\<lparr>core_job_ptrs := [1], jobs := [1 \<mapsto> placed 0 0 (tick 0 (fresh_job 7 0 5 1))], job_brk := 2\<rparr>"
  by (simp add: sample_s_def scheduler_new_job_def scheduler_start_up_def Let_def update_remaining_times_def
      find_idle_core_def core_at_def place_job_on_core_def set_core_def update_job_def deref_def placed_def tick_def fresh_job_def)

lemma sample_finish: "scheduler_job_finished 0 7 5 sample_s = Some (- 1, sample_f)"
  by (simp add: sample_f_def sample_s_eq scheduler_job_finished_def scheduler_start_up_def core_at_def charge_def deref_def
      update_job_def accumulate_stats_def free_job_def set_core_def dispatch_next_def poll_job_def priqueue_poll_def
      priqueue_remove_at_def priqueue_init_def int_sub_def int32_iff placed_def tick_def fresh_job_def Let_def)

lemma sample_run_f: "sched_run 1 RR [(placed 0 0 (tick 0 (fresh_job 7 0 5 1)), 5)] sample_f 5"
  by (rule sched_run.finished [OF sample_run, where c = 0 and p = 1 and number = 7 and r = "- 1"])
    (simp_all add: BIG_def INT_MAX_def core_at_def sample_step sample_finish)

subsection \<open>Properties\<close>

text \<open>C14: Every state the protocol reaches satisfies the invariant: each live job is on exactly
  one core or once in the queue, the queue is in the order of the scheme, no core idles while a
  job waits, and under FCFS, PSJF, PPRI and RR no waiting job has a higher priority than a running one.\<close>

theorem sched_run_invariant:
  assumes "sched_run cores scheme fs s t"
  shows "\<exists>qs. pq_rel (job_queue s) (qnodes s) Map.empty qs \<and> distinct qs \<and>
    (\<forall>p. jobs s p \<noteq> None \<longleftrightarrow> p \<in> set qs \<union> (set (core_job_ptrs s) - {0})) \<and>
    set qs \<inter> set (core_job_ptrs s) = {} \<and> distinct (filter (\<lambda>p. p \<noteq> 0) (core_job_ptrs s)) \<and>
    sorted (map (\<lambda>p. job_key scheme (the (jobs s p))) qs) \<and>
    (qs \<noteq> [] \<longrightarrow> 0 \<notin> set (core_job_ptrs s)) \<and>
    (scheme \<notin> {SJF, PRI} \<longrightarrow> (\<forall>p \<in> set (core_job_ptrs s) - {0}. \<forall>q \<in> set qs.
       job_key scheme (the (jobs s p)) \<le> job_key scheme (the (jobs s q))))"
proof -
  obtain qs where ok: "sched_ok s qs t" and sc: "current_scheme s = scheme" using sched_run_ok [OF assms] by blast
  have rel: "sched_rel s qs t" and pol: "policy s qs" using ok by (auto simp: sched_ok_def)
  note r = sched_relD [OF rel] note inv = core_invD [OF r(5)]
  have dom: "jobs s p \<noteq> None \<longleftrightarrow> p \<in> set qs \<union> (set (core_job_ptrs s) - {0})" for p
    unfolding inv(1) by (auto simp: in_set_conv_nth)
  have dj: "set qs \<inter> set (core_job_ptrs s) = {}"
  proof -
    have "core_job_ptrs s ! i \<notin> set qs" if "i < length (core_job_ptrs s)" for i
      using inv(4) [OF that] inv(3) by (cases "core_job_ptrs s ! i = 0") auto
    then show ?thesis by (metis disjoint_iff in_set_conv_nth)
  qed
  have "distinct (filter (\<lambda>p. p \<noteq> 0) cores)"
    if "\<And>i j. i < length cores \<Longrightarrow> cores ! i \<noteq> 0 \<Longrightarrow> j < length cores \<Longrightarrow> cores ! j = cores ! i \<Longrightarrow> j = i" for cores :: "nat list"
    using that
  proof (induction cores)
    case (Cons a as)
    have "distinct (filter (\<lambda>p. p \<noteq> 0) as)"
      by (rule Cons.IH) (use Cons.prems [of "Suc _" "Suc _"] in auto)
    moreover have "a \<notin> set as" if "a \<noteq> 0" using Cons.prems [of 0 "Suc _"] that by (auto simp: in_set_conv_nth)
    ultimately show ?case by auto
  qed simp
  then have "distinct (filter (\<lambda>p. p \<noteq> 0) (core_job_ptrs s))" using inv(5) by blast
  moreover have "sorted (map (\<lambda>p. job_key scheme (the (jobs s p))) qs)"
    using inv(11) by (simp add: key_def [abs_def] sc)
  ultimately show ?thesis
    using r(3) inv(2) dom dj pol unfolding policy_def key_def sc by (intro exI [of _ qs]) blast
qed

theorem sched_run_invariant_witness:
  "\<exists>qs. pq_rel (job_queue sample_s) (qnodes sample_s) Map.empty qs \<and> distinct qs \<and>
    (\<forall>p. jobs sample_s p \<noteq> None \<longleftrightarrow> p \<in> set qs \<union> (set (core_job_ptrs sample_s) - {0}))"
  using sched_run_invariant [OF sample_run] by (elim exE conjE) (intro exI conjI, assumption+)

text \<open>C15: A job that arrives goes to the idle core of the lowest number; when all cores are busy,
  under PSJF and PPRI it takes the core of a running job of the lowest priority if it precedes
  that job, which returns to the queue; otherwise it waits and the cores are unchanged.\<close>

theorem scheduler_new_job_decides:
  assumes "sched_ok s qs t" "t \<le> time" "time < BIG" "0 \<le> running" "running < BIG" "\<bar>pri\<bar> < BIG"
  shows "\<exists>r s' qs'. scheduler_new_job number time running pri s = Some (r, s') \<and> sched_ok s' qs' time \<and>
    (if 0 \<in> set (core_job_ptrs s)
     then \<exists>i < num_cores s. r = int i \<and> core_job_ptrs s ! i = 0 \<and> (\<forall>k < i. core_job_ptrs s ! k \<noteq> 0) \<and>
        core_job_ptrs s' = (core_job_ptrs s)[i := job_brk s] \<and> qs' = []
     else if current_scheme s \<in> {PSJF, PPRI} \<and>
        (\<exists>w < num_cores s. job_key (current_scheme s) (fresh_job number time running pri) <
           key (current_scheme s) (jobs_at time s) (core_job_ptrs s ! w))
     then \<exists>w < num_cores s. r = int w \<and> core_job_ptrs s' = (core_job_ptrs s)[w := job_brk s] \<and>
        set qs' = insert (core_job_ptrs s ! w) (set qs) \<and>
        (\<forall>i < num_cores s. key (current_scheme s) (jobs_at time s) (core_job_ptrs s ! i) \<le>
           key (current_scheme s) (jobs_at time s) (core_job_ptrs s ! w))
     else r = - 1 \<and> core_job_ptrs s' = core_job_ptrs s \<and> set qs' = insert (job_brk s) (set qs))"
proof (rule new_job_cases [OF assms, of number])
  fix i s'
  assume a: "scheduler_new_job number time running pri s = Some (int i, s')" "i < num_cores s" "core_job_ptrs s ! i = 0"
    "\<forall>k < i. core_job_ptrs s ! k \<noteq> 0" "qs = []" "core_job_ptrs s' = (core_job_ptrs s)[i := job_brk s]" "sched_ok s' [] time"
  have "length (core_job_ptrs s) = num_cores s" using assms(1) by (simp add: sched_ok_def sched_rel_def)
  then have "0 \<in> set (core_job_ptrs s)" using a(2,3) by (metis nth_mem)
  with a show ?thesis by (intro exI [of _ "int i"] exI [of _ s'] exI [of _ "[]"]) auto
next
  fix w s' qs'
  assume a: "scheduler_new_job number time running pri s = Some (int w, s')" "w < num_cores s" "0 \<notin> set (core_job_ptrs s)"
    "current_scheme s = PSJF \<or> current_scheme s = PPRI"
    "job_key (current_scheme s) (fresh_job number time running pri) < key (current_scheme s) (jobs_at time s) (core_job_ptrs s ! w)"
    "\<forall>i < num_cores s. key (current_scheme s) (jobs_at time s) (core_job_ptrs s ! i) \<le> key (current_scheme s) (jobs_at time s) (core_job_ptrs s ! w)"
    "core_job_ptrs s' = (core_job_ptrs s)[w := job_brk s]" "set qs' = insert (core_job_ptrs s ! w) (set qs)" "sched_ok s' qs' time"
  then have cond: "current_scheme s \<in> {PSJF, PPRI} \<and>
        (\<exists>w < num_cores s. job_key (current_scheme s) (fresh_job number time running pri) <
           key (current_scheme s) (jobs_at time s) (core_job_ptrs s ! w))" by auto
  show ?thesis unfolding if_not_P [OF a(3)] if_P [OF cond] using a(1,2,6-9) by blast
next
  fix s' qs'
  assume a: "scheduler_new_job number time running pri s = Some (- 1, s')" "0 \<notin> set (core_job_ptrs s)"
    "current_scheme s = PSJF \<or> current_scheme s = PPRI \<Longrightarrow> \<forall>i < num_cores s.
      key (current_scheme s) (jobs_at time s) (core_job_ptrs s ! i) \<le> job_key (current_scheme s) (fresh_job number time running pri)"
    "core_job_ptrs s' = core_job_ptrs s" "jobs s' = (jobs_at time s)(job_brk s \<mapsto> fresh_job number time running pri)"
    "qs' = queue_insert (current_scheme s) ((jobs_at time s)(job_brk s \<mapsto> fresh_job number time running pri)) (job_brk s) qs"
    "sched_ok s' qs' time"
  have cond: "\<not> (current_scheme s \<in> {PSJF, PPRI} \<and>
        (\<exists>w < num_cores s. job_key (current_scheme s) (fresh_job number time running pri) <
           key (current_scheme s) (jobs_at time s) (core_job_ptrs s ! w)))"
    using a(3) by (auto simp: not_less [symmetric])
  have "set qs' = insert (job_brk s) (set qs)" using a(6) by simp
  with a(1,4,7) show ?thesis unfolding if_not_P [OF a(2)] if_not_P [OF cond] by blast
qed

theorem scheduler_new_job_decides_witness:
  "\<exists>s' qs'. scheduler_new_job 3 2 4 0 (scheduler_start_up 2 PSJF) = Some (0, s') \<and> sched_ok s' qs' 2"
proof -
  have ok: "sched_ok (scheduler_start_up 2 PSJF) [] 0" by (rule sched_ok_start) simp
  have "(0::int) \<le> 2" "(2::int) < BIG" "(0::int) \<le> 4" "(4::int) < BIG" "\<bar>0::int\<bar> < BIG" by (simp_all add: BIG_def)
  note d = scheduler_new_job_decides [OF ok this, of 3]
  have idle: "0 \<in> set (core_job_ptrs (scheduler_start_up 2 PSJF))" by (simp add: scheduler_start_up_def)
  obtain r s' qs' i where r: "scheduler_new_job 3 2 4 0 (scheduler_start_up 2 PSJF) = Some (r, s')" "sched_ok s' qs' 2"
    "r = int i" "\<forall>k < i. core_job_ptrs (scheduler_start_up 2 PSJF) ! k \<noteq> 0" "i < num_cores (scheduler_start_up 2 PSJF)"
    using d unfolding if_P [OF idle] by blast
  have "i = 0"
  proof (rule ccontr)
    assume "i \<noteq> 0"
    then have "core_job_ptrs (scheduler_start_up 2 PSJF) ! 0 \<noteq> 0" using r(4) by blast
    then show False by (simp add: scheduler_start_up_def)
  qed
  with r show ?thesis by auto
qed

text \<open>C16: When a job finishes it is freed and its times are added to the statistics; a waiting job that
  no other waiting job has a higher priority than takes the core and its number is returned, or -1
  and the core stays idle when none waits.\<close>

theorem scheduler_job_finished_next:
  assumes "sched_ok s qs t" "t \<le> time" "time < BIG" "c < num_cores s" "core_job_ptrs s ! c = p" "p \<noteq> 0"
    "0 \<le> total_jobs_finished s" "total_jobs_finished s < INT_MAX"
  shows "\<exists>r s'. scheduler_job_finished (int c) number time s = Some (r, s') \<and> sched_ok s' (tl qs) time \<and>
    jobs s' p = None \<and> total_jobs_finished s' = total_jobs_finished s + 1 \<and>
    (if qs = [] then r = - 1 \<and> core_job_ptrs s' = (core_job_ptrs s)[c := 0]
     else r = job_number (the (jobs s (hd qs))) \<and> core_job_ptrs s' = (core_job_ptrs s)[c := hd qs] \<and>
       (\<forall>q \<in> set qs. key (current_scheme s) (jobs s) (hd qs) \<le> key (current_scheme s) (jobs s) q))"
proof -
  have "core_inv (current_scheme s) (core_job_ptrs s) (jobs s) (job_brk s) qs t"
    using assms(1) by (simp add: sched_ok_def sched_rel_def)
  note sorted = core_invD(11) [OF this]
  show ?thesis
    by (rule job_finished_cases [OF assms, of number], cases qs) (use sorted in \<open>auto simp: next_of_def\<close>)
qed

theorem scheduler_job_finished_next_witness:
  "\<exists>r s'. scheduler_job_finished (int 0) 7 5 sample_s = Some (r, s') \<and> jobs s' 1 = None \<and> total_jobs_finished s' = 1"
proof -
  obtain qs where "sched_ok sample_s qs 0" using sample_ok by blast
  from scheduler_job_finished_next [OF this, of 5 0 1 7] show ?thesis
    by (auto simp: BIG_def INT_MAX_def sample_step)
qed

text \<open>C17: Round robin does not rotate. The ready queue is ordered by arrival time, so under RR a job
  whose quantum expires precedes every waiting job (arrival times being distinct) and is put
  straight back on its core: \<open>scheduler_quantum_expired\<close> returns its own number.\<close>

theorem scheduler_rr_never_rotates:
  assumes "sched_run cores RR fs s t" "t \<le> time" "time < BIG" "core_at s (int c) = Some p" "jobs s p = Some j"
    and "\<And>q k. jobs s q = Some k \<Longrightarrow> arrival_time k = arrival_time j \<Longrightarrow> q = p"
  shows "\<exists>s'. scheduler_quantum_expired (int c) time s = Some (job_number j, s') \<and> core_job_ptrs s' = core_job_ptrs s"
proof -
  obtain qs where ok: "sched_ok s qs t" and sc: "current_scheme s = RR" using sched_run_ok [OF assms(1)] by blast
  have rel: "sched_rel s qs t" and pol: "policy s qs" using ok by (auto simp: sched_ok_def)
  note r = sched_relD [OF rel]
  have c: "c < num_cores s" "core_job_ptrs s ! c = p" "c < length (core_job_ptrs s)" using assms(4) r(1) by (auto simp: core_at_Some)
  have p: "p \<noteq> 0" "p \<notin> set qs"
  proof -
    show "p \<noteq> 0" using core_invD(1) [OF r(5), of p] core_invD(3) [OF r(5)] assms(5) by (metis option.distinct(1))
    then show "p \<notin> set qs" using core_invD(4) [OF r(5) c(3)] c(2) by simp
  qed
  have before: "arrival_time j < arrival_time (the (jobs s q))" if q: "q \<in> set qs" for q
  proof -
    obtain k where k: "jobs s q = Some k" by (rule core_inv_queued [OF r(5) q])
    have "key RR (jobs s) p \<le> key RR (jobs s) q"
      using pol sc q p(1) nth_mem [OF c(3)] c(2) unfolding policy_def by auto
    moreover have "q \<noteq> p" using q p(2) by auto
    then have "arrival_time k \<noteq> arrival_time j" using assms(6) [OF k] by blast
    ultimately show ?thesis using assms(5) k by (auto simp: key_def job_key_def less_eq_prod_def)
  qed
  show ?thesis
  proof (rule quantum_expired_cases [OF ok assms(2,3) c(1,2) p(1)])
    fix j' m qs1 s'
    assume a: "jobs s p = Some j'" "m = (jobs s)(p \<mapsto> (tick time j')\<lparr>core_id := - 1\<rparr>)" "qs1 = queue_insert (current_scheme s) m p qs"
      "scheduler_quantum_expired (int c) time s = Some (job_number (the (m (next_of qs1))), s')"
      "core_job_ptrs s' = (core_job_ptrs s)[c := next_of qs1]"
    have "qs1 = p # qs"
      unfolding a(3) queue_insert_def
      by (rule insert_spec_first) (use before p(2) a(1) assms(5) in \<open>auto simp: a(2) sc key_def job_key_def less_prod_def\<close>)
    then have n: "next_of qs1 = p" by (simp add: next_of_def)
    have "job_number (the (m p)) = job_number j" using a(1,2) assms(5) by simp
    moreover have "(core_job_ptrs s)[c := p] = core_job_ptrs s" using c(2) by (metis list_update_id)
    ultimately show ?thesis using a(4,5) unfolding n by simp
  qed
qed

theorem scheduler_rr_never_rotates_witness:
  "\<exists>s'. scheduler_quantum_expired (int 0) 2 sample_s = Some (7, s') \<and> core_job_ptrs s' = [1]"
proof -
  let ?j = "placed 0 0 (tick 0 (fresh_job 7 0 5 1))"
  have "jobs sample_s q = Some k \<Longrightarrow> arrival_time k = arrival_time ?j \<Longrightarrow> q = 1" for q k
    by (simp add: sample_step split: if_splits)
  moreover have "core_at sample_s (int 0) = Some 1" "jobs sample_s 1 = Some ?j" by (simp_all add: core_at_def sample_step)
  moreover have "(0::int) \<le> 2" "(2::int) < BIG" by (simp_all add: BIG_def)
  ultimately have "\<exists>s'. scheduler_quantum_expired (int 0) 2 sample_s = Some (job_number ?j, s') \<and> core_job_ptrs s' = core_job_ptrs sample_s"
    by (intro scheduler_rr_never_rotates [OF sample_run])
  then show ?thesis by (simp add: sample_step)
qed

text \<open>The jobs that arrive in one time unit, one after the other, with the results of the calls.\<close>

fun arrivals :: "int \<Rightarrow> (int \<times> int \<times> int) list \<Rightarrow> sched \<Rightarrow> (int list \<times> sched) option" where
  "arrivals time [] s = Some ([], s)"
| "arrivals time ((number, running, pri) # js) s = do {
     (r, s) \<leftarrow> scheduler_new_job number time running pri s;
     (rs, s) \<leftarrow> arrivals time js s;
     Some (r # rs, s)
   }"

definition arrival_ok :: "int \<times> int \<times> int \<Rightarrow> bool" where
  "arrival_ok = (\<lambda>(number, running, pri). 0 \<le> running \<and> running < BIG \<and> \<bar>pri\<bar> < BIG)"

text \<open>The job \<open>b\<close>, which arrived at \<open>time\<close>, was placed on core \<open>w\<close> and has not run; it is there, or
  else (\<open>waits\<close>) in the queue.\<close>

definition unrun :: "bool \<Rightarrow> nat \<Rightarrow> nat \<Rightarrow> int \<Rightarrow> int \<Rightarrow> sched \<Rightarrow> bool" where
  "unrun waits w b time running s \<longleftrightarrow> (\<exists>qs j. sched_ok s qs time \<and> b \<noteq> 0 \<and> w < num_cores s \<and> jobs s b = Some j
     \<and> remaining_time j = running \<and> running_time j = running \<and> arrival_time j = time \<and> start_time j = time
     \<and> last_scheduled_time j = time
     \<and> (if waits then b \<in> set qs \<and> core_id j = - 1 else core_job_ptrs s ! w = b))"

lemma sched_ok_brk:
  assumes "sched_ok s qs t"
  shows "job_brk s \<noteq> 0" "jobs s (job_brk s) = None" "length (core_job_ptrs s) = num_cores s"
  using assms core_invD(6,7) by (force simp: sched_ok_def sched_rel_def)+

lemma unrun_placed:
  assumes "sched_ok s qs t" "t \<le> time" "time < BIG" "0 \<le> running" "running < BIG" "\<bar>pri\<bar> < BIG"
    and "scheduler_new_job number time running pri s = Some (int w, s')"
  shows "unrun False w (job_brk s) time running s'"
proof (rule new_job_cases [OF assms(1-6), of number])
  fix i s'' assume "scheduler_new_job number time running pri s = Some (int i, s'')" "i < num_cores s"
    "core_job_ptrs s'' = (core_job_ptrs s)[i := job_brk s]" "sched_ok s'' [] time" "same_stats s s''"
    "jobs s'' = (jobs_at time s)(job_brk s \<mapsto> placed (int i) time (fresh_job number time running pri))"
  then show ?thesis using assms(7) sched_ok_brk [OF assms(1)]
    by (auto simp: unrun_def same_stats_def placed_def fresh_job_def)
next
  fix v s'' qs' assume "scheduler_new_job number time running pri s = Some (int v, s'')" "v < num_cores s"
    "core_job_ptrs s'' = (core_job_ptrs s)[v := job_brk s]" "sched_ok s'' qs' time" "same_stats s s''"
    "jobs s'' = (jobs_at time s)(core_job_ptrs s ! v \<mapsto> (the (jobs_at time s (core_job_ptrs s ! v)))\<lparr>core_id := - 1\<rparr>,
        job_brk s \<mapsto> placed (int v) time (fresh_job number time running pri))"
  then show ?thesis using assms(7) sched_ok_brk [OF assms(1)]
    by (auto simp: unrun_def same_stats_def placed_def fresh_job_def)
qed (use assms(7) in auto)

lemma unrun_new_job:
  assumes "unrun waits w b time running s" and "arrival_ok (number', running', pri')"
    and "scheduler_new_job number' time running' pri' s = Some (r, s')"
  shows "unrun (waits \<or> r = int w) w b time running s'"
proof -
  obtain qs j where ok: "sched_ok s qs time" and b: "b \<noteq> 0" "w < num_cores s" "jobs s b = Some j"
    and j: "remaining_time j = running" "running_time j = running" "arrival_time j = time" "start_time j = time"
      "last_scheduled_time j = time"
    and at: "if waits then b \<in> set qs \<and> core_id j = - 1 else core_job_ptrs s ! w = b"
    using assms(1) unfolding unrun_def by blast
  have I: "core_inv (current_scheme s) (core_job_ptrs s) (jobs s) (job_brk s) qs time" and len: "length (core_job_ptrs s) = num_cores s"
    using ok by (simp_all add: sched_ok_def sched_rel_def)
  have ne: "b \<noteq> job_brk s" using sched_ok_brk(2) [OF ok] b(3) by auto
  have apart: "core_job_ptrs s ! v \<noteq> b" if "v < num_cores s" "waits \<or> v \<noteq> w" for v
    using that at b(1,2) core_invD(4,5) [OF I] len by metis
  have M: "\<exists>j'. jobs_at time s b = Some j' \<and> remaining_time j' = running \<and> running_time j' = running \<and> arrival_time j' = time
      \<and> start_time j' = time \<and> last_scheduled_time j' = time \<and> core_id j' = core_id j"
    using b(3) j by (auto simp: jobs_at_def ticked_def tick_def)
  have t: "time < BIG" using core_invD(10) [OF I] .
  have args: "0 \<le> running'" "running' < BIG" "\<bar>pri'\<bar> < BIG" using assms(2) by (simp_all add: arrival_ok_def)
  show ?thesis
  proof (rule new_job_cases [OF ok order_refl t args, of number'])
    fix i s'' assume a: "scheduler_new_job number' time running' pri' s = Some (int i, s'')" "i < num_cores s" "core_job_ptrs s ! i = 0"
      "qs = []" "core_job_ptrs s'' = (core_job_ptrs s)[i := job_brk s]" "sched_ok s'' [] time" "same_stats s s''"
      "jobs s'' = (jobs_at time s)(job_brk s \<mapsto> placed (int i) time (fresh_job number' time running' pri'))"
    then have "\<not> waits" "i \<noteq> w" using at b(1) by (auto split: if_splits)
    then show ?thesis using a assms(3) at M ne b by (auto simp: unrun_def same_stats_def)
  next
    fix v s'' qs' assume a: "scheduler_new_job number' time running' pri' s = Some (int v, s'')" "v < num_cores s"
      "core_job_ptrs s'' = (core_job_ptrs s)[v := job_brk s]" "set qs' = insert (core_job_ptrs s ! v) (set qs)"
      "sched_ok s'' qs' time" "same_stats s s''"
      "jobs s'' = (jobs_at time s)(core_job_ptrs s ! v \<mapsto> (the (jobs_at time s (core_job_ptrs s ! v)))\<lparr>core_id := - 1\<rparr>,
          job_brk s \<mapsto> placed (int v) time (fresh_job number' time running' pri'))"
    then have r: "r = int v" "s' = s''" "num_cores s'' = num_cores s" using assms(3) by (simp_all add: same_stats_def)
    show ?thesis
    proof (cases "waits \<or> v \<noteq> w")
      case True
      then show ?thesis using a(2-5,7) r at M ne b apart [OF a(2) True] by (cases waits) (auto simp: unrun_def)
    next
      case False
      then show ?thesis using a(2-5,7) r at M ne b by (auto simp: unrun_def)
    qed
  next
    fix s'' qs' assume "scheduler_new_job number' time running' pri' s = Some (- 1, s'')" "core_job_ptrs s'' = core_job_ptrs s"
      "jobs s'' = (jobs_at time s)(job_brk s \<mapsto> fresh_job number' time running' pri')"
      "qs' = queue_insert (current_scheme s) ((jobs_at time s)(job_brk s \<mapsto> fresh_job number' time running' pri')) (job_brk s) qs"
      "sched_ok s'' qs' time" "same_stats s s''"
    then show ?thesis using assms(3) at M ne b by (cases waits) (auto simp: unrun_def same_stats_def)
  qed
qed

lemma unrun_arrivals:
  "unrun waits w b time running s \<Longrightarrow> \<forall>j \<in> set js. arrival_ok j \<Longrightarrow> arrivals time js s = Some (rs, s')
    \<Longrightarrow> unrun (waits \<or> int w \<in> set rs) w b time running s'"
proof (induction js arbitrary: waits s rs)
  case Nil
  then show ?case by simp
next
  case (Cons x js)
  obtain number running' pri where x: "x = (number, running', pri)" by (cases x)
  obtain r s1 rs1 where s1: "scheduler_new_job number time running' pri s = Some (r, s1)" "arrivals time js s1 = Some (rs1, s')" "rs = r # rs1"
    using Cons.prems(3) by (auto simp: x bind_eq_Some_conv)
  have "unrun (waits \<or> r = int w) w b time running s1"
    by (rule unrun_new_job [OF Cons.prems(1) _ s1(1)]) (use Cons.prems(2) x in auto)
  from Cons.IH [OF this _ s1(2)] Cons.prems(2) show ?case by (simp add: s1(3) disj_ac eq_commute)
qed

text \<open>C20: Whatever jobs arrive in one time unit, on any number of cores: one that gets a core on its
  arrival and loses it to a later one has not run at all, yet it is in the queue with \<open>start_time\<close>
  set to its arrival, so that its response time will be counted as 0.\<close>

theorem scheduler_preempted_unrun_job_started:
  assumes "sched_ok s qs t" "t \<le> time" "time < BIG" and "\<forall>j \<in> set ((number, running, pri) # js). arrival_ok j"
    and "arrivals time ((number, running, pri) # js) s = Some (int w # rs, s')" and "int w \<in> set rs"
  shows "\<exists>qs' j. sched_ok s' qs' time \<and> job_brk s \<in> set qs' \<and> jobs s' (job_brk s) = Some j \<and> core_id j = - 1
    \<and> remaining_time j = running \<and> running_time j = running \<and> arrival_time j = time \<and> start_time j = time"
proof -
  obtain s1 where s1: "scheduler_new_job number time running pri s = Some (int w, s1)" "arrivals time js s1 = Some (rs, s')"
    using assms(5) by (auto simp: bind_eq_Some_conv)
  have "unrun False w (job_brk s) time running s1"
    by (rule unrun_placed [OF assms(1-3) _ _ _ s1(1)]) (use assms(4) in \<open>auto simp: arrival_ok_def\<close>)
  from unrun_arrivals [OF this _ s1(2)] assms(4,6) show ?thesis by (auto simp: unrun_def)
qed

text \<open>Three jobs arrive on two cores under PSJF: the first two are placed, and the second, the longer,
  loses core 1 to the third.\<close>

lemma sample_arrivals:
  "case scheduler_new_job 6 0 1 0 (scheduler_start_up 2 PSJF) of None \<Rightarrow> False
   | Some (r, s) \<Rightarrow> r = 0 \<and> job_brk s = 2 \<and> map_option fst (arrivals 0 [(7, 5, 0), (8, 2, 0)] s) = Some [1, 1]"
  by code_simp

theorem scheduler_preempted_unrun_job_started_witness:
  "\<exists>s s' j. scheduler_new_job 6 0 1 0 (scheduler_start_up 2 PSJF) = Some (0, s)
    \<and> arrivals 0 [(7, 5, 0), (8, 2, 0)] s = Some ([1, 1], s')
    \<and> jobs s' 2 = Some j \<and> core_id j = - 1 \<and> remaining_time j = running_time j \<and> start_time j = 0"
proof -
  obtain s s' where s: "scheduler_new_job 6 0 1 0 (scheduler_start_up 2 PSJF) = Some (0, s)" "job_brk s = 2"
    and s': "arrivals 0 [(7, 5, 0), (8, 2, 0)] s = Some (int 1 # [1], s')"
    using sample_arrivals by (auto split: option.splits)
  have b: "(0::int) < BIG" "\<forall>j \<in> set [(7, 5, 0), (8, 2, 0)]. arrival_ok j" by (simp_all add: BIG_def arrival_ok_def)
  have "unrun False 0 (job_brk (scheduler_start_up 2 PSJF)) 0 1 s"
    by (rule unrun_placed [OF sched_ok_start order_refl b(1)]) (use s(1) in \<open>simp_all add: BIG_def\<close>)
  then obtain qs where "sched_ok s qs 0" by (auto simp: unrun_def)
  from scheduler_preempted_unrun_job_started [OF this order_refl b s'] s(2) have
    "\<exists>j. jobs s' 2 = Some j \<and> core_id j = - 1 \<and> remaining_time j = running_time j \<and> start_time j = 0" by auto
  with s(1) s' show ?thesis by auto
qed

definition near_average :: "int \<times> nat \<Rightarrow> int \<Rightarrow> int \<Rightarrow> bool" where
  "near_average x y n \<longleftrightarrow> (case x of (m, k) \<Rightarrow> 2 ^ 24 * \<bar>m * n - y * 2 ^ k\<bar> \<le> \<bar>y\<bar> * 2 ^ k)"

lemma sum_list_parts:
  fixes F :: "'a \<Rightarrow> int"
  assumes "\<forall>x \<in> set fs. 0 \<le> A x \<and> 0 \<le> B x \<and> F x = A x - B x"
  shows "0 \<le> sum_list (map A fs) \<and> 0 \<le> sum_list (map B fs) \<and> sum_list (map F fs) = sum_list (map A fs) - sum_list (map B fs)"
  using assms by (induction fs) auto

lemma stats_exact:
  assumes "\<forall>x \<in> set fs. \<bar>F x\<bar> < 2 ^ 24 \<longrightarrow> g (fst x) (snd x) = F x"
    and "\<forall>x \<in> set fs. 0 \<le> A x \<and> 0 \<le> B x \<and> F x = A x - B x"
    and "sum_list (map A fs) < 2 ^ 24" "sum_list (map B fs) < 2 ^ 24"
  shows "stats_of g fs = sum_list (map F fs)"
  using assms
proof (induction fs)
  case (Cons x fs)
  have parts: "0 \<le> sum_list (map A fs) \<and> 0 \<le> sum_list (map B fs) \<and> sum_list (map F fs) = sum_list (map A fs) - sum_list (map B fs)"
    by (rule sum_list_parts) (use Cons.prems(2) in simp)
  have ab: "0 \<le> A x" "0 \<le> B x" "F x = A x - B x" using Cons.prems(2) by auto
  have le: "A x + sum_list (map A fs) < 2 ^ 24" "B x + sum_list (map B fs) < 2 ^ 24" using Cons.prems(3,4) by auto
  have IH: "stats_of g fs = sum_list (map F fs)"
    by (rule Cons.IH) (use Cons.prems(1,2) ab le in auto)
  have "\<bar>F x\<bar> < 2 ^ 24" "\<bar>sum_list (map F fs) + F x\<bar> < 2 ^ 24" using ab le parts by linarith+
  moreover from this(1) have "g (fst x) (snd x) = F x" using Cons.prems(1) by simp
  ultimately show ?case using IH by (simp add: stats_of_def f32_add_exact case_prod_unfold)
qed (simp add: stats_of_def)

text \<open>C18: While the sums stay below \<open>2 ^ 24\<close> the statistics are exact and the three averages are
  within one part in \<open>2 ^ 24\<close> of the averages over the finished jobs of turnaround time (finish
  minus arrival), response time (first start minus arrival) and waiting time (turnaround minus
  running time).\<close>

theorem scheduler_averages_near:
  assumes "sched_run cores scheme fs s t" "fs \<noteq> []" "length fs < 2 ^ 24"
    and "(\<Sum>(j, time) \<leftarrow> fs. time - arrival_time j) < 2 ^ 24" "(\<Sum>(j, time) \<leftarrow> fs. running_time j) < 2 ^ 24"
  shows "near_average (scheduler_average_turnaround_time s) (\<Sum>(j, time) \<leftarrow> fs. time - arrival_time j) (int (length fs)) \<and>
    near_average (scheduler_average_response_time s) (\<Sum>(j, time) \<leftarrow> fs. start_time j - arrival_time j) (int (length fs)) \<and>
    near_average (scheduler_average_waiting_time s) (\<Sum>(j, time) \<leftarrow> fs. time - arrival_time j - running_time j) (int (length fs))"
proof -
  note ok = sched_run_ok [OF assms(1)]
  have fs: "0 \<le> arrival_time (fst x) \<and> arrival_time (fst x) \<le> start_time (fst x) \<and> start_time (fst x) \<le> snd x \<and> 0 \<le> running_time (fst x)"
    if "x \<in> set fs" for x
    using ok that by (cases x) auto
  let ?T = "\<lambda>x. snd x - arrival_time (fst x)" and ?R = "\<lambda>x. start_time (fst x) - arrival_time (fst x)" and ?W = "\<lambda>x. running_time (fst x)"
  have T: "sum_list (map ?T fs) < 2 ^ 24" and W: "sum_list (map ?W fs) < 2 ^ 24"
    using assms(4,5) by (simp_all add: case_prod_unfold)
  have "sum_list (map ?R fs) \<le> sum_list (map ?T fs)" by (rule sum_list_mono) (use fs in auto)
  with T have R: "sum_list (map ?R fs) < 2 ^ 24" by simp
  have each: "f x < 2 ^ 24" if "x \<in> set fs" "\<forall>y \<in> set fs. 0 \<le> f y" "sum_list (map f fs) < 2 ^ 24" for f :: "job_t \<times> int \<Rightarrow> int" and x
  proof -
    have "f x \<le> sum_list (map f fs)" by (rule member_le_sum_list) (use that in auto)
    with that(3) show ?thesis by simp
  qed
  have tot: "stats_of turnaround_of fs = sum_list (map ?T fs)"
    by (rule stats_exact [where A = ?T and B = "\<lambda>_. 0"]) (use fs T in \<open>auto simp: turnaround_of_def f32_exact dest!: fs\<close>)
  have res: "stats_of response_of fs = sum_list (map ?R fs)"
    by (rule stats_exact [where A = ?R and B = "\<lambda>_. 0"]) (use fs R in \<open>auto simp: response_of_def f32_exact dest!: fs\<close>)
  have wai: "stats_of waiting_of fs = sum_list (map (\<lambda>x. ?T x - ?W x) fs)"
  proof (rule stats_exact [where A = ?T and B = ?W])
    show "\<forall>x \<in> set fs. \<bar>?T x - ?W x\<bar> < 2 ^ 24 \<longrightarrow> waiting_of (fst x) (snd x) = ?T x - ?W x"
    proof (intro ballI impI)
      fix x assume x: "x \<in> set fs" and b: "\<bar>?T x - ?W x\<bar> < 2 ^ 24"
      have "?T x < 2 ^ 24" by (rule each [OF x _ T]) (use fs in force)
      moreover have "?W x < 2 ^ 24" by (rule each [OF x _ W]) (use fs in force)
      ultimately show "waiting_of (fst x) (snd x) = ?T x - ?W x"
        using fs [OF x] b by (simp add: waiting_of_def f32_exact f32_sub_def)
    qed
  qed (use fs T W in \<open>auto dest!: fs\<close>)
  have n: "f32_of_int (int (length fs)) = int (length fs)" "0 < int (length fs)" using assms(2,3) by (auto simp: f32_exact)
  have near: "near_average (average y s) y (int (length fs))" for y
    using f32_div_error [OF n(2), of y] ok n assms(2) by (auto simp: average_def near_average_def split: prod.splits)
  show ?thesis
    using ok tot res wai near
    by (simp add: scheduler_average_turnaround_time_def scheduler_average_response_time_def scheduler_average_waiting_time_def
        case_prod_unfold)
qed

theorem scheduler_averages_near_witness:
  "near_average (scheduler_average_turnaround_time sample_f) 5 1"
  using scheduler_averages_near [OF sample_run_f] by (simp add: placed_def tick_def fresh_job_def)

text \<open>C19: \<open>scheduler_clean_up\<close> is defined in every reachable state and leaves no job, queue node or
  core array allocated.\<close>

theorem scheduler_clean_up_frees_all:
  assumes "sched_run cores scheme fs s t"
  shows "\<exists>s'. scheduler_clean_up s = Some s' \<and> jobs s' = Map.empty \<and> cells (qnodes s') = Map.empty \<and> core_job_ptrs s' = []"
proof -
  obtain qs where ok: "sched_ok s qs t" using sched_run_ok [OF assms] by blast
  then have rel: "sched_rel s qs t" by (simp add: sched_ok_def)
  note r = sched_relD [OF rel]
  have "\<forall>i \<in> set [0..<num_cores s]. i < length (core_job_ptrs s)" using r(1) by simp
  from free_cores_ok [OF this r(5)] obtain cs m where
    f: "free_cores [0..<num_cores s] s = Some (s\<lparr>core_job_ptrs := cs, jobs := m\<rparr>)" "core_inv (current_scheme s) cs m (job_brk s) qs t"
      "length cs = length (core_job_ptrs s)" "\<forall>i < length cs. core_job_ptrs s ! i = 0 \<or> i \<in> set [0..<num_cores s] \<longrightarrow> cs ! i = 0"
    by blast
  let ?s = "s\<lparr>core_job_ptrs := cs, jobs := m\<rparr>"
  have "pq_rel (job_queue ?s) (qnodes ?s) Map.empty qs" "core_inv (current_scheme s) (core_job_ptrs ?s) (jobs ?s) (job_brk s) qs t"
    using r(3) f(2) by simp_all
  from free_queue_ok [OF this] obtain s' where
    q: "free_queue ?s = Some s'" "pq_rel (job_queue s') (qnodes s') Map.empty []"
      "core_inv (current_scheme s) cs (jobs s') (job_brk s) [] t" "core_job_ptrs s' = cs" by auto
  obtain h where h: "priqueue_destroy (job_queue s') (qnodes s') = Some h" "cells h = Map.empty"
    using pq_destroy [OF q(2)] by blast
  have "jobs s' p = None" for p
    using core_invD(1) [OF q(3), of p] f(3,4) r(1) by auto
  then have "jobs s' = Map.empty" by auto
  with f(1) q(1) h show ?thesis by (simp add: scheduler_clean_up_def)
qed

theorem scheduler_clean_up_frees_all_witness:
  "\<exists>s'. scheduler_clean_up sample_s = Some s' \<and> jobs s' = Map.empty"
  using scheduler_clean_up_frees_all [OF sample_run] by blast

text \<open>\<open>scheduler_show_queue\<close> prints the waiting jobs in the order they will be served, each with
  -1, and then the running jobs with their cores.\<close>

lemma scheduler_show_queue_order:
  assumes "sched_ok s qs t"
  shows "scheduler_show_queue s =
    Some (map (\<lambda>p. (job_number (the (jobs s p)), - 1)) qs @
      map (\<lambda>c. (job_number (the (jobs s (core_job_ptrs s ! c))), int c)) (filter (\<lambda>c. core_job_ptrs s ! c \<noteq> 0) [0..<num_cores s]))"
proof -
  have rel: "sched_rel s qs t" using assms by (simp add: sched_ok_def)
  note r = sched_relD [OF rel]
  have q: "\<forall>y \<in> set qs. y \<noteq> 0 \<and> (\<exists>j. jobs s y = Some j)" using core_inv_queued [OF r(5)] by metis
  have "show_queued [0..<length qs] s = Some (map (\<lambda>i. let j = the (jobs s (qs ! i)) in (job_number j, core_id j)) [0..<length qs])"
    by (rule show_queued_ok [OF r(3) q]) simp
  also have "map (\<lambda>i. let j = the (jobs s (qs ! i)) in (job_number j, core_id j)) [0..<length qs] =
      map (\<lambda>p. (job_number (the (jobs s p)), - 1)) qs"
    by (rule nth_equalityI) (use core_invD(12) [OF r(5)] in \<open>auto simp: Let_def\<close>)
  finally show ?thesis
    using pq_size [OF r(3)] show_running_ok [OF r(5), of "[0..<num_cores s]"] r(1)
    by (simp add: scheduler_show_queue_def)
qed

lemma scheduler_show_queue_order_witness:
  "scheduler_show_queue (scheduler_start_up 2 FCFS) = Some []"
proof -
  have "sched_ok (scheduler_start_up 2 FCFS) [] 0" by (rule sched_ok_start) simp
  from scheduler_show_queue_order [OF this] show ?thesis by (simp add: scheduler_start_up_def)
qed

end
