(* ===== verification/SchedSim.thy ===== *)
theory SchedSim
  imports Scheduler CStrings
begin

text \<open>
  \<open>lab7/.../simulator.c\<close>: it loads the jobs from a CSV file and drives the scheduler one time
  unit at a time. The file is the list of lines \<open>fgets\<close> returns, the options are the pairs
  \<open>getopt\<close> returns; what is printed is a list of events. \<open>None\<close> is undefined behaviour or a
  failed \<open>assert\<close>; a step that returns from \<open>main\<close> gives the exit code.
\<close>

subsection \<open>Jobs of the simulator\<close>

record sim_job =
  sj_id :: int
  sj_arrival :: int
  run_time :: int
  sj_priority :: int
  sj_core :: int
  arrived :: bool

datatype sim_event =
    Time int
  | Job_finished int int int "(int \<times> int) list"
  | Quantum_expired int int int "(int \<times> int) list"
  | Arrived_running int int int int "(int \<times> int) list"
  | Arrived_idle int int int "(int \<times> int) list"
  | End_of_unit int "string list" "(int \<times> int) list"
  | Invalid_job int "int list"
  | Invalid_core int "int list"
  | All_idle "int list"
  | Final "string list" int int int

text \<open>\<open>set_active_job\<close>: the first active job of that id that has arrived gets the core.\<close>

fun set_active_job :: "int \<Rightarrow> int \<Rightarrow> sim_job list \<Rightarrow> sim_job list option" where
  "set_active_job job core [] = None"
| "set_active_job job core (j # js) =
     (if sj_id j = job \<and> arrived j then Some (j\<lparr>sj_core := core\<rparr> # js)
      else map_option ((#) j) (set_active_job job core js))"

definition available_jobs :: "sim_job list \<Rightarrow> int list" where
  "available_jobs js = map sj_id (filter arrived js)"

definition available_cores :: "nat \<Rightarrow> int list" where
  "available_cores cores = map int [0..<cores]"

subsection \<open>Options\<close>

definition lower :: "char \<Rightarrow> char" where
  "lower c = (if is_upper c then char_of (char_nat c + 32) else c)"

definition strcasecmp_eq :: "string \<Rightarrow> string \<Rightarrow> bool" where
  "strcasecmp_eq a b \<longleftrightarrow> map lower a = map lower b"

record options =
  opt_cores :: int
  opt_scheme :: "scheme_t option"
  opt_quantum :: int

text \<open>One turn of the \<open>getopt\<close> loop; \<open>None\<close> is the \<open>return 1\<close>.\<close>

definition parse_option :: "char \<times> string \<Rightarrow> options \<Rightarrow> options option" where
  "parse_option opt os = (case opt of (c, optarg) \<Rightarrow>
     if c = CHR ''c'' then
       let cores = atoi optarg in if cores \<le> 0 then None else Some (os\<lparr>opt_cores := cores\<rparr>)
     else if c = CHR ''s'' then
       if strcasecmp_eq optarg ''FCFS'' then Some (os\<lparr>opt_scheme := Some FCFS\<rparr>)
       else if strcasecmp_eq optarg ''SJF'' then Some (os\<lparr>opt_scheme := Some SJF\<rparr>)
       else if strcasecmp_eq optarg ''PSJF'' then Some (os\<lparr>opt_scheme := Some PSJF\<rparr>)
       else if strcasecmp_eq optarg ''PRI'' then Some (os\<lparr>opt_scheme := Some PRI\<rparr>)
       else if strcasecmp_eq optarg ''PPRI'' then Some (os\<lparr>opt_scheme := Some PPRI\<rparr>)
       else if strcasecmp_eq (take 2 optarg) ''RR'' then
         let quantum = atoi (drop 2 optarg) in
         if quantum \<le> 0 then None else Some (os\<lparr>opt_scheme := Some RR, opt_quantum := quantum\<rparr>)
       else Some os
     else if c = CHR ''?'' then None
     else Some os)"

fun parse_options :: "(char \<times> string) list \<Rightarrow> options \<Rightarrow> options option" where
  "parse_options [] os = Some os"
| "parse_options (opt # opts) os = do { os \<leftarrow> parse_option opt os; parse_options opts os }"

text \<open>The checks after the loop; \<open>operands\<close> are the arguments \<open>getopt\<close> left.\<close>

definition check_options :: "options \<Rightarrow> string list \<Rightarrow> (nat \<times> scheme_t \<times> int \<times> string) option" where
  "check_options os operands =
     (if opt_cores os = 0 then None
      else case opt_scheme os of None \<Rightarrow> None
      | Some scheme \<Rightarrow> (case operands of [file] \<Rightarrow> Some (nat (opt_cores os), scheme, opt_quantum os, file) | _ \<Rightarrow> None))"

definition main_options :: "(char \<times> string) list \<Rightarrow> string list \<Rightarrow> (nat \<times> scheme_t \<times> int \<times> string) option" where
  "main_options opts operands = do {
     os \<leftarrow> parse_options opts \<lparr>opt_cores = 0, opt_scheme = None, opt_quantum = 0\<rparr>;
     check_options os operands
   }"

subsection \<open>Loading the jobs\<close>

text \<open>\<open>strtok\<close> with the delimiter \<open>,\<close>: leading delimiters are skipped, a token ends before the next.\<close>

definition is_comma :: "char \<Rightarrow> bool" where
  "is_comma c \<longleftrightarrow> c = CHR '',''"

definition strtok :: "string \<Rightarrow> (string \<times> string) option" where
  "strtok s =
     (let t = dropWhile is_comma s in
      if t = [] then None
      else Some (takeWhile (\<lambda>c. \<not> is_comma c) t, drop 1 (dropWhile (\<lambda>c. \<not> is_comma c) t)))"

text \<open>A job per line; the array holds \<open>jobs_ct\<close> elements and is doubled when full. \<open>Inl 2\<close> is
  \<open>return 2\<close>.\<close>

definition parse_line :: "string \<Rightarrow> (int \<times> int \<times> int) option" where
  "parse_line line = do {
     (arrival_time, rest) \<leftarrow> strtok line;
     (run_time, rest) \<leftarrow> strtok rest;
     (priority, rest) \<leftarrow> strtok rest;
     Some (atoi arrival_time, atoi run_time, atoi priority)
   }"

fun load_jobs :: "string list \<Rightarrow> nat \<Rightarrow> sim_job list \<Rightarrow> (int + sim_job list) option" where
  "load_jobs [] jobs_ct js = Some (Inr js)"
| "load_jobs (line # lines) jobs_ct js =
     (case parse_line line of
        None \<Rightarrow> Some (Inl 2)
      | Some (arrival, run, pri) \<Rightarrow>
          let jobs_ct = (if length js = jobs_ct then 2 * jobs_ct else jobs_ct) in
          if length js < jobs_ct
          then load_jobs lines jobs_ct
            (js @ [\<lparr>sj_id = int (length js), sj_arrival = arrival, run_time = run, sj_priority = pri, sj_core = - 1, arrived = False\<rparr>])
          else None)"

subsection \<open>State of the simulation\<close>

record sim_state =
  cores :: nat
  scheme :: scheme_t
  quantum :: int
  sch :: sched
  sjobs :: "sim_job list"
  jobs_alive :: int
  quantum_clock :: "int list"
  diagrams :: "string list"
  diagram_size :: nat
  clock :: int
  events :: "sim_event list"

definition print_event :: "sim_event \<Rightarrow> sim_state \<Rightarrow> sim_state" where
  "print_event e st = st\<lparr>events := events st @ [e]\<rparr>"

definition set_clock :: "int \<Rightarrow> int \<Rightarrow> sim_state \<Rightarrow> sim_state option" where
  "set_clock i x st =
     (if 0 \<le> i \<and> nat i < length (quantum_clock st)
      then Some (st\<lparr>quantum_clock := (quantum_clock st)[nat i := x]\<rparr>) else None)"

text \<open>A step that may return from \<open>main\<close>: the exit code, if any, and the state.\<close>

type_synonym outcome = "(int option \<times> sim_state) option"

text \<open>Setting the new job after a handler returned it, or giving up on an invalid one.\<close>

definition install :: "int \<Rightarrow> int \<Rightarrow> ((int \<times> int) list \<Rightarrow> sim_event) \<Rightarrow> sim_state \<Rightarrow> outcome" where
  "install new_job core event st =
     (case (if new_job \<noteq> - 1 then set_active_job new_job core (sjobs st) else Some (sjobs st)) of
        None \<Rightarrow> Some (Some 3, print_event (Invalid_job new_job (available_jobs (sjobs st))) st)
      | Some js \<Rightarrow> do {
          queue \<leftarrow> scheduler_show_queue (sch st);
          Some (None, print_event (event queue) (st\<lparr>sjobs := js\<rparr>))
        })"

text \<open>Step 1: jobs that ran out of time. A finished job is overwritten by the last one.\<close>

definition remove_job :: "nat \<Rightarrow> sim_job list \<Rightarrow> sim_job list" where
  "remove_job i js = butlast (if i \<noteq> length js - 1 then js[i := last js] else js)"

lemma length_remove_job [simp]: "length (remove_job i js) = length js - 1"
  by (simp add: remove_job_def)

definition finish_job :: "nat \<Rightarrow> sim_state \<Rightarrow> outcome" where
  "finish_job i st = do {
     let j = sjobs st ! i;
     (new_job, s) \<leftarrow> scheduler_job_finished (sj_core j) (sj_id j) (clock st) (sch st);
     let st = st\<lparr>sch := s\<rparr>;
     st \<leftarrow> (if scheme st = RR then set_clock (sj_core j) (quantum st) st else Some st);
     install new_job (sj_core j) (Job_finished (sj_id j) (sj_core j) new_job)
       (st\<lparr>sjobs := remove_job i (sjobs st), jobs_alive := jobs_alive st - 1\<rparr>)
   }"

text \<open>Step 2: expired quanta.\<close>

definition find_on_core :: "int \<Rightarrow> sim_job list \<Rightarrow> nat option" where
  "find_on_core i js = find (\<lambda>k. sj_core (js ! k) = i) [0..<length js]"

definition expire_core :: "nat \<Rightarrow> sim_state \<Rightarrow> outcome" where
  "expire_core i st =
     (if i \<ge> length (quantum_clock st) then None
      else if quantum_clock st ! i \<noteq> 0 then Some (None, st)
      else case find_on_core (int i) (sjobs st) of
        None \<Rightarrow> Some (None, st)
      | Some k \<Rightarrow> do {
          (new_job, s) \<leftarrow> scheduler_quantum_expired (int i) (clock st) (sch st);
          let j = sjobs st ! k;
          st \<leftarrow> set_clock (int i) (quantum st) (st\<lparr>sch := s, sjobs := (sjobs st)[k := j\<lparr>sj_core := - 1\<rparr>]\<rparr>);
          install new_job (int i) (Quantum_expired (sj_id j) (int i) new_job) st
        })"

fun expire_cores :: "nat list \<Rightarrow> sim_state \<Rightarrow> outcome" where
  "expire_cores [] st = Some (None, st)"
| "expire_cores (i # is) st = do {
     (code, st) \<leftarrow> expire_core i st;
     if code \<noteq> None then Some (code, st) else expire_cores is st
   }"

text \<open>Step 3: arrivals.\<close>

definition arrive_job :: "nat \<Rightarrow> sim_state \<Rightarrow> outcome" where
  "arrive_job i st =
     (let j = sjobs st ! i in
      if sj_arrival j \<noteq> clock st then Some (None, st)
      else do {
        (core, s) \<leftarrow> scheduler_new_job (sj_id j) (clock st) (run_time j) (sj_priority j) (sch st);
        let st = st\<lparr>sch := s, sjobs := (sjobs st)[i := j\<lparr>arrived := True\<rparr>], jobs_alive := jobs_alive st + 1\<rparr>;
        if 0 \<le> core \<and> core < int (cores st) then do {
          queue \<leftarrow> scheduler_show_queue s;
          let st = print_event (Arrived_running (sj_id j) (run_time j) (sj_priority j) core queue) st;
          let js = map (\<lambda>k. if sj_core k = core then k\<lparr>sj_core := - 1\<rparr> else k) (sjobs st);
          let st = st\<lparr>sjobs := js[i := (js ! i)\<lparr>sj_core := core\<rparr>]\<rparr>;
          st \<leftarrow> (if scheme st = RR then set_clock core (quantum st) st else Some st);
          Some (None, st)
        }
        else if core = - 1 then do {
          queue \<leftarrow> scheduler_show_queue s;
          Some (None, print_event (Arrived_idle (sj_id j) (run_time j) (sj_priority j) queue) st)
        }
        else Some (Some 3, print_event (Invalid_core core (available_cores (cores st))) st)
      })"

fun arrive_jobs :: "nat list \<Rightarrow> sim_state \<Rightarrow> outcome" where
  "arrive_jobs [] st = Some (None, st)"
| "arrive_jobs (i # is) st = do {
     (code, st) \<leftarrow> arrive_job i st;
     if code \<noteq> None then Some (code, st) else arrive_jobs is st
   }"

text \<open>Step 4: the time unit. A job's label in the diagram.\<close>

fun decimal :: "nat \<Rightarrow> string" where
  "decimal n = (if n < 10 then [char_of (48 + n)] else decimal (n div 10) @ [char_of (48 + n mod 10)])"

declare decimal.simps [simp del]

definition decimal_int :: "int \<Rightarrow> string" where
  "decimal_int i = (if i < 0 then CHR ''-'' # decimal (nat (- i)) else decimal (nat i))"

definition job_label :: "int \<Rightarrow> string" where
  "job_label i =
     (if i < 10 then decimal_int i
      else if i < 10 + 26 then [char_of (nat (i - 10 + 97))]
      else if i < 10 + 26 + 26 then [char_of (nat (i - 10 - 26 + 65))]
      else take 9 (''('' @ decimal_int i @ '')''))"

definition run_job :: "nat \<Rightarrow> nat \<times> string list \<times> sim_state \<Rightarrow> (nat \<times> string list \<times> sim_state) option" where
  "run_job i acc = (case acc of (working, time_string, st) \<Rightarrow>
     let j = sjobs st ! i; core = sj_core j in
     if core = - 1 then Some acc
     else do {
       rt \<leftarrow> int_sub (run_time j) 1;
       let st = st\<lparr>sjobs := (sjobs st)[i := j\<lparr>run_time := rt\<rparr>]\<rparr>;
       if core < 0 \<or> length (quantum_clock st) \<le> nat core then None
       else do {
         q \<leftarrow> int_sub (quantum_clock st ! nat core) 1;
         st \<leftarrow> set_clock core q st;
         if time_string ! nat core \<noteq> [] then None
         else Some (Suc working, time_string[nat core := job_label (sj_id j)], st)
       }
     })"

fun run_jobs :: "nat list \<Rightarrow> nat \<times> string list \<times> sim_state \<Rightarrow> (nat \<times> string list \<times> sim_state) option" where
  "run_jobs [] acc = Some acc"
| "run_jobs (i # is) acc = do { acc \<leftarrow> run_job i acc; run_jobs is acc }"

text \<open>The diagram of each core is extended, all buffers being doubled until the text fits; a
  buffer of \<open>diagram_size + 1\<close> bytes takes \<open>strcat\<close>'s text and NUL.\<close>

function grow_diagram :: "nat \<Rightarrow> nat \<Rightarrow> nat" where
  "grow_diagram len sz = (if sz = 0 \<or> len < sz then sz else grow_diagram len (2 * sz))"
  by pat_completeness auto
termination by (relation "measure (\<lambda>(len, sz). Suc len - sz)") auto

declare grow_diagram.simps [simp del]

definition extend_diagram :: "string list \<Rightarrow> nat \<Rightarrow> sim_state \<Rightarrow> sim_state option" where
  "extend_diagram time_string i st =
     (let text = (if time_string ! i = [] then ''-'' else time_string ! i);
          len = length (diagrams st ! i) + length text;
          sz = grow_diagram len (diagram_size st)
      in if sz + 1 \<le> len then None
         else Some (st\<lparr>diagram_size := sz, diagrams := (diagrams st)[i := diagrams st ! i @ text]\<rparr>))"

fun extend_diagrams :: "string list \<Rightarrow> nat list \<Rightarrow> sim_state \<Rightarrow> sim_state option" where
  "extend_diagrams ts [] st = Some st"
| "extend_diagrams ts (i # is) st = do { st \<leftarrow> extend_diagram ts i st; extend_diagrams ts is st }"

text \<open>Steps 4 to 7.\<close>

definition run_unit :: "sim_state \<Rightarrow> outcome" where
  "run_unit st = do {
     (working, time_string, st) \<leftarrow> run_jobs [0..<length (sjobs st)] (0, replicate (cores st) [], st);
     st \<leftarrow> extend_diagrams time_string [0..<cores st] st;
     queue \<leftarrow> scheduler_show_queue (sch st);
     let st = print_event (End_of_unit (clock st) (diagrams st) queue) st;
     if 0 < jobs_alive st \<and> working = 0
     then Some (Some 3, print_event (All_idle (available_jobs (sjobs st))) st)
     else do { t \<leftarrow> int_sub (clock st) (- 1); Some (None, st\<lparr>clock := t\<rparr>) }
   }"

text \<open>Step 1 as a loop: after a job is removed the same index is looked at again.\<close>

partial_function (option) finish_jobs :: "nat \<Rightarrow> sim_state \<Rightarrow> outcome" where
  "finish_jobs i st =
     (if length (sjobs st) \<le> i then Some (None, st)
      else if run_time (sjobs st ! i) \<noteq> 0 then finish_jobs (Suc i) st
      else do {
        (code, st) \<leftarrow> finish_job i st;
        if code \<noteq> None then Some (code, st) else finish_jobs i st
      })"

definition time_unit :: "sim_state \<Rightarrow> (int option \<times> sim_state) option" where
  "time_unit st = do {
     (code, st) \<leftarrow> finish_jobs 0 (print_event (Time (clock st)) st);
     if code \<noteq> None \<or> sjobs st = [] then Some (code, st)
     else do {
       (code, st) \<leftarrow> (if scheme st = RR then expire_cores [0..<cores st] st else Some (None, st));
       if code \<noteq> None then Some (code, st)
       else do {
         (code, st) \<leftarrow> arrive_jobs [0..<length (sjobs st)] st;
         if code \<noteq> None then Some (code, st) else run_unit st
       }
     }
   }"

partial_function (option) run_simulation :: "sim_state \<Rightarrow> (int option \<times> sim_state) option" where
  "run_simulation st =
     (if sjobs st = [] then Some (None, st)
      else do {
        (code, st) \<leftarrow> time_unit st;
        if code \<noteq> None then Some (code, st) else run_simulation st
      })"

declare finish_jobs.simps [code] run_simulation.simps [code]

definition sim_init :: "nat \<Rightarrow> scheme_t \<Rightarrow> int \<Rightarrow> sim_job list \<Rightarrow> sim_state" where
  "sim_init n sc q js =
     \<lparr>cores = n, scheme = sc, quantum = q, sch = scheduler_start_up n sc, sjobs = js, jobs_alive = 0,
      quantum_clock = replicate n (- 1), diagrams = replicate n [], diagram_size = 1024, clock = 0, events = []\<rparr>"

definition sched_simulator :: "nat \<Rightarrow> scheme_t \<Rightarrow> int \<Rightarrow> string list \<Rightarrow> (int \<times> sim_event list) option" where
  "sched_simulator n sc q lines = do {
     loaded \<leftarrow> load_jobs (drop 1 lines) 10 [];
     case loaded of
       Inl code \<Rightarrow> Some (code, [])
     | Inr js \<Rightarrow> do {
         (code, st) \<leftarrow> run_simulation (sim_init n sc q js);
         case code of
           Some c \<Rightarrow> Some (c, events st)
         | None \<Rightarrow> do {
             s \<leftarrow> scheduler_clean_up (sch st);
             Some (0, events st @ [Final (diagrams st) (hundredths (scheduler_average_waiting_time (sch st)))
               (hundredths (scheduler_average_turnaround_time (sch st)))
               (hundredths (scheduler_average_response_time (sch st)))])
           }
       }
   }"

subsection \<open>Loading\<close>

definition loaded_job :: "nat \<Rightarrow> int \<times> int \<times> int \<Rightarrow> sim_job" where
  "loaded_job i q = (case q of (a, r, p) \<Rightarrow>
     \<lparr>sj_id = int i, sj_arrival = a, run_time = r, sj_priority = p, sj_core = - 1, arrived = False\<rparr>)"

lemma load_jobs_step:
  "0 < ct \<Longrightarrow> length js \<le> ct \<Longrightarrow>
    load_jobs (line # lines) ct js =
      (case parse_line line of None \<Rightarrow> Some (Inl 2)
       | Some q \<Rightarrow> load_jobs lines (if length js = ct then 2 * ct else ct) (js @ [loaded_job (length js) q]))"
  by (auto simp: loaded_job_def Let_def split: option.splits)

lemma load_jobs_result:
  assumes "0 < ct" "length js \<le> ct"
  shows "load_jobs lines ct js =
    (if \<exists>line \<in> set lines. parse_line line = None then Some (Inl 2)
     else Some (Inr (js @ map (\<lambda>i. loaded_job (length js + i) (the (parse_line (lines ! i)))) [0..<length lines])))"
  using assms
proof (induction lines arbitrary: ct js)
  case (Cons line lines)
  show ?case
  proof (cases "parse_line line")
    case None
    then show ?thesis using Cons.prems by (simp add: load_jobs_step del: load_jobs.simps)
  next
    case (Some q)
    let ?ct = "if length js = ct then 2 * ct else ct" and ?js = "js @ [loaded_job (length js) q]"
    have "load_jobs (line # lines) ct js = load_jobs lines ?ct ?js"
      using Some Cons.prems by (simp add: load_jobs_step del: load_jobs.simps)
    also have "\<dots> = (if \<exists>line \<in> set lines. parse_line line = None then Some (Inl 2)
     else Some (Inr (?js @ map (\<lambda>i. loaded_job (length ?js + i) (the (parse_line (lines ! i)))) [0..<length lines])))"
      by (rule Cons.IH) (use Cons.prems in auto)
    finally have l: "load_jobs (line # lines) ct js = (if \<exists>line \<in> set lines. parse_line line = None then Some (Inl 2)
     else Some (Inr (?js @ map (\<lambda>i. loaded_job (length ?js + i) (the (parse_line (lines ! i)))) [0..<length lines])))" .
    have "map (\<lambda>i. loaded_job (length js + i) (the (parse_line ((line # lines) ! i)))) [0..<length (line # lines)] =
        loaded_job (length js) q # map (\<lambda>i. loaded_job (length ?js + i) (the (parse_line (lines ! i)))) [0..<length lines]"
      using Some by (simp add: upt_conv_Cons map_Suc_upt [symmetric] del: upt_Suc)
    moreover have "(\<exists>l \<in> set (line # lines). parse_line l = None) = (\<exists>l \<in> set lines. parse_line l = None)"
      using Some by auto
    ultimately show ?thesis unfolding l by (simp only: append_Cons append_assoc append_Nil)
  qed
qed simp

subsection \<open>Properties\<close>

text \<open>Loading the CSV never writes outside the array it doubles; it fails with exit code 2 when a
  line has fewer than three fields, and otherwise gives job \<open>i\<close> the numbers of line \<open>i\<close>.\<close>

lemma load_jobs_total:
  "load_jobs lines 10 [] =
    (if \<exists>line \<in> set lines. parse_line line = None then Some (Inl 2)
     else Some (Inr (map (\<lambda>i. loaded_job i (the (parse_line (lines ! i)))) [0..<length lines])))"
  using load_jobs_result [of 10 "[]" lines] by (simp only: append_Nil list.size(3) add_0)

lemma length_decimal: "n < 10 ^ k \<Longrightarrow> 0 < k \<Longrightarrow> length (decimal n) \<le> k \<and> decimal n \<noteq> []"
proof (induction k arbitrary: n)
  case (Suc k)
  show ?case
  proof (cases "n < 10")
    case True
    then show ?thesis by (simp add: decimal.simps)
  next
    case False
    then have "0 < k" using Suc.prems by (cases k) auto
    moreover have "n div 10 < 10 ^ k" using Suc.prems by (simp add: less_mult_imp_div_less mult.commute)
    ultimately show ?thesis using Suc.IH [of "n div 10"] False by (simp add: decimal.simps [of n])
  qed
qed simp

text \<open>The label of a job is not empty, so a core that runs one is told from an idle one, and
  with its NUL it fits the 11 bytes of \<open>time_string\<close>.\<close>

theorem job_label_fits:
  assumes "0 \<le> i" "i < 2 ^ 31"
  shows "job_label i \<noteq> [] \<and> length (job_label i) + 1 \<le> 11"
proof -
  have "nat i < 10 ^ 10" using assms by (simp add: nat_less_iff)
  from length_decimal [OF this] have d: "length (decimal (nat i)) \<le> 10 \<and> decimal (nat i) \<noteq> []" by simp
  show ?thesis using assms(1) d by (auto simp: job_label_def decimal_int_def)
qed

theorem job_label_fits_witness:
  "length (job_label 123456789) \<le> 10"
  using job_label_fits [of 123456789] by simp

end
