(* ===== verification/CHeap.thy ===== *)
theory CHeap
  imports Prelude
begin

text \<open>
  The C heap of the quash sources: blocks handed out by \<open>malloc\<close> and given back by \<open>free\<close>,
  with a finite number of bytes, so that \<open>malloc\<close> can fail where the code tests for it.
  \<open>heap_ok\<close> is its invariant: live blocks do not overlap and lie below \<open>brk\<close>.
\<close>

subsection \<open>The C heap\<close>

text \<open>\<open>blocks\<close> lists the live blocks with their sizes, \<open>brk\<close> is the first address never handed
  out and \<open>avail\<close> the number of bytes \<open>malloc\<close> can still serve: it returns \<open>NULL\<close> beyond.\<close>

record heap =
  blocks :: "(nat \<times> nat) list"
  brk :: nat
  avail :: nat

definition size64 :: "nat \<Rightarrow> nat" where "size64 n = n mod 2 ^ 64"

definition malloc :: "nat \<Rightarrow> heap \<Rightarrow> (nat \<times> heap) option" where
  "malloc n h = Some (if n \<le> avail h
     then (brk h, h\<lparr>blocks := (brk h, n) # blocks h, brk := brk h + max 1 n, avail := avail h - n\<rparr>)
     else (0, h))"

text \<open>Freeing \<open>NULL\<close> does nothing; freeing an address that is no live block is undefined.\<close>

definition free :: "nat \<Rightarrow> heap \<Rightarrow> heap option" where
  "free p h =
     (if p = 0 then Some h
      else case map_of (blocks h) p of
        None \<Rightarrow> None
      | Some n \<Rightarrow> Some (h\<lparr>blocks := filter (\<lambda>(q, _). q \<noteq> p) (blocks h), avail := avail h + n\<rparr>))"

subsection \<open>The invariant\<close>

definition overlap :: "nat \<times> nat \<Rightarrow> nat \<times> nat \<Rightarrow> bool" where
  "overlap a b \<longleftrightarrow> fst a < fst b + snd b \<and> fst b < fst a + snd a"

definition heap_bytes :: "heap \<Rightarrow> nat" where
  "heap_bytes h = avail h + sum_list (map snd (blocks h))"

definition heap_ok :: "heap \<Rightarrow> bool" where
  "heap_ok h \<longleftrightarrow> 0 < brk h \<and> (\<forall>(p, n) \<in> set (blocks h). 0 < p \<and> p + max 1 n \<le> brk h)
     \<and> distinct (map fst (blocks h)) \<and> pairwise (\<lambda>a b. \<not> overlap a b) (set (blocks h))
     \<and> heap_bytes h \<le> 2 ^ 62"

definition owned :: "nat \<Rightarrow> nat \<Rightarrow> heap \<Rightarrow> bool" where
  "owned p n h \<longleftrightarrow> (p, n) \<in> set (blocks h)"

lemma size64_id [simp]: "n < 2 ^ 64 \<Longrightarrow> size64 n = n"
  by (simp add: size64_def)

lemma sum_list_filter_remove:
  fixes bs :: "(nat \<times> nat) list"
  assumes "distinct (map fst bs)" and "map_of bs p = Some n"
  shows "sum_list (map snd bs) = n + sum_list (map snd (filter (\<lambda>(q, _). q \<noteq> p) bs))"
  using assms
proof (induction bs)
  case Nil
  then show ?case by simp
next
  case (Cons b bs)
  have id: "filter (\<lambda>b. fst b \<noteq> p) bs = bs" if "p \<notin> fst ` set bs"
    using that by (induction bs) auto
  show ?case
  proof (cases "fst b = p")
    case True
    with Cons.prems have "p \<notin> fst ` set bs" and "snd b = n" by (auto split: if_splits)
    with True show ?thesis by (simp add: id split_def)
  next
    case False
    with Cons show ?thesis by (cases b) (auto simp: split_def split: if_splits)
  qed
qed

lemma malloc_owned:
  assumes ok: "heap_ok h" and m: "malloc n h = Some (p, h')" and p: "p \<noteq> 0"
  shows "heap_ok h' \<and> owned p n h' \<and> p = brk h \<and> n \<le> avail h \<and> avail h' = avail h - n
    \<and> heap_bytes h' = heap_bytes h \<and> blocks h' = (p, n) # blocks h"
proof -
  from m p have le: "n \<le> avail h" by (auto simp: malloc_def split: if_splits)
  with m have h': "p = brk h"
    "h' = h\<lparr>blocks := (brk h, n) # blocks h, brk := brk h + max 1 n, avail := avail h - n\<rparr>"
    by (auto simp: malloc_def)
  have below: "q + k \<le> brk h \<and> q < brk h" if "(q, k) \<in> set (blocks h)" for q k
    using ok that by (auto simp: heap_ok_def)
  have "heap_bytes h' = heap_bytes h" using le by (simp add: h' heap_bytes_def)
  moreover have "heap_ok h'"
    unfolding heap_ok_def
  proof (intro conjI)
    show "0 < brk h'" and "\<forall>(p, n) \<in> set (blocks h'). 0 < p \<and> p + max 1 n \<le> brk h'"
      using ok below by (auto simp: heap_ok_def h')
    show "distinct (map fst (blocks h'))"
      using ok below by (auto simp: heap_ok_def h')
    show "pairwise (\<lambda>a b. \<not> overlap a b) (set (blocks h'))"
      using ok below by (force simp: heap_ok_def h' pairwise_insert overlap_def)
    show "heap_bytes h' \<le> 2 ^ 62"
      using ok calculation by (simp add: heap_ok_def)
  qed
  ultimately show ?thesis using le by (simp add: h' owned_def)
qed

lemma malloc_room: "0 < brk h \<Longrightarrow> n \<le> avail h \<Longrightarrow> \<exists>h'. malloc n h = Some (brk h, h') \<and> brk h \<noteq> 0"
  by (simp add: malloc_def)

lemma owned_map_of: "heap_ok h \<Longrightarrow> owned p n h \<longleftrightarrow> map_of (blocks h) p = Some n"
  by (auto simp: heap_ok_def owned_def dest: map_of_SomeD)

lemma free_owned:
  assumes ok: "heap_ok h" and own: "owned p n h"
  shows "\<exists>h'. free p h = Some h' \<and> heap_ok h' \<and> avail h' = avail h + n \<and> heap_bytes h' = heap_bytes h
    \<and> blocks h' = filter (\<lambda>(q, _). q \<noteq> p) (blocks h)
    \<and> (\<forall>q m. owned q m h' \<longleftrightarrow> owned q m h \<and> q \<noteq> p)"
proof -
  let ?h = "h\<lparr>blocks := filter (\<lambda>(q, _). q \<noteq> p) (blocks h), avail := avail h + n\<rparr>"
  from ok own have mo: "map_of (blocks h) p = Some n" by (simp add: owned_map_of)
  from ok own have p: "p \<noteq> 0" by (auto simp: heap_ok_def owned_def)
  have d: "distinct (map fst (blocks h))" using ok by (simp add: heap_ok_def)
  have hb: "heap_bytes ?h = heap_bytes h"
    using sum_list_filter_remove [OF d mo] by (simp add: heap_bytes_def)
  have dist: "distinct (map fst (filter P (blocks h)))" for P
    using d by (induction "blocks h" arbitrary: h) (auto simp: distinct_map_filter)
  have "heap_ok ?h"
    using ok hb dist unfolding heap_ok_def by (auto intro: pairwise_subset)
  with mo p hb show ?thesis by (auto simp: free_def owned_def)
qed

lemma owned_bound: "heap_ok h \<Longrightarrow> owned p n h \<Longrightarrow> n \<le> 2 ^ 62 \<and> p \<noteq> 0"
proof -
  assume ok: "heap_ok h" and own: "owned p n h"
  from own have "n \<le> sum_list (map snd (blocks h))"
    by (intro member_le_sum_list) (auto simp: owned_def image_iff intro: bexI [of _ "(p, n)"])
  then show ?thesis using ok own by (auto simp: heap_ok_def heap_bytes_def owned_def)
qed

end
