(* ===== verification/Deque.thy ===== *)
theory Deque
  imports CHeap
begin

text \<open>
  The double ended queue of quash, \<open>src/project1/quash/src/deque.h\<close>: the functions the macro
  \<open>IMPLEMENT_DEQUE\<close> generates, for an arbitrary element type of \<open>sz\<close> bytes and an arbitrary
  allocator. \<open>IMPLEMENT_DEQUE\<close> itself is the instance with \<open>malloc\<close> and \<open>free\<close>;
  \<open>IMPLEMENT_DEQUE_MEMORY_POOL\<close> generates the same functions over \<open>memory_pool_alloc\<close>, without
  \<open>free\<close> (theory \<open>MemoryPool\<close>).

  A deque is a ring buffer: \<open>data\<close> is the address of the array (0 is \<open>NULL\<close>) and \<open>cells\<close> the
  array, which the deque owns; a cell that was never written is \<open>None\<close>; \<open>rear\<close> is the field
  \<open>back\<close> (a keyword of Isar). \<open>None\<close> as the result of
  an operation means that the process stops in it: a failed assertion, \<open>abort\<close>, \<open>exit\<close>, or
  behaviour the C standard leaves undefined (an access outside the array, a read of a cell
  that was never written). \<open>size_t\<close> is 64 bits wide; \<open>size64\<close> is what its arithmetic leaves.
\<close>

subsection \<open>The structure\<close>

record ('a, 's) deque =
  data :: nat
  cells :: "'a option list"
  cap :: nat
  front :: nat
  rear :: nat
  destructor :: "('a \<Rightarrow> 's \<Rightarrow> 's option) option"

definition read_cell :: "'a option list \<Rightarrow> nat \<Rightarrow> 'a option" where
  "read_cell cs i = (if i < length cs then cs ! i else None)"

definition write_cell :: "'a option list \<Rightarrow> nat \<Rightarrow> 'a \<Rightarrow> 'a option list option" where
  "write_cell cs i x = (if i < length cs then Some (cs[i := Some x]) else None)"

type_synonym 's alloc = "nat \<Rightarrow> 's \<Rightarrow> (nat \<times> 's) option"
type_synonym 's release = "nat \<Rightarrow> 's \<Rightarrow> 's option"

subsection \<open>The operations\<close>

definition new_deque :: "'s alloc \<Rightarrow> nat \<Rightarrow> nat \<Rightarrow> 's \<Rightarrow> (('a, 's) deque \<times> 's) option" where
  "new_deque alloc sz init_cap s =
     do { (p, s) \<leftarrow> alloc (size64 (init_cap * sz)) s;
          if p = 0 then None
          else Some (\<lparr>data = p, cells = replicate init_cap None,
                      cap = (if init_cap > 0 then init_cap else 1),
                      front = 0, rear = 0, destructor = None\<rparr>, s) }"

definition new_destructable_deque ::
    "'s alloc \<Rightarrow> nat \<Rightarrow> nat \<Rightarrow> ('a \<Rightarrow> 's \<Rightarrow> 's option) \<Rightarrow> 's \<Rightarrow> (('a, 's) deque \<times> 's) option" where
  "new_destructable_deque alloc sz init_cap f s =
     do { (d, s) \<leftarrow> new_deque alloc sz init_cap s; Some (d\<lparr>destructor := Some f\<rparr>, s) }"

definition empty_deque :: "('a, 's) deque \<Rightarrow> ('a, 's) deque option" where
  "empty_deque d = (if data d = 0 then None else Some (d\<lparr>rear := 0, front := 0\<rparr>))"

definition is_empty_deque :: "('a, 's) deque \<Rightarrow> bool option" where
  "is_empty_deque d = (if data d = 0 then None else Some (front d = rear d))"

text \<open>\<open>(back - front + cap) % cap\<close> in \<open>size_t\<close>; \<open>% 0\<close> is undefined.\<close>

definition length_deque :: "('a, 's) deque \<Rightarrow> nat option" where
  "length_deque d =
     (if data d = 0 \<or> cap d = 0 then None
      else Some (size64 (size64 (rear d + (2 ^ 64 - front d)) + cap d) mod cap d))"

text \<open>The copying loop both reallocations share: \<open>n\<close> cells from \<open>i\<close> on.\<close>

fun copy_cells ::
    "'a option list \<Rightarrow> nat \<Rightarrow> nat \<Rightarrow> nat \<Rightarrow> nat \<Rightarrow> 'a option list \<Rightarrow> 'a option list option" where
  "copy_cells old frnt old_cap i 0 new = Some new"
| "copy_cells old frnt old_cap i (Suc n) new =
     do { x \<leftarrow> read_cell old ((frnt + i) mod old_cap);
          new \<leftarrow> write_cell new i x;
          copy_cells old frnt old_cap (Suc i) n new }"

definition reallign_deque ::
    "'s alloc \<Rightarrow> 's release \<Rightarrow> nat \<Rightarrow> ('a, 's) deque \<Rightarrow> 's \<Rightarrow> (('a, 's) deque \<times> 's) option" where
  "reallign_deque alloc release sz d s =
     (if data d = 0 then None
      else if front d \<noteq> 0 then
        do { len \<leftarrow> length_deque d;
             (p, s) \<leftarrow> alloc (size64 (cap d * sz)) s;
             if p = 0 then None
             else do { new \<leftarrow> copy_cells (cells d) (front d) (cap d) 0 len (replicate (cap d) None);
                       s \<leftarrow> release (data d) s;
                       Some (d\<lparr>data := p, cells := new, front := 0, rear := len\<rparr>, s) } }
      else Some (d, s))"

text \<open>The array, its address and its length; the deque is left without data.\<close>

definition as_array_deque ::
    "'s alloc \<Rightarrow> 's release \<Rightarrow> nat \<Rightarrow> ('a, 's) deque \<Rightarrow> 's
      \<Rightarrow> ((nat \<times> 'a option list \<times> nat) \<times> ('a, 's) deque \<times> 's) option" where
  "as_array_deque alloc release sz d s =
     do { (d, s) \<leftarrow> reallign_deque alloc release sz d s;
          len \<leftarrow> length_deque d;
          Some ((data d, cells d, len),
                d\<lparr>data := 0, cells := [], rear := 0, front := 0, cap := 0\<rparr>, s) }"

fun apply_cells ::
    "('a \<Rightarrow> 's \<Rightarrow> 's option) \<Rightarrow> ('a, 's) deque \<Rightarrow> nat \<Rightarrow> nat \<Rightarrow> 's \<Rightarrow> 's option" where
  "apply_cells f d i 0 s = Some s"
| "apply_cells f d i (Suc n) s =
     do { x \<leftarrow> read_cell (cells d) ((front d + i) mod cap d);
          s \<leftarrow> f x s;
          apply_cells f d (Suc i) n s }"

definition apply_deque ::
    "('a, 's) deque \<Rightarrow> ('a \<Rightarrow> 's \<Rightarrow> 's option) \<Rightarrow> 's \<Rightarrow> 's option" where
  "apply_deque d f s = do { len \<leftarrow> length_deque d; apply_cells f d 0 len s }"

definition destroy_deque ::
    "'s release \<Rightarrow> ('a, 's) deque \<Rightarrow> 's \<Rightarrow> (('a, 's) deque \<times> 's) option" where
  "destroy_deque release d s =
     (if data d = 0 then Some (d, s)
      else do { s \<leftarrow> (case destructor d of None \<Rightarrow> Some s | Some f \<Rightarrow> apply_deque d f s);
                s \<leftarrow> release (data d) s;
                Some (d\<lparr>data := 0, cells := [], rear := 0, front := 0, cap := 0\<rparr>, s) })"

definition on_push ::
    "'s alloc \<Rightarrow> 's release \<Rightarrow> nat \<Rightarrow> ('a, 's) deque \<Rightarrow> 's \<Rightarrow> (('a, 's) deque \<times> 's) option" where
  "on_push alloc release sz d s =
     (if cap d = 0 then None
      else if front d = size64 (rear d + 1) mod cap d then
        let old_cap = cap d; new_cap = size64 (2 * cap d) in
        do { (p, s) \<leftarrow> alloc (size64 (new_cap * sz)) s;
             if p = 0 then None
             else do { new \<leftarrow> copy_cells (cells d) (front d) old_cap 0 (old_cap - 1) (replicate new_cap None);
                       s \<leftarrow> release (data d) s;
                       Some (d\<lparr>data := p, cells := new, cap := new_cap, front := 0, rear := old_cap - 1\<rparr>, s) } }
      else Some (d, s))"

definition on_pop :: "('a, 's) deque \<Rightarrow> unit option" where
  "on_pop d = do { e \<leftarrow> is_empty_deque d; if e then None else Some () }"

definition push_front ::
    "'s alloc \<Rightarrow> 's release \<Rightarrow> nat \<Rightarrow> 'a \<Rightarrow> ('a, 's) deque \<Rightarrow> 's \<Rightarrow> (('a, 's) deque \<times> 's) option" where
  "push_front alloc release sz x d s =
     (if data d = 0 then None
      else do { (d, s) \<leftarrow> on_push alloc release sz d s;
                let f = size64 (front d + cap d - 1) mod cap d;
                cs \<leftarrow> write_cell (cells d) f x;
                Some (d\<lparr>front := f, cells := cs\<rparr>, s) })"

definition push_back ::
    "'s alloc \<Rightarrow> 's release \<Rightarrow> nat \<Rightarrow> 'a \<Rightarrow> ('a, 's) deque \<Rightarrow> 's \<Rightarrow> (('a, 's) deque \<times> 's) option" where
  "push_back alloc release sz x d s =
     (if data d = 0 then None
      else do { (d, s) \<leftarrow> on_push alloc release sz d s;
                cs \<leftarrow> write_cell (cells d) (rear d) x;
                Some (d\<lparr>cells := cs, rear := size64 (rear d + 1) mod cap d\<rparr>, s) })"

definition pop_front :: "('a, 's) deque \<Rightarrow> ('a \<times> ('a, 's) deque) option" where
  "pop_front d =
     do { _ \<leftarrow> on_pop d;
          let old_front = front d;
          x \<leftarrow> read_cell (cells d) old_front;
          Some (x, d\<lparr>front := size64 (front d + 1) mod cap d\<rparr>) }"

definition pop_back :: "('a, 's) deque \<Rightarrow> ('a \<times> ('a, 's) deque) option" where
  "pop_back d =
     do { _ \<leftarrow> on_pop d;
          let b = size64 (rear d + cap d - 1) mod cap d;
          x \<leftarrow> read_cell (cells d) b;
          Some (x, d\<lparr>rear := b\<rparr>) }"

definition peek_front :: "('a, 's) deque \<Rightarrow> 'a option" where
  "peek_front d =
     do { e \<leftarrow> is_empty_deque d; if e then None else read_cell (cells d) (front d) }"

definition peek_back :: "('a, 's) deque \<Rightarrow> 'a option" where
  "peek_back d =
     do { e \<leftarrow> is_empty_deque d;
          if e then None else read_cell (cells d) (size64 (rear d + cap d - 1) mod cap d) }"

definition update_front :: "'a \<Rightarrow> ('a, 's) deque \<Rightarrow> ('a, 's) deque option" where
  "update_front x d =
     do { e \<leftarrow> is_empty_deque d;
          if e then None
          else do { cs \<leftarrow> write_cell (cells d) (front d) x; Some (d\<lparr>cells := cs\<rparr>) } }"

definition update_back :: "'a \<Rightarrow> ('a, 's) deque \<Rightarrow> ('a, 's) deque option" where
  "update_back x d =
     do { e \<leftarrow> is_empty_deque d;
          if e then None
          else do { cs \<leftarrow> write_cell (cells d) (size64 (rear d + cap d - 1) mod cap d) x;
                    Some (d\<lparr>cells := cs\<rparr>) } }"


subsection \<open>Positions in the ring\<close>

lemma le_factor:
  fixes n k b :: nat
  assumes "n * k \<le> b" and "0 < k"
  shows "n \<le> b"
  using assms mult_le_mono2 [of 1 k n] by linarith

text \<open>Every index the code computes, without the remainder.\<close>

named_theorems ring_simps \<open>ring indices as conditionals\<close>

lemma ring_len [ring_simps]:
  fixes c f r :: nat
  assumes "f < c" and "r < c"
  shows "(r + c - f) mod c = (if f \<le> r then r - f else r + c - f)"
proof (cases "f \<le> r")
  case True
  then have "r + c - f = (r - f) + c" by simp
  then have "(r + c - f) mod c = (r - f) mod c" by (simp only: mod_add_self2)
  with True assms show ?thesis by simp
next
  case False
  with assms show ?thesis by simp
qed

lemma ring_add [ring_simps]:
  fixes c f i :: nat
  assumes "f < c" and "i < c"
  shows "(f + i) mod c = (if f + i < c then f + i else f + i - c)"
  using assms by (simp add: mod_if)

lemma ring_next [ring_simps]:
  fixes c f :: nat
  assumes "f < c"
  shows "Suc f mod c = (if Suc f = c then 0 else Suc f)"
  using assms by (simp add: mod_Suc)

lemma ring_prev [ring_simps]:
  fixes c f :: nat
  assumes "f < c"
  shows "(f + c - Suc 0) mod c = (if f = 0 then c - 1 else f - 1)"
  using ring_len [of 1 c f] assms by (cases "c = 1") auto

lemma ring_end:
  fixes c f r :: nat
  assumes "f < c" and "r < c"
  shows "(f + (r + c - f) mod c) mod c = r"
  using assms by (simp add: ring_len)

lemma ring_inj:
  fixes c f i j :: nat
  assumes "f < c" and "i < c" and "j < c"
  shows "(f + i) mod c = (f + j) mod c \<longleftrightarrow> i = j"
  using assms by (auto simp: ring_add split: if_splits)

lemma ring_full:
  fixes c f r :: nat
  assumes "f < c" and "r < c"
  shows "f = Suc r mod c \<longleftrightarrow> (r + c - f) mod c = c - 1"
  using assms by (auto simp: ring_len ring_next)

lemma ring_empty:
  fixes c f r :: nat
  assumes "f < c" and "r < c"
  shows "f = r \<longleftrightarrow> (r + c - f) mod c = 0"
  using assms by (auto simp: ring_len)

lemma ring_push:
  fixes c f r :: nat
  assumes "f < c" and "r < c" and "f \<noteq> Suc r mod c"
  shows "(r + c - (f + c - Suc 0) mod c) mod c = Suc ((r + c - f) mod c)"
    and "(Suc r mod c + c - f) mod c = Suc ((r + c - f) mod c)"
proof -
  have "(f + c - Suc 0) mod c < c" and "Suc r mod c < c" using assms by auto
  then show "(r + c - (f + c - Suc 0) mod c) mod c = Suc ((r + c - f) mod c)"
    and "(Suc r mod c + c - f) mod c = Suc ((r + c - f) mod c)"
    using assms by (simp_all only: ring_len) (auto simp: ring_prev ring_next split: if_splits)
qed

lemma ring_prev_Suc:
  fixes c f i :: nat
  assumes "f < c" and "Suc i < c"
  shows "((f + c - Suc 0) mod c + Suc i) mod c = (f + i) mod c"
  using assms by (auto simp: ring_prev ring_add)

lemma ring_pop:
  fixes c f r :: nat
  assumes "f < c" and "r < c" and "f \<noteq> r"
  shows "(r + c - Suc f mod c) mod c = (r + c - f) mod c - 1"
    and "((r + c - Suc 0) mod c + c - f) mod c = (r + c - f) mod c - 1"
    and "(f + ((r + c - f) mod c - 1)) mod c = (r + c - Suc 0) mod c"
proof -
  have "(r + c - Suc 0) mod c < c" and "Suc f mod c < c" and "(r + c - f) mod c - 1 < c"
    using assms by (auto simp: ring_len)
  then show "(r + c - Suc f mod c) mod c = (r + c - f) mod c - 1"
    and "((r + c - Suc 0) mod c + c - f) mod c = (r + c - f) mod c - 1"
    and "(f + ((r + c - f) mod c - 1)) mod c = (r + c - Suc 0) mod c"
    using assms by (simp_all only: ring_len ring_add)
      (auto simp: ring_prev ring_next split: if_splits)
qed

lemma ring_next_Suc:
  fixes c f i :: nat
  assumes "f < c" and "Suc i < c"
  shows "(Suc f mod c + i) mod c = (f + Suc i) mod c"
  by (simp add: mod_add_left_eq)

subsection \<open>The invariant and the list a deque stands for\<close>

definition deq_len :: "('a, 's) deque \<Rightarrow> nat" where
  "deq_len d = (rear d + cap d - front d) mod cap d"

definition deq_cell :: "('a, 's) deque \<Rightarrow> nat \<Rightarrow> 'a option" where
  "deq_cell d i = cells d ! ((front d + i) mod cap d)"

definition deq_list :: "('a, 's) deque \<Rightarrow> 'a list" where
  "deq_list d = map (\<lambda>i. the (deq_cell d i)) [0..<deq_len d]"

definition deque_ok :: "('a, 's) deque \<Rightarrow> bool" where
  "deque_ok d \<longleftrightarrow> data d \<noteq> 0 \<and> 0 < cap d \<and> cap d \<le> 2 ^ 62 \<and> front d < cap d \<and> rear d < cap d
     \<and> (length (cells d) = cap d \<or> cap d = 1 \<and> cells d = [])
     \<and> (\<forall>i < deq_len d. deq_cell d i \<noteq> None)"

lemma deque_ok_simps:
  assumes "deque_ok d"
  shows "data d \<noteq> 0" and "0 < cap d" and "cap d \<noteq> 0" and "front d < cap d" and "rear d < cap d"
    and "size64 (cap d) = cap d" and "size64 (Suc (rear d)) = Suc (rear d)"
    and "size64 (Suc (front d)) = Suc (front d)"
    and "size64 (rear d + cap d - Suc 0) = rear d + cap d - Suc 0"
    and "size64 (front d + cap d - Suc 0) = front d + cap d - Suc 0"
    and "size64 (2 * cap d) = 2 * cap d"
  using assms by (auto simp: deque_ok_def)

lemma length_deque_ok: "deque_ok d \<Longrightarrow> length_deque d = Some (deq_len d)"
proof -
  assume ok: "deque_ok d"
  then have b: "front d < cap d" "rear d < cap d" "cap d \<le> 2 ^ 62" "data d \<noteq> 0" "cap d \<noteq> 0"
    by (auto simp: deque_ok_def)
  have "size64 (size64 (rear d + (2 ^ 64 - front d)) + cap d) mod cap d = deq_len d"
  proof (cases "front d \<le> rear d")
    case True
    then have "rear d + (2 ^ 64 - front d) = (rear d - front d) + 2 ^ 64" using b by simp
    then have "size64 (rear d + (2 ^ 64 - front d)) = rear d - front d"
      using b by (simp only: size64_def mod_add_self2) simp
    with True b show ?thesis by (simp add: deq_len_def)
  next
    case False
    then have w: "size64 (rear d + (2 ^ 64 - front d)) = rear d + (2 ^ 64 - front d)"
      using b by (intro size64_id) simp
    from False b have "rear d + (2 ^ 64 - front d) + cap d = (rear d + cap d - front d) + 2 ^ 64"
      by simp
    then have "size64 (rear d + (2 ^ 64 - front d) + cap d) = rear d + cap d - front d"
      using b False by (simp only: size64_def mod_add_self2) simp
    with w show ?thesis by (simp add: deq_len_def)
  qed
  with b show ?thesis by (simp add: length_deque_def)
qed

lemma deq_list_length [simp]: "length (deq_list d) = deq_len d"
  by (simp add: deq_list_def)

lemma deq_list_nth: "i < deq_len d \<Longrightarrow> deq_list d ! i = the (deq_cell d i)"
  by (simp add: deq_list_def)

lemma deq_len_less: "deque_ok d \<Longrightarrow> deq_len d < cap d"
  by (simp add: deq_len_def deque_ok_def)

lemma is_empty_deque_ok: "deque_ok d \<Longrightarrow> is_empty_deque d = Some (deq_list d = [])"
  using ring_empty [of "front d" "cap d" "rear d"]
  by (auto simp: is_empty_deque_def deque_ok_def deq_list_def deq_len_def)

lemma deq_list_emptyI: "deque_ok d \<Longrightarrow> front d = rear d \<longleftrightarrow> deq_list d = []"
  using is_empty_deque_ok [of d] by (simp add: is_empty_deque_def deque_ok_simps)

lemma copy_cells_ok:
  assumes "\<And>j. j < n \<Longrightarrow> (f + (i + j)) mod c < length old \<and> old ! ((f + (i + j)) mod c) \<noteq> None"
    and "i + n \<le> length new"
  shows "copy_cells old f c i n new =
    Some (take i new @ map (\<lambda>j. old ! ((f + j) mod c)) [i..<i + n] @ drop (i + n) new)"
  using assms
proof (induction n arbitrary: i new)
  case 0
  then show ?case by simp
next
  case (Suc n)
  from Suc.prems(1) [of 0] obtain x where x: "read_cell old ((f + i) mod c) = Some x"
    and oi: "old ! ((f + i) mod c) = Some x" by (auto simp: read_cell_def)
  let ?new = "new[i := Some x]"
  have w: "write_cell new i x = Some ?new" using Suc.prems(2) by (simp add: write_cell_def)
  have "copy_cells old f c (Suc i) n ?new = Some (take (Suc i) ?new
      @ map (\<lambda>j. old ! ((f + j) mod c)) [Suc i..<Suc i + n] @ drop (Suc i + n) ?new)"
  proof (rule Suc.IH)
    show "(f + (Suc i + j)) mod c < length old \<and> old ! ((f + (Suc i + j)) mod c) \<noteq> None"
      if "j < n" for j using Suc.prems(1) [of "Suc j"] that by simp
    show "Suc i + n \<le> length ?new" using Suc.prems(2) by simp
  qed
  moreover have "take (Suc i) ?new = take i new @ [Some x]"
    using Suc.prems(2) by (simp add: take_Suc_conv_app_nth)
  moreover have "[i..<i + Suc n] = i # [Suc i..<Suc i + n]" by (simp add: upt_rec)
  ultimately show ?case using x w oi by simp
qed

lemma deq_cell_bound:
  assumes "deque_ok d" and "i < deq_len d"
  shows "(front d + i) mod cap d < length (cells d)"
proof (cases "length (cells d) = cap d")
  case True
  with assms show ?thesis by (simp add: deque_ok_def)
next
  case False
  with assms(1) have "cap d = 1" by (auto simp: deque_ok_def)
  with assms deq_len_less [OF assms(1)] show ?thesis by simp
qed

lemma copy_cells_defined:
  assumes ok: "deque_ok d" and c: "deq_len d \<le> c"
  shows "copy_cells (cells d) (front d) (cap d) 0 (deq_len d) (replicate c None) =
    Some (map (deq_cell d) [0..<deq_len d] @ replicate (c - deq_len d) None)"
proof -
  have "copy_cells (cells d) (front d) (cap d) 0 (deq_len d) (replicate c None) =
      Some (take 0 (replicate c None) @ map (\<lambda>j. cells d ! ((front d + j) mod cap d)) [0..<0 + deq_len d]
        @ drop (0 + deq_len d) (replicate c None))"
  proof (rule copy_cells_ok)
    show "(front d + (0 + j)) mod cap d < length (cells d) \<and> cells d ! ((front d + (0 + j)) mod cap d) \<noteq> None"
      if "j < deq_len d" for j
      using deq_cell_bound [OF ok that] ok that by (simp add: deque_ok_def deq_cell_def)
  qed (use c in simp)
  then show ?thesis by (simp add: deq_cell_def [abs_def])
qed

text \<open>A deque moved to a fresh array with its first element at index 0.\<close>

definition moved :: "nat \<Rightarrow> nat \<Rightarrow> ('a, 's) deque \<Rightarrow> ('a, 's) deque" where
  "moved p c d = d\<lparr>data := p, cells := map (deq_cell d) [0..<deq_len d] @ replicate (c - deq_len d) None,
     cap := c, front := 0, rear := deq_len d\<rparr>"

lemma moved_simps [simp]:
  "data (moved p c d) = p" "cap (moved p c d) = c" "front (moved p c d) = 0"
  "rear (moved p c d) = deq_len d" "destructor (moved p c d) = destructor d"
  "deq_len d \<le> c \<Longrightarrow> length (cells (moved p c d)) = c"
  by (simp_all add: moved_def)

lemma moved_ok:
  assumes ok: "deque_ok d" and p: "p \<noteq> 0" and c: "deq_len d < c" "c \<le> 2 ^ 62"
  shows "deque_ok (moved p c d)" and "deq_list (moved p c d) = deq_list d"
proof -
  have len: "deq_len (moved p c d) = deq_len d" using c by (simp add: deq_len_def [of "moved p c d"])
  have cell: "deq_cell (moved p c d) i = deq_cell d i" if "i < deq_len d" for i
    using that c by (simp add: deq_cell_def [of "moved p c d"]) (simp add: moved_def nth_append)
  show "deq_list (moved p c d) = deq_list d"
    by (simp add: deq_list_def len cell)
  show "deque_ok (moved p c d)"
    using ok p c by (simp add: deque_ok_def len cell)
qed

text \<open>The common effect of the two pushes on a deque that is not full.\<close>

lemma push_back_cells:
  fixes d :: "('a, 's) deque" and x :: 'a
  assumes ok: "deque_ok d" and nf: "front d \<noteq> Suc (rear d) mod cap d" and l: "length (cells d) = cap d"
  defines "d' \<equiv> d\<lparr>cells := (cells d)[rear d := Some x], rear := Suc (rear d) mod cap d\<rparr>"
  shows "deque_ok d'" and "deq_list d' = deq_list d @ [x]"
proof -
  have b: "front d < cap d" "rear d < cap d" using ok by (auto simp: deque_ok_def)
  have len: "deq_len d' = Suc (deq_len d)"
    using ring_push(2) [OF b nf] by (simp add: deq_len_def d'_def)
  have r: "(front d + deq_len d) mod cap d = rear d"
    using ring_end [OF b] by (simp add: deq_len_def)
  have lt: "deq_len d < cap d" by (rule deq_len_less [OF ok])
  have cell: "deq_cell d' i = (if i = deq_len d then Some x else deq_cell d i)" if "i \<le> deq_len d" for i
    using ring_inj [OF b(1), of i "deq_len d"] that lt l r b
    by (auto simp: deq_cell_def d'_def nth_list_update)
  show "deq_list d' = deq_list d @ [x]"
    using cell by (simp add: deq_list_def len)
  show "deque_ok d'"
    using ok l cell unfolding deque_ok_def len
    by (auto simp: d'_def less_Suc_eq_le)
qed

lemma push_front_cells:
  fixes d :: "('a, 's) deque" and x :: 'a
  assumes ok: "deque_ok d" and nf: "front d \<noteq> Suc (rear d) mod cap d" and l: "length (cells d) = cap d"
  defines "d' \<equiv> d\<lparr>front := (front d + cap d - Suc 0) mod cap d,
    cells := (cells d)[(front d + cap d - Suc 0) mod cap d := Some x]\<rparr>"
  shows "deque_ok d'" and "deq_list d' = x # deq_list d"
proof -
  let ?f = "(front d + cap d - Suc 0) mod cap d"
  have b: "front d < cap d" "rear d < cap d" using ok by (auto simp: deque_ok_def)
  have f: "?f < cap d" using b by simp
  have len: "deq_len d' = Suc (deq_len d)"
    using ring_push(1) [OF b nf] by (simp add: deq_len_def d'_def)
  have "deq_len d \<noteq> cap d - 1" using ring_full [OF b] nf by (simp add: deq_len_def)
  with deq_len_less [OF ok] have lt: "Suc (deq_len d) < cap d" by simp
  have z: "deq_cell d' 0 = Some x" using f l by (simp add: deq_cell_def d'_def)
  have cell: "deq_cell d' (Suc i) = deq_cell d i" if "i < deq_len d" for i
  proof -
    have "(?f + Suc i) mod cap d \<noteq> ?f"
      using ring_inj [OF f, of "Suc i" 0] that lt f by simp
    then show ?thesis
      using ring_prev_Suc [OF b(1), of i] that lt by (simp add: deq_cell_def d'_def)
  qed
  show "deq_list d' = x # deq_list d"
    using z cell by (simp add: deq_list_def len upt_conv_Cons map_Suc_upt [symmetric] del: upt_Suc)
  show "deque_ok d'"
    using ok l cell z f unfolding deque_ok_def len
    by (auto simp: d'_def less_Suc_eq_0_disj)
qed

lemma pop_front_ok:
  assumes ok: "deque_ok d"
  shows "pop_front d = (case deq_list d of [] \<Rightarrow> None
    | x # xs \<Rightarrow> Some (x, d\<lparr>front := Suc (front d) mod cap d\<rparr>))"
    and "deq_list d \<noteq> [] \<Longrightarrow> deque_ok (d\<lparr>front := Suc (front d) mod cap d\<rparr>)"
    and "deq_list d \<noteq> [] \<Longrightarrow> deq_list (d\<lparr>front := Suc (front d) mod cap d\<rparr>) = tl (deq_list d)"
proof -
  let ?d = "d\<lparr>front := Suc (front d) mod cap d\<rparr>"
  have b: "front d < cap d" "rear d < cap d" using ok by (auto simp: deque_ok_def)
  show "pop_front d = (case deq_list d of [] \<Rightarrow> None | x # xs \<Rightarrow> Some (x, ?d))"
  proof (cases "deq_list d")
    case Nil
    then show ?thesis using is_empty_deque_ok [OF ok] by (simp add: pop_front_def on_pop_def)
  next
    case (Cons x xs)
    then have pos: "0 < deq_len d" using deq_list_length [of d] by simp
    have "deq_cell d 0 = Some x"
      using deq_list_nth [OF pos] Cons pos ok by (auto simp: deque_ok_def)
    moreover have "front d < length (cells d)"
      using deq_cell_bound [OF ok pos] b by simp
    ultimately have "read_cell (cells d) (front d) = Some x"
      using b by (simp add: read_cell_def deq_cell_def)
    then show ?thesis
      using is_empty_deque_ok [OF ok] Cons by (simp add: pop_front_def on_pop_def deque_ok_simps [OF ok])
  qed
  assume ne: "deq_list d \<noteq> []"
  then have fr: "front d \<noteq> rear d" using deq_list_emptyI [OF ok] by simp
  have len: "deq_len ?d = deq_len d - 1" using ring_pop(1) [OF b fr] by (simp add: deq_len_def)
  have pos: "0 < deq_len d" using ne deq_list_length [of d] by (cases "deq_list d") auto
  have cell: "deq_cell ?d i = deq_cell d (Suc i)" if "i < deq_len d - 1" for i
    using ring_next_Suc [OF b(1), of i] that deq_len_less [OF ok] by (simp add: deq_cell_def)
  show "deq_list ?d = tl (deq_list d)"
    by (rule nth_equalityI) (simp_all add: len nth_tl deq_list_nth cell)
  show "deque_ok ?d"
    using ok cell len unfolding deque_ok_def by auto
qed

lemma pop_back_ok:
  assumes ok: "deque_ok d"
  shows "pop_back d = (if deq_list d = [] then None
      else Some (last (deq_list d), d\<lparr>rear := (rear d + cap d - Suc 0) mod cap d\<rparr>))"
    and "deq_list d \<noteq> [] \<Longrightarrow> deque_ok (d\<lparr>rear := (rear d + cap d - Suc 0) mod cap d\<rparr>)"
    and "deq_list d \<noteq> [] \<Longrightarrow> deq_list (d\<lparr>rear := (rear d + cap d - Suc 0) mod cap d\<rparr>) = butlast (deq_list d)"
    and "peek_back d = (if deq_list d = [] then None else Some (last (deq_list d)))"
proof -
  let ?r = "(rear d + cap d - Suc 0) mod cap d"
  let ?d = "d\<lparr>rear := ?r\<rparr>"
  have b: "front d < cap d" "rear d < cap d" using ok by (auto simp: deque_ok_def)
  have read: "read_cell (cells d) ?r = Some (last (deq_list d))" if ne: "deq_list d \<noteq> []"
  proof -
    from ne have fr: "front d \<noteq> rear d" using deq_list_emptyI [OF ok] by simp
    from ne have pos: "deq_len d - 1 < deq_len d" using deq_list_length [of d] by (cases "deq_list d") auto
    have "?r = (front d + (deq_len d - 1)) mod cap d"
      using ring_pop(3) [OF b fr] by (simp add: deq_len_def)
    moreover have "deq_cell d (deq_len d - 1) = Some (last (deq_list d))"
      using deq_list_nth [OF pos] ne pos ok by (auto simp: deque_ok_def last_conv_nth)
    ultimately show ?thesis
      using deq_cell_bound [OF ok pos] by (simp add: read_cell_def deq_cell_def)
  qed
  show "pop_back d = (if deq_list d = [] then None else Some (last (deq_list d), ?d))"
    using is_empty_deque_ok [OF ok] read by (simp add: pop_back_def on_pop_def deque_ok_simps [OF ok])
  show "peek_back d = (if deq_list d = [] then None else Some (last (deq_list d)))"
    using is_empty_deque_ok [OF ok] read by (simp add: peek_back_def deque_ok_simps [OF ok])
  assume ne: "deq_list d \<noteq> []"
  then have fr: "front d \<noteq> rear d" using deq_list_emptyI [OF ok] by simp
  have len: "deq_len ?d = deq_len d - 1" using ring_pop(2) [OF b fr] by (simp add: deq_len_def)
  have cell: "deq_cell ?d i = deq_cell d i" for i by (simp add: deq_cell_def)
  show "deq_list ?d = butlast (deq_list d)"
    by (rule nth_equalityI) (simp_all add: len nth_butlast deq_list_nth cell)
  show "deque_ok ?d"
    using ok cell len b unfolding deque_ok_def by auto
qed

lemma peek_front_ok:
  assumes ok: "deque_ok d"
  shows "peek_front d = (case deq_list d of [] \<Rightarrow> None | x # xs \<Rightarrow> Some x)"
  using pop_front_ok(1) [OF ok] is_empty_deque_ok [OF ok]
  by (auto simp: pop_front_def on_pop_def peek_front_def split: list.splits bind_splits)

lemma update_cell_ok:
  fixes d :: "('a, 's) deque" and x :: 'a
  assumes ok: "deque_ok d" and k: "k < deq_len d"
  defines "d' \<equiv> d\<lparr>cells := (cells d)[(front d + k) mod cap d := Some x]\<rparr>"
  shows "write_cell (cells d) ((front d + k) mod cap d) x = Some (cells d')"
    and "deque_ok d'" and "deq_list d' = (deq_list d)[k := x]"
proof -
  have b: "(front d + k) mod cap d < length (cells d)" by (rule deq_cell_bound [OF ok k])
  then show "write_cell (cells d) ((front d + k) mod cap d) x = Some (cells d')"
    by (simp add: write_cell_def d'_def)
  have len: "deq_len d' = deq_len d" by (simp add: deq_len_def d'_def)
  have f: "front d < cap d" using ok by (simp add: deque_ok_def)
  have cell: "deq_cell d' i = (if i = k then Some x else deq_cell d i)" if "i < deq_len d" for i
    using ring_inj [OF f, of i k] that k deq_len_less [OF ok] b by (auto simp: deq_cell_def d'_def nth_list_update)
  show "deq_list d' = (deq_list d)[k := x]"
    by (rule nth_equalityI) (simp_all add: len deq_list_nth cell nth_list_update)
  show "deque_ok d'"
    using ok cell len unfolding deque_ok_def by (auto simp: d'_def)
qed

lemma update_front_ok:
  assumes ok: "deque_ok d" and ne: "deq_list d \<noteq> []"
  shows "\<exists>d'. update_front x d = Some d' \<and> deque_ok d' \<and> deq_list d' = x # tl (deq_list d)
    \<and> data d' = data d \<and> length (cells d') = length (cells d) \<and> destructor d' = destructor d
    \<and> front d' = front d \<and> cap d' = cap d"
proof -
  have k: "0 < deq_len d" using ne deq_list_length [of d] by (cases "deq_list d") auto
  have "front d mod cap d = front d" using ok by (simp add: deque_ok_def)
  then show ?thesis
    using update_cell_ok [OF ok k, of x] is_empty_deque_ok [OF ok] ne
    by (cases "deq_list d") (auto simp: update_front_def)
qed

lemma update_back_ok:
  assumes ok: "deque_ok d" and ne: "deq_list d \<noteq> []"
  shows "\<exists>d'. update_back x d = Some d' \<and> deque_ok d' \<and> deq_list d' = butlast (deq_list d) @ [x]
    \<and> data d' = data d \<and> length (cells d') = length (cells d) \<and> destructor d' = destructor d
    \<and> front d' = front d \<and> cap d' = cap d"
proof -
  have k: "deq_len d - 1 < deq_len d" using ne deq_list_length [of d] by (cases "deq_list d") auto
  have fr: "front d \<noteq> rear d" using deq_list_emptyI [OF ok] ne by simp
  have i: "(front d + (deq_len d - 1)) mod cap d = (rear d + cap d - Suc 0) mod cap d"
    using ring_pop(3) [of "front d" "cap d" "rear d"] ok fr by (simp add: deq_len_def deque_ok_def)
  have "(deq_list d)[deq_len d - 1 := x] = butlast (deq_list d) @ [x]"
    using k by (intro nth_equalityI) (auto simp: nth_append nth_list_update nth_butlast)
  then show ?thesis
    using update_cell_ok [OF ok k, of x] is_empty_deque_ok [OF ok] ne i
    by (auto simp: update_back_def deque_ok_simps [OF ok])
qed

subsection \<open>The allocator a deque relies on\<close>

text \<open>
  What the deque relies on its allocator for: a block that is served is owned, no block is
  larger than \<open>2 ^ 62\<close> bytes, and after a second block was served the first can be given
  back and the second stays owned. \<open>ok\<close> is the allocator's own invariant.
\<close>

locale allocator =
  fixes alloc :: "nat \<Rightarrow> 's \<Rightarrow> (nat \<times> 's) option"
    and release :: "nat \<Rightarrow> 's \<Rightarrow> 's option"
    and ok :: "'s \<Rightarrow> bool"
    and owns :: "nat \<Rightarrow> nat \<Rightarrow> 's \<Rightarrow> bool"
  assumes alloc_owns: "n \<le> 2 ^ 63 \<Longrightarrow> ok s \<Longrightarrow> alloc n s = Some (p, s') \<Longrightarrow> p \<noteq> 0
      \<Longrightarrow> ok s' \<and> owns p n s'"
    and owns_bound: "ok s \<Longrightarrow> owns p n s \<Longrightarrow> n \<le> 2 ^ 62"
    and release_ok: "ok s \<Longrightarrow> owns p n s \<Longrightarrow> \<exists>s'. release p s = Some s' \<and> ok s'"
    and replace_ok: "n \<le> 2 ^ 63 \<Longrightarrow> ok s \<Longrightarrow> owns q m s \<Longrightarrow> alloc n s = Some (p, s') \<Longrightarrow> p \<noteq> 0
      \<Longrightarrow> \<exists>s''. release q s' = Some s'' \<and> ok s'' \<and> owns p n s''"

text \<open>Deques of elements of \<open>sz\<close> bytes over such an allocator.\<close>

locale deque_alloc = allocator +
  fixes sz :: nat
  assumes sz: "0 < sz" "sz < 2 ^ 32"
begin

definition holds :: "('b, 'a) deque \<Rightarrow> 'a \<Rightarrow> bool" where
  "holds d s \<longleftrightarrow> ok s \<and> deque_ok d \<and> owns (data d) (length (cells d) * sz) s"

lemma new_ok:
  assumes ok: "ok s" and n: "n * sz \<le> 2 ^ 63" and a: "alloc (n * sz) s = Some (p, s')" and p: "p \<noteq> 0"
  shows "\<exists>d. new_deque alloc sz n s = Some (d, s') \<and> holds d s' \<and> deq_list d = []
    \<and> destructor d = None \<and> cap d = max 1 n \<and> length (cells d) = n \<and> data d = p"
proof -
  note own = alloc_owns [OF n ok a p]
  then have "n * sz \<le> 2 ^ 62" using owns_bound by blast
  with sz(1) have "n \<le> 2 ^ 62" by (intro le_factor [of n sz])
  with own n a p show ?thesis
    by (auto simp: new_deque_def holds_def deque_ok_def deq_list_def deq_len_def)
qed

lemma push_size:
  assumes h: "holds d s"
  shows "2 * cap d * sz \<le> 2 ^ 63"
proof -
  have ok: "deque_ok d" using h by (simp add: holds_def)
  have len: "length (cells d) * sz \<le> 2 ^ 62" using owns_bound h by (auto simp: holds_def)
  have "cap d * sz \<le> 2 ^ 62"
  proof (cases "length (cells d) = cap d")
    case False
    then have "cap d = 1" using ok by (auto simp: deque_ok_def)
    then show ?thesis using sz by simp
  qed (use len in simp)
  moreover have "2 * k \<le> 2 ^ 63" if "k \<le> 2 ^ 62" for k :: nat using that by simp
  ultimately have "2 * (cap d * sz) \<le> 2 ^ 63" by blast
  then show ?thesis by (simp only: mult.assoc)
qed

text \<open>Growing keeps the contents; it asks for a block only when the ring is full.\<close>

lemma on_push_ok:
  assumes h: "holds d s"
    and a: "front d = Suc (rear d) mod cap d \<Longrightarrow> alloc (2 * cap d * sz) s = Some (p, s') \<and> p \<noteq> 0"
    and d': "d' = (if front d = Suc (rear d) mod cap d then moved p (2 * cap d) d else d)"
    and s'': "front d \<noteq> Suc (rear d) mod cap d \<Longrightarrow> s' = s"
  obtains s'' where "on_push alloc release sz d s = Some (d', s'')" and "holds d' s''"
    and "front d' \<noteq> Suc (rear d') mod cap d'" and "length (cells d') = cap d'"
    and "if front d = Suc (rear d) mod cap d then release (data d) s' = Some s'' else s'' = s"
proof (cases "front d = Suc (rear d) mod cap d")
  case False
  have ok: "deque_ok d" using h by (simp add: holds_def)
  have "cap d \<noteq> 1" using False ok by (auto simp: deque_ok_def)
  then have "length (cells d) = cap d" using ok by (auto simp: deque_ok_def)
  with False show ?thesis
    using h d' deque_ok_simps [OF ok] by (intro that [of s]) (auto simp: on_push_def)
next
  case True
  have ok: "deque_ok d" using h by (simp add: holds_def)
  have b: "front d < cap d" "rear d < cap d" using ok by (auto simp: deque_ok_def)
  have full: "deq_len d = cap d - 1" using ring_full [OF b] True by (simp add: deq_len_def)
  note al = a [OF True]
  have small: "2 * cap d * sz \<le> 2 ^ 63" using push_size [OF h] by simp
  have own: "owns p (2 * cap d * sz) s'" and oks': "ok s'"
    using alloc_owns [OF small, of s] al h by (auto simp: holds_def)
  have le: "2 * cap d * sz \<le> 2 ^ 62" using owns_bound [OF oks' own] .
  with sz(1) have c: "2 * cap d \<le> 2 ^ 62" by (intro le_factor [of "2 * cap d" sz])
  have w: "size64 (2 * cap d * sz) = 2 * cap d * sz" using le by (intro size64_id) simp
  obtain s'' where r: "release (data d) s' = Some s''" "ok s''" "owns p (2 * cap d * sz) s''"
    using replace_ok [OF small, of s "data d" "length (cells d) * sz" p s'] h al
    by (auto simp: holds_def)
  have cap: "0 < cap d" "deq_len d \<le> 2 * cap d" using b full by auto
  have copy: "copy_cells (cells d) (front d) (cap d) 0 (cap d - 1) (replicate (2 * cap d) None) =
      Some (cells (moved p (2 * cap d) d))"
    using copy_cells_defined [OF ok cap(2)] by (simp add: full moved_def)
  show ?thesis
  proof (rule that [of s''])
    show "on_push alloc release sz d s = Some (d', s'')"
      using True al copy r(1) w cap(1) deque_ok_simps [OF ok] full
      by (simp add: on_push_def d' Let_def moved_def)
    show "holds d' s''" and "front d' \<noteq> Suc (rear d') mod cap d'" and "length (cells d') = cap d'"
      using True al r cap full c moved_ok [OF ok, of p "2 * cap d"]
      by (auto simp: holds_def d')
    show "if front d = Suc (rear d) mod cap d then release (data d) s' = Some s'' else s'' = s"
      using True r(1) by simp
  qed
qed

lemma push_back_ok:
  assumes h: "holds d s"
    and a: "front d = Suc (rear d) mod cap d \<Longrightarrow> alloc (2 * cap d * sz) s = Some (p, s') \<and> p \<noteq> 0"
    and s': "front d \<noteq> Suc (rear d) mod cap d \<Longrightarrow> s' = s"
  obtains d' s'' where "push_back alloc release sz x d s = Some (d', s'')" and "holds d' s''"
    and "deq_list d' = deq_list d @ [x]" and "destructor d' = destructor d"
    and "data d' = (if front d = Suc (rear d) mod cap d then p else data d)"
    and "cap d' = (if front d = Suc (rear d) mod cap d then 2 * cap d else cap d)"
    and "length (cells d') = cap d'" and "front d' = (if front d = Suc (rear d) mod cap d then 0 else front d)"
    and "if front d = Suc (rear d) mod cap d then release (data d) s' = Some s'' else s'' = s"
proof -
  let ?d = "if front d = Suc (rear d) mod cap d then moved p (2 * cap d) d else d"
  let ?e = "?d\<lparr>cells := (cells ?d)[rear ?d := Some x], rear := Suc (rear ?d) mod cap ?d\<rparr>"
  have ok: "deque_ok d" using h by (simp add: holds_def)
  obtain s'' where o: "on_push alloc release sz d s = Some (?d, s'')" and hd: "holds ?d s''"
    and nf: "front ?d \<noteq> Suc (rear ?d) mod cap ?d" and l: "length (cells ?d) = cap ?d"
    and r: "if front d = Suc (rear d) mod cap d then release (data d) s' = Some s'' else s'' = s"
    by (rule on_push_ok [OF h a refl s'])
  have ok': "deque_ok ?d" using hd by (simp only: holds_def)
  have e: "deque_ok ?e" "deq_list ?e = deq_list ?d @ [x]" by (rule push_back_cells [OF ok' nf l])+
  have "write_cell (cells ?d) (rear ?d) x = Some ((cells ?d)[rear ?d := Some x])"
    using ok' l by (simp only: write_cell_def deque_ok_def if_True)
  then have "push_back alloc release sz x d s = Some (?e, s'')"
    using o deque_ok_simps(1) [OF ok] deque_ok_simps(7) [OF ok'] by (simp add: push_back_def)
  moreover have "holds ?e s''" using hd e(1) by (simp add: holds_def)
  moreover have "deq_list ?d = deq_list d"
  proof (cases "front d = Suc (rear d) mod cap d")
    case True
    then have "holds (moved p (2 * cap d) d) s''" using hd by simp
    have "cap d \<le> 2 ^ 61" using ok' True by (simp add: deque_ok_def)
    then show ?thesis
      using True moved_ok(2) [OF ok, of p "2 * cap d"] a deq_len_less [OF ok] by simp
  qed simp
  ultimately show ?thesis using that [of ?e s''] r e(2) l by simp
qed

text \<open>The same, from the result: a push that returns has done this.\<close>

lemma push_back_Some:
  assumes h: "holds d s" and r: "push_back alloc release sz x d s = Some (d', s'')"
  shows "holds d' s'' \<and> deq_list d' = deq_list d @ [x] \<and> destructor d' = destructor d
    \<and> (if front d = Suc (rear d) mod cap d
       then \<exists>p s'. alloc (2 * cap d * sz) s = Some (p, s') \<and> p \<noteq> 0 \<and> release (data d) s' = Some s''
          \<and> data d' = p \<and> length (cells d') = 2 * cap d
       else s'' = s \<and> data d' = data d \<and> length (cells d') = length (cells d))"
proof -
  have ok: "deque_ok d" using h by (simp add: holds_def)
  have w: "size64 (2 * cap d * sz) = 2 * cap d * sz" using push_size [OF h] by (intro size64_id) simp
  obtain p s' where a: "front d = Suc (rear d) mod cap d \<Longrightarrow> alloc (2 * cap d * sz) s = Some (p, s') \<and> p \<noteq> 0"
    and b: "front d \<noteq> Suc (rear d) mod cap d \<Longrightarrow> s' = s"
  proof (cases "front d = Suc (rear d) mod cap d")
    case True
    with r w obtain p s' where "alloc (2 * cap d * sz) s = Some (p, s') \<and> p \<noteq> 0"
      by (auto simp: push_back_def on_push_def Let_def deque_ok_simps [OF ok] split: bind_splits if_splits)
    then show ?thesis using that [of p s'] True by blast
  qed (use that in blast)
  obtain d1 s1 where p: "push_back alloc release sz x d s = Some (d1, s1)" and
    "holds d1 s1" "deq_list d1 = deq_list d @ [x]" "destructor d1 = destructor d"
    "data d1 = (if front d = Suc (rear d) mod cap d then p else data d)"
    "cap d1 = (if front d = Suc (rear d) mod cap d then 2 * cap d else cap d)"
    "length (cells d1) = cap d1"
    "if front d = Suc (rear d) mod cap d then release (data d) s' = Some s1 else s1 = s"
    by (rule push_back_ok [OF h a b])
  moreover have "length (cells d) = cap d" if "front d \<noteq> Suc (rear d) mod cap d"
  proof -
    have "cap d \<noteq> 1" using that ok by (auto simp: deque_ok_def)
    then show ?thesis using ok by (auto simp: deque_ok_def)
  qed
  ultimately show ?thesis using r a by auto
qed

lemma push_front_ok:
  assumes h: "holds d s"
    and a: "front d = Suc (rear d) mod cap d \<Longrightarrow> alloc (2 * cap d * sz) s = Some (p, s') \<and> p \<noteq> 0"
    and s': "front d \<noteq> Suc (rear d) mod cap d \<Longrightarrow> s' = s"
  obtains d' s'' where "push_front alloc release sz x d s = Some (d', s'')" and "holds d' s''"
    and "deq_list d' = x # deq_list d" and "destructor d' = destructor d"
    and "data d' = (if front d = Suc (rear d) mod cap d then p else data d)"
    and "cap d' = (if front d = Suc (rear d) mod cap d then 2 * cap d else cap d)"
    and "length (cells d') = cap d'"
    and "if front d = Suc (rear d) mod cap d then release (data d) s' = Some s'' else s'' = s"
proof -
  let ?d = "if front d = Suc (rear d) mod cap d then moved p (2 * cap d) d else d"
  let ?f = "(front ?d + cap ?d - Suc 0) mod cap ?d"
  let ?e = "?d\<lparr>front := ?f, cells := (cells ?d)[?f := Some x]\<rparr>"
  have ok: "deque_ok d" using h by (simp add: holds_def)
  obtain s'' where o: "on_push alloc release sz d s = Some (?d, s'')" and hd: "holds ?d s''"
    and nf: "front ?d \<noteq> Suc (rear ?d) mod cap ?d" and l: "length (cells ?d) = cap ?d"
    and r: "if front d = Suc (rear d) mod cap d then release (data d) s' = Some s'' else s'' = s"
    by (rule on_push_ok [OF h a refl s'])
  have ok': "deque_ok ?d" using hd by (simp only: holds_def)
  have e: "deque_ok ?e" "deq_list ?e = x # deq_list ?d" by (rule push_front_cells [OF ok' nf l])+
  have "?f < cap ?d" using ok' by (simp add: deque_ok_def)
  then have "write_cell (cells ?d) ?f x = Some ((cells ?d)[?f := Some x])"
    using l by (simp only: write_cell_def if_True)
  then have "push_front alloc release sz x d s = Some (?e, s'')"
    using o deque_ok_simps(1) [OF ok] deque_ok_simps(10) [OF ok'] by (simp add: push_front_def Let_def)
  moreover have "holds ?e s''" using hd e(1) by (simp add: holds_def)
  moreover have "deq_list ?d = deq_list d"
  proof (cases "front d = Suc (rear d) mod cap d")
    case True
    have "cap d \<le> 2 ^ 61" using ok' True by (simp add: deque_ok_def)
    then show ?thesis
      using True moved_ok(2) [OF ok, of p "2 * cap d"] a deq_len_less [OF ok] by simp
  qed simp
  ultimately show ?thesis using that [of ?e s''] r e(2) l by simp
qed

end

subsection \<open>The two instances of the macro in use\<close>

text \<open>\<open>IMPLEMENT_DEQUE\<close>: the allocator is \<open>malloc\<close> and old arrays are freed.\<close>

interpretation malloc_alloc: allocator malloc free heap_ok owned
proof
  fix s s' :: heap and n p q m :: nat
  show "heap_ok s' \<and> owned p n s'" if "n \<le> 2 ^ 63" "heap_ok s" "malloc n s = Some (p, s')" "p \<noteq> 0"
    using malloc_owned [OF that(2-)] by blast
  show "n \<le> 2 ^ 62" if "heap_ok s" "owned p n s"
    using owned_bound [OF that] by simp
  show "\<exists>s'. free p s = Some s' \<and> heap_ok s'" if "heap_ok s" "owned p n s"
    using free_owned [OF that] by auto
  assume ok: "heap_ok s" and q: "owned q m s" and a: "malloc n s = Some (p, s')" and p: "p \<noteq> 0"
  note m = malloc_owned [OF ok a p]
  have "q < brk s" using ok q by (force simp: heap_ok_def owned_def)
  moreover have "owned q m s'" using m q by (simp add: owned_def)
  ultimately show "\<exists>s''. free q s' = Some s'' \<and> heap_ok s'' \<and> owned p n s''"
    using free_owned [of s' q m] m by (auto simp: owned_def)
qed

subsection \<open>Runs of operations\<close>

text \<open>Sequences of calls on one deque, with what each call returns.\<close>

datatype 'a deque_call =
  PushFront 'a | PushBack 'a | PopFront | PopBack | PeekFront | PeekBack
  | UpdateFront 'a | UpdateBack 'a | IsEmpty | Length | Empty

datatype 'a deque_result = Unit | Element 'a | Bool bool | Size nat

fun call_deque :: "nat \<Rightarrow> 'a deque_call \<Rightarrow> ('a, heap) deque \<Rightarrow> heap
    \<Rightarrow> ('a deque_result \<times> ('a, heap) deque \<times> heap) option" where
  "call_deque sz (PushFront x) d h = do { (d, h) \<leftarrow> push_front malloc free sz x d h; Some (Unit, d, h) }"
| "call_deque sz (PushBack x) d h = do { (d, h) \<leftarrow> push_back malloc free sz x d h; Some (Unit, d, h) }"
| "call_deque sz PopFront d h = do { (x, d) \<leftarrow> pop_front d; Some (Element x, d, h) }"
| "call_deque sz PopBack d h = do { (x, d) \<leftarrow> pop_back d; Some (Element x, d, h) }"
| "call_deque sz PeekFront d h = do { x \<leftarrow> peek_front d; Some (Element x, d, h) }"
| "call_deque sz PeekBack d h = do { x \<leftarrow> peek_back d; Some (Element x, d, h) }"
| "call_deque sz (UpdateFront x) d h = do { d \<leftarrow> update_front x d; Some (Unit, d, h) }"
| "call_deque sz (UpdateBack x) d h = do { d \<leftarrow> update_back x d; Some (Unit, d, h) }"
| "call_deque sz IsEmpty d h = do { b \<leftarrow> is_empty_deque d; Some (Bool b, d, h) }"
| "call_deque sz Length d h = do { n \<leftarrow> length_deque d; Some (Size n, d, h) }"
| "call_deque sz Empty d h = do { d \<leftarrow> empty_deque d; Some (Unit, d, h) }"

fun run_deque :: "nat \<Rightarrow> 'a deque_call list \<Rightarrow> ('a, heap) deque \<Rightarrow> heap
    \<Rightarrow> ('a deque_result list \<times> ('a, heap) deque \<times> heap) option" where
  "run_deque sz [] d h = Some ([], d, h)"
| "run_deque sz (c # cs) d h =
     do { (r, d, h) \<leftarrow> call_deque sz c d h;
          (rs, d, h) \<leftarrow> run_deque sz cs d h;
          Some (r # rs, d, h) }"

text \<open>The specification: the same calls on a list.\<close>

fun call_list :: "'a deque_call \<Rightarrow> 'a list \<Rightarrow> ('a deque_result \<times> 'a list) option" where
  "call_list (PushFront x) xs = Some (Unit, x # xs)"
| "call_list (PushBack x) xs = Some (Unit, xs @ [x])"
| "call_list PopFront xs = (case xs of [] \<Rightarrow> None | y # ys \<Rightarrow> Some (Element y, ys))"
| "call_list PopBack xs = (if xs = [] then None else Some (Element (last xs), butlast xs))"
| "call_list PeekFront xs = (case xs of [] \<Rightarrow> None | y # ys \<Rightarrow> Some (Element y, xs))"
| "call_list PeekBack xs = (if xs = [] then None else Some (Element (last xs), xs))"
| "call_list (UpdateFront x) xs = (case xs of [] \<Rightarrow> None | y # ys \<Rightarrow> Some (Unit, x # ys))"
| "call_list (UpdateBack x) xs = (if xs = [] then None else Some (Unit, butlast xs @ [x]))"
| "call_list IsEmpty xs = Some (Bool (xs = []), xs)"
| "call_list Length xs = Some (Size (length xs), xs)"
| "call_list Empty xs = Some (Unit, [])"

fun run_list :: "'a deque_call list \<Rightarrow> 'a list \<Rightarrow> ('a deque_result list \<times> 'a list) option" where
  "run_list [] xs = Some ([], xs)"
| "run_list (c # cs) xs =
     do { (r, xs) \<leftarrow> call_list c xs; (rs, xs) \<leftarrow> run_list cs xs; Some (r # rs, xs) }"

text \<open>
  The simulation relation. \<open>n\<close> is the number of calls there is room for: the array and the
  bytes still free hold three times the elements. \<open>bs\<close> are the blocks of everybody else.\<close>

definition deque_sim ::
    "nat \<Rightarrow> (nat \<times> nat) list \<Rightarrow> nat \<Rightarrow> ('a, heap) deque \<Rightarrow> 'a list \<Rightarrow> heap \<Rightarrow> bool" where
  "deque_sim sz bs n d xs h \<longleftrightarrow> heap_ok h \<and> deque_ok d \<and> owned (data d) (length (cells d) * sz) h
     \<and> deq_list d = xs \<and> 3 * (length xs + n) * sz \<le> avail h + length (cells d) * sz
     \<and> filter (\<lambda>(q, _). q \<noteq> data d) (blocks h) = bs \<and> destructor d = None"

lemma deque_sim_shrink:
  assumes "deque_sim sz bs (Suc n) d xs h" and "deque_ok d'" and "data d' = data d"
    and "length (cells d') = length (cells d)" and "deq_list d' = ys" and "length ys \<le> length xs"
    and "destructor d' = destructor d"
  shows "deque_sim sz bs n d' ys h"
proof -
  have "3 * (length ys + n) * sz \<le> 3 * (length xs + Suc n) * sz"
    using assms(6) by (intro mult_le_mono1) simp
  moreover have "3 * (length xs + Suc n) * sz \<le> avail h + length (cells d) * sz"
    using assms(1) by (simp only: deque_sim_def)
  ultimately have "3 * (length ys + n) * sz \<le> avail h + length (cells d') * sz"
    using assms(4) by (metis order_trans)
  with assms show ?thesis by (simp only: deque_sim_def)
qed

text \<open>A push in the simulation: what the allocator is asked for, and what it leaves.\<close>

lemma deque_sim_room:
  assumes sim: "deque_sim sz bs (Suc n) d xs h"
  obtains p h' where "front d = Suc (rear d) mod cap d \<Longrightarrow> malloc (2 * cap d * sz) h = Some (p, h') \<and> p \<noteq> 0"
    and "front d \<noteq> Suc (rear d) mod cap d \<Longrightarrow> h' = h"
proof (cases "front d = Suc (rear d) mod cap d")
  case True
  have b: "front d < cap d" "rear d < cap d" using sim by (auto simp: deque_sim_def deque_ok_def)
  have "length xs = cap d - 1"
    using ring_full [OF b] True sim by (auto simp: deq_len_def deque_sim_def)
  then have "3 * cap d \<le> 3 * (length xs + Suc n)" using b by simp
  then have "3 * cap d * sz \<le> 3 * (length xs + Suc n) * sz" by (rule mult_le_mono1)
  moreover have "length (cells d) * sz \<le> cap d * sz"
    using sim by (intro mult_le_mono1) (auto simp: deque_sim_def deque_ok_def)
  moreover have "3 * (length xs + Suc n) * sz \<le> avail h + length (cells d) * sz"
    using sim by (simp only: deque_sim_def)
  moreover have "3 * cap d * sz = 2 * cap d * sz + cap d * sz" by (simp add: algebra_simps)
  ultimately have "2 * cap d * sz \<le> avail h" by linarith
  moreover have "0 < brk h" using sim by (simp add: deque_sim_def heap_ok_def)
  ultimately show ?thesis using malloc_room [of h "2 * cap d * sz"] True that by blast
next
  case False
  then show ?thesis using that [of 0 h] by blast
qed

lemma deque_sim_grow:
  assumes sim: "deque_sim sz bs (Suc n) d xs h"
    and a: "front d = Suc (rear d) mod cap d \<Longrightarrow> malloc (2 * cap d * sz) h = Some (p, h') \<and> p \<noteq> 0"
    and d': "deque_ok d'" "owned (data d') (length (cells d') * sz) h''" "heap_ok h''"
      "data d' = (if front d = Suc (rear d) mod cap d then p else data d)"
      "cap d' = (if front d = Suc (rear d) mod cap d then 2 * cap d else cap d)"
      "length (cells d') = cap d'" "destructor d' = destructor d"
    and r: "if front d = Suc (rear d) mod cap d then free (data d) h' = Some h'' else h'' = h"
    and ys: "deq_list d' = ys" "length ys = Suc (length xs)"
  shows "deque_sim sz bs n d' ys h''"
proof (cases "front d = Suc (rear d) mod cap d")
  case False
  have "cap d \<noteq> 1" using False sim by (auto simp: deque_ok_def deque_sim_def)
  then have "length (cells d) = cap d" using sim by (auto simp: deque_ok_def deque_sim_def)
  with False show ?thesis using sim d' r ys by (simp add: deque_sim_def)
next
  case True
  have ok: "heap_ok h" and own: "owned (data d) (length (cells d) * sz) h" using sim by (auto simp: deque_sim_def)
  note al = a [OF True]
  note m = malloc_owned [OF ok conjunct1 [OF al] conjunct2 [OF al]]
  have "owned (data d) (length (cells d) * sz) h'" using m own by (simp add: owned_def)
  from free_owned [OF conjunct1 [OF m] this] True r
  have f: "avail h'' = avail h' + length (cells d) * sz"
    "blocks h'' = filter (\<lambda>(q, _). q \<noteq> data d) (blocks h')" by auto
  have below: "q < brk h" if "(q, k) \<in> set (blocks h)" for q k
    using ok that by (force simp: heap_ok_def)
  have "data d < brk h" using below own by (simp add: owned_def)
  then have "filter (\<lambda>(q, _). q \<noteq> p) (blocks h'') = filter (\<lambda>(q, _). q \<noteq> p) (filter (\<lambda>(q, _). q \<noteq> data d) (blocks h))"
    using m f(2) by auto
  also have "\<dots> = filter (\<lambda>(q, _). q \<noteq> data d) (blocks h)"
    using below m by (intro filter_True) fastforce
  finally have bs: "filter (\<lambda>(q, _). q \<noteq> p) (blocks h'') = bs" using sim by (simp add: deque_sim_def)
  have "3 * (length xs + Suc n) * sz \<le> avail h + length (cells d) * sz" using sim by (simp add: deque_sim_def)
  also have "\<dots> = avail h'' + 2 * cap d * sz" using f(1) m by simp
  finally show ?thesis using True sim d' ys bs by (simp add: deque_sim_def)
qed

lemma deque_alloc_malloc:
  assumes "0 < sz" and "sz < 2 ^ 32"
  shows "deque_alloc malloc free heap_ok owned sz"
  using assms by unfold_locales auto

lemma call_push_refines:
  assumes sim: "deque_sim sz bs (Suc n) d xs h" and sz: "0 < sz" "sz < 2 ^ 32"
  shows "\<exists>d' h'. push_back malloc free sz x d h = Some (d', h') \<and> deque_sim sz bs n d' (xs @ [x]) h'"
    and "\<exists>d' h'. push_front malloc free sz x d h = Some (d', h') \<and> deque_sim sz bs n d' (x # xs) h'"
proof -
  note al = deque_alloc_malloc [OF sz]
  note holds = deque_alloc.holds_def [OF al]
  obtain p h' where room: "front d = Suc (rear d) mod cap d \<Longrightarrow> malloc (2 * cap d * sz) h = Some (p, h') \<and> p \<noteq> 0"
    and same: "front d \<noteq> Suc (rear d) mod cap d \<Longrightarrow> h' = h" by (rule deque_sim_room [OF sim]) blast
  have h: "deque_alloc.holds heap_ok owned sz d h" using sim by (simp add: holds deque_sim_def)
  have xs: "deq_list d = xs" using sim by (simp add: deque_sim_def)
  show "\<exists>d' h'. push_back malloc free sz x d h = Some (d', h') \<and> deque_sim sz bs n d' (xs @ [x]) h'"
    by (rule deque_alloc.push_back_ok [OF al h room same], assumption+, intro exI conjI, assumption,
      rule deque_sim_grow [OF sim room]) (simp_all add: holds xs)
  show "\<exists>d' h'. push_front malloc free sz x d h = Some (d', h') \<and> deque_sim sz bs n d' (x # xs) h'"
    by (rule deque_alloc.push_front_ok [OF al h room same], assumption+, intro exI conjI, assumption,
      rule deque_sim_grow [OF sim room]) (simp_all add: holds xs)
qed

lemma call_deque_refines:
  assumes sim: "deque_sim sz bs (Suc n) d xs h" and sz: "0 < sz" "sz < 2 ^ 32"
  shows "case call_list c xs of
      None \<Rightarrow> call_deque sz c d h = None
    | Some (r, ys) \<Rightarrow> \<exists>d' h'. call_deque sz c d h = Some (r, d', h') \<and> deque_sim sz bs n d' ys h'"
proof -
  have ok: "deque_ok d" and xs: "deq_list d = xs" using sim by (auto simp: deque_sim_def)
  have len: "deq_len d = length xs" using deq_list_length [of d] xs by simp
  note keep = deque_sim_shrink [OF sim]
  show ?thesis
  proof (cases c)
    case (PushFront x)
    then show ?thesis using call_push_refines(2) [OF sim sz, of x] by auto
  next
    case (PushBack x)
    then show ?thesis using call_push_refines(1) [OF sim sz, of x] by auto
  next
    case PopFront
    have "deque_sim sz bs n (d\<lparr>front := Suc (front d) mod cap d\<rparr>) (tl xs) h" if "xs \<noteq> []"
      using pop_front_ok(2,3) [OF ok] xs that by (intro keep) auto
    then show ?thesis using PopFront pop_front_ok(1) [OF ok] xs by (cases xs) auto
  next
    case PopBack
    have "deque_sim sz bs n (d\<lparr>rear := (rear d + cap d - Suc 0) mod cap d\<rparr>) (butlast xs) h" if "xs \<noteq> []"
      using pop_back_ok(2,3) [OF ok] xs that by (intro keep) auto
    then show ?thesis using PopBack pop_back_ok(1) [OF ok] xs by auto
  next
    case (UpdateFront x)
    show ?thesis
    proof (cases xs)
      case Nil
      then show ?thesis using UpdateFront is_empty_deque_ok [OF ok] xs by (simp add: update_front_def)
    next
      case (Cons y ys)
      then obtain d' where d': "update_front x d = Some d'" "deque_ok d'" "deq_list d' = x # ys"
        "data d' = data d" "length (cells d') = length (cells d)" "destructor d' = destructor d"
        using update_front_ok [OF ok, of x] xs by auto
      have "deque_sim sz bs n d' (x # ys) h" by (rule keep) (use d' Cons in simp_all)
      with d' Cons UpdateFront show ?thesis by simp
    qed
  next
    case (UpdateBack x)
    show ?thesis
    proof (cases "xs = []")
      case True
      then show ?thesis using UpdateBack is_empty_deque_ok [OF ok] xs by (simp add: update_back_def)
    next
      case False
      then obtain d' where d': "update_back x d = Some d'" "deque_ok d'" "deq_list d' = butlast xs @ [x]"
        "data d' = data d" "length (cells d') = length (cells d)" "destructor d' = destructor d"
        using update_back_ok [OF ok, of x] xs by auto
      have "deque_sim sz bs n d' (butlast xs @ [x]) h" by (rule keep) (use d' False in simp_all)
      with d' False UpdateBack show ?thesis by simp
    qed
  next
    case Empty
    have "deque_sim sz bs n (d\<lparr>rear := 0, front := 0\<rparr>) [] h"
      using ok by (intro keep) (auto simp: deque_ok_def deq_list_def deq_len_def)
    then show ?thesis using Empty ok by (simp add: empty_deque_def deque_ok_def)
  next
    case PeekFront
    then show ?thesis using peek_front_ok [OF ok] xs keep [OF ok] by (cases xs) auto
  next
    case PeekBack
    then show ?thesis using pop_back_ok(4) [OF ok] xs keep [OF ok] by auto
  next
    case IsEmpty
    then show ?thesis using is_empty_deque_ok [OF ok] xs keep [OF ok] by auto
  next
    case Length
    then show ?thesis using length_deque_ok [OF ok] len xs keep [OF ok] by auto
  qed
qed

lemma run_deque_refines:
  assumes "deque_sim sz bs (length cs) d xs h" and sz: "0 < sz" "sz < 2 ^ 32"
  shows "case run_list cs xs of
      None \<Rightarrow> run_deque sz cs d h = None
    | Some (rs, ys) \<Rightarrow> \<exists>d' h'. run_deque sz cs d h = Some (rs, d', h') \<and> deque_sim sz bs 0 d' ys h'"
  using assms(1)
proof (induction cs arbitrary: d xs h)
  case Nil
  then show ?case by simp
next
  case (Cons c cs)
  from Cons.prems have sim: "deque_sim sz bs (Suc (length cs)) d xs h" by simp
  show ?case
  proof (cases "call_list c xs")
    case None
    then show ?thesis using call_deque_refines [OF sim sz, of c] by simp
  next
    case (Some ry)
    obtain r ys where ry: "ry = (r, ys)" by (cases ry)
    with Some obtain d' h' where c: "call_deque sz c d h = Some (r, d', h')"
      and s': "deque_sim sz bs (length cs) d' ys h'"
      using call_deque_refines [OF sim sz, of c] by auto
    show ?thesis using Cons.IH [OF s'] Some ry c by (auto split: option.splits)
  qed
qed

subsection \<open>Applying, destroying and handing out the array\<close>

text \<open>Calling a function on every element in order, over a state it may change.\<close>

fun each :: "('a \<Rightarrow> 's \<Rightarrow> 's option) \<Rightarrow> 'a list \<Rightarrow> 's \<Rightarrow> 's option" where
  "each f [] s = Some s"
| "each f (x # xs) s = do { s \<leftarrow> f x s; each f xs s }"

lemma apply_cells_each:
  assumes ok: "deque_ok d" and n: "i + n \<le> deq_len d"
  shows "apply_cells f d i n s = each f (map (\<lambda>j. the (deq_cell d j)) [i..<i + n]) s"
  using n
proof (induction n arbitrary: i s)
  case 0
  then show ?case by simp
next
  case (Suc n)
  then have i: "i < deq_len d" by simp
  have "read_cell (cells d) ((front d + i) mod cap d) = Some (the (deq_cell d i))"
    using deq_cell_bound [OF ok i] ok i by (auto simp: read_cell_def deq_cell_def deque_ok_def)
  moreover have "[i..<i + Suc n] = i # [Suc i..<Suc i + n]" by (simp add: upt_rec)
  ultimately show ?case using Suc by (simp cong: option.case_cong split: bind_split)
qed

lemma apply_deque_each: "deque_ok d \<Longrightarrow> apply_deque d f s = each f (deq_list d) s"
  using apply_cells_each [of d 0 "deq_len d" f s]
  by (simp add: apply_deque_def length_deque_ok deq_list_def)

lemma destroy_deque_each:
  assumes "deque_ok d"
  shows "destroy_deque release d s =
    do { s \<leftarrow> (case destructor d of None \<Rightarrow> Some s | Some f \<Rightarrow> each f (deq_list d) s);
         s \<leftarrow> release (data d) s;
         Some (d\<lparr>data := 0, cells := [], rear := 0, front := 0, cap := 0\<rparr>, s) }"
  using assms by (auto simp: destroy_deque_def deque_ok_simps apply_deque_each split: option.split)

context deque_alloc
begin

lemma as_array_ok:
  assumes h: "holds d s"
    and a: "front d \<noteq> 0 \<Longrightarrow> alloc (cap d * sz) s = Some (p, s') \<and> p \<noteq> 0"
  shows "\<exists>q cs s''. as_array_deque alloc release sz d s =
      Some ((q, cs, length (deq_list d)), d\<lparr>data := 0, cells := [], rear := 0, front := 0, cap := 0\<rparr>, s'')
    \<and> take (length (deq_list d)) cs = map Some (deq_list d) \<and> ok s'' \<and> owns q (length cs * sz) s''
    \<and> (if front d = 0 then q = data d \<and> s'' = s else q = p \<and> release (data d) s' = Some s'')"
proof -
  have ok: "deque_ok d" using h by (simp add: holds_def)
  have cell: "map (deq_cell d) [0..<deq_len d] = map Some (deq_list d)"
    using ok by (auto simp: deq_list_def deque_ok_def)
  show ?thesis
  proof (cases "front d = 0")
    case True
    have "length (cells d) = cap d \<or> deq_len d = 0" using ok deq_len_less [OF ok] by (auto simp: deque_ok_def)
    then have "take (deq_len d) (cells d) = map (deq_cell d) [0..<deq_len d]"
      using deq_len_less [OF ok] True by (auto simp: deq_cell_def intro!: nth_equalityI)
    with True show ?thesis
      using h cell by (simp add: as_array_deque_def reallign_deque_def deque_ok_simps [OF ok]
        length_deque_ok [OF ok] holds_def)
  next
    case False
    have len: "length (cells d) = cap d" using ok False by (auto simp: deque_ok_def)
    note al = a [OF False]
    have b: "cap d * sz \<le> 2 ^ 62" using owns_bound h len by (auto simp: holds_def)
    then have w: "size64 (cap d * sz) = cap d * sz" by (intro size64_id) simp
    obtain s'' where r: "release (data d) s' = Some s''" "ok s''" "owns p (cap d * sz) s''"
      using replace_ok [of "cap d * sz" s "data d" "length (cells d) * sz" p s'] h al b
      by (auto simp: holds_def)
    have lt: "deq_len d < cap d" by (rule deq_len_less [OF ok])
    have m: "deque_ok (moved p (cap d) d)" "deq_list (moved p (cap d) d) = deq_list d"
      using moved_ok [OF ok, of p "cap d"] al lt ok by (auto simp: deque_ok_def)
    have "reallign_deque alloc release sz d s = Some (moved p (cap d) d, s'')"
      using False al w r(1) copy_cells_defined [OF ok less_imp_le [OF lt]]
      by (simp add: reallign_deque_def deque_ok_simps [OF ok] length_deque_ok [OF ok] moved_def)
    moreover have "deq_len (moved p (cap d) d) = deq_len d"
      using m(2) deq_list_length by metis
    ultimately show ?thesis
      using False r lt cell length_deque_ok [OF m(1)]
      by (simp add: as_array_deque_def) (simp add: moved_def)
  qed
qed

end

subsection \<open>Deques on the C heap\<close>

text \<open>The operations under the simulation relation, as clients use them.\<close>

lemma heap_new:
  assumes h: "heap_ok h" and sz: "0 < sz" "sz < 2 ^ 32"
    and c: "c * sz \<le> avail h" and n: "3 * n * sz \<le> avail h"
  obtains d :: "('a, heap) deque" and h' where "new_deque malloc sz c h = Some (d, h')"
    and "deque_sim sz (blocks h) n d [] h'" and "front d = 0" and "heap_bytes h' = heap_bytes h"
proof -
  note al = deque_alloc_malloc [OF sz]
  have pos: "0 < brk h" using h by (simp add: heap_ok_def)
  obtain h0 where a: "malloc (c * sz) h = Some (brk h, h0)" and p: "brk h \<noteq> 0"
    using malloc_room [OF pos c] by blast
  note m = malloc_owned [OF h a p]
  have "heap_bytes h \<le> 2 ^ 62" using h by (simp add: heap_ok_def)
  then have c': "c * sz \<le> 2 ^ 63" using c by (simp add: heap_bytes_def)
  then obtain d0 :: "('a, heap) deque" where d0: "new_deque malloc sz c h = Some (d0, h0)"
    and hd: "deque_alloc.holds heap_ok owned sz d0 h0" "deq_list d0 = []" "destructor d0 = None"
    "length (cells d0) = c" "data d0 = brk h"
    using deque_alloc.new_ok [OF al h _ a p] by blast
  have f: "front d0 = 0" using d0 a p c' by (auto simp: new_deque_def bind_eq_Some_conv split: if_splits)
  have "filter (\<lambda>(q, _). q \<noteq> brk h) (blocks h) = blocks h"
    using h by (intro filter_True) (fastforce simp: heap_ok_def)
  then have "deque_sim sz (blocks h) n d0 [] h0"
    using hd m c n by (simp add: deque_sim_def deque_alloc.holds_def [OF al])
  then show ?thesis using that d0 f m by blast
qed

lemma heap_push:
  assumes sim: "deque_sim sz bs (Suc n) d xs h" and sz: "0 < sz" "sz < 2 ^ 32"
  obtains d' h' where "push_back malloc free sz x d h = Some (d', h')" and "deque_sim sz bs n d' (xs @ [x]) h'"
    and "front d = 0 \<Longrightarrow> front d' = 0" and "heap_bytes h' = heap_bytes h"
proof -
  note al = deque_alloc_malloc [OF sz]
  obtain d' h' where p: "push_back malloc free sz x d h = Some (d', h')" and s': "deque_sim sz bs n d' (xs @ [x]) h'"
    using call_push_refines(1) [OF sim sz] by blast
  have ok: "heap_ok h" "deque_ok d" and own: "owned (data d) (length (cells d) * sz) h"
    using sim by (auto simp: deque_sim_def)
  have h: "deque_alloc.holds heap_ok owned sz d h" using sim by (simp add: deque_alloc.holds_def [OF al] deque_sim_def)
  have "heap_bytes h' = heap_bytes h \<and> (front d = 0 \<longrightarrow> front d' = 0)"
  proof (cases "front d = Suc (rear d) mod cap d")
    case False
    then show ?thesis using deque_alloc.push_back_Some [OF al h p] p ok
      by (auto simp: push_back_def on_push_def deque_ok_simps bind_eq_Some_conv)
  next
    case True
    then obtain q h1 where a: "malloc (2 * cap d * sz) h = Some (q, h1)" "q \<noteq> 0" and f: "free (data d) h1 = Some h'"
      using deque_alloc.push_back_Some [OF al h p] by auto
    note m = malloc_owned [OF ok(1) a]
    have "owned (data d) (length (cells d) * sz) h1" using m own by (simp add: owned_def)
    then have "heap_bytes h' = heap_bytes h" using free_owned [of h1] m f by fastforce
    moreover have "front d' = 0" using True p ok
      by (auto simp: push_back_def on_push_def deque_ok_simps Let_def bind_eq_Some_conv split: if_splits)
    ultimately show ?thesis by simp
  qed
  with that [OF p s'] show ?thesis by simp
qed

lemma heap_pop_front:
  assumes sim: "deque_sim sz bs n d (x # xs) h"
  obtains d' where "pop_front d = Some (x, d')" and "deque_sim sz bs n d' xs h"
proof -
  have ok: "deque_ok d" and l: "deq_list d = x # xs" using sim by (auto simp: deque_sim_def)
  let ?d = "d\<lparr>front := Suc (front d) mod cap d\<rparr>"
  have "3 * (length xs + n) * sz \<le> 3 * (length (x # xs) + n) * sz" by (intro mult_le_mono1) simp
  moreover have "3 * (length (x # xs) + n) * sz \<le> avail h + length (cells d) * sz"
    using sim by (simp only: deque_sim_def)
  ultimately have "3 * (length xs + n) * sz \<le> avail h + length (cells d) * sz" by (rule order_trans)
  then have "deque_sim sz bs n ?d xs h"
    using sim pop_front_ok(2,3) [OF ok] l by (simp add: deque_sim_def)
  moreover have "pop_front d = Some (x, ?d)" using pop_front_ok(1) [OF ok] l by simp
  ultimately show ?thesis using that by blast
qed

lemma heap_free_array:
  assumes sim: "deque_sim sz bs n d xs h"
  obtains h' where "free (data d) h = Some h'" and "heap_ok h'" and "blocks h' = bs" and "heap_bytes h' = heap_bytes h"
proof -
  have "heap_ok h" and "owned (data d) (length (cells d) * sz) h"
    and "filter (\<lambda>(q, _). q \<noteq> data d) (blocks h) = bs" using sim by (auto simp: deque_sim_def)
  then show ?thesis using free_owned [of h "data d" "length (cells d) * sz"] that by blast
qed

lemma heap_destroy:
  assumes sim: "deque_sim sz bs n d xs h"
  obtains d' h' where "destroy_deque free d h = Some (d', h')" and "data d' = 0"
    and "heap_ok h'" and "blocks h' = bs" and "heap_bytes h' = heap_bytes h"
proof -
  obtain h' where "free (data d) h = Some h'" "heap_ok h'" "blocks h' = bs" "heap_bytes h' = heap_bytes h"
    by (rule heap_free_array [OF sim])
  then show ?thesis
    using that sim destroy_deque_each [of d free h] by (simp add: deque_sim_def)
qed

lemma heap_as_array:
  assumes sim: "deque_sim sz bs n d xs h" and sz: "0 < sz" "sz < 2 ^ 32" and f: "front d = 0"
  obtains cs d' where "as_array_deque malloc free sz d h = Some ((data d, cs, length xs), d', h)"
    and "take (length xs) cs = map Some xs"
proof -
  note al = deque_alloc_malloc [OF sz]
  have h: "deque_alloc.holds heap_ok owned sz d h" using sim by (simp add: deque_alloc.holds_def [OF al] deque_sim_def)
  have l: "deq_list d = xs" using sim by (simp add: deque_sim_def)
  show ?thesis using deque_alloc.as_array_ok [OF al h] f l that by fastforce
qed

subsection \<open>The properties\<close>

text \<open>C21: a deque behaves as a list. Any sequence of pushes, pops, peeks, updates and queries on
  a new deque returns what the same sequence returns on an empty list, stops the process
  exactly where the list operation is undefined (popping, peeking or updating an empty deque),
  and the deque always holds one block: destroying it gives the heap back as it was. The
  memory needed is three times the elements pushed.\<close>

theorem deque_refines_list:
  fixes cs :: "'a deque_call list"
  assumes h: "heap_ok h" and sz: "0 < sz" "sz < 2 ^ 32"
    and n: "n * sz \<le> avail h" and cs: "3 * length cs * sz \<le> avail h"
  shows "\<exists>d0 h0. new_deque malloc sz n h = Some (d0, h0) \<and>
    (case run_list cs [] of
       None \<Rightarrow> run_deque sz cs d0 h0 = None
     | Some (rs, xs) \<Rightarrow> \<exists>d1 h1. run_deque sz cs d0 h0 = Some (rs, d1, h1) \<and> deq_list d1 = xs
         \<and> (\<exists>d2 h2. destroy_deque free d1 h1 = Some (d2, h2) \<and> data d2 = 0 \<and> blocks h2 = blocks h))"
proof -
  obtain d0 :: "('a, heap) deque" and h0 where d0: "new_deque malloc sz n h = Some (d0, h0)"
    and sim: "deque_sim sz (blocks h) (length cs) d0 [] h0"
    by (rule heap_new [OF h sz n cs])
  have fin: "\<exists>d2 h2. destroy_deque free d1 h1 = Some (d2, h2) \<and> data d2 = 0 \<and> blocks h2 = blocks h"
    if "deque_sim sz (blocks h) 0 d1 xs h1" for d1 :: "('a, heap) deque" and xs h1
    by (rule heap_destroy [OF that]) blast
  show ?thesis
  proof (cases "run_list cs []")
    case None
    then show ?thesis using d0 run_deque_refines [OF sim sz] by auto
  next
    case (Some r)
    obtain rs xs where r: "r = (rs, xs)" by (cases r)
    with Some obtain d1 h1 where "run_deque sz cs d0 h0 = Some (rs, d1, h1)"
      and s1: "deque_sim sz (blocks h) 0 d1 xs h1"
      using run_deque_refines [OF sim sz] by auto
    moreover have "deq_list d1 = xs" using s1 by (simp add: deque_sim_def)
    ultimately show ?thesis using d0 fin [OF s1] Some r by auto
  qed
qed

theorem deque_refines_list_witness:
  "\<exists>d0 h0. new_deque malloc 8 1 \<lparr>blocks = [], brk = 1, avail = 1000\<rparr> = Some (d0, h0) \<and>
    (case run_list [PushBack (1::nat), PushFront 2, PushBack 3, PopFront, PopBack] [] of
       None \<Rightarrow> run_deque 8 [PushBack (1::nat), PushFront 2, PushBack 3, PopFront, PopBack] d0 h0 = None
     | Some (rs, xs) \<Rightarrow> \<exists>d1 h1.
         run_deque 8 [PushBack (1::nat), PushFront 2, PushBack 3, PopFront, PopBack] d0 h0 = Some (rs, d1, h1)
         \<and> deq_list d1 = xs
         \<and> (\<exists>d2 h2. destroy_deque free d1 h1 = Some (d2, h2) \<and> data d2 = 0
            \<and> blocks h2 = blocks \<lparr>blocks = [], brk = 1, avail = 1000\<rparr>))"
  by (rule deque_refines_list) (simp_all add: heap_ok_def heap_bytes_def)

end
