(* ===== verification/MemoryPool.thy ===== *)
theory MemoryPool
  imports Deque "HOL-Library.Multiset"
begin

text \<open>
  The memory pool of quash, \<open>src/project1/quash/src/parsing/memory_pool.c\<close>: a deque of blocks,
  each served from the bottom up; a request that does not fit makes the pool push a new,
  larger block. The deque is the \<open>malloc\<close> instance of theory \<open>Deque\<close>, with elements of 24
  bytes. A \<open>NULL\<close> pointer is 0; \<open>None\<close> means that the process stops, or undefined behaviour.
\<close>

subsection \<open>State\<close>

record MemoryPool =
  pool :: nat
  pool_size :: nat
  pool_next :: nat

text \<open>The file-scope variable \<open>pool_deq\<close>, and the heap it lives in.\<close>

record pool_state =
  pool_deq :: "(MemoryPool, heap) deque"
  pheap :: heap

abbreviation (input) sizeof_MemoryPool :: nat where "sizeof_MemoryPool \<equiv> 24"

subsection \<open>Operations\<close>

definition init_pool :: "nat \<Rightarrow> heap \<Rightarrow> (MemoryPool \<times> heap) option" where
  "init_pool sz h =
     (if sz = 0 then Some (\<lparr>pool = 0, pool_size = 0, pool_next = 0\<rparr>, h)
      else do { (mem, h) \<leftarrow> malloc sz h;
                let sz = (if mem = 0 then 0 else sz);
                Some (\<lparr>pool = mem, pool_size = sz, pool_next = mem\<rparr>, h) })"

text \<open>\<open>while (true)\<close>: the requested size is halved, but never below the required one.\<close>

function low_memory_init_pool :: "nat \<Rightarrow> nat \<Rightarrow> heap \<Rightarrow> (MemoryPool \<times> heap) option" where
  "low_memory_init_pool required failed h =
     (if failed \<le> required then None
      else let failed' = max (failed div 2) required in
        do { (ret, h) \<leftarrow> init_pool failed' h;
             if pool ret \<noteq> 0 then Some (ret, h) else low_memory_init_pool required failed' h })"
  by pat_completeness auto
termination
  by (relation "measure (\<lambda>(required, failed, h). failed)") auto

declare low_memory_init_pool.simps [simp del]

definition destroy_pool :: "MemoryPool \<Rightarrow> heap \<Rightarrow> heap option" where
  "destroy_pool mp h = free (pool mp) h"

definition initialize_memory_pool :: "nat \<Rightarrow> heap \<Rightarrow> pool_state option" where
  "initialize_memory_pool sz h =
     (let sz = (if sz = 0 then 1 else sz) in
      do { (d, h) \<leftarrow> new_destructable_deque malloc sizeof_MemoryPool 10 destroy_pool h;
           (mp, h) \<leftarrow> init_pool sz h;
           (mp, h) \<leftarrow> (if pool mp = 0 then low_memory_init_pool 1 sz h else Some (mp, h));
           (d, h) \<leftarrow> push_back malloc free sizeof_MemoryPool mp d h;
           Some \<lparr>pool_deq = d, pheap = h\<rparr> })"

text \<open>
  \<open>2 << (length_pool_deq - 1)\<close> is an \<open>int\<close>: shifting by 30 or more overflows it, which is
  undefined. The product with \<open>init_size\<close> is a \<open>size_t\<close>.\<close>

definition next_pool_size :: "nat \<Rightarrow> nat \<Rightarrow> nat option" where
  "next_pool_size init_size len =
     (if 1 \<le> len \<and> len \<le> 30 then Some (size64 (init_size * 2 ^ len)) else None)"

text \<open>The pool one round of the loop creates: an empty one if the next size is too small, else
  one of that size, or of what the heap can still serve.\<close>

definition grow_pool :: "nat \<Rightarrow> nat \<Rightarrow> heap \<Rightarrow> (MemoryPool \<times> heap) option" where
  "grow_pool sz new_size h =
     (if new_size < sz then init_pool 0 h
      else do { (mp, h) \<leftarrow> init_pool new_size h;
                if pool mp = 0 then low_memory_init_pool sz new_size h else Some (mp, h) })"

text \<open>The loop: \<open>mp\<close> is the local variable \<open>pool\<close>.\<close>

partial_function (option) find_room ::
    "nat \<Rightarrow> nat \<Rightarrow> MemoryPool \<Rightarrow> pool_state \<Rightarrow> (MemoryPool \<times> pool_state) option" where
  "find_room sz init_size mp st =
     (if size64 (pool_next mp - pool mp + sz) > pool_size mp then
        do { len \<leftarrow> length_deque (pool_deq st);
             new_size \<leftarrow> next_pool_size init_size len;
             (mp, h) \<leftarrow> grow_pool sz new_size (pheap st);
             (d, h) \<leftarrow> push_back malloc free sizeof_MemoryPool mp (pool_deq st) h;
             find_room sz init_size mp \<lparr>pool_deq = d, pheap = h\<rparr> }
      else Some (mp, st))"

declare find_room.simps [code]

definition memory_pool_alloc :: "nat \<Rightarrow> pool_state \<Rightarrow> (nat \<times> pool_state) option" where
  "memory_pool_alloc sz st =
     do { e \<leftarrow> is_empty_deque (pool_deq st);
          if e then None
          else do {
            mp \<leftarrow> peek_back (pool_deq st);
            init_mp \<leftarrow> peek_front (pool_deq st);
            if pool mp = 0 \<or> pool_size mp = 0 \<or> pool_next mp = 0 then None
            else do {
              (mp, st) \<leftarrow> find_room sz (pool_size init_mp) mp st;
              b \<leftarrow> peek_back (pool_deq st);
              if pool_next mp \<noteq> pool_next b then None
              else do {
                d \<leftarrow> update_back (mp\<lparr>pool_next := pool_next mp + sz\<rparr>) (pool_deq st);
                Some (pool_next mp, st\<lparr>pool_deq := d\<rparr>) } } } }"

definition destroy_memory_pool :: "pool_state \<Rightarrow> pool_state option" where
  "destroy_memory_pool st =
     do { (d, h) \<leftarrow> destroy_deque free (pool_deq st) (pheap st); Some \<lparr>pool_deq = d, pheap = h\<rparr> }"

text \<open>\<open>memory_pool_strdup\<close>: the copied characters are returned with their address.\<close>

definition memory_pool_strdup :: "string \<Rightarrow> pool_state \<Rightarrow> ((nat \<times> string) \<times> pool_state) option" where
  "memory_pool_strdup str st =
     do { (p, st) \<leftarrow> memory_pool_alloc (length str + 1) st; Some ((p, str), st) }"

subsection \<open>The invariant\<close>

text \<open>A pool is either the empty one the loop pushes, or a block with its used part.\<close>

definition pool_fine :: "MemoryPool \<Rightarrow> bool" where
  "pool_fine m \<longleftrightarrow> pool m = 0 \<and> pool_size m = 0 \<and> pool_next m = 0
     \<or> pool m \<noteq> 0 \<and> 0 < pool_size m \<and> pool m \<le> pool_next m \<and> pool_next m \<le> pool m + pool_size m"

definition pool_blocks :: "MemoryPool list \<Rightarrow> (nat \<times> nat) multiset" where
  "pool_blocks ms = mset (map (\<lambda>m. (pool m, pool_size m)) (filter (\<lambda>m. pool m \<noteq> 0) ms))"

definition deque_block :: "(MemoryPool, heap) deque \<Rightarrow> nat \<times> nat" where
  "deque_block d = (data d, length (cells d) * sizeof_MemoryPool)"

text \<open>The heap holds the array of the deque, the pools, and the blocks \<open>bs\<close> of everybody else.\<close>

definition deque_inv :: "(nat \<times> nat) multiset \<Rightarrow> (MemoryPool, heap) deque \<Rightarrow> heap \<Rightarrow> bool" where
  "deque_inv bs d h \<longleftrightarrow> heap_ok h \<and> deque_ok d \<and> destructor d = Some destroy_pool
     \<and> mset (blocks h) = add_mset (deque_block d) bs"

definition pool_inv :: "(nat \<times> nat) multiset \<Rightarrow> nat \<Rightarrow> pool_state \<Rightarrow> bool" where
  "pool_inv bs I st \<longleftrightarrow>
     deque_inv (bs + pool_blocks (deq_list (pool_deq st))) (pool_deq st) (pheap st)
     \<and> 0 < I \<and> (\<forall>m \<in> set (deq_list (pool_deq st)). pool_fine m)
     \<and> (\<exists>m ms. deq_list (pool_deq st) = m # ms \<and> pool m \<noteq> 0 \<and> pool_size m = I)"

interpretation pools: deque_alloc malloc free heap_ok owned sizeof_MemoryPool
  by unfold_locales simp_all

lemma deque_inv_holds: "deque_inv bs d h \<Longrightarrow> pools.holds d h"
proof -
  assume inv: "deque_inv bs d h"
  then have "set_mset (mset (blocks h)) = insert (deque_block d) (set_mset bs)"
    by (simp only: deque_inv_def set_mset_add_mset_insert)
  then have "deque_block d \<in> set (blocks h)" by simp
  with inv show ?thesis by (simp add: deque_inv_def pools.holds_def owned_def deque_block_def)
qed

lemma malloc_blocks:
  assumes "heap_ok h" and "malloc n h = Some (p, h')" and "p \<noteq> 0"
  shows "heap_ok h'" and "mset (blocks h') = add_mset (p, n) (mset (blocks h))" and "avail h' = avail h - n"
    and "n \<le> avail h"
  using malloc_owned [OF assms] by auto

lemma filter_other_block:
  "distinct (map fst bs) \<Longrightarrow> (p, n) \<in> set bs \<Longrightarrow>
    mset (filter (\<lambda>(q, _). q \<noteq> p) bs) = mset bs - {#(p, n)#}"
proof (induction bs)
  case Nil
  then show ?case by simp
next
  case (Cons b bs)
  show ?case
  proof (cases "b = (p, n)")
    case True
    with Cons.prems have "\<forall>(q, k) \<in> set bs. q \<noteq> p" by force
    then have "filter (\<lambda>(q, _). q \<noteq> p) bs = bs" by (intro filter_True) auto
    with True show ?thesis by simp
  next
    case False
    with Cons.prems have "(p, n) \<in> set bs" by auto
    moreover from this have "p \<in> fst ` set bs" by force
    ultimately have "(p, n) \<in> set bs" and "fst b \<noteq> p" using Cons.prems by auto
    with Cons False show ?thesis by (auto simp: split_def)
  qed
qed

lemma free_blocks:
  assumes ok: "heap_ok h" and m: "mset (blocks h) = add_mset (p, n) bs"
  shows "\<exists>h'. free p h = Some h' \<and> heap_ok h' \<and> mset (blocks h') = bs \<and> avail h' = avail h + n"
proof -
  have "(p, n) \<in> set (blocks h)" using m by (metis set_mset_add_mset_insert set_mset_mset insertI1)
  then show ?thesis
    using free_owned [OF ok, of p n] filter_other_block [of "blocks h" p n] ok m
    by (auto simp: owned_def heap_ok_def)
qed

lemma push_back_pool:
  assumes inv: "deque_inv bs d h" and r: "push_back malloc free sizeof_MemoryPool m d h = Some (d', h')"
  shows "deque_inv bs d' h'" and "deq_list d' = deq_list d @ [m]"
proof -
  note P = pools.push_back_Some [OF deque_inv_holds [OF inv] r]
  show "deq_list d' = deq_list d @ [m]" using P by simp
  show "deque_inv bs d' h'"
  proof (cases "front d = Suc (rear d) mod cap d")
    case False
    then show ?thesis using P inv by (simp add: deque_inv_def pools.holds_def deque_block_def)
  next
    case True
    with P obtain p h1 where a: "malloc (2 * cap d * sizeof_MemoryPool) h = Some (p, h1)" "p \<noteq> 0"
      and f: "free (data d) h1 = Some h'" and d': "data d' = p" "length (cells d') = 2 * cap d" by auto
    have ok: "heap_ok h" using inv by (simp add: deque_inv_def)
    have "mset (blocks h1) = add_mset (deque_block d) (add_mset (deque_block d') bs)"
      using malloc_blocks(2) [OF ok a] inv d' by (simp add: deque_inv_def deque_block_def add_mset_commute)
    from free_blocks [OF malloc_blocks(1) [OF ok a] this [unfolded deque_block_def [of d]]] f
    show ?thesis using P inv by (simp add: deque_inv_def pools.holds_def)
  qed
qed

lemma malloc_defined: "\<exists>p h'. malloc n h = Some (p, h')"
  by (cases "malloc n h") (auto simp: malloc_def)

lemma init_pool_cases:
  assumes "heap_ok h" and "init_pool n h = Some (m, h')"
  shows "pool_fine m \<and> pool_next m = pool m \<and> heap_ok h'
    \<and> (if pool m = 0 then h' = h \<and> (n = 0 \<or> avail h < n) else 0 < n \<and> pool_size m = n
       \<and> mset (blocks h') = add_mset (pool m, n) (mset (blocks h)) \<and> n \<le> avail h)"
proof (cases "n = 0")
  case True
  then show ?thesis using assms by (auto simp: init_pool_def pool_fine_def)
next
  case False
  obtain p h1 where a: "malloc n h = Some (p, h1)"
    using malloc_defined by blast
  show ?thesis
  proof (cases "p = 0")
    case True
    then have "h1 = h \<and> avail h < n" using a assms(1) by (auto simp: malloc_def heap_ok_def split: if_splits)
    then show ?thesis using True False a assms by (auto simp: init_pool_def pool_fine_def)
  next
    case p: False
    then show ?thesis
      using False a malloc_blocks [OF assms(1) a p] assms by (auto simp: init_pool_def pool_fine_def)
  qed
qed

lemma init_pool_defined: "\<exists>m h'. init_pool n h = Some (m, h')"
  by (auto simp: init_pool_def malloc_def)

lemma low_memory_init_pool_ok:
  assumes "heap_ok h" and "low_memory_init_pool req n h = Some (m, h')"
  shows "\<exists>k. init_pool k h = Some (m, h') \<and> req \<le> k \<and> k < n \<and> pool m \<noteq> 0"
  using assms
proof (induction req n h rule: low_memory_init_pool.induct)
  case (1 req n h)
  let ?n = "max (n div 2) req"
  have gt: "req < n" using "1.prems"(2) by (simp add: low_memory_init_pool.simps [of req n] split: if_splits)
  obtain m1 h1 where i: "init_pool ?n h = Some (m1, h1)" using init_pool_defined by blast
  show ?case
  proof (cases "pool m1 = 0")
    case False
    then have "m1 = m" "h1 = h'" using "1.prems"(2) gt i by (simp_all add: low_memory_init_pool.simps [of req n])
    then show ?thesis using i False gt by (intro exI [of _ ?n]) auto
  next
    case True
    then have same: "h1 = h" using init_pool_cases [OF "1.prems"(1) i] by simp
    have "low_memory_init_pool req ?n h = Some (m, h')"
      using "1.prems"(2) gt i True same by (simp add: low_memory_init_pool.simps [of req n])
    then have "\<exists>k. init_pool k h = Some (m, h') \<and> req \<le> k \<and> k < ?n \<and> pool m \<noteq> 0"
      using "1.IH" [OF _ refl, of "(m1, h1)" m1 h1] gt i True same "1.prems"(1) by auto
    moreover have "?n < n" using gt by simp
    ultimately show ?thesis by (meson order.strict_trans)
  qed
qed

subsection \<open>Finding room\<close>

text \<open>The part of the pools that has been handed out.\<close>

definition in_pool :: "nat \<Rightarrow> nat \<Rightarrow> MemoryPool \<Rightarrow> bool" where
  "in_pool p n m \<longleftrightarrow> pool m \<noteq> 0 \<and> pool m \<le> p \<and> p + n \<le> pool_next m"

definition served :: "nat \<Rightarrow> nat \<Rightarrow> pool_state \<Rightarrow> bool" where
  "served p n st \<longleftrightarrow> (\<exists>m \<in> set (deq_list (pool_deq st)). in_pool p n m)"

lemma pool_blocks_snoc:
  "pool_blocks (ms @ [m]) = (if pool m = 0 then pool_blocks ms else add_mset (pool m, pool_size m) (pool_blocks ms))"
  by (simp add: pool_blocks_def)

text \<open>Pushing a pool keeps the invariant.\<close>

lemma push_pool_inv:
  assumes inv: "pool_inv bs I st" and i: "init_pool n (pheap st) = Some (m, h)"
    and r: "push_back malloc free sizeof_MemoryPool m (pool_deq st) h = Some (d, h')"
  shows "pool_inv bs I \<lparr>pool_deq = d, pheap = h'\<rparr>" and "deq_list d = deq_list (pool_deq st) @ [m]"
proof -
  let ?ms = "deq_list (pool_deq st)"
  have ok: "heap_ok (pheap st)" using inv by (simp add: pool_inv_def deque_inv_def)
  note c = init_pool_cases [OF ok i]
  have "deque_inv (bs + pool_blocks (?ms @ [m])) (pool_deq st) h"
    using inv c by (auto simp: pool_inv_def deque_inv_def pool_blocks_snoc add_mset_commute)
  from push_back_pool [OF this r] inv c
  show "pool_inv bs I \<lparr>pool_deq = d, pheap = h'\<rparr>" and "deq_list d = ?ms @ [m]"
    by (auto simp: pool_inv_def)
qed

text \<open>One round of the loop: which pool is created.\<close>

lemma grow_pool_init:
  assumes ok: "heap_ok h" and g: "grow_pool sz new_size h = Some (m, h')"
  shows "\<exists>n. init_pool n h = Some (m, h') \<and> (n = 0 \<and> new_size < sz \<or> sz \<le> n \<and> n \<le> new_size)"
proof (cases "new_size < sz")
  case True
  then show ?thesis using g by (auto simp: grow_pool_def)
next
  case False
  obtain m1 h1 where i1: "init_pool new_size h = Some (m1, h1)" using init_pool_defined by blast
  show ?thesis
  proof (cases "pool m1 = 0")
    case nz: False
    then show ?thesis using g i1 False by (auto simp: grow_pool_def)
  next
    case True
    then have "h1 = h" using init_pool_cases [OF ok i1] by simp
    then show ?thesis
      using g i1 True False low_memory_init_pool_ok [OF ok, of sz new_size m h']
      by (auto simp: grow_pool_def)
  qed
qed

definition found_room ::
    "(nat \<times> nat) multiset \<Rightarrow> nat \<Rightarrow> nat \<Rightarrow> pool_state \<Rightarrow> MemoryPool \<times> pool_state \<Rightarrow> bool" where
  "found_room bs I sz st r \<longleftrightarrow> pool_inv bs I (snd r) \<and> last (deq_list (pool_deq (snd r))) = fst r
     \<and> size64 (pool_next (fst r) - pool (fst r) + sz) \<le> pool_size (fst r)
     \<and> (\<exists>ms. deq_list (pool_deq (snd r)) = deq_list (pool_deq st) @ ms)"

lemma find_room_ok:
  assumes ret: "find_room sz init mp st = Some r" and inv: "pool_inv bs I st"
    and last: "last (deq_list (pool_deq st)) = mp"
  shows "found_room bs I sz st r"
proof -
  have "pool_inv bs I st \<longrightarrow> last (deq_list (pool_deq st)) = mp \<longrightarrow> found_room bs I sz st r"
  proof (rule find_room.raw_induct [where P = "\<lambda>sz init mp st r.
      pool_inv bs I st \<longrightarrow> last (deq_list (pool_deq st)) = mp \<longrightarrow> found_room bs I sz st r", OF _ ret], intro impI)
    fix f sz init mp st r
    assume IH: "\<And>sz init mp st r. f sz init mp st = Some r \<Longrightarrow>
        pool_inv bs I st \<longrightarrow> last (deq_list (pool_deq st)) = mp \<longrightarrow> found_room bs I sz st r"
      and eq: "(if pool_size mp < size64 (pool_next mp - pool mp + sz)
        then length_deque (pool_deq st) \<bind> (\<lambda>len. next_pool_size init len \<bind> (\<lambda>new_size.
          grow_pool sz new_size (pheap st) \<bind> (\<lambda>(mp, h).
          push_back malloc free sizeof_MemoryPool mp (pool_deq st) h \<bind> (\<lambda>(d, h).
          f sz init mp \<lparr>pool_deq = d, pheap = h\<rparr>))))
        else Some (mp, st)) = Some r"
      and inv: "pool_inv bs I st" and last: "last (deq_list (pool_deq st)) = mp"
    show "found_room bs I sz st r"
    proof (cases "pool_size mp < size64 (pool_next mp - pool mp + sz)")
      case False
      then show ?thesis using eq inv last by (auto simp: found_room_def)
    next
      case True
      with eq obtain new_size m h d h' where i: "grow_pool sz new_size (pheap st) = Some (m, h)"
        and p: "push_back malloc free sizeof_MemoryPool m (pool_deq st) h = Some (d, h')"
        and f: "f sz init m \<lparr>pool_deq = d, pheap = h'\<rparr> = Some r"
        by (auto simp: bind_eq_Some_conv)
      have ok: "heap_ok (pheap st)" using inv by (simp add: pool_inv_def deque_inv_def)
      obtain n where "init_pool n (pheap st) = Some (m, h)" using grow_pool_init [OF ok i] by blast
      note q = push_pool_inv [OF inv this p]
      show ?thesis using IH [OF f] q by (auto simp: found_room_def)
    qed
  qed
  with inv last show ?thesis by blast
qed

subsection \<open>Allocation\<close>

lemma pool_inv_ok: "pool_inv bs I st \<Longrightarrow> deque_ok (pool_deq st) \<and> deq_list (pool_deq st) \<noteq> []"
  by (auto simp: pool_inv_def deque_inv_def)

text \<open>Two pools of the deque do not overlap.\<close>

lemma pool_starts_distinct:
  assumes inv: "pool_inv bs I st"
  shows "distinct (map pool (filter (\<lambda>m. pool m \<noteq> 0) (deq_list (pool_deq st))))"
proof -
  let ?ps = "map (\<lambda>m. (pool m, pool_size m)) (filter (\<lambda>m. pool m \<noteq> 0) (deq_list (pool_deq st)))"
  obtain cs where cs: "mset cs = bs" using ex_mset by blast
  have "mset (blocks (pheap st)) = mset (deque_block (pool_deq st) # cs @ ?ps)"
    using inv cs by (simp add: pool_inv_def deque_inv_def pool_blocks_def)
  then have "mset (map fst (blocks (pheap st))) = mset (map fst (deque_block (pool_deq st) # cs @ ?ps))"
    by (simp only: mset_map)
  then have "distinct (map fst (deque_block (pool_deq st) # cs @ ?ps))"
    using mset_eq_imp_distinct_iff [of "map fst (blocks (pheap st))"] inv
    by (simp only: pool_inv_def deque_inv_def heap_ok_def)
  then show ?thesis by (simp add: comp_def)
qed

lemma pool_owned:
  assumes inv: "pool_inv bs I st" and m: "m \<in> set (deq_list (pool_deq st))" "pool m \<noteq> 0"
  shows "(pool m, pool_size m) \<in> set (blocks (pheap st))"
proof -
  have "set_mset (mset (blocks (pheap st))) =
      insert (deque_block (pool_deq st)) (set_mset bs \<union> set_mset (pool_blocks (deq_list (pool_deq st))))"
    using inv by (simp only: pool_inv_def deque_inv_def set_mset_add_mset_insert set_mset_union)
  then show ?thesis using m by (auto simp: pool_blocks_def)
qed

lemma pools_apart:
  assumes inv: "pool_inv bs I st" and s: "deq_list (pool_deq st) = as @ m # cs @ m' # ds"
    and nz: "pool m \<noteq> 0" "pool m' \<noteq> 0"
  shows "pool m + pool_size m \<le> pool m' \<or> pool m' + pool_size m' \<le> pool m"
proof -
  have ok: "heap_ok (pheap st)" using inv by (simp add: pool_inv_def deque_inv_def)
  have "pool m \<noteq> pool m'"
    using pool_starts_distinct [OF inv] s nz by auto
  then have "\<not> overlap (pool m, pool_size m) (pool m', pool_size m')"
    using ok pool_owned [OF inv, of m] pool_owned [OF inv, of m'] s nz
    unfolding heap_ok_def pairwise_def by auto
  then show ?thesis by (auto simp: overlap_def)
qed

lemma peek_front_hd: "deque_ok d \<Longrightarrow> deq_list d \<noteq> [] \<Longrightarrow> peek_front d = Some (hd (deq_list d))"
  by (cases "deq_list d") (simp_all add: peek_front_ok)

lemma pool_alloc_step:
  assumes inv: "pool_inv bs I st" and r: "memory_pool_alloc n st = Some (p, st')" and n: "n \<le> 2 ^ 63"
  shows "\<exists>ms m. pool_inv bs I st' \<and> deq_list (pool_deq st') = ms @ [m\<lparr>pool_next := pool_next m + n\<rparr>]
    \<and> (\<exists>xs. ms @ [m] = deq_list (pool_deq st) @ xs) \<and> p = pool_next m \<and> pool m \<noteq> 0
    \<and> pool m \<le> pool_next m \<and> pool_next m + n \<le> pool m + pool_size m
    \<and> (\<exists>st1. pool_inv bs I st1 \<and> deq_list (pool_deq st1) = ms @ [m])"
proof -
  let ?xs = "deq_list (pool_deq st)"
  have ok: "deque_ok (pool_deq st)" and ne: "?xs \<noteq> []" using pool_inv_ok [OF inv] by auto
  note peek = pop_back_ok(4)
  from r obtain m st1 d where nz: "pool (last ?xs) \<noteq> 0"
    and f: "find_room n (pool_size (hd ?xs)) (last ?xs) st = Some (m, st1)"
    and u: "update_back (m\<lparr>pool_next := pool_next m + n\<rparr>) (pool_deq st1) = Some d"
    and st': "st' = st1\<lparr>pool_deq := d\<rparr>" and p: "p = pool_next m"
    using is_empty_deque_ok [OF ok] peek [OF ok] peek_front_hd [OF ok ne] ne
    by (auto simp: memory_pool_alloc_def bind_eq_Some_conv split: if_splits)
  from find_room_ok [OF f inv refl] have inv1: "pool_inv bs I st1"
    and last: "last (deq_list (pool_deq st1)) = m" and room: "size64 (pool_next m - pool m + n) \<le> pool_size m"
    and ext: "\<exists>ys. deq_list (pool_deq st1) = ?xs @ ys" by (auto simp: found_room_def)
  obtain ms where ms: "deq_list (pool_deq st1) = ms @ [m]"
    using last pool_inv_ok [OF inv1] append_butlast_last_id by metis
  have ok1: "deque_ok (pool_deq st1)" using pool_inv_ok [OF inv1] by simp
  have fine: "pool_fine m" using inv1 ms by (simp add: pool_inv_def)
  have size: "pool_size m \<le> 2 ^ 62"
  proof (cases "pool m = 0")
    case False
    then have "owned (pool m) (pool_size m) (pheap st1)"
      using pool_owned [OF inv1, of m] ms by (simp add: owned_def)
    then show ?thesis using owned_bound inv1 by (auto simp: pool_inv_def deque_inv_def)
  qed (use fine in \<open>simp add: pool_fine_def\<close>)
  have "pool_next m - pool m \<le> 2 ^ 62" using fine size by (auto simp: pool_fine_def)
  then have w: "size64 (pool_next m - pool m + n) = pool_next m - pool m + n" using n by (intro size64_id) simp
  have m0: "pool m \<noteq> 0"
  proof
    assume z: "pool m = 0"
    then have "n = 0" using fine room w by (simp add: pool_fine_def)
    moreover have "pool_fine (last ?xs)" using inv ne by (simp add: pool_inv_def)
    moreover have "pool_size (last ?xs) \<le> 2 ^ 62"
      using owned_bound [of "pheap st"] pool_owned [OF inv, of "last ?xs"] inv ne nz
      by (auto simp: pool_inv_def deque_inv_def owned_def)
    ultimately have "\<not> size64 (pool_next (last ?xs) - pool (last ?xs) + n) > pool_size (last ?xs)"
      using nz by (auto simp: pool_fine_def)
    then have "find_room n (pool_size (hd ?xs)) (last ?xs) st = Some (last ?xs, st)"
      by (simp add: find_room.simps)
    then show False using f z nz by simp
  qed
  let ?m = "m\<lparr>pool_next := pool_next m + n\<rparr>"
  have fits: "pool m \<le> pool_next m" "pool_next m + n \<le> pool m + pool_size m"
    using room w fine m0 by (auto simp: pool_fine_def)
  obtain d' where d': "update_back ?m (pool_deq st1) = Some d'" "deque_ok d'"
    "deq_list d' = butlast (deq_list (pool_deq st1)) @ [?m]" "data d' = data (pool_deq st1)"
    "length (cells d') = length (cells (pool_deq st1))" "destructor d' = destructor (pool_deq st1)"
    using update_back_ok [OF ok1, of ?m] pool_inv_ok [OF inv1] by auto
  have lst: "deq_list (pool_deq st') = ms @ [?m]" using d' u st' ms by simp
  have "pool_blocks (ms @ [?m]) = pool_blocks (ms @ [m])" by (simp add: pool_blocks_def)
  moreover have "pool_fine ?m" using fits m0 fine by (simp add: pool_fine_def)
  ultimately have "pool_inv bs I st'"
    using inv1 d' u st' lst ms
    by (cases ms) (auto simp: pool_inv_def deque_inv_def deque_block_def)
  then show ?thesis
    using lst ext ms p m0 fits inv1 by (intro exI [of _ ms] exI [of _ m]) auto
qed

text \<open>What one allocation does to the parts served before.\<close>

lemma pool_alloc_served:
  assumes inv: "pool_inv bs I st" and r: "memory_pool_alloc n st = Some (p, st')" and n: "n \<le> 2 ^ 63"
  shows "pool_inv bs I st'" and "served p n st'" and "p \<noteq> 0"
    and "served q k st \<Longrightarrow> served q k st'" and "served q k st \<Longrightarrow> q + k \<le> p \<or> p + n \<le> q"
proof -
  obtain ms m xs st1 where inv': "pool_inv bs I st'"
    and l': "deq_list (pool_deq st') = ms @ [m\<lparr>pool_next := pool_next m + n\<rparr>]"
    and l: "ms @ [m] = deq_list (pool_deq st) @ xs" and p: "p = pool_next m" and m0: "pool m \<noteq> 0"
    and b: "pool m \<le> pool_next m" "pool_next m + n \<le> pool m + pool_size m"
    and inv1: "pool_inv bs I st1" and l1: "deq_list (pool_deq st1) = ms @ [m]"
    using pool_alloc_step [OF inv r n] by blast
  show "pool_inv bs I st'" by (rule inv')
  show "p \<noteq> 0" using p b m0 by simp
  show "served p n st'" using l' p m0 b by (simp add: served_def in_pool_def)
  assume s: "served q k st"
  then obtain m' where m': "m' \<in> set (ms @ [m])" "in_pool q k m'"
    by (auto simp: served_def l)
  show "served q k st'"
  proof (cases "m' \<in> set ms")
    case True
    then show ?thesis using m' l' by (auto simp: served_def)
  next
    case False
    then have "m' = m" using m' by simp
    then show ?thesis using m' l' by (auto simp: served_def in_pool_def)
  qed
  show "q + k \<le> p \<or> p + n \<le> q"
  proof (cases "m' \<in> set ms")
    case True
    then obtain as cs where "ms = as @ m' # cs" by (auto simp: in_set_conv_decomp)
    then have "pool m' + pool_size m' \<le> pool m \<or> pool m + pool_size m \<le> pool m'"
      using pools_apart [OF inv1, of as m' cs m "[]"] l1 m0 m' by (auto simp: in_pool_def)
    moreover have "pool_next m' \<le> pool m' + pool_size m'"
      using inv1 l1 m' by (auto simp: pool_inv_def pool_fine_def in_pool_def)
    ultimately show ?thesis using m'(2) p b by (auto simp: in_pool_def)
  next
    case False
    then have "m' = m" using m' by simp
    then show ?thesis using m'(2) p by (simp add: in_pool_def)
  qed
qed

subsection \<open>Initialisation and destruction\<close>

lemma new_pool_deque:
  assumes ok: "heap_ok h"
    and r: "new_destructable_deque malloc sizeof_MemoryPool 10 destroy_pool h = Some (d, h')"
  shows "deque_inv (mset (blocks h)) d h'" and "deq_list d = []"
proof -
  obtain p h1 where a: "malloc (10 * sizeof_MemoryPool) h = Some (p, h1)" using malloc_defined by blast
  have p: "p \<noteq> 0"
  proof
    assume "p = 0"
    then show False using r a by (simp add: new_destructable_deque_def new_deque_def)
  qed
  obtain d0 :: "(MemoryPool, heap) deque" where d0: "new_deque malloc sizeof_MemoryPool 10 h = Some (d0, h1)"
    and h0: "pools.holds d0 h1" "deq_list d0 = []" "length (cells d0) = 10" "data d0 = p"
    using pools.new_ok [OF ok _ a p] by auto
  have d: "d = d0\<lparr>destructor := Some destroy_pool\<rparr>" "h' = h1"
    using r d0 by (auto simp: new_destructable_deque_def)
  have same: "deq_list d = deq_list d0" "deque_ok d = deque_ok d0"
    by (simp_all add: d deq_list_def deque_ok_def deq_len_def deq_cell_def)
  then show "deq_list d = []" using h0 by simp
  show "deque_inv (mset (blocks h)) d h'"
    using same h0 d malloc_blocks [OF ok a p]
    by (simp add: deque_inv_def pools.holds_def deque_block_def)
qed

lemma initialize_memory_pool_inv:
  assumes ok: "heap_ok h" and r: "initialize_memory_pool n h = Some st"
  shows "\<exists>I. pool_inv (mset (blocks h)) I st \<and> pool (last (deq_list (pool_deq st))) \<noteq> 0"
proof -
  let ?n = "if n = 0 then 1 else n"
  from r obtain d h1 m1 h2 m h3 d' h4 where
    nd: "new_destructable_deque malloc sizeof_MemoryPool 10 destroy_pool h = Some (d, h1)"
    and i: "init_pool ?n h1 = Some (m1, h2)"
    and l: "(if pool m1 = 0 then low_memory_init_pool 1 ?n h2 else Some (m1, h2)) = Some (m, h3)"
    and p: "push_back malloc free sizeof_MemoryPool m d h3 = Some (d', h4)"
    and st: "st = \<lparr>pool_deq = d', pheap = h4\<rparr>"
    by (auto simp: initialize_memory_pool_def Let_def bind_eq_Some_conv)
  note nd' = new_pool_deque [OF ok nd]
  have ok1: "heap_ok h1" using nd' by (simp add: deque_inv_def)
  have "\<exists>k. init_pool k h1 = Some (m, h3) \<and> pool m \<noteq> 0"
  proof (cases "pool m1 = 0")
    case True
    then have "h2 = h1" using init_pool_cases [OF ok1 i] by simp
    then show ?thesis using low_memory_init_pool_ok [OF ok1, of 1 ?n m h3] True l by auto
  next
    case False
    then show ?thesis using i l by auto
  qed
  then obtain k where k: "init_pool k h1 = Some (m, h3)" and nz: "pool m \<noteq> 0" by blast
  note c = init_pool_cases [OF ok1 k]
  have "deque_inv (mset (blocks h) + pool_blocks [m]) d h3"
    using nd' c nz by (simp add: deque_inv_def pool_blocks_def add_mset_commute)
  from push_back_pool [OF this p] c nz nd' st
  have "pool_inv (mset (blocks h)) (pool_size m) st \<and> pool (last (deq_list (pool_deq st))) \<noteq> 0"
    by (auto simp: pool_inv_def pool_fine_def)
  then show ?thesis by blast
qed

lemma each_destroy_pool:
  assumes "heap_ok h" and "mset (blocks h) = pool_blocks ms + bs"
  shows "\<exists>h'. each destroy_pool ms h = Some h' \<and> heap_ok h' \<and> mset (blocks h') = bs"
  using assms
proof (induction ms arbitrary: h)
  case Nil
  then show ?case by (simp add: pool_blocks_def)
next
  case (Cons m ms)
  have "\<exists>h1. free (pool m) h = Some h1 \<and> heap_ok h1 \<and> mset (blocks h1) = pool_blocks ms + bs"
  proof (cases "pool m = 0")
    case True
    then show ?thesis using Cons.prems by (simp add: free_def pool_blocks_def)
  next
    case False
    then show ?thesis
      using free_blocks [OF Cons.prems(1), of "pool m" "pool_size m" "pool_blocks ms + bs"] Cons.prems(2)
      by (auto simp: pool_blocks_def)
  qed
  then obtain h1 where h1: "free (pool m) h = Some h1" "heap_ok h1" "mset (blocks h1) = pool_blocks ms + bs"
    by blast
  then show ?case using Cons.IH [OF h1(2,3)] by (simp add: destroy_pool_def)
qed

lemma destroy_memory_pool_inv:
  assumes inv: "pool_inv bs I st"
  shows "\<exists>st'. destroy_memory_pool st = Some st' \<and> heap_ok (pheap st') \<and> mset (blocks (pheap st')) = bs
    \<and> data (pool_deq st') = 0"
proof -
  let ?d = "pool_deq st"
  have ok: "deque_ok ?d" "heap_ok (pheap st)" "destructor ?d = Some destroy_pool"
    using inv by (auto simp: pool_inv_def deque_inv_def)
  have "mset (blocks (pheap st)) = pool_blocks (deq_list ?d) + add_mset (deque_block ?d) bs"
    using inv by (simp add: pool_inv_def deque_inv_def ac_simps)
  then obtain h1 where h1: "each destroy_pool (deq_list ?d) (pheap st) = Some h1" "heap_ok h1"
    "mset (blocks h1) = add_mset (deque_block ?d) bs"
    using each_destroy_pool [OF ok(2)] by blast
  then obtain h2 where "free (data ?d) h1 = Some h2" "heap_ok h2" "mset (blocks h2) = bs"
    using free_blocks [OF h1(2) h1(3) [unfolded deque_block_def]] by blast
  then show ?thesis
    using h1 ok by (auto simp: destroy_memory_pool_def destroy_deque_each)
qed

subsection \<open>Sequences of allocations\<close>

fun alloc_all :: "nat list \<Rightarrow> pool_state \<Rightarrow> (nat list \<times> pool_state) option" where
  "alloc_all [] st = Some ([], st)"
| "alloc_all (n # ns) st =
     do { (p, st) \<leftarrow> memory_pool_alloc n st; (ps, st) \<leftarrow> alloc_all ns st; Some (p # ps, st) }"

fun disjoint_blocks :: "(nat \<times> nat) list \<Rightarrow> bool" where
  "disjoint_blocks [] = True"
| "disjoint_blocks ((p, n) # bs) =
     ((\<forall>(q, k) \<in> set bs. p + n \<le> q \<or> q + k \<le> p) \<and> disjoint_blocks bs)"

lemma alloc_all_last:
  assumes "pool_inv bs I st" and "alloc_all ns st = Some (ps, st')" and "\<forall>n \<in> set ns. n \<le> 2 ^ 63"
    and "pool (last (deq_list (pool_deq st))) \<noteq> 0"
  shows "pool (last (deq_list (pool_deq st'))) \<noteq> 0"
  using assms
proof (induction ns arbitrary: st ps)
  case (Cons n ns)
  from Cons.prems(2) obtain p st1 ps' where a: "memory_pool_alloc n st = Some (p, st1)"
    and b: "alloc_all ns st1 = Some (ps', st')" by (auto simp: bind_eq_Some_conv)
  have n: "n \<le> 2 ^ 63" using Cons.prems by simp
  have "pool (last (deq_list (pool_deq st1))) \<noteq> 0"
    using pool_alloc_step [OF Cons.prems(1) a n] by auto
  then show ?case using Cons.IH [OF pool_alloc_served(1) [OF Cons.prems(1) a n] b] Cons.prems by simp
qed simp

lemma alloc_all_ok:
  assumes "pool_inv bs I st" and "alloc_all ns st = Some (ps, st')" and "\<forall>n \<in> set ns. n \<le> 2 ^ 63"
  shows "pool_inv bs I st' \<and> length ps = length ns \<and> 0 \<notin> set ps \<and> disjoint_blocks (zip ps ns)
    \<and> (\<forall>(p, n) \<in> set (zip ps ns). served p n st')
    \<and> (\<forall>q k. served q k st \<longrightarrow> served q k st' \<and> (\<forall>(p, n) \<in> set (zip ps ns). q + k \<le> p \<or> p + n \<le> q))"
  using assms
proof (induction ns arbitrary: st ps)
  case Nil
  then show ?case by auto
next
  case (Cons n ns)
  from Cons.prems(2) obtain p st1 ps' where a: "memory_pool_alloc n st = Some (p, st1)"
    and b: "alloc_all ns st1 = Some (ps', st')" and ps: "ps = p # ps'" by (auto simp: bind_eq_Some_conv)
  have n: "n \<le> 2 ^ 63" using Cons.prems by simp
  note A = pool_alloc_served [OF Cons.prems(1) a n]
  have IH: "pool_inv bs I st' \<and> length ps' = length ns \<and> 0 \<notin> set ps' \<and> disjoint_blocks (zip ps' ns)
    \<and> (\<forall>(p, n) \<in> set (zip ps' ns). served p n st')
    \<and> (\<forall>q k. served q k st1 \<longrightarrow> served q k st' \<and> (\<forall>(p, n) \<in> set (zip ps' ns). q + k \<le> p \<or> p + n \<le> q))"
    by (rule Cons.IH [OF A(1) b]) (use Cons.prems in simp)
  have "served p n st'" and "\<forall>(q, k) \<in> set (zip ps' ns). p + n \<le> q \<or> q + k \<le> p"
    using IH A(2) by fastforce+
  moreover have "served q k st' \<and> (\<forall>(p, n) \<in> set (zip (p # ps') (n # ns)). q + k \<le> p \<or> p + n \<le> q)"
    if "served q k st" for q k
    using IH A(4) [OF that] A(5) [OF that] by auto
  ultimately show ?case
    using IH A(3) by (auto simp: ps)
qed

subsection \<open>Allocation returns\<close>

lemma push_back_returns:
  assumes inv: "deque_inv bs d h" and room: "48 * (length (deq_list d) + 1) \<le> avail h"
  obtains d' h' where "push_back malloc free sizeof_MemoryPool m d h = Some (d', h')"
    and "avail h \<le> avail h' + 48 * (length (deq_list d) + 1)"
proof -
  have ok: "deque_ok d" "heap_ok h" using inv by (auto simp: deque_inv_def)
  have b: "front d < cap d" "rear d < cap d" using ok by (auto simp: deque_ok_def)
  show ?thesis
  proof (cases "front d = Suc (rear d) mod cap d")
    case False
    then show ?thesis
      using pools.push_back_ok [OF deque_inv_holds [OF inv], of 0 h m] that by (metis le_add1)
  next
    case True
    then have "cap d = length (deq_list d) + 1" using ring_full [OF b] b by (simp add: deq_len_def)
    then have "2 * cap d * sizeof_MemoryPool \<le> avail h" using room by simp
    moreover have "0 < brk h" using ok by (simp add: heap_ok_def)
    ultimately obtain h1 where a: "malloc (2 * cap d * sizeof_MemoryPool) h = Some (brk h, h1)" "brk h \<noteq> 0"
      using malloc_room by blast
    note m = malloc_owned [OF ok(2) a]
    obtain d' h' where p: "push_back malloc free sizeof_MemoryPool m d h = Some (d', h')"
      and f: "free (data d) h1 = Some h'"
      using pools.push_back_ok [OF deque_inv_holds [OF inv], of "brk h" h1 m] a True by (smt (verit))
    have "avail h1 \<le> avail h'" using f by (auto simp: free_def split: if_splits option.splits)
    then show ?thesis using that [OF p] m \<open>cap d = length (deq_list d) + 1\<close> by simp
  qed
qed

lemma find_room_returns:
  assumes "pool_inv bs I st" and "last (deq_list (pool_deq st)) = mp"
    and "length (deq_list (pool_deq st)) \<le> L" and "L \<le> 30" and "n \<le> I * 2 ^ L"
    and "I * 2 ^ L + 1536 * (31 - length (deq_list (pool_deq st))) \<le> avail (pheap st)"
  shows "\<exists>r. find_room n I mp st = Some r"
  using assms
proof (induction "31 - length (deq_list (pool_deq st))" arbitrary: st mp rule: less_induct)
  case less
  let ?d = "pool_deq st" let ?len = "length (deq_list ?d)"
  have inv: "deque_inv (bs + pool_blocks (deq_list ?d)) ?d (pheap st)" using less.prems by (simp add: pool_inv_def)
  then have ok: "deque_ok ?d" "heap_ok (pheap st)" by (auto simp: deque_inv_def)
  have len1: "1 \<le> ?len"
    using pool_inv_ok [OF less.prems(1)] by (simp add: Suc_le_eq del: deq_list_length)
  have len30: "?len \<le> 30" using less.prems by simp
  have pow: "I * 2 ^ ?len \<le> I * 2 ^ L" using less.prems by (intro mult_le_mono2 power_increasing) auto
  have "heap_bytes (pheap st) \<le> 2 ^ 62" using ok by (simp add: heap_ok_def)
  then have "avail (pheap st) \<le> 2 ^ 62" by (simp add: heap_bytes_def)
  with pow add_leD1 [OF less.prems(6)] have I: "I * 2 ^ ?len \<le> 2 ^ 62" by (metis order_trans)
  then have new: "next_pool_size I ?len = Some (I * 2 ^ ?len)"
    using len1 len30 by (simp add: next_pool_size_def)
  show ?case
  proof (cases "size64 (pool_next mp - pool mp + n) > pool_size mp")
    case False
    then show ?thesis by (simp add: find_room.simps)
  next
    case True
    obtain m h where i: "grow_pool n (I * 2 ^ ?len) (pheap st) = Some (m, h)"
      and k: "init_pool (if I * 2 ^ ?len < n then 0 else I * 2 ^ ?len) (pheap st) = Some (m, h)"
      and av: "avail (pheap st) \<le> avail h + (if I * 2 ^ ?len < n then 0 else I * 2 ^ ?len)"
      and m: "n \<le> I * 2 ^ ?len \<Longrightarrow> pool_size m = I * 2 ^ ?len \<and> pool_next m = pool m"
    proof (cases "I * 2 ^ ?len < n")
      case True
      then show ?thesis using that [of "\<lparr>pool = 0, pool_size = 0, pool_next = 0\<rparr>" "pheap st"]
        by (simp add: grow_pool_def init_pool_def)
    next
      case False
      have pos: "0 < I * 2 ^ ?len" "0 < brk (pheap st)"
        using less.prems(1) ok by (auto simp: pool_inv_def heap_ok_def)
      obtain h1 where a: "malloc (I * 2 ^ ?len) (pheap st) = Some (brk (pheap st), h1)" "brk (pheap st) \<noteq> 0"
        using malloc_room [OF pos(2) order_trans [OF pow add_leD1 [OF less.prems(6)]]] by blast
      then show ?thesis
        using that [of "\<lparr>pool = brk (pheap st), pool_size = I * 2 ^ ?len, pool_next = brk (pheap st)\<rparr>" h1]
          False pos malloc_blocks [OF ok(2) a] by (simp add: grow_pool_def init_pool_def)
    qed
    have inv1: "deque_inv (bs + pool_blocks (deq_list ?d @ [m])) ?d h"
      using less.prems(1) init_pool_cases [OF ok(2) k]
      by (auto simp: pool_inv_def deque_inv_def pool_blocks_snoc add_mset_commute)
    have le: "avail (pheap st) \<le> avail h + I * 2 ^ L"
      by (rule order_trans [OF av add_left_mono]) (simp add: pow [simplified])
    then have "1536 * (31 - ?len) \<le> avail h" using less.prems(6) by linarith
    moreover have "48 * (?len + 1) \<le> 1536 * (31 - ?len)" using len30 by simp
    ultimately have "48 * (?len + 1) \<le> avail h" by linarith
    then obtain d' h' where p: "push_back malloc free sizeof_MemoryPool m ?d h = Some (d', h')"
      and av': "avail h \<le> avail h' + 48 * (?len + 1)"
      using push_back_returns [OF inv1, of m] by blast
    note q = push_pool_inv [OF less.prems(1) k p]
    have step: "find_room n I mp st = find_room n I m \<lparr>pool_deq = d', pheap = h'\<rparr>"
      using True i p new by (subst find_room.simps) (simp add: length_deque_ok [OF ok(1)])
    show ?thesis
    proof (cases "n \<le> I * 2 ^ ?len")
      case fits: True
      then have "size64 (pool_next m - pool m + n) \<le> pool_size m" using m I by simp
      then show ?thesis using step by (simp add: find_room.simps)
    next
      case False
      have lt: "?len < L" using False less.prems(3,5) by (cases "?len = L") auto
      have "avail (pheap st) \<le> avail h' + 1536" using av av' False len30 by simp
      moreover have "1536 * (31 - ?len) = 1536 * (31 - Suc ?len) + 1536" using len30 by simp
      ultimately have "I * 2 ^ L + 1536 * (31 - Suc ?len) \<le> avail h'" using less.prems(6) by linarith
      then have "\<exists>r. find_room n I m \<lparr>pool_deq = d', pheap = h'\<rparr> = Some r"
        using q lt len30 less.prems(4,5) by (intro less.hyps) simp_all
      then show ?thesis using step by simp
    qed
  qed
qed

lemma memory_pool_alloc_defined:
  assumes inv: "pool_inv bs I st" and nz: "pool (last (deq_list (pool_deq st))) \<noteq> 0"
    and len: "length (deq_list (pool_deq st)) \<le> L" "L \<le> 30" and n: "n \<le> I * 2 ^ L"
    and av: "I * 2 ^ L + 50000 \<le> avail (pheap st)"
  shows "\<exists>p st'. memory_pool_alloc n st = Some (p, st')"
proof -
  let ?ms = "deq_list (pool_deq st)"
  have ok: "deque_ok (pool_deq st)" and ne: "?ms \<noteq> []" using pool_inv_ok [OF inv] by auto
  have I: "pool_size (hd ?ms) = I" using inv by (auto simp: pool_inv_def)
  have "pool_fine (last ?ms)" using inv ne by (simp add: pool_inv_def)
  then have fine: "pool_size (last ?ms) \<noteq> 0" "pool_next (last ?ms) \<noteq> 0" using nz by (auto simp: pool_fine_def)
  have "1 \<le> length ?ms" using ne by (simp add: Suc_le_eq del: deq_list_length)
  then have "I * 2 ^ L + 1536 * (31 - length ?ms) \<le> avail (pheap st)" using av by simp
  then obtain m st1 where f: "find_room n I (last ?ms) st = Some (m, st1)"
    using find_room_returns [OF inv refl len n] by auto
  from find_room_ok [OF f inv refl] have inv1: "pool_inv bs I st1" and last: "last (deq_list (pool_deq st1)) = m"
    by (auto simp: found_room_def)
  have ok1: "deque_ok (pool_deq st1)" "deq_list (pool_deq st1) \<noteq> []" using pool_inv_ok [OF inv1] by auto
  show ?thesis
    using is_empty_deque_ok [OF ok] pop_back_ok(4) [OF ok] peek_front_hd [OF ok ne] ne nz fine f I
      pop_back_ok(4) [OF ok1(1)] ok1(2) last update_back_ok [OF ok1, of "m\<lparr>pool_next := pool_next m + n\<rparr>"]
    by (auto simp: memory_pool_alloc_def)
qed

subsection \<open>The pool as an allocator\<close>

definition pool_ok :: "pool_state \<Rightarrow> bool" where
  "pool_ok st \<longleftrightarrow> (\<exists>bs I. pool_inv bs I st)"

text \<open>Nothing is given back to the pool: releasing an array does nothing.\<close>

definition keep :: "nat \<Rightarrow> pool_state \<Rightarrow> pool_state option" where
  "keep p st = Some st"

interpretation pool_alloc: allocator memory_pool_alloc keep pool_ok served
proof
  fix s s' :: pool_state and n p q m :: nat
  show "pool_ok s' \<and> served p n s'"
    if "n \<le> 2 ^ 63" "pool_ok s" "memory_pool_alloc n s = Some (p, s')" "p \<noteq> 0"
    using that pool_alloc_served(1,2) by (fastforce simp: pool_ok_def)
  show "n \<le> 2 ^ 62" if "pool_ok s" "served p n s"
  proof -
    from that(2) obtain m where m: "m \<in> set (deq_list (pool_deq s))" "in_pool p n m" by (auto simp: served_def)
    from that(1) obtain bs I where inv: "pool_inv bs I s" by (auto simp: pool_ok_def)
    have "owned (pool m) (pool_size m) (pheap s)" and "heap_ok (pheap s)" and "pool_fine m"
      using pool_owned [OF inv m(1)] m inv by (auto simp: owned_def in_pool_def pool_inv_def deque_inv_def)
    then show ?thesis using owned_bound [of "pheap s"] m(2) by (fastforce simp: in_pool_def pool_fine_def)
  qed
  show "\<exists>s'. keep p s = Some s' \<and> pool_ok s'" if "pool_ok s"
    using that by (simp add: keep_def)
  show "\<exists>s''. keep q s' = Some s'' \<and> pool_ok s'' \<and> served p n s''"
    if "n \<le> 2 ^ 63" "pool_ok s" "memory_pool_alloc n s = Some (p, s')"
    using that pool_alloc_served(1,2) by (fastforce simp: pool_ok_def keep_def)
qed

subsection \<open>The properties\<close>

text \<open>C22: every block the pool serves is the caller's own. After any sequence of requests the
  blocks served do not overlap, each lies inside one of the pool's live heap blocks, and
  destroying the pool gives the heap back as it was before the pool was initialised.\<close>

theorem memory_pool_blocks_disjoint:
  assumes "heap_ok h" and "initialize_memory_pool k h = Some st"
    and "alloc_all ns st = Some (ps, st')" and "\<forall>n \<in> set ns. n \<le> 2 ^ 63"
  shows "disjoint_blocks (zip ps ns) \<and> length ps = length ns \<and> 0 \<notin> set ps
    \<and> (\<forall>(p, n) \<in> set (zip ps ns). \<exists>(b, k) \<in> set (blocks (pheap st')). b \<le> p \<and> p + n \<le> b + k)
    \<and> (\<exists>st''. destroy_memory_pool st' = Some st'' \<and> mset (blocks (pheap st'')) = mset (blocks h))"
proof -
  obtain I where inv: "pool_inv (mset (blocks h)) I st"
    using initialize_memory_pool_inv [OF assms(1,2)] by blast
  note A = alloc_all_ok [OF inv assms(3,4)]
  then have inv': "pool_inv (mset (blocks h)) I st'" by blast
  have "\<exists>(b, k) \<in> set (blocks (pheap st')). b \<le> p \<and> p + n \<le> b + k" if "(p, n) \<in> set (zip ps ns)" for p n
  proof -
    from A that have "served p n st'" by auto
    then obtain m where m: "m \<in> set (deq_list (pool_deq st'))" "in_pool p n m" by (auto simp: served_def)
    have "pool_fine m" using inv' m by (simp add: pool_inv_def)
    then show ?thesis
      using pool_owned [OF inv' m(1)] m(2)
      by (intro bexI [of _ "(pool m, pool_size m)"]) (auto simp: in_pool_def pool_fine_def)
  qed
  then show ?thesis using A destroy_memory_pool_inv [OF inv'] by blast
qed

definition demo_heap :: heap where
  "demo_heap = \<lparr>blocks = [], brk = 1, avail = 100000\<rparr>"

lemma demo_heap_ok: "heap_ok demo_heap"
  by (simp add: heap_ok_def demo_heap_def heap_bytes_def)

lemmas deque_eval = new_destructable_deque_def new_deque_def malloc_def push_back_def push_front_def on_push_def
  write_cell_def read_cell_def is_empty_deque_def peek_back_def peek_front_def update_back_def
  length_deque_def size64_def

lemmas pool_eval = deque_eval initialize_memory_pool_def init_pool_def memory_pool_alloc_def find_room.simps
  next_pool_size_def grow_pool_def

lemma demo_alloc:
  obtains st ps st' where "initialize_memory_pool 16 demo_heap = Some st"
    and "alloc_all [5, 30, 100] st = Some (ps, st')"
    and "pool_size (hd (deq_list (pool_deq st'))) = 16" and "length (deq_list (pool_deq st')) = 4"
    and "90000 \<le> avail (pheap st')"
  by (simp add: demo_heap_def pool_eval upt_rec deq_list_def deq_len_def deq_cell_def cong: bind_left_cong)

theorem memory_pool_blocks_disjoint_witness:
  "\<exists>st ps st'. initialize_memory_pool 16 demo_heap = Some st \<and> alloc_all [5, 30, 100] st = Some (ps, st')
    \<and> disjoint_blocks (zip ps [5, 30, 100]) \<and> length ps = length [5, 30, 100 :: nat] \<and> 0 \<notin> set ps
    \<and> (\<forall>(p, n) \<in> set (zip ps [5, 30, 100]). \<exists>(b, k) \<in> set (blocks (pheap st')). b \<le> p \<and> p + n \<le> b + k)
    \<and> (\<exists>st''. destroy_memory_pool st' = Some st'' \<and> mset (blocks (pheap st'')) = mset (blocks demo_heap))"
proof -
  obtain st ps st' where a: "initialize_memory_pool 16 demo_heap = Some st"
    and b: "alloc_all [5, 30, 100] st = Some (ps, st')" by (rule demo_alloc)
  then show ?thesis using memory_pool_blocks_disjoint [OF demo_heap_ok a b] by auto
qed

text \<open>C23: a request returns. The loop that pushes larger and larger pools ends: if the request
  is at most \<open>2 ^ L\<close> times the initial pool, with at most \<open>L \<le> 30\<close> pools so far, and the heap
  can still serve that many bytes and the deque's growth, the request is served.\<close>

theorem memory_pool_alloc_returns:
  assumes "heap_ok h" and "initialize_memory_pool k h = Some st"
    and "alloc_all ns st = Some (ps, st')" and "\<forall>n \<in> set ns. n \<le> 2 ^ 63"
    and "length (deq_list (pool_deq st')) \<le> L" and "L \<le> 30"
    and "n \<le> pool_size (hd (deq_list (pool_deq st'))) * 2 ^ L"
    and "pool_size (hd (deq_list (pool_deq st'))) * 2 ^ L + 50000 \<le> avail (pheap st')"
  shows "\<exists>p st''. memory_pool_alloc n st' = Some (p, st'')"
proof -
  obtain I where inv: "pool_inv (mset (blocks h)) I st" and nz: "pool (last (deq_list (pool_deq st))) \<noteq> 0"
    using initialize_memory_pool_inv [OF assms(1,2)] by blast
  have inv': "pool_inv (mset (blocks h)) I st'" using alloc_all_ok [OF inv assms(3,4)] by blast
  have I: "pool_size (hd (deq_list (pool_deq st'))) = I" using inv' by (auto simp: pool_inv_def)
  show ?thesis
    using memory_pool_alloc_defined [OF inv' alloc_all_last [OF inv assms(3,4) nz]] assms(5-8) I by simp
qed

theorem memory_pool_alloc_returns_witness:
  "\<exists>st ps st'. initialize_memory_pool 16 demo_heap = Some st \<and> alloc_all [5, 30, 100] st = Some (ps, st')
    \<and> (\<exists>p st''. memory_pool_alloc 1000 st' = Some (p, st''))"
proof -
  obtain st ps st' where a: "initialize_memory_pool 16 demo_heap = Some st"
    and b: "alloc_all [5, 30, 100] st = Some (ps, st')"
    and c: "pool_size (hd (deq_list (pool_deq st'))) = 16" "length (deq_list (pool_deq st')) = 4"
      "90000 \<le> avail (pheap st')" by (rule demo_alloc)
  show ?thesis
    using memory_pool_alloc_returns [OF demo_heap_ok a b, of 6 1000] a b c by auto
qed

end
