(* ===== verification/PoolDeque.thy ===== *)
theory PoolDeque
  imports MemoryPool
begin

text \<open>
  The instance \<open>IMPLEMENT_DEQUE_MEMORY_POOL\<close> of \<open>src/project1/quash/src/deque.h\<close>: the
  functions of theory \<open>Deque\<close> with arrays served by the memory pool and never freed one by one.
  The functions that allocate nothing (\<open>is_empty\<close>, \<open>length\<close>, \<open>apply\<close>, the pops, peeks
  and updates) are those of \<open>Deque\<close> unchanged. While the last pool of the memory pool has
  room, no operation can stop the process for lack of memory.
\<close>

subsection \<open>The functions that allocate\<close>

definition new_pool_deque :: "nat \<Rightarrow> nat \<Rightarrow> pool_state \<Rightarrow> (('a, pool_state) deque \<times> pool_state) option" where
  "new_pool_deque sz init_cap st = new_deque memory_pool_alloc sz init_cap st"

definition new_destructable_pool_deque ::
    "nat \<Rightarrow> nat \<Rightarrow> ('a \<Rightarrow> pool_state \<Rightarrow> pool_state option) \<Rightarrow> pool_state
      \<Rightarrow> (('a, pool_state) deque \<times> pool_state) option" where
  "new_destructable_pool_deque sz init_cap f st = new_destructable_deque memory_pool_alloc sz init_cap f st"

definition destroy_pool_deque ::
    "('a, pool_state) deque \<Rightarrow> pool_state \<Rightarrow> (('a, pool_state) deque \<times> pool_state) option" where
  "destroy_pool_deque d st = destroy_deque keep d st"

definition reallign_pool_deque ::
    "nat \<Rightarrow> ('a, pool_state) deque \<Rightarrow> pool_state \<Rightarrow> (('a, pool_state) deque \<times> pool_state) option" where
  "reallign_pool_deque sz d st = reallign_deque memory_pool_alloc keep sz d st"

definition as_array_pool_deque ::
    "nat \<Rightarrow> ('a, pool_state) deque \<Rightarrow> pool_state
      \<Rightarrow> ((nat \<times> 'a option list \<times> nat) \<times> ('a, pool_state) deque \<times> pool_state) option" where
  "as_array_pool_deque sz d st = as_array_deque memory_pool_alloc keep sz d st"

definition on_push_pool ::
    "nat \<Rightarrow> ('a, pool_state) deque \<Rightarrow> pool_state \<Rightarrow> (('a, pool_state) deque \<times> pool_state) option" where
  "on_push_pool sz d st = on_push memory_pool_alloc keep sz d st"

definition push_front_pool ::
    "nat \<Rightarrow> 'a \<Rightarrow> ('a, pool_state) deque \<Rightarrow> pool_state \<Rightarrow> (('a, pool_state) deque \<times> pool_state) option" where
  "push_front_pool sz x d st = push_front memory_pool_alloc keep sz x d st"

definition push_back_pool ::
    "nat \<Rightarrow> 'a \<Rightarrow> ('a, pool_state) deque \<Rightarrow> pool_state \<Rightarrow> (('a, pool_state) deque \<times> pool_state) option" where
  "push_back_pool sz x d st = push_back memory_pool_alloc keep sz x d st"

text \<open>The instances of the parser: \<open>MPStrBuilder\<close> (\<open>char\<close>), \<open>CmdStrs\<close> (\<open>char*\<close>) and
  \<open>Cmds\<close> (\<open>CommandHolder\<close>).\<close>

interpretation mp_str: deque_alloc memory_pool_alloc keep pool_ok served 1
  by unfold_locales simp_all

interpretation mp_ptr: deque_alloc memory_pool_alloc keep pool_ok served 8
  by unfold_locales simp_all

interpretation mp_holder: deque_alloc memory_pool_alloc keep pool_ok served 56
  by unfold_locales simp_all

subsection \<open>Room in the last pool\<close>

definition room :: "pool_state \<Rightarrow> nat" where
  "room st = (let m = last (deq_list (pool_deq st)) in
     if pool m = 0 then 0 else pool m + pool_size m - pool_next m)"

definition pool_ready :: "pool_state \<Rightarrow> bool" where
  "pool_ready st \<longleftrightarrow> pool_ok st \<and> pool (last (deq_list (pool_deq st))) \<noteq> 0"

lemma memory_pool_alloc_room:
  assumes ready: "pool_ready st" and n: "n \<le> room st"
  obtains p st' where "memory_pool_alloc n st = Some (p, st')" and "p \<noteq> 0" and "pool_ready st'"
    and "room st' = room st - n" and "pheap st' = pheap st"
proof -
  let ?ms = "deq_list (pool_deq st)" let ?m = "last ?ms"
  obtain bs I where inv: "pool_inv bs I st" using ready by (auto simp: pool_ready_def pool_ok_def)
  have ok: "deque_ok (pool_deq st)" and ne: "?ms \<noteq> []" using pool_inv_ok [OF inv] by auto
  have nz: "pool ?m \<noteq> 0" using ready by (simp add: pool_ready_def)
  have fine: "pool_fine ?m" using inv ne by (simp add: pool_inv_def)
  have "owned (pool ?m) (pool_size ?m) (pheap st)"
    using pool_owned [OF inv, of ?m] ne nz by (simp add: owned_def)
  then have size: "pool_size ?m \<le> 2 ^ 62"
    using owned_bound inv by (auto simp: pool_inv_def deque_inv_def)
  have fit: "pool_next ?m - pool ?m + n \<le> pool_size ?m"
    using n fine nz by (auto simp: room_def pool_fine_def Let_def)
  then have "size64 (pool_next ?m - pool ?m + n) = pool_next ?m - pool ?m + n"
    using size by (intro size64_id) simp
  then have f: "find_room n I' ?m st = Some (?m, st)" for I'
    using fit by (simp add: find_room.simps)
  obtain d where d: "update_back (?m\<lparr>pool_next := pool_next ?m + n\<rparr>) (pool_deq st) = Some d"
    "deq_list d = butlast ?ms @ [?m\<lparr>pool_next := pool_next ?m + n\<rparr>]"
    using update_back_ok [OF ok ne] by blast
  have r: "memory_pool_alloc n st = Some (pool_next ?m, st\<lparr>pool_deq := d\<rparr>)"
    using is_empty_deque_ok [OF ok] pop_back_ok(4) [OF ok] peek_front_hd [OF ok ne] ne nz fine f d
    by (auto simp: memory_pool_alloc_def pool_fine_def)
  have "n \<le> 2 ^ 63" using fit size by simp
  note s = pool_alloc_served(1,3) [OF inv r this]
  show ?thesis
  proof (rule that [OF r])
    show "pool_next ?m \<noteq> 0" by (rule s(2))
    show "pool_ready (st\<lparr>pool_deq := d\<rparr>)" using s(1) d nz by (auto simp: pool_ready_def pool_ok_def)
    show "room (st\<lparr>pool_deq := d\<rparr>) = room st - n" using d nz by (simp add: room_def Let_def)
  qed simp
qed

text \<open>A pool deque that may still grow to \<open>n\<close> elements, with \<open>k\<close> bytes left for others.\<close>

definition grow_room :: "nat \<Rightarrow> nat \<Rightarrow> nat \<Rightarrow> ('a, pool_state) deque \<Rightarrow> pool_state \<Rightarrow> bool" where
  "grow_room sz n k d st \<longleftrightarrow> pool_ready st \<and> deque_ok d \<and> served (data d) (length (cells d) * sz) st
     \<and> front d = 0 \<and> 4 * (n + 1) * sz + k \<le> room st + 2 * cap d * sz \<and> k \<le> room st"

lemma deque_alloc_pool:
  assumes "0 < sz" and "sz < 2 ^ 32"
  shows "deque_alloc memory_pool_alloc keep pool_ok served sz"
  using assms by unfold_locales auto

lemma new_pool_deque_room:
  assumes ready: "pool_ready st" and sz: "0 < sz" "sz < 2 ^ 32" and c: "0 < c" "c * sz \<le> 2 ^ 63"
    and room: "4 * (n + 1) * sz + k \<le> room st + c * sz" "c * sz + k \<le> room st"
  obtains d :: "('a, pool_state) deque" and st' where "new_pool_deque sz c st = Some (d, st')"
    and "grow_room sz n k d st'" and "deq_list d = []" and "pheap st' = pheap st"
proof -
  note al = deque_alloc_pool [OF sz]
  obtain p st' where a: "memory_pool_alloc (c * sz) st = Some (p, st')" and p: "p \<noteq> 0" and r: "pool_ready st'"
    and m: "room st' = room st - c * sz" and h: "pheap st' = pheap st"
    by (rule memory_pool_alloc_room [OF ready, of "c * sz"]) (use room in simp)
  have ok: "pool_ok st" using ready by (simp add: pool_ready_def)
  obtain d :: "('a, pool_state) deque" where d: "new_deque memory_pool_alloc sz c st = Some (d, st')"
    "deque_alloc.holds pool_ok served sz d st'" "deq_list d = []" "cap d = max 1 c" "length (cells d) = c"
    using deque_alloc.new_ok [OF al ok c(2) a p] by blast
  have f: "front d = 0" using d(1) a p by (auto simp: new_deque_def bind_eq_Some_conv split: if_splits)
  have "max 1 c = c" using c(1) by simp
  moreover have "4 * (n + 1) * sz + k \<le> room st' + 2 * c * sz \<and> k \<le> room st'"
  proof -
    have "2 * c * sz = c * sz + c * sz" by simp
    then show ?thesis using room m by linarith
  qed
  ultimately show ?thesis
    using that [of d st'] d f r h by (simp add: grow_room_def new_pool_deque_def deque_alloc.holds_def [OF al])
qed

lemma push_back_room:
  assumes g: "grow_room sz n k d st" and sz: "0 < sz" "sz < 2 ^ 32" and n: "length (deq_list d) < n"
  obtains d' st' where "push_back_pool sz x d st = Some (d', st')" and "grow_room sz n k d' st'"
    and "deq_list d' = deq_list d @ [x]" and "pheap st' = pheap st"
proof -
  note al = deque_alloc_pool [OF sz]
  have ok: "deque_ok d" and ready: "pool_ready st" using g by (auto simp: grow_room_def)
  have h: "deque_alloc.holds pool_ok served sz d st"
    using g by (simp add: grow_room_def pool_ready_def deque_alloc.holds_def [OF al])
  have b: "front d < cap d" "rear d < cap d" using ok by (auto simp: deque_ok_def)
  let ?full = "front d = Suc (rear d) mod cap d"
  obtain p st' where a: "?full \<Longrightarrow> memory_pool_alloc (2 * cap d * sz) st = Some (p, st') \<and> p \<noteq> 0"
    and same: "\<not> ?full \<Longrightarrow> st' = st" and r: "pool_ready st'" "pheap st' = pheap st"
    and m: "room st' = (if ?full then room st - 2 * cap d * sz else room st)"
    and le: "?full \<Longrightarrow> 2 * cap d * sz \<le> room st"
  proof (cases ?full)
    case False
    then show ?thesis using that [of 0 st] ready by simp
  next
    case True
    have "length (deq_list d) = cap d - 1" using ring_full [OF b] True by (simp add: deq_len_def)
    then have "4 * cap d \<le> 4 * (n + 1)" using n b by simp
    then have "4 * cap d * sz \<le> 4 * (n + 1) * sz" by (rule mult_le_mono1)
    moreover have "4 * cap d * sz = 2 * cap d * sz + 2 * cap d * sz" by simp
    moreover have "4 * (n + 1) * sz + k \<le> room st + 2 * cap d * sz" using g by (simp only: grow_room_def)
    ultimately have le: "2 * cap d * sz \<le> room st" by linarith
    from memory_pool_alloc_room [OF ready le] obtain p st' where
      "memory_pool_alloc (2 * cap d * sz) st = Some (p, st')" "p \<noteq> 0" "pool_ready st'"
      "room st' = room st - 2 * cap d * sz" "pheap st' = pheap st" .
    then show ?thesis using that [of p st'] True le by simp
  qed
  obtain d' st'' where p: "push_back memory_pool_alloc keep sz x d st = Some (d', st'')"
    and h': "deque_alloc.holds pool_ok served sz d' st''" and l: "deq_list d' = deq_list d @ [x]"
    and c: "cap d' = (if ?full then 2 * cap d else cap d)" and f: "front d' = (if ?full then 0 else front d)"
    and kp: "if ?full then keep (data d) st' = Some st'' else st'' = st"
    by (rule deque_alloc.push_back_ok [OF al h a same])
  have st'': "st'' = st'" using kp same by (simp add: keep_def split: if_splits)
  have "4 * (n + 1) * sz + k \<le> room st'' + 2 * cap d' * sz \<and> k \<le> room st''"
  proof (cases ?full)
    case False
    then show ?thesis using g c m st'' by (simp add: grow_room_def)
  next
    case True
    have "length (deq_list d) = cap d - 1" using ring_full [OF b] True by (simp add: deq_len_def)
    then have "4 * cap d \<le> 4 * (n + 1)" using n b by simp
    then have "4 * cap d * sz \<le> 4 * (n + 1) * sz" by (rule mult_le_mono1)
    moreover have "4 * cap d * sz = 2 * cap d * sz + 2 * cap d * sz" by simp
    moreover have "4 * (n + 1) * sz + k \<le> room st + 2 * cap d * sz" using g by (simp only: grow_room_def)
    moreover have "room st = room st'' + 2 * cap d * sz" using le m st'' True by simp
    moreover have "2 * cap d' * sz = 2 * cap d * sz + 2 * cap d * sz" using c True by simp
    ultimately show ?thesis by linarith
  qed
  then show ?thesis
    using that [of d' st''] p h' l f g r st''
    by (simp add: grow_room_def push_back_pool_def deque_alloc.holds_def [OF al])
qed

lemma update_back_room:
  assumes "grow_room sz n k d st" and "deq_list d \<noteq> []"
  obtains d' where "update_back x d = Some d'" and "grow_room sz n k d' st"
    and "deq_list d' = butlast (deq_list d) @ [x]"
  using assms update_back_ok [of d x] that by (auto simp: grow_room_def)

lemma pop_back_room:
  assumes g: "grow_room sz n k d st" and ne: "deq_list d \<noteq> []"
  obtains d' where "pop_back d = Some (last (deq_list d), d')" and "grow_room sz n k d' st"
    and "deq_list d' = butlast (deq_list d)"
proof -
  have ok: "deque_ok d" using g by (simp add: grow_room_def)
  show ?thesis
    using pop_back_ok(1-3) [OF ok] ne g
    by (intro that [of "d\<lparr>rear := (rear d + cap d - Suc 0) mod cap d\<rparr>"]) (auto simp: grow_room_def)
qed

lemma as_array_room:
  assumes g: "grow_room sz n k d st" and sz: "0 < sz" "sz < 2 ^ 32"
  obtains cs d' where "as_array_pool_deque sz d st = Some ((data d, cs, length (deq_list d)), d', st)"
    and "take (length (deq_list d)) cs = map Some (deq_list d)" and "data d' = 0"
proof -
  note al = deque_alloc_pool [OF sz]
  have h: "deque_alloc.holds pool_ok served sz d st"
    using g by (simp add: grow_room_def pool_ready_def deque_alloc.holds_def [OF al])
  have "front d = 0" using g by (simp add: grow_room_def)
  then show ?thesis
    using deque_alloc.as_array_ok [OF al h] that by (fastforce simp: as_array_pool_deque_def)
qed

text \<open>Another block taken from the slack.\<close>

lemma alloc_slack:
  assumes g: "grow_room sz n k d st" and m: "m \<le> k"
  obtains p st' where "memory_pool_alloc m st = Some (p, st')" and "p \<noteq> 0" and "grow_room sz n (k - m) d st'"
    and "pheap st' = pheap st"
proof -
  have ready: "pool_ready st" and le: "m \<le> room st" using g m by (auto simp: grow_room_def)
  obtain p st' where a: "memory_pool_alloc m st = Some (p, st')" "p \<noteq> 0" "pool_ready st'"
    "room st' = room st - m" "pheap st' = pheap st"
    by (rule memory_pool_alloc_room [OF ready le])
  obtain bs I where inv: "pool_inv bs I st" using ready by (auto simp: pool_ready_def pool_ok_def)
  have "m \<le> 2 ^ 63"
  proof -
    have ne: "deq_list (pool_deq st) \<noteq> []" using pool_inv_ok [OF inv] by simp
    have nz: "pool (last (deq_list (pool_deq st))) \<noteq> 0" using ready by (simp add: pool_ready_def)
    have "owned (pool (last (deq_list (pool_deq st)))) (pool_size (last (deq_list (pool_deq st)))) (pheap st)"
      using pool_owned [OF inv, of "last (deq_list (pool_deq st))"] ne nz by (simp add: owned_def)
    then have "pool_size (last (deq_list (pool_deq st))) \<le> 2 ^ 62"
      using owned_bound inv by (auto simp: pool_inv_def deque_inv_def)
    moreover have "pool_fine (last (deq_list (pool_deq st)))" using inv ne by (simp add: pool_inv_def)
    ultimately show ?thesis using le nz by (auto simp: room_def Let_def pool_fine_def)
  qed
  then have "served (data d) (length (cells d) * sz) st'"
    using pool_alloc_served(4) [OF inv a(1)] g by (simp add: grow_room_def)
  moreover have "4 * (n + 1) * sz + (k - m) \<le> room st' + 2 * cap d * sz \<and> k - m \<le> room st'"
  proof -
    have "4 * (n + 1) * sz + k \<le> room st + 2 * cap d * sz" and "k \<le> room st"
      using g by (simp_all only: grow_room_def)
    moreover have "room st = room st' + m" using a(4) le by simp
    ultimately show ?thesis using m by linarith
  qed
  ultimately show ?thesis using that [OF a(1,2)] a(3,5) g by (simp add: grow_room_def)
qed

subsection \<open>The other blocks of the heap\<close>

text \<open>Every owner of the rest of the heap keeps its blocks.\<close>

definition pool_kept :: "pool_state \<Rightarrow> pool_state \<Rightarrow> bool" where
  "pool_kept st st' \<longleftrightarrow> (\<forall>bs I. pool_inv bs I st \<longrightarrow> pool_inv bs I st')"

lemma pool_kept_refl [simp]: "pool_kept st st"
  by (simp add: pool_kept_def)

lemma pool_kept_trans: "pool_kept st st' \<Longrightarrow> pool_kept st' st'' \<Longrightarrow> pool_kept st st''"
  by (simp add: pool_kept_def)

lemma size64_le: "size64 n \<le> n"
  by (simp add: size64_def)

lemma room_bound:
  assumes "pool_ready st"
  shows "room st \<le> 2 ^ 62"
proof -
  obtain bs I where inv: "pool_inv bs I st" using assms by (auto simp: pool_ready_def pool_ok_def)
  have ne: "deq_list (pool_deq st) \<noteq> []" using pool_inv_ok [OF inv] by simp
  have nz: "pool (last (deq_list (pool_deq st))) \<noteq> 0" using assms by (simp add: pool_ready_def)
  have "owned (pool (last (deq_list (pool_deq st)))) (pool_size (last (deq_list (pool_deq st)))) (pheap st)"
    using pool_owned [OF inv, of "last (deq_list (pool_deq st))"] ne nz by (simp add: owned_def)
  then have "pool_size (last (deq_list (pool_deq st))) \<le> 2 ^ 62"
    using owned_bound inv by (auto simp: pool_inv_def deque_inv_def)
  moreover have "pool_fine (last (deq_list (pool_deq st)))" using inv ne by (simp add: pool_inv_def)
  ultimately show ?thesis using nz by (auto simp: room_def Let_def pool_fine_def)
qed

lemma memory_pool_alloc_kept:
  assumes "pool_ready st" and "n \<le> room st" and "memory_pool_alloc n st = Some (p, st')"
  shows "pool_kept st st'"
proof -
  have "n \<le> 2 ^ 63" using room_bound [OF assms(1)] assms(2) by simp
  then show ?thesis using pool_alloc_served(1) [OF _ assms(3)] by (auto simp: pool_kept_def)
qed

lemma new_pool_deque_kept:
  assumes "pool_ready st" and "c * sz \<le> room st" and "new_pool_deque sz c st = Some (d, st')"
  shows "pool_kept st st'"
proof -
  have "size64 (c * sz) = c * sz" using room_bound [OF assms(1)] assms(2) by (intro size64_id) simp
  then show ?thesis using memory_pool_alloc_kept [OF assms(1,2)] assms(3)
    by (auto simp: new_pool_deque_def new_deque_def bind_eq_Some_conv split: if_splits)
qed

lemma push_back_kept:
  assumes g: "grow_room sz n k d st" and n: "length (deq_list d) < n" and sz: "0 < sz"
    and p: "push_back_pool sz x d st = Some (d', st')"
  shows "pool_kept st st'"
proof -
  have ok: "deque_ok d" and ready: "pool_ready st" using g by (auto simp: grow_room_def)
  have b: "front d < cap d" "rear d < cap d" using ok by (auto simp: deque_ok_def)
  show ?thesis
  proof (cases "front d = size64 (rear d + 1) mod cap d")
    case False
    then show ?thesis using p
      by (auto simp: push_back_pool_def push_back_def on_push_def bind_eq_Some_conv split: if_splits)
  next
    case True
    have c: "cap d \<le> 2 ^ 62" using ok by (simp add: deque_ok_def)
    then have "size64 (rear d + 1) = rear d + 1" using b by (intro size64_id) simp
    with True have "length (deq_list d) = cap d - 1" using ring_full [OF b] by (simp add: deq_len_def)
    then have "4 * cap d \<le> 4 * (n + 1)" using n b by simp
    then have "4 * cap d * sz \<le> 4 * (n + 1) * sz" by (rule mult_le_mono1)
    moreover have "4 * cap d * sz = 2 * cap d * sz + 2 * cap d * sz" by simp
    moreover have "4 * (n + 1) * sz + k \<le> room st + 2 * cap d * sz" using g by (simp only: grow_room_def)
    ultimately have "2 * cap d * sz \<le> room st" by linarith
    moreover have "size64 (size64 (2 * cap d) * sz) \<le> 2 * cap d * sz"
      using size64_le [of "size64 (2 * cap d) * sz"] mult_le_mono1 [OF size64_le, of "2 * cap d" sz] by linarith
    ultimately have "size64 (size64 (2 * cap d) * sz) \<le> room st" by simp
    from memory_pool_alloc_kept [OF ready this] show ?thesis using p True
      by (auto simp: push_back_pool_def push_back_def on_push_def keep_def Let_def bind_eq_Some_conv split: if_splits)
  qed
qed

end
