(* ===== verification/Command.thy ===== *)
theory Command
  imports CStrings
begin

unbundle bit_operations_syntax

text \<open>
  The commands of quash, \<open>src/project1/quash/src/command.h\<close> and \<open>command.c\<close>: the command
  structures, their constructors, the flags of a command in a pipeline, and the debugging
  printer. A \<open>char*\<close> is a \<open>string option\<close>, \<open>None\<close> for \<open>NULL\<close>; an argument vector is the list
  of its pointers, the terminating \<open>NULL\<close> included.
\<close>

subsection \<open>Flags\<close>

definition REDIRECT_IN :: "8 word" where "REDIRECT_IN = 0x01"
definition REDIRECT_OUT :: "8 word" where "REDIRECT_OUT = 0x04"
definition REDIRECT_APPEND :: "8 word" where "REDIRECT_APPEND = 0x08"
definition PIPE_IN :: "8 word" where "PIPE_IN = 0x10"
definition PIPE_OUT :: "8 word" where "PIPE_OUT = 0x20"
definition BACKGROUND :: "8 word" where "BACKGROUND = 0x40"

lemmas flag_defs = REDIRECT_IN_def REDIRECT_OUT_def REDIRECT_APPEND_def PIPE_IN_def PIPE_OUT_def BACKGROUND_def

text \<open>The test \<open>flags & f\<close>.\<close>

definition has_flag :: "8 word \<Rightarrow> 8 word \<Rightarrow> bool" where
  "has_flag flags f \<longleftrightarrow> flags AND f \<noteq> 0"

subsection \<open>Commands\<close>

datatype CommandType = EOC | GENERIC | ECHO | EXPORT | KILL | CD | PWD | JOBS | EXIT

type_synonym args = "string option list"

text \<open>The union \<open>Command\<close>: which structure was stored last, with its \<open>type\<close> field.\<close>

datatype Command =
    SimpleCommand CommandType
  | GenericCommand CommandType args
  | ExportCommand CommandType "string option" "string option"
  | CDCommand CommandType "string option"
  | KillCommand CommandType int int "string option" "string option"

record CommandHolder =
  redirect_in :: "string option"
  redirect_out :: "string option"
  flags :: "8 word"
  cmd :: Command

definition mk_command_holder :: "string option \<Rightarrow> string option \<Rightarrow> 8 word \<Rightarrow> Command \<Rightarrow> CommandHolder" where
  "mk_command_holder r_in r_out fl c =
     \<lparr>redirect_in = r_in, redirect_out = r_out, flags = fl, cmd = c\<rparr>"

definition mk_generic_command :: "args \<Rightarrow> Command" where
  "mk_generic_command as = GenericCommand GENERIC as"

definition mk_echo_command :: "args \<Rightarrow> Command" where
  "mk_echo_command strs = GenericCommand ECHO strs"

definition mk_export_command :: "string option \<Rightarrow> string option \<Rightarrow> Command" where
  "mk_export_command env_var v = ExportCommand EXPORT env_var v"

definition mk_cd_command :: "string option \<Rightarrow> Command" where
  "mk_cd_command dir = CDCommand CD dir"

text \<open>\<open>strtol\<close> gives a \<open>long\<close>, cut to the \<open>int\<close> fields; of \<open>NULL\<close> it is undefined.\<close>

definition mk_kill_command :: "string \<Rightarrow> string \<Rightarrow> Command" where
  "mk_kill_command sig job =
     KillCommand KILL (wrap32 (strtol10 sig)) (wrap32 (strtol10 job)) (Some sig) (Some job)"

definition mk_pwd_command :: Command where "mk_pwd_command = SimpleCommand PWD"
definition mk_jobs_command :: Command where "mk_jobs_command = SimpleCommand JOBS"
definition mk_exit_command :: Command where "mk_exit_command = SimpleCommand EXIT"
definition mk_eoc :: Command where "mk_eoc = SimpleCommand EOC"

text \<open>Every structure starts with its type.\<close>

fun get_command_type :: "Command \<Rightarrow> CommandType" where
  "get_command_type (SimpleCommand t) = t"
| "get_command_type (GenericCommand t as) = t"
| "get_command_type (ExportCommand t v s) = t"
| "get_command_type (CDCommand t d) = t"
| "get_command_type (KillCommand t s j ss js) = t"

definition get_command_holder_type :: "CommandHolder \<Rightarrow> CommandType" where
  "get_command_holder_type holder = get_command_type (cmd holder)"

text \<open>Members of the union; reading one that was not stored is \<open>None\<close>.\<close>

fun generic_args :: "Command \<Rightarrow> args option" where
  "generic_args (GenericCommand t as) = Some as"
| "generic_args c = None"

fun export_fields :: "Command \<Rightarrow> (string option \<times> string option) option" where
  "export_fields (ExportCommand t v s) = Some (v, s)"
| "export_fields c = None"

fun cd_dir :: "Command \<Rightarrow> string option option" where
  "cd_dir (CDCommand t d) = Some d"
| "cd_dir c = None"

fun kill_fields :: "Command \<Rightarrow> (int \<times> int \<times> string option \<times> string option) option" where
  "kill_fields (KillCommand t s j ss js) = Some (s, j, ss, js)"
| "kill_fields c = None"

text \<open>The strings of an argument vector; one without a \<open>NULL\<close> would be read past its end.\<close>

fun arg_strings :: "args \<Rightarrow> string list option" where
  "arg_strings [] = None"
| "arg_strings (None # as) = Some []"
| "arg_strings (Some s # as) = map_option ((#) s) (arg_strings as)"

lemma arg_strings_terminated [simp]: "arg_strings (map Some ss @ None # rest) = Some ss"
  by (induction ss) auto

subsection \<open>Printing (the \<open>DEBUG\<close> build)\<close>

text \<open>The words of a program, which the grammar never leaves \<open>NULL\<close>: the branch that prints an error
  for a \<open>NULL\<close> array is left out.\<close>

definition print_generic_cmd :: "args \<Rightarrow> string option" where
  "print_generic_cmd as = map_option (\<lambda>ss. concat (map (\<lambda>s. ''['' @ s @ ''] '') ss)) (arg_strings as)"

definition print_echo_cmd :: string where
  "print_echo_cmd = ''%ECHO%''"

definition print_export_cmd :: "string option \<times> string option \<Rightarrow> string" where
  "print_export_cmd vs = ''%EXPORT% [VAR: '' @ show_cstr (fst vs) @ ''] [VAL: '' @ show_cstr (snd vs) @ '']''"

definition print_cd_cmd :: "string option \<Rightarrow> string" where
  "print_cd_cmd dir = ''%CD% [DIR: '' @ show_cstr dir @ '']''"

text \<open>The signal is printed under the label \<open>JOB\<close> and the job under \<open>SIG\<close>.\<close>

definition print_kill_cmd :: "int \<times> int \<times> string option \<times> string option \<Rightarrow> string" where
  "print_kill_cmd k = ''%KILL% [JOB: '' @ show_int (fst k) @ ''] [SIG: '' @ show_int (fst (snd k)) @ '']''"

definition print_simple_cmd :: "string \<Rightarrow> string" where
  "print_simple_cmd str = ''%'' @ str @ ''%''"

definition print_command :: "Command \<Rightarrow> string option" where
  "print_command c = (case get_command_type c of
     GENERIC \<Rightarrow> Option.bind (generic_args c) print_generic_cmd
   | ECHO \<Rightarrow> Some print_echo_cmd
   | EXPORT \<Rightarrow> map_option print_export_cmd (export_fields c)
   | CD \<Rightarrow> map_option print_cd_cmd (cd_dir c)
   | KILL \<Rightarrow> map_option print_kill_cmd (kill_fields c)
   | PWD \<Rightarrow> Some (print_simple_cmd ''PWD'')
   | JOBS \<Rightarrow> Some (print_simple_cmd ''JOBS'')
   | EXIT \<Rightarrow> Some (print_simple_cmd ''EXIT'')
   | EOC \<Rightarrow> Some ''--- EOC ---'')"

definition print_command_holder :: "CommandHolder \<Rightarrow> string option" where
  "print_command_holder h =
     do { c \<leftarrow> print_command (cmd h);
          Some (''{'' @ c @ ''<''
            @ (if has_flag (flags h) BACKGROUND then ''BG '' else ''FG '')
            @ (if has_flag (flags h) PIPE_IN then ''P_IN '' else [])
            @ (if has_flag (flags h) PIPE_OUT then ''P_OUT '' else [])
            @ (if has_flag (flags h) REDIRECT_IN then ''(R_IN: '' @ show_cstr (redirect_in h) @ '') '' else [])
            @ (if has_flag (flags h) REDIRECT_APPEND then ''(R_APPEND: ''
               else if has_flag (flags h) REDIRECT_OUT then ''(R_OUT: '' else [])
            @ (if has_flag (flags h) REDIRECT_OUT then show_cstr (redirect_out h) @ '') '' else [])
            @ ''*0x'' @ pad_left 2 (CHR ''0'') (show_hex (sint (flags h))) @ ''*'' @ ''>'' @ ''}'') }"

text \<open>Lines for all holders up to and including the end marker; a script without one would be
  read past its end.\<close>

fun print_holders :: "CommandHolder list \<Rightarrow> string option" where
  "print_holders [] = None"
| "print_holders (h # hs) =
     do { l \<leftarrow> print_command_holder h;
          if get_command_holder_type h = EOC then Some (l @ [NL])
          else do { ls \<leftarrow> print_holders hs; Some (l @ [NL] @ ls) } }"

definition debug_print_script :: "CommandHolder list option \<Rightarrow> string option" where
  "debug_print_script holders = (case holders of None \<Rightarrow> Some [] | Some hs \<Rightarrow> print_holders hs)"

end
