(* ===== verification/ParseIface.thy ===== *)
theory ParseIface
  imports PoolDeque Command
begin

text \<open>
  The interface to the parser of quash, \<open>src/project1/quash/src/parsing/parsing_interface.c\<close>:
  cleaning up the text of a string token (escapes, single quotes, environment variables), the
  text of a parsed script, and \<open>parse\<close>. \<open>MPStrBuilder\<close> and \<open>CmdStrs\<close> are deques in the memory
  pool, \<open>StrBuilder\<close> and \<open>SizeStack\<close> are \<open>malloc\<close> deques on the heap of the pool's state.
  The generated \<open>yyparse\<close> and the process environment are parameters.
\<close>

type_synonym env = "string \<Rightarrow> string option"

definition lookup_env :: "env \<Rightarrow> string \<Rightarrow> string option" where
  "lookup_env env env_var = env env_var"

subsection \<open>The text of a script\<close>

type_synonym CmdStrs = "(string option, pool_state) deque"

definition push_str :: "string option \<Rightarrow> CmdStrs \<Rightarrow> pool_state \<Rightarrow> (CmdStrs \<times> pool_state) option" where
  "push_str s strs st = push_back_pool 8 s strs st"

definition push_dup :: "string \<Rightarrow> CmdStrs \<Rightarrow> pool_state \<Rightarrow> (CmdStrs \<times> pool_state) option" where
  "push_dup s strs st = do { ((p, s), st) \<leftarrow> memory_pool_strdup s st; push_str (Some s) strs st }"

fun push_args :: "args \<Rightarrow> CmdStrs \<Rightarrow> pool_state \<Rightarrow> (CmdStrs \<times> pool_state) option" where
  "push_args [] strs st = None"
| "push_args (None # as) strs st = Some (strs, st)"
| "push_args (Some s # as) strs st =
     do { (strs, st) \<leftarrow> push_str (Some s) strs st; push_args as strs st }"

definition stringify_generic_cmd :: "args \<Rightarrow> CmdStrs \<Rightarrow> pool_state \<Rightarrow> (CmdStrs \<times> pool_state) option" where
  "stringify_generic_cmd as strs st = push_args as strs st"

definition stringify_echo_cmd :: "args \<Rightarrow> CmdStrs \<Rightarrow> pool_state \<Rightarrow> (CmdStrs \<times> pool_state) option" where
  "stringify_echo_cmd as strs st = do { (strs, st) \<leftarrow> push_dup ''echo'' strs st; push_args as strs st }"

definition stringify_export_cmd ::
    "string option \<times> string option \<Rightarrow> CmdStrs \<Rightarrow> pool_state \<Rightarrow> (CmdStrs \<times> pool_state) option" where
  "stringify_export_cmd c strs st =
     do { (strs, st) \<leftarrow> push_dup ''export'' strs st;
          (strs, st) \<leftarrow> push_str (fst c) strs st;
          push_str (snd c) strs st }"

definition stringify_cd_cmd :: "string option \<Rightarrow> CmdStrs \<Rightarrow> pool_state \<Rightarrow> (CmdStrs \<times> pool_state) option" where
  "stringify_cd_cmd dir strs st =
     do { (strs, st) \<leftarrow> push_dup ''cd'' strs st; push_str dir strs st }"

definition stringify_kill_cmd ::
    "int \<times> int \<times> string option \<times> string option \<Rightarrow> CmdStrs \<Rightarrow> pool_state \<Rightarrow> (CmdStrs \<times> pool_state) option" where
  "stringify_kill_cmd c strs st =
     (case c of (sig, job, sig_str, job_str) \<Rightarrow>
      do { (strs, st) \<leftarrow> push_dup ''kill'' strs st;
           (strs, st) \<leftarrow> push_str sig_str strs st;
           push_str job_str strs st })"

definition stringify_simple_cmd :: "string \<Rightarrow> CmdStrs \<Rightarrow> pool_state \<Rightarrow> (CmdStrs \<times> pool_state) option" where
  "stringify_simple_cmd str strs st = push_dup str strs st"

definition stringify_command :: "Command \<Rightarrow> CmdStrs \<Rightarrow> pool_state \<Rightarrow> (CmdStrs \<times> pool_state) option" where
  "stringify_command c strs st = (case get_command_type c of
     GENERIC \<Rightarrow> do { as \<leftarrow> generic_args c; stringify_generic_cmd as strs st }
   | ECHO \<Rightarrow> do { as \<leftarrow> generic_args c; stringify_echo_cmd as strs st }
   | EXPORT \<Rightarrow> do { vs \<leftarrow> export_fields c; stringify_export_cmd vs strs st }
   | CD \<Rightarrow> do { dir \<leftarrow> cd_dir c; stringify_cd_cmd dir strs st }
   | KILL \<Rightarrow> do { k \<leftarrow> kill_fields c; stringify_kill_cmd k strs st }
   | PWD \<Rightarrow> stringify_simple_cmd ''PWD'' strs st
   | JOBS \<Rightarrow> stringify_simple_cmd ''JOBS'' strs st
   | EXIT \<Rightarrow> stringify_simple_cmd ''EXIT'' strs st
   | EOC \<Rightarrow> Some (strs, st))"

definition stringify_holder :: "CommandHolder \<Rightarrow> CmdStrs \<Rightarrow> pool_state \<Rightarrow> (CmdStrs \<times> pool_state) option" where
  "stringify_holder h strs st =
     do { (strs, st) \<leftarrow> stringify_command (cmd h) strs st;
          (strs, st) \<leftarrow> (if has_flag (flags h) REDIRECT_IN
             then do { (strs, st) \<leftarrow> push_dup ''<'' strs st; push_str (redirect_in h) strs st }
             else Some (strs, st));
          (strs, st) \<leftarrow> (if has_flag (flags h) REDIRECT_APPEND then push_dup ''>>'' strs st
             else if has_flag (flags h) REDIRECT_OUT then push_dup ''>'' strs st
             else Some (strs, st));
          (strs, st) \<leftarrow> (if has_flag (flags h) REDIRECT_OUT then push_str (redirect_out h) strs st
             else Some (strs, st));
          (if has_flag (flags h) PIPE_OUT then push_dup ''|'' strs st else Some (strs, st)) }"

fun stringify_holders :: "CommandHolder list \<Rightarrow> CmdStrs \<Rightarrow> pool_state \<Rightarrow> (CmdStrs \<times> pool_state) option" where
  "stringify_holders [] strs st = None"
| "stringify_holders (h # hs) strs st =
     (if get_command_holder_type h = EOC then Some (strs, st)
      else do { (strs, st) \<leftarrow> stringify_holder h strs st; stringify_holders hs strs st })"

definition stringify_script :: "CommandHolder list \<Rightarrow> CmdStrs \<Rightarrow> pool_state \<Rightarrow> (CmdStrs \<times> pool_state) option" where
  "stringify_script holders strs st =
     do { (strs, st) \<leftarrow> stringify_holders holders strs st;
          (strs, st) \<leftarrow> (case holders of [] \<Rightarrow> None
             | h # hs \<Rightarrow> if has_flag (flags h) BACKGROUND then push_dup ''&'' strs st else Some (strs, st));
          push_str None strs st }"

text \<open>The elements of an array that were written.\<close>

definition written :: "'a option list \<Rightarrow> 'a list" where
  "written cs = map the (takeWhile (\<lambda>c. c \<noteq> None) cs)"

text \<open>\<open>__condense_string_array\<close>: the lengths are stacked in a first loop and used in a second
  one that copies the strings into a buffer of \<open>char\<close> cells.\<close>

fun stack_sizes :: "args \<Rightarrow> (nat, heap) deque \<Rightarrow> nat \<Rightarrow> heap \<Rightarrow> ((nat, heap) deque \<times> nat \<times> heap) option" where
  "stack_sizes [] ss len h = None"
| "stack_sizes (None # as) ss len h = Some (ss, len, h)"
| "stack_sizes (Some s # as) ss len h =
     do { (ss, h) \<leftarrow> push_back malloc free 8 (length s + 1) ss h;
          stack_sizes as ss (size64 (len + (length s + 1))) h }"

definition strcpy_at :: "char option list \<Rightarrow> nat \<Rightarrow> string \<Rightarrow> char option list option" where
  "strcpy_at buf pos s =
     (if pos + length s + 1 \<le> length buf
      then Some (take pos buf @ map Some (s @ [NUL]) @ drop (pos + length s + 1) buf) else None)"

fun copy_strings ::
    "args \<Rightarrow> (nat, heap) deque \<Rightarrow> nat \<Rightarrow> char option list \<Rightarrow> ((nat, heap) deque \<times> nat \<times> char option list) option" where
  "copy_strings [] ss pos buf = None"
| "copy_strings (None # as) ss pos buf = Some (ss, pos, buf)"
| "copy_strings (Some s # as) ss pos buf =
     do { buf \<leftarrow> strcpy_at buf pos s;
          (n, ss) \<leftarrow> pop_front ss;
          buf \<leftarrow> write_cell buf (pos + n - 1) (CHR '' '');
          copy_strings as ss (pos + n) buf }"

definition condense_string_array :: "args \<Rightarrow> pool_state \<Rightarrow> ((nat \<times> char option list) \<times> pool_state) option" where
  "condense_string_array str_arr st =
     do { (ss, h) \<leftarrow> new_deque malloc 8 10 (pheap st);
          (ss, len, h) \<leftarrow> stack_sizes str_arr ss 0 h;
          (p, st) \<leftarrow> memory_pool_alloc (size64 (len + 1)) (st\<lparr>pheap := h\<rparr>);
          (ss, pos, buf) \<leftarrow> copy_strings str_arr ss 0 (replicate (size64 (len + 1)) None);
          buf \<leftarrow> write_cell buf pos NUL;
          (ss, h) \<leftarrow> destroy_deque free ss (pheap st);
          Some ((p, buf), st\<lparr>pheap := h\<rparr>) }"

subsection \<open>String tokens\<close>

type_synonym StrBuilder = "(char, heap) deque"
type_synonym MPStrBuilder = "(char, pool_state) deque"

definition is_first_identifier_char :: "char \<Rightarrow> bool" where
  "is_first_identifier_char c \<longleftrightarrow> isalpha c \<or> c = CHR ''_''"

definition is_identifier_char :: "char \<Rightarrow> bool" where
  "is_identifier_char c \<longleftrightarrow> isalnum c \<or> c = CHR ''_''"

text \<open>\<open>str[i]\<close>: a C string ends with a NUL; beyond it the access is undefined.\<close>

definition char_at :: "string \<Rightarrow> nat \<Rightarrow> char option" where
  "char_at str i = (if i < length str then Some (str ! i) else if i = length str then Some NUL else None)"

text \<open>The loop that collects the name; it leaves the index on the first other character.\<close>

function take_identifier ::
    "string \<Rightarrow> nat \<Rightarrow> StrBuilder \<Rightarrow> heap \<Rightarrow> (nat \<times> StrBuilder \<times> heap) option" where
  "take_identifier str idx tmp h =
     (case char_at str (Suc idx) of
        None \<Rightarrow> None
      | Some c \<Rightarrow> if is_identifier_char c
          then do { (tmp, h) \<leftarrow> push_back malloc free 1 c tmp h; take_identifier str (Suc idx) tmp h }
          else Some (Suc idx, tmp, h))"
  by pat_completeness auto
termination
  by (relation "measure (\<lambda>(str, idx, tmp, h). length str - idx)") (auto simp: char_at_def split: if_splits)

declare take_identifier.simps [simp del]

fun push_chars :: "string \<Rightarrow> MPStrBuilder \<Rightarrow> pool_state \<Rightarrow> (MPStrBuilder \<times> pool_state) option" where
  "push_chars [] bld st = Some (bld, st)"
| "push_chars (c # cs) bld st = do { (bld, st) \<leftarrow> push_back_pool 1 c bld st; push_chars cs bld st }"

text \<open>\<open>__interpret_deref\<close>; the pointer \<open>idx\<close> is passed in and out.\<close>

definition interpret_deref ::
    "env \<Rightarrow> MPStrBuilder \<Rightarrow> string \<Rightarrow> nat \<Rightarrow> pool_state \<Rightarrow> (MPStrBuilder \<times> nat \<times> pool_state) option" where
  "interpret_deref env bld str idx st =
     do { c \<leftarrow> char_at str idx;
          b \<leftarrow> peek_back bld;
          if c \<noteq> CHR ''$'' \<or> b \<noteq> CHR ''$'' then None
          else do {
            (b, bld) \<leftarrow> pop_back bld;
            (tmp, h) \<leftarrow> new_deque malloc 1 16 (pheap st);
            (idx, tmp, h) \<leftarrow> take_identifier str idx tmp h;
            let idx = idx - 1;
            (tmp, h) \<leftarrow> push_back malloc free 1 NUL tmp h;
            ((p, id, len), tmp, h) \<leftarrow> as_array_deque malloc free 1 tmp h;
            let env_var = lookup_env env (cstr (written id));
            h \<leftarrow> free p h;
            (bld, st) \<leftarrow> (case env_var of None \<Rightarrow> Some (bld, st\<lparr>pheap := h\<rparr>)
                              | Some v \<Rightarrow> push_chars v bld (st\<lparr>pheap := h\<rparr>));
            Some (bld, idx, st) } }"

definition escapable :: "char \<Rightarrow> bool" where
  "escapable c \<longleftrightarrow> c \<in> set [CHR 0x5C, CHR 0x27, CHR ''#'', CHR ''$'', CHR ''='', CHR ''&'', CHR ''|'', CHR '';'', CHR '' '', TAB]"

text \<open>The body of the loop of \<open>interpret_complex_string_token\<close>: the new index, the state of the
  quotes, the builder.\<close>

definition interpret_char ::
    "env \<Rightarrow> string \<Rightarrow> nat \<Rightarrow> bool \<Rightarrow> MPStrBuilder \<Rightarrow> pool_state \<Rightarrow> (nat \<times> bool \<times> MPStrBuilder \<times> pool_state) option" where
  "interpret_char env str i in_quotes bld st =
     do { c \<leftarrow> char_at str i;
          (bld, st) \<leftarrow> push_back_pool 1 c bld st;
          if c = CHR 0x5C then
            do { d \<leftarrow> char_at str (i + 1);
                 if \<not> in_quotes then
                   if escapable d then do { bld \<leftarrow> update_back d bld; Some (i + 1, in_quotes, bld, st) }
                   else if d = NL then do { (b, bld) \<leftarrow> pop_back bld; Some (i + 1, in_quotes, bld, st) }
                   else Some (i, in_quotes, bld, st)
                 else if d = CHR 0x27 then do { bld \<leftarrow> update_back (CHR 0x27) bld; Some (i + 1, in_quotes, bld, st) }
                 else Some (i, in_quotes, bld, st) }
          else if c = CHR 0x27 then do { (b, bld) \<leftarrow> pop_back bld; Some (i, \<not> in_quotes, bld, st) }
          else if c = CHR ''$'' then
            (if in_quotes then Some (i, in_quotes, bld, st)
             else do { d \<leftarrow> char_at str (i + 1);
                       if is_first_identifier_char d
                       then do { (bld, i, st) \<leftarrow> interpret_deref env bld str i st; Some (i, in_quotes, bld, st) }
                       else Some (i, in_quotes, bld, st) })
          else Some (i, in_quotes, bld, st) }"

text \<open>The index is an \<open>int\<close> in the code: a string token is taken to be shorter than \<open>2 ^ 31\<close>.\<close>

partial_function (option) interpret_loop ::
    "env \<Rightarrow> string \<Rightarrow> nat \<Rightarrow> bool \<Rightarrow> MPStrBuilder \<Rightarrow> pool_state \<Rightarrow> (bool \<times> MPStrBuilder \<times> pool_state) option" where
  "interpret_loop env str i in_quotes bld st =
     (if i \<le> length str then
        do { (i, in_quotes, bld, st) \<leftarrow> interpret_char env str i in_quotes bld st;
             interpret_loop env str (i + 1) in_quotes bld st }
      else Some (in_quotes, bld, st))"

declare interpret_loop.simps [code]

definition interpret_complex_string_token :: "env \<Rightarrow> string \<Rightarrow> pool_state \<Rightarrow> ((nat \<times> string) \<times> pool_state) option" where
  "interpret_complex_string_token env str st =
     do { (bld, st) \<leftarrow> new_pool_deque 1 64 st;
          (in_quotes, bld, st) \<leftarrow> interpret_loop env str 0 False bld st;
          bld \<leftarrow> update_back NUL bld;
          if in_quotes then None
          else do { ((p, cs, len), bld, st) \<leftarrow> as_array_pool_deque 1 bld st;
                    Some ((p, cstr (written cs)), st) } }"

subsection \<open>Parsing\<close>

record Redirect =
  r_in :: "string option"
  r_out :: "string option"
  r_append :: bool

definition mk_redirect :: "string option \<Rightarrow> string option \<Rightarrow> bool \<Rightarrow> Redirect" where
  "mk_redirect i out app = \<lparr>r_in = i, r_out = out, r_append = app\<rparr>"

record QuashState =
  running :: bool
  is_a_tty :: bool
  parsed_str :: "string option"

text \<open>
  \<open>yyparse\<close> reads from the input \<open>'w\<close>, may call \<open>end_main_loop\<close> (the flag), and leaves
  \<open>*holders\<close> unset (\<open>None\<close>), \<open>NULL\<close> or pointing to a script; using the variable when it was
  not set is undefined.\<close>

type_synonym 'w yyparse =
  "'w \<Rightarrow> pool_state \<Rightarrow> (CommandHolder list option option \<times> bool \<times> 'w \<times> pool_state) option"

definition end_main_loop :: "QuashState \<Rightarrow> QuashState" where
  "end_main_loop q = q\<lparr>running := False\<rparr>"

definition parse :: "'w yyparse \<Rightarrow> QuashState \<Rightarrow> 'w \<Rightarrow> pool_state
    \<Rightarrow> (CommandHolder list option \<times> QuashState \<times> 'w \<times> pool_state) option" where
  "parse yyparse q w st =
     do { (set, ended, w, st) \<leftarrow> yyparse w st;
          holders \<leftarrow> set;
          let q = (if ended then end_main_loop q else q);
          (case holders of
             None \<Rightarrow> Some (None, q, w, st)
           | Some hs \<Rightarrow>
               do { (strs, st) \<leftarrow> new_pool_deque 8 10 st;
                    (strs, st) \<leftarrow> stringify_script hs strs st;
                    ((p, arr, len), strs, st) \<leftarrow> as_array_pool_deque 8 strs st;
                    ((p, buf), st) \<leftarrow> condense_string_array (written arr) st;
                    Some (Some hs, q\<lparr>parsed_str := Some (cstr (written buf))\<rparr>, w, st) }) }"

subsection \<open>What a string token means\<close>

text \<open>
  The specification of \<open>interpret_complex_string_token\<close>, by recursion on the text: the state
  of the quotes at the end, and the clean text. A backslash outside quotes removes itself
  before a special character and joins lines; inside quotes it only escapes a quote. Outside
  quotes \<open>$name\<close> is the value of the variable, nothing if there is none.\<close>

definition env_value :: "env \<Rightarrow> string \<Rightarrow> string" where
  "env_value env name = (case env name of None \<Rightarrow> [] | Some v \<Rightarrow> v)"

function clean :: "env \<Rightarrow> bool \<Rightarrow> string \<Rightarrow> bool \<times> string" where
  "clean env q [] = (q, [])"
| "clean env q (c # s) =
     (if c = CHR 0x5C then
        (case s of
           d # t \<Rightarrow>
             if \<not> q \<and> escapable d \<or> q \<and> d = CHR 0x27 then apsnd ((#) d) (clean env q t)
             else if \<not> q \<and> d = NL then clean env q t
             else apsnd ((#) c) (clean env q s)
         | [] \<Rightarrow> apsnd ((#) c) (clean env q s))
      else if c = CHR 0x27 then clean env (\<not> q) s
      else if c = CHR ''$'' \<and> \<not> q \<and> (case s of [] \<Rightarrow> False | d # t \<Rightarrow> is_first_identifier_char d)
        then apsnd ((@) (env_value env (takeWhile is_identifier_char s)))
               (clean env q (dropWhile is_identifier_char s))
      else apsnd ((#) c) (clean env q s))"
  by pat_completeness auto
termination
  by (relation "measure (\<lambda>(env, q, s). length s)") (auto simp: length_dropWhile_le le_imp_less_Suc)

declare clean.simps [simp del]

subsection \<open>The loop over a token\<close>

lemma deque_sim_idle:
  assumes "deque_sim sz bs n d xs h" and "m \<le> n"
  shows "deque_sim sz bs m d xs h"
proof -
  have "3 * (length xs + m) * sz \<le> 3 * (length xs + n) * sz" using assms(2) by (intro mult_le_mono1) simp
  moreover have "3 * (length xs + n) * sz \<le> avail h + length (cells d) * sz" using assms(1) by (simp only: deque_sim_def)
  ultimately have "3 * (length xs + m) * sz \<le> avail h + length (cells d) * sz" by (rule order_trans)
  then show ?thesis using assms(1) by (simp only: deque_sim_def)
qed

lemma char_at_drop: "i < length str \<Longrightarrow> char_at str i = Some c \<Longrightarrow> drop i str = c # drop (Suc i) str"
  by (simp add: char_at_def Cons_nth_drop_Suc [symmetric])

lemma not_identifier_NUL: "\<not> is_identifier_char NUL"
  by (simp add: is_identifier_char_def char_class_defs)

lemma take_identifier_ok:
  assumes "deque_sim 1 bs n tmp xs h" and "front tmp = 0" and "idx < length str"
    and "length (takeWhile is_identifier_char (drop (Suc idx) str)) \<le> n"
  shows "\<exists>tmp' h'. take_identifier str idx tmp h =
      Some (Suc idx + length (takeWhile is_identifier_char (drop (Suc idx) str)), tmp', h')
    \<and> deque_sim 1 bs (n - length (takeWhile is_identifier_char (drop (Suc idx) str))) tmp'
        (xs @ takeWhile is_identifier_char (drop (Suc idx) str)) h'
    \<and> front tmp' = 0 \<and> heap_bytes h' = heap_bytes h"
  using assms
proof (induction str idx tmp h arbitrary: n xs rule: take_identifier.induct)
  case (1 str idx tmp h)
  show ?case
  proof (cases "Suc idx < length str \<and> is_identifier_char (str ! Suc idx)")
    case False
    then have "takeWhile is_identifier_char (drop (Suc idx) str) = []"
    proof (cases "Suc idx < length str")
      case True
      with False show ?thesis by (simp add: Cons_nth_drop_Suc [symmetric])
    qed simp
    moreover have "take_identifier str idx tmp h = Some (Suc idx, tmp, h)"
      using False "1.prems"(3) not_identifier_NUL
      by (auto simp: take_identifier.simps [of str idx] char_at_def)
    ultimately show ?thesis using "1.prems" by simp
  next
    case True
    let ?c = "str ! Suc idx"
    have d: "drop (Suc idx) str = ?c # drop (Suc (Suc idx)) str"
      using True by (simp add: Cons_nth_drop_Suc)
    obtain n' where n: "n = Suc n'" using "1.prems"(4) True d by (cases n) auto
    from "1.prems"(1) n have sim: "deque_sim 1 bs (Suc n') tmp xs h" by simp
    obtain tmp1 h1 where p: "push_back malloc free 1 ?c tmp h = Some (tmp1, h1)"
      and s1: "deque_sim 1 bs n' tmp1 (xs @ [?c]) h1" and f: "front tmp1 = 0" and b: "heap_bytes h1 = heap_bytes h"
      using heap_push [OF sim, of ?c] "1.prems"(2) by auto
    have ca: "char_at str (Suc idx) = Some ?c" using True by (simp add: char_at_def)
    have IH: "\<exists>tmp' h'. take_identifier str (Suc idx) tmp1 h1 =
        Some (Suc (Suc idx) + length (takeWhile is_identifier_char (drop (Suc (Suc idx)) str)), tmp', h')
      \<and> deque_sim 1 bs (n' - length (takeWhile is_identifier_char (drop (Suc (Suc idx)) str))) tmp'
          ((xs @ [?c]) @ takeWhile is_identifier_char (drop (Suc (Suc idx)) str)) h'
      \<and> front tmp' = 0 \<and> heap_bytes h' = heap_bytes h1"
      by (rule "1.IH" [OF ca])
        (use True p s1 f "1.prems"(4) d n in auto)
    then show ?thesis
      using True p ca b n d by (auto simp: take_identifier.simps [of str idx])
  qed
qed

lemma written_prefix:
  assumes "take (length xs) cs = map Some xs"
  shows "\<exists>r. written cs = xs @ r"
  using assms
proof (induction xs arbitrary: cs)
  case (Cons x xs)
  then obtain cs' where "cs = Some x # cs'" and "take (length xs) cs' = map Some xs" by (cases cs) auto
  then show ?case using Cons.IH [of cs'] by (auto simp: written_def)
qed simp

lemma cstr_written:
  assumes "take (Suc (length xs)) cs = map Some (xs @ [NUL])" and "NUL \<notin> set xs"
  shows "cstr (written cs) = xs"
proof -
  obtain r where "written cs = (xs @ [NUL]) @ r"
    using written_prefix [of "xs @ [NUL]" cs] assms(1) by auto
  then show ?thesis using cstr_append_NUL [OF assms(2), of r] by simp
qed

lemma grow_room_heap:
  assumes "grow_room sz n k d st" and "heap_ok h" and "blocks h = blocks (pheap st)"
  shows "grow_room sz n k d (st\<lparr>pheap := h\<rparr>)"
proof -
  obtain bs I where "pool_inv bs I st" using assms(1) by (auto simp: grow_room_def pool_ready_def pool_ok_def)
  then have "pool_inv bs I (st\<lparr>pheap := h\<rparr>)" using assms(2,3) by (simp add: pool_inv_def deque_inv_def)
  then have "pool_ok (st\<lparr>pheap := h\<rparr>)" unfolding pool_ok_def by blast
  moreover have "room (st\<lparr>pheap := h\<rparr>) = room st" by (simp add: room_def)
  moreover have "served p m (st\<lparr>pheap := h\<rparr>) = served p m st" for p m by (simp add: served_def)
  ultimately show ?thesis using assms(1) by (simp add: grow_room_def pool_ready_def)
qed

lemma grow_room_heap_ok: "grow_room sz n k d st \<Longrightarrow> heap_ok (pheap st)"
  by (auto simp: grow_room_def pool_ready_def pool_ok_def pool_inv_def deque_inv_def)

lemma push_chars_ok:
  assumes "grow_room 1 n k bld st" and "length (deq_list bld) + length cs \<le> n"
  shows "\<exists>bld' st'. push_chars cs bld st = Some (bld', st') \<and> grow_room 1 n k bld' st'
    \<and> deq_list bld' = deq_list bld @ cs \<and> pheap st' = pheap st"
  using assms
proof (induction cs arbitrary: bld st)
  case Nil
  then show ?case by simp
next
  case (Cons c cs)
  have "length (deq_list bld) < n" using Cons.prems(2) by simp
  then obtain bld1 st1 where p: "push_back_pool 1 c bld st = Some (bld1, st1)" "grow_room 1 n k bld1 st1"
    "deq_list bld1 = deq_list bld @ [c]" "pheap st1 = pheap st"
    by (rule push_back_room [OF Cons.prems(1), of c, rotated 2]) simp_all
  have "length (deq_list bld1) + length cs \<le> n" using Cons.prems(2) p(3) by simp
  from Cons.IH [OF p(2) this] p show ?case by (auto simp: deq_list_length [symmetric] simp del: deq_list_length)
qed

text \<open>Nothing but the pool changes: the heap's blocks and its free bytes are the same again.\<close>

definition heap_kept :: "heap \<Rightarrow> heap \<Rightarrow> bool" where
  "heap_kept h h' \<longleftrightarrow> heap_ok h' \<and> blocks h' = blocks h \<and> avail h' = avail h"

lemma interpret_deref_ok:
  assumes g: "grow_room 1 n k bld st" and bld: "deq_list bld = xs @ [CHR ''$'']"
    and idx: "idx < length str" "str ! idx = CHR ''$''"
    and i: "i = takeWhile is_identifier_char (drop (Suc idx) str)"
    and n: "length xs + length (env_value env i) \<le> n"
    and av: "16 \<le> avail (pheap st)" "3 * (length str + 1) \<le> avail (pheap st)"
  shows "\<exists>bld' st'. interpret_deref env bld str idx st = Some (bld', idx + length i, st')
    \<and> grow_room 1 n k bld' st' \<and> deq_list bld' = xs @ env_value env i \<and> heap_kept (pheap st) (pheap st')"
proof -
  have ne: "deq_list bld \<noteq> []" using bld by simp
  have okb: "deque_ok bld" using g by (simp add: grow_room_def)
  have peek: "peek_back bld = Some (CHR ''$'')" using pop_back_ok(4) [OF okb] bld by simp
  obtain b1 where b1: "pop_back bld = Some (CHR ''$'', b1)" "grow_room 1 n k b1 st" "deq_list b1 = xs"
    using pop_back_room [OF g ne] bld by auto
  have hok: "heap_ok (pheap st)" by (rule grow_room_heap_ok [OF g])
  have li: "length i \<le> length str" using i length_takeWhile_le [of is_identifier_char "drop (Suc idx) str"] by simp
  have n3: "3 * Suc (length i) * 1 \<le> avail (pheap st)" using li av by simp
  obtain t0 :: StrBuilder and h0 where t0: "new_deque malloc 1 16 (pheap st) = Some (t0, h0)"
    "deque_sim 1 (blocks (pheap st)) (Suc (length i)) t0 [] h0" "front t0 = 0" "heap_bytes h0 = heap_bytes (pheap st)"
    by (rule heap_new [OF hok _ _ _ n3, of 16]) (use av in auto)
  obtain t1 h1 where t1: "take_identifier str idx t0 h0 = Some (Suc idx + length i, t1, h1)"
    "deque_sim 1 (blocks (pheap st)) (Suc 0) t1 i h1" "front t1 = 0" "heap_bytes h1 = heap_bytes h0"
    using take_identifier_ok [OF t0(2,3) idx(1)] i by auto
  obtain t2 h2 where t2: "push_back malloc free 1 NUL t1 h1 = Some (t2, h2)"
    "deque_sim 1 (blocks (pheap st)) 0 t2 (i @ [NUL]) h2" "front t2 = 0" "heap_bytes h2 = heap_bytes h1"
    using heap_push [OF t1(2), of NUL] t1(3) by auto
  obtain cs t3 where cs: "as_array_deque malloc free 1 t2 h2 = Some ((data t2, cs, length (i @ [NUL])), t3, h2)"
    "take (length (i @ [NUL])) cs = map Some (i @ [NUL])"
    using heap_as_array [OF t2(2) _ _ t2(3)] by auto
  obtain h3 where h3: "free (data t2) h2 = Some h3" "heap_ok h3" "blocks h3 = blocks (pheap st)" "heap_bytes h3 = heap_bytes h2"
    by (rule heap_free_array [OF t2(2)])
  have "NUL \<notin> set i" using not_identifier_NUL i by (auto dest: set_takeWhileD)
  then have id: "cstr (written cs) = i" using cstr_written cs(2) by simp
  have kept: "heap_kept (pheap st) h3"
    using h3 t2(4) t1(4) t0(4) by (simp add: heap_kept_def heap_bytes_def)
  have g3: "grow_room 1 n k b1 (st\<lparr>pheap := h3\<rparr>)" by (rule grow_room_heap [OF b1(2) h3(2,3)])
  have "length (deq_list b1) + length (env_value env i) \<le> n" using n b1(3) by simp
  from push_chars_ok [OF g3 this] obtain b4 st4 where
    "push_chars (env_value env i) b1 (st\<lparr>pheap := h3\<rparr>) = Some (b4, st4)" "grow_room 1 n k b4 st4"
    "deq_list b4 = xs @ env_value env i" "pheap st4 = h3" using b1(3) by auto
  then show ?thesis
    using idx peek b1 t0 t1 t2 cs h3 id kept
    by (cases "env i") (auto simp: interpret_deref_def char_at_def lookup_env_def env_value_def)
qed

lemma heap_kept_refl: "heap_ok h \<Longrightarrow> heap_kept h h"
  by (simp add: heap_kept_def)

lemma apsnd_append_Nil [simp]: "apsnd ((@) []) r = r"
  by (cases r) simp

lemma drop_identifier:
  assumes "i < length str"
  shows "drop (Suc (i + length (takeWhile p (drop (Suc i) str)))) str = dropWhile p (drop (Suc i) str)"
proof -
  have "drop (length (takeWhile p (drop (Suc i) str))) (drop (Suc i) str) = dropWhile p (drop (Suc i) str)"
    by (simp add: dropWhile_eq_drop)
  then show ?thesis by (simp add: add.commute)
qed

lemma interpret_char_ok:
  assumes nul: "NUL \<notin> set str" and i: "i < length str"
    and g: "grow_room 1 n k bld st" and bld: "deq_list bld = xs"
    and n: "length xs + length (snd (clean env q (drop i str))) + 1 \<le> n"
    and av: "16 \<le> avail (pheap st)" "3 * (length str + 1) \<le> avail (pheap st)"
  shows "\<exists>i' q1 bld1 st1 w. interpret_char env str i q bld st = Some (i', q1, bld1, st1)
    \<and> i \<le> i' \<and> i' < length str \<and> grow_room 1 n k bld1 st1 \<and> deq_list bld1 = xs @ w
    \<and> heap_kept (pheap st) (pheap st1)
    \<and> clean env q (drop i str) = apsnd ((@) w) (clean env q1 (drop (Suc i') str))"
proof -
  let ?c = "str ! i" and ?s = "drop (Suc i) str"
  have d: "drop i str = ?c # ?s" using i by (simp add: Cons_nth_drop_Suc)
  have ca: "char_at str i = Some ?c" using i by (simp add: char_at_def)
  have hk: "heap_kept (pheap st) (pheap st)" by (rule heap_kept_refl [OF grow_room_heap_ok [OF g]])
  have "length (deq_list bld) < n" using n bld by simp
  then obtain b1 st1 where p: "push_back_pool 1 ?c bld st = Some (b1, st1)" "grow_room 1 n k b1 st1"
    "deq_list b1 = xs @ [?c]" "pheap st1 = pheap st"
    using push_back_room [OF g, of ?c] bld by auto
  have ne: "deq_list b1 \<noteq> []" using p(3) by simp
  obtain b2 where b2: "pop_back b1 = Some (?c, b2)" "grow_room 1 n k b2 st1" "deq_list b2 = xs"
    using pop_back_room [OF p(2) ne] p(3) by auto
  have upd: "\<exists>b3. update_back x b1 = Some b3 \<and> grow_room 1 n k b3 st1 \<and> deq_list b3 = xs @ [x]" for x
    using update_back_room [OF p(2) ne, of x] p(3) by auto
  consider (bs) "?c = CHR 0x5C" | (quote) "?c = CHR 0x27" | (dollar) "?c = CHR ''$''"
    | (other) "?c \<noteq> CHR 0x5C" "?c \<noteq> CHR 0x27" "?c \<noteq> CHR ''$''" by blast
  then show ?thesis
  proof cases
    case other
    then show ?thesis
      using p ca i hk by (intro exI [of _ i] exI [of _ q] exI [of _ b1] exI [of _ st1] exI [of _ "[?c]"])
        (simp add: interpret_char_def d clean.simps(2))
  next
    case quote
    then show ?thesis
      using p b2 ca i hk by (intro exI [of _ i] exI [of _ "\<not> q"] exI [of _ b2] exI [of _ st1] exI [of _ "[]"])
        (simp add: interpret_char_def d clean.simps(2))
  next
    case bs
    show ?thesis
    proof (cases "Suc i < length str")
      case False
      then have "char_at str (Suc i) = Some NUL" and "?s = []" using i by (auto simp: char_at_def)
      then show ?thesis
        using p ca i hk bs by (intro exI [of _ i] exI [of _ q] exI [of _ b1] exI [of _ st1] exI [of _ "[?c]"])
          (simp add: interpret_char_def d clean.simps(2) escapable_def)
    next
      case True
      let ?d = "str ! Suc i"
      have s: "?s = ?d # drop (Suc (Suc i)) str" using True by (simp add: Cons_nth_drop_Suc)
      have cd: "char_at str (Suc i) = Some ?d" using True by (simp add: char_at_def)
      obtain b3 where b3: "update_back ?d b1 = Some b3" "grow_room 1 n k b3 st1" "deq_list b3 = xs @ [?d]"
        using upd by blast
      consider (esc) "\<not> q" "escapable ?d" | (nl) "\<not> q" "\<not> escapable ?d" "?d = NL"
        | (qq) "q" "?d = CHR 0x27" | (no) "\<not> (\<not> q \<and> escapable ?d)" "\<not> (\<not> q \<and> ?d = NL)" "\<not> (q \<and> ?d = CHR 0x27)"
        by blast
      then show ?thesis
      proof cases
        case esc
        then show ?thesis
          using p b3 ca cd True hk bs
          by (intro exI [of _ "Suc i"] exI [of _ q] exI [of _ b3] exI [of _ st1] exI [of _ "[?d]"])
            (simp add: interpret_char_def d s clean.simps(2))
      next
        case nl
        then show ?thesis
          using p b2 ca cd True hk bs
          by (intro exI [of _ "Suc i"] exI [of _ q] exI [of _ b2] exI [of _ st1] exI [of _ "[]"])
            (simp add: interpret_char_def d s clean.simps(2))
      next
        case qq
        then show ?thesis
          using p b3 ca cd True hk bs
          by (intro exI [of _ "Suc i"] exI [of _ q] exI [of _ b3] exI [of _ st1] exI [of _ "[?d]"])
            (simp add: interpret_char_def d s clean.simps(2))
      next
        case no
        then show ?thesis
          using p ca cd True hk bs s
          by (intro exI [of _ i] exI [of _ q] exI [of _ b1] exI [of _ st1] exI [of _ "[?c]"])
            (simp add: interpret_char_def d s clean.simps(2) del: append.simps, auto)
      qed
    qed
  next
    case dollar
    show ?thesis
    proof (cases "\<not> q \<and> Suc i < length str \<and> is_first_identifier_char (str ! Suc i)")
      case False
      have "\<not> (case ?s of [] \<Rightarrow> False | d # t \<Rightarrow> is_first_identifier_char d) \<or> q"
        using False by (cases "Suc i < length str") (auto simp: Cons_nth_drop_Suc [symmetric])
      moreover have "q \<or> (\<exists>d. char_at str (Suc i) = Some d \<and> \<not> is_first_identifier_char d)"
        using False i by (auto simp: char_at_def is_first_identifier_char_def char_class_defs)
      ultimately show ?thesis
        using p ca i hk dollar
        by (intro exI [of _ i] exI [of _ q] exI [of _ b1] exI [of _ st1] exI [of _ "[?c]"])
          (auto simp: interpret_char_def d clean.simps(2))
    next
      case True
      let ?i = "takeWhile is_identifier_char ?s"
      have s: "?s = str ! Suc i # drop (Suc (Suc i)) str" using True by (simp add: Cons_nth_drop_Suc)
      have cl: "clean env q (drop i str) =
          apsnd ((@) (env_value env ?i)) (clean env q (dropWhile is_identifier_char ?s))"
        using True dollar s by (simp add: d clean.simps(2) del: takeWhile.simps dropWhile.simps)
      then have "length xs + length (env_value env ?i) \<le> n" using n by simp
      then obtain b4 st4 where r: "interpret_deref env b1 str i st1 = Some (b4, i + length ?i, st4)"
        "grow_room 1 n k b4 st4" "deq_list b4 = xs @ env_value env ?i" "heap_kept (pheap st1) (pheap st4)"
        using interpret_deref_ok [OF p(2), of xs i str ?i env] p(3,4) dollar i av by auto
      have "length ?i \<le> length ?s" by (rule length_takeWhile_le)
      then have lt: "i + length ?i < length str" using i by simp
      have cd: "char_at str (Suc i) = Some (str ! Suc i)" using True by (simp add: char_at_def)
      show ?thesis
        using p r ca cd dollar True lt cl drop_identifier [OF i, of is_identifier_char]
        by (intro exI [of _ "i + length ?i"] exI [of _ q] exI [of _ b4] exI [of _ st4] exI [of _ "env_value env ?i"])
          (simp add: interpret_char_def)
    qed
  qed
qed

lemma heap_kept_trans: "heap_kept h h' \<Longrightarrow> heap_kept h' h'' \<Longrightarrow> heap_kept h h''"
  by (simp add: heap_kept_def)

lemma interpret_loop_ok:
  assumes "NUL \<notin> set str" and "i \<le> length str"
    and "grow_room 1 n k bld st" and "length (deq_list bld) + length (snd (clean env q (drop i str))) + 1 \<le> n"
    and "16 \<le> avail (pheap st)" "3 * (length str + 1) \<le> avail (pheap st)"
  shows "\<exists>bld' st'. interpret_loop env str i q bld st = Some (fst (clean env q (drop i str)), bld', st')
    \<and> grow_room 1 n k bld' st' \<and> deq_list bld' = deq_list bld @ snd (clean env q (drop i str)) @ [NUL]
    \<and> heap_kept (pheap st) (pheap st')"
  using assms(2-)
proof (induction "Suc (length str) - i" arbitrary: i q bld st rule: less_induct)
  case less
  show ?case
  proof (cases "i = length str")
    case True
    have "length (deq_list bld) < n" using less.prems(3) by simp
    then obtain b1 st1 where p: "push_back_pool 1 NUL bld st = Some (b1, st1)" "grow_room 1 n k b1 st1"
      "deq_list b1 = deq_list bld @ [NUL]" "pheap st1 = pheap st"
      using push_back_room [OF less.prems(2), of NUL] by auto
    have "interpret_char env str i q bld st = Some (i, q, b1, st1)"
      using True p(1) by (simp add: interpret_char_def char_at_def)
    then have "interpret_loop env str i q bld st = Some (q, b1, st1)"
      using True by (simp add: interpret_loop.simps)
    then show ?thesis
      using p True heap_kept_refl [OF grow_room_heap_ok [OF less.prems(2)]]
      by (simp add: clean.simps(1) del: deq_list_length)
  next
    case False
    then have i: "i < length str" using less.prems(1) by simp
    obtain i' q1 b1 st1 w where c: "interpret_char env str i q bld st = Some (i', q1, b1, st1)"
      and ii: "i \<le> i'" "i' < length str" and g1: "grow_room 1 n k b1 st1" and l1: "deq_list b1 = deq_list bld @ w"
      and h1: "heap_kept (pheap st) (pheap st1)"
      and cl: "clean env q (drop i str) = apsnd ((@) w) (clean env q1 (drop (Suc i') str))"
      using interpret_char_ok [OF assms(1) i less.prems(2) refl less.prems(3-5)] by blast
    have "\<exists>bld' st'. interpret_loop env str (Suc i') q1 b1 st1 = Some (fst (clean env q1 (drop (Suc i') str)), bld', st')
      \<and> grow_room 1 n k bld' st' \<and> deq_list bld' = deq_list b1 @ snd (clean env q1 (drop (Suc i') str)) @ [NUL]
      \<and> heap_kept (pheap st1) (pheap st')"
    proof (rule less.hyps)
      show "length (deq_list b1) + length (snd (clean env q1 (drop (Suc i') str))) + 1 \<le> n"
        using less.prems(3) cl l1 by (simp del: deq_list_length)
      show "16 \<le> avail (pheap st1)" "3 * (length str + 1) \<le> avail (pheap st1)"
        using less.prems(4,5) h1 by (simp_all add: heap_kept_def)
    qed (use i ii g1 in auto)
    then show ?thesis
      using c cl l1 i h1 by (auto simp: interpret_loop.simps [of env str i] intro: heap_kept_trans)
  qed
qed

lemma clean_no_NUL:
  assumes "NUL \<notin> set str" and "\<And>x v. env x = Some v \<Longrightarrow> NUL \<notin> set v"
  shows "NUL \<notin> set (snd (clean env q str))"
  using assms
proof (induction env q str rule: clean.induct)
  case (1 env q)
  then show ?case by (simp add: clean.simps)
next
  case (2 env q c s)
  have v: "NUL \<notin> set (env_value env x)" for x
    using "2.prems"(2) by (auto simp: env_value_def split: option.split)
  have sub: "NUL \<notin> set s" "NUL \<noteq> c" "NUL \<notin> set (dropWhile p s)" for p
    using "2.prems"(1) by (auto dest: set_dropWhileD)
  show ?case
  proof (cases s)
    case Nil
    then show ?thesis using 2 sub by (auto simp: clean.simps)
  next
    case (Cons d t)
    then show ?thesis using 2 sub v by (auto simp: clean.simps(2) simp del: takeWhile.simps dropWhile.simps)
  qed
qed

lemma interpret_token_ok:
  assumes nul: "NUL \<notin> set str" and env: "\<And>x v. env x = Some v \<Longrightarrow> NUL \<notin> set v"
    and ready: "pool_ready st" and room: "64 + 4 * (length (snd (clean env False str)) + 2) \<le> room st"
    and av: "16 \<le> avail (pheap st)" "3 * (length str + 1) \<le> avail (pheap st)"
  shows "case clean env False str of
      (True, out) \<Rightarrow> interpret_complex_string_token env str st = None
    | (False, out) \<Rightarrow> \<exists>p st'. interpret_complex_string_token env str st = Some ((p, out), st')
        \<and> pool_ready st' \<and> heap_kept (pheap st) (pheap st')"
proof -
  let ?out = "snd (clean env False str)" let ?n = "length ?out + 1"
  obtain b0 :: MPStrBuilder and st0 where b0: "new_pool_deque 1 64 st = Some (b0, st0)" "grow_room 1 ?n 0 b0 st0"
    "deq_list b0 = []" "pheap st0 = pheap st"
    by (rule new_pool_deque_room [OF ready, of 1 64 ?n 0]) (use room in simp_all)
  obtain b1 st1 where b1: "interpret_loop env str 0 False b0 st0 = Some (fst (clean env False str), b1, st1)"
    "grow_room 1 ?n 0 b1 st1" "deq_list b1 = ?out @ [NUL]" "heap_kept (pheap st0) (pheap st1)"
    using interpret_loop_ok [OF nul, of 0 ?n 0 b0 st0 env False] b0 av by auto
  obtain b2 where b2: "update_back NUL b1 = Some b2" "grow_room 1 ?n 0 b2 st1" "deq_list b2 = ?out @ [NUL]"
    using update_back_room [OF b1(2), of NUL] b1(3) by auto
  obtain cs b3 where cs: "as_array_pool_deque 1 b2 st1 = Some ((data b2, cs, length (deq_list b2)), b3, st1)"
    "take (length (deq_list b2)) cs = map Some (deq_list b2)"
    by (rule as_array_room [OF b2(2)]) (simp, simp, blast)
  have "NUL \<notin> set ?out" by (rule clean_no_NUL [OF nul env])
  then have out: "cstr (written cs) = ?out" using cstr_written cs(2) b2(3) by (simp del: deq_list_length)
  have "pool_ready st1" using b2(2) by (simp add: grow_room_def)
  then show ?thesis
    using b0 b1 b2 cs out
    by (cases "clean env False str") (auto simp: interpret_complex_string_token_def split: bool.split)
qed

subsection \<open>The properties\<close>

text \<open>C24: a string token is cleaned up as specified: with room in the memory pool,
  \<open>interpret_complex_string_token\<close> returns what \<open>clean\<close> specifies (escapes and unescaped
  single quotes removed, variables expanded outside quotes) and leaves the heap as it was;
  if the quotes do not match, its assertion stops the process.\<close>

theorem interpret_token_clean:
  assumes "NUL \<notin> set str" and "\<forall>x v. env x = Some v \<longrightarrow> NUL \<notin> set v"
    and "pool_ready st" and "64 + 4 * (length (snd (clean env False str)) + 2) \<le> room st"
    and "16 \<le> avail (pheap st)" and "3 * (length str + 1) \<le> avail (pheap st)"
  shows "case clean env False str of
      (True, out) \<Rightarrow> interpret_complex_string_token env str st = None
    | (False, out) \<Rightarrow> \<exists>p st'. interpret_complex_string_token env str st = Some ((p, out), st')
        \<and> pool_ready st' \<and> blocks (pheap st') = blocks (pheap st) \<and> avail (pheap st') = avail (pheap st)"
  using interpret_token_ok [OF assms(1) _ assms(3-6)] assms(2)
  by (auto simp: heap_kept_def split: prod.split bool.split)

text \<open>A pool as \<open>main\<close> initialises it.\<close>

lemma demo_state:
  obtains st where "initialize_memory_pool 1024 demo_heap = Some st" and "pool_ready st"
    and "room st = 1024" and "90000 \<le> avail (pheap st)"
proof -
  obtain st where i: "initialize_memory_pool 1024 demo_heap = Some st" and r: "room st = 1024"
    and a: "90000 \<le> avail (pheap st)"
    by (simp add: demo_heap_def pool_eval room_def upt_rec deq_list_def deq_len_def deq_cell_def cong: bind_left_cong)
  moreover have "pool_ready st"
    using initialize_memory_pool_inv [OF demo_heap_ok i] by (auto simp: pool_ready_def pool_ok_def)
  ultimately show ?thesis using that by blast
qed

definition demo_env :: env where
  "demo_env x = (if x = ''USER'' then Some ''ann'' else None)"

lemma demo_env_ok: "\<forall>x v. demo_env x = Some v \<longrightarrow> NUL \<notin> set v"
  by (simp add: demo_env_def)

theorem interpret_token_clean_witness:
  "\<exists>st p st'. initialize_memory_pool 1024 demo_heap = Some st
    \<and> interpret_complex_string_token demo_env (''a'' @ [CHR 0x5C, CHR ''&'', CHR 0x27] @ ''$x'' @ [CHR 0x27] @ ''$USER.c'') st
      = Some ((p, ''a&$xann.c''), st')"
proof -
  obtain st where i: "initialize_memory_pool 1024 demo_heap = Some st" and r: "pool_ready st"
    and m: "room st = 1024" "90000 \<le> avail (pheap st)" by (rule demo_state)
  have c: "clean demo_env False (''a'' @ [CHR 0x5C, CHR ''&'', CHR 0x27] @ ''$x'' @ [CHR 0x27] @ ''$USER.c'') = (False, ''a&$xann.c'')"
    by (simp add: clean.simps escapable_def is_first_identifier_char_def is_identifier_char_def char_class_defs
        env_value_def demo_env_def)
  let ?t = "''a'' @ [CHR 0x5C, CHR ''&'', CHR 0x27] @ ''$x'' @ [CHR 0x27] @ ''$USER.c''"
  have "case clean demo_env False ?t of
      (True, out) \<Rightarrow> interpret_complex_string_token demo_env ?t st = None
    | (False, out) \<Rightarrow> \<exists>p st'. interpret_complex_string_token demo_env ?t st = Some ((p, out), st')
        \<and> pool_ready st' \<and> blocks (pheap st') = blocks (pheap st) \<and> avail (pheap st') = avail (pheap st)"
    by (rule interpret_token_clean) (unfold c, use r m demo_env_ok in simp_all)
  then show ?thesis unfolding c using i by auto
qed

text \<open>Writing a text in single quotes, with its own quotes escaped.\<close>

definition quoted :: "string \<Rightarrow> string" where
  "quoted s = CHR 0x27 # concat (map (\<lambda>c. if c = CHR 0x27 then [CHR 0x5C, CHR 0x27] else [c]) s) @ [CHR 0x27]"

lemma clean_in_quotes:
  assumes "s = [] \<or> last s \<noteq> CHR 0x5C"
  shows "clean env True (concat (map (\<lambda>c. if c = CHR 0x27 then [CHR 0x5C, CHR 0x27] else [c]) s) @ [CHR 0x27]) = (False, s)"
  using assms
proof (induction s)
  case Nil
  show ?case by (simp add: clean.simps)
next
  case (Cons c s)
  show ?case
  proof (cases "c = CHR 0x5C")
    case False
    then show ?thesis using Cons by (auto simp: clean.simps(2) split: if_splits)
  next
    case True
    then obtain d t where s: "s = d # t" using Cons.prems by (cases s) auto
    then show ?thesis using Cons True by (auto simp: clean.simps(2))
  qed
qed

text \<open>Quoting is undone: any text that does not end in a backslash, written in single quotes
  with its own quotes escaped, comes back unchanged, with no variable expanded in it.\<close>

lemma interpret_quoted:
  assumes "NUL \<notin> set s" and "s = [] \<or> last s \<noteq> CHR 0x5C" and "\<forall>x v. env x = Some v \<longrightarrow> NUL \<notin> set v"
    and "pool_ready st" and "72 + 4 * length s \<le> room st" and "9 + 6 * length s \<le> avail (pheap st)"
    and "16 \<le> avail (pheap st)"
  shows "\<exists>p st'. interpret_complex_string_token env (quoted s) st = Some ((p, s), st')"
proof -
  have c: "clean env False (quoted s) = (False, s)"
    using clean_in_quotes [OF assms(2), of env] by (simp add: quoted_def clean.simps(2))
  have "length (concat (map (\<lambda>c. if c = CHR 0x27 then [CHR 0x5C, CHR 0x27] else [c]) s)) \<le> 2 * length s"
    by (induction s) auto
  then have len: "length (quoted s) \<le> 2 * length s + 2" by (simp add: quoted_def)
  have "NUL \<notin> set (quoted s)" using assms(1) by (auto simp: quoted_def)
  then have "case clean env False (quoted s) of
      (True, out) \<Rightarrow> interpret_complex_string_token env (quoted s) st = None
    | (False, out) \<Rightarrow> \<exists>p st'. interpret_complex_string_token env (quoted s) st = Some ((p, out), st')
        \<and> pool_ready st' \<and> heap_kept (pheap st) (pheap st')"
    by (rule interpret_token_ok) (use assms len c in auto)
  then show ?thesis using c by auto
qed

lemma interpret_quoted_witness:
  "\<exists>st p st'. initialize_memory_pool 1024 demo_heap = Some st
    \<and> interpret_complex_string_token demo_env (quoted ''it $USER'') st = Some ((p, ''it $USER''), st')"
proof -
  obtain st where i: "initialize_memory_pool 1024 demo_heap = Some st" and r: "pool_ready st"
    and m: "room st = 1024" "90000 \<le> avail (pheap st)" by (rule demo_state)
  show ?thesis using interpret_quoted [of "''it $USER''" demo_env st] i r m demo_env_ok
    by auto
qed

end
