(* ===== verification/ParseText.thy ===== *)
theory ParseText
  imports ParseIface
begin

text \<open>
  What \<open>parse\<close> of \<open>src/project1/quash/src/parsing/parsing_interface.c\<close> leaves in
  \<open>state->parsed_str\<close>: the strings of the commands, their redirections, pipes and the
  background mark, each followed by a space. With room in the memory pool the functions of
  \<open>ParseIface\<close> that build this text are shown to return it.
\<close>

subsection \<open>Specification\<close>

text \<open>A command whose structure is the one its type says, with a terminated argument vector.\<close>

fun command_ok :: "Command \<Rightarrow> bool" where
  "command_ok (SimpleCommand t) = (t \<in> {PWD, JOBS, EXIT, EOC})"
| "command_ok (GenericCommand t as) = (t \<in> {GENERIC, ECHO} \<and> arg_strings as \<noteq> None)"
| "command_ok (ExportCommand t v s) = (t = EXPORT)"
| "command_ok (CDCommand t d) = (t = CD)"
| "command_ok (KillCommand t s j ss js) = (t = KILL)"

fun command_strings :: "Command \<Rightarrow> args" where
  "command_strings (SimpleCommand t) =
     (case t of PWD \<Rightarrow> [Some ''PWD''] | JOBS \<Rightarrow> [Some ''JOBS''] | EXIT \<Rightarrow> [Some ''EXIT''] | _ \<Rightarrow> [])"
| "command_strings (GenericCommand t as) =
     (if t = ECHO then [Some ''echo''] else []) @ map Some (the (arg_strings as))"
| "command_strings (ExportCommand t v s) = [Some ''export'', v, s]"
| "command_strings (CDCommand t d) = [Some ''cd'', d]"
| "command_strings (KillCommand t s j ss js) = [Some ''kill'', ss, js]"

definition holder_strings :: "CommandHolder \<Rightarrow> args" where
  "holder_strings h = command_strings (cmd h)
     @ (if has_flag (flags h) REDIRECT_IN then [Some ''<'', redirect_in h] else [])
     @ (if has_flag (flags h) REDIRECT_APPEND then [Some ''>>'']
        else if has_flag (flags h) REDIRECT_OUT then [Some ''>''] else [])
     @ (if has_flag (flags h) REDIRECT_OUT then [redirect_out h] else [])
     @ (if has_flag (flags h) PIPE_OUT then [Some ''|''] else [])"

text \<open>The commands of a script, up to the end marker.\<close>

definition script_commands :: "CommandHolder list \<Rightarrow> CommandHolder list" where
  "script_commands hs = takeWhile (\<lambda>h. get_command_holder_type h \<noteq> EOC) hs"

definition script_ok :: "CommandHolder list \<Rightarrow> bool" where
  "script_ok hs \<longleftrightarrow> (\<exists>h \<in> set hs. get_command_holder_type h = EOC) \<and> (\<forall>h \<in> set (script_commands hs). command_ok (cmd h))"

definition script_strings :: "CommandHolder list \<Rightarrow> args" where
  "script_strings hs = concat (map holder_strings (script_commands hs))
     @ (if has_flag (flags (hd hs)) BACKGROUND then [Some ''&''] else []) @ [None]"

text \<open>The first \<open>NULL\<close> ends the text: \<open>cd\<close> to a directory that does not exist has one.\<close>

definition spaced :: "string list \<Rightarrow> string" where
  "spaced ss = concat (map (\<lambda>s. s @ '' '') ss)"

definition script_text :: "CommandHolder list \<Rightarrow> string" where
  "script_text hs = spaced (the (arg_strings (script_strings hs)))"

subsection \<open>Stringification\<close>

text \<open>The strings \<open>xs\<close> are collected, with the memory pool in the state \<open>st\<close>; it was \<open>st0\<close> at first.\<close>

definition strs_state :: "nat \<Rightarrow> nat \<Rightarrow> pool_state \<Rightarrow> args \<Rightarrow> pool_state \<Rightarrow> CmdStrs \<Rightarrow> bool" where
  "strs_state n k st xs st0 strs \<longleftrightarrow> grow_room 8 n k strs st \<and> deq_list strs = xs
     \<and> pheap st = pheap st0 \<and> pool_kept st0 st"

text \<open>\<open>f\<close> appends \<open>ys\<close> to the strings and takes at most \<open>c\<close> bytes beside the deque's.\<close>

definition appends :: "(CmdStrs \<Rightarrow> pool_state \<Rightarrow> (CmdStrs \<times> pool_state) option) \<Rightarrow> args \<Rightarrow> nat \<Rightarrow> bool" where
  "appends f ys c \<longleftrightarrow> (\<forall>n k strs st xs st0. strs_state n k st xs st0 strs \<longrightarrow> length xs + length ys \<le> n \<longrightarrow> c \<le> k \<longrightarrow>
     (\<exists>strs' st'. f strs st = Some (strs', st') \<and> strs_state n (k - c) st' (xs @ ys) st0 strs'))"

lemma grow_room_slack: "grow_room sz n k d st \<Longrightarrow> k' \<le> k \<Longrightarrow> grow_room sz n k' d st"
  by (auto simp: grow_room_def)

lemma appends_slack:
  assumes "appends f ys c" and "c \<le> c'"
  shows "appends f ys c'"
  unfolding appends_def
proof (intro allI impI)
  fix n k strs st xs st0
  assume "strs_state n k st xs st0 strs" "length xs + length ys \<le> n" "c' \<le> k"
  with assms obtain strs' st' where "f strs st = Some (strs', st')" "strs_state n (k - c) st' (xs @ ys) st0 strs'"
    unfolding appends_def by (meson order_trans)
  then show "\<exists>strs' st'. f strs st = Some (strs', st') \<and> strs_state n (k - c') st' (xs @ ys) st0 strs'"
    using assms(2) by (auto simp: strs_state_def intro: grow_room_slack)
qed

lemma appends_none: "appends (\<lambda>strs st. Some (strs, st)) [] 0"
  by (simp add: appends_def)

lemma appends_bind:
  assumes f: "appends f ys c" and g: "appends g zs e"
  shows "appends (\<lambda>strs st. do { (strs, st) \<leftarrow> f strs st; g strs st }) (ys @ zs) (c + e)"
  unfolding appends_def
proof (intro allI impI)
  fix n k strs st xs st0
  assume s: "strs_state n k st xs st0 strs" "length xs + length (ys @ zs) \<le> n" "c + e \<le> k"
  have "length xs + length ys \<le> n" "c \<le> k" using s by simp_all
  then obtain strs1 st1 where r: "f strs st = Some (strs1, st1)" "strs_state n (k - c) st1 (xs @ ys) st0 strs1"
    using f s(1) unfolding appends_def by blast
  have "length (xs @ ys) + length zs \<le> n" "e \<le> k - c" using s by simp_all
  then obtain strs2 st2 where "g strs1 st1 = Some (strs2, st2)" "strs_state n (k - c - e) st2 ((xs @ ys) @ zs) st0 strs2"
    using g r(2) unfolding appends_def by blast
  then show "\<exists>strs' st'. (do { (strs, st) \<leftarrow> f strs st; g strs st }) = Some (strs', st')
      \<and> strs_state n (k - (c + e)) st' (xs @ ys @ zs) st0 strs'"
    using r by simp
qed

lemma appends_push_str: "appends (push_str s) [s] 0"
  unfolding appends_def
proof (intro allI impI)
  fix n k strs st xs st0
  assume s: "strs_state n k st xs st0 strs" "length xs + length [s] \<le> n" "0 \<le> k"
  have "length (deq_list strs) < n" using s by (simp add: strs_state_def)
  then obtain d' st' where "push_back_pool 8 s strs st = Some (d', st')" "grow_room 8 n k d' st'"
    "deq_list d' = deq_list strs @ [s]" "pheap st' = pheap st"
    using push_back_room [of 8 n k strs st s] s(1) by (auto simp: strs_state_def)
  moreover have "pool_kept st st'"
    using push_back_kept [of 8 n k strs st s d' st'] calculation(1) s by (auto simp: strs_state_def simp del: deq_list_length)
  ultimately show "\<exists>strs' st'. push_str s strs st = Some (strs', st') \<and> strs_state n (k - 0) st' (xs @ [s]) st0 strs'"
    using s by (auto simp: strs_state_def push_str_def intro: pool_kept_trans)
qed

lemma appends_push_dup: "appends (push_dup s) [Some s] (length s + 1)"
  unfolding appends_def
proof (intro allI impI)
  fix n k strs st xs st0
  assume s: "strs_state n k st xs st0 strs" "length xs + length [Some s] \<le> n" "length s + 1 \<le> k"
  obtain p st1 where "memory_pool_alloc (length s + 1) st = Some (p, st1)"
    "grow_room 8 n (k - (length s + 1)) strs st1" "pheap st1 = pheap st"
    by (rule alloc_slack [of 8 n k strs st "length s + 1"]) (use s in \<open>simp_all add: strs_state_def\<close>)
  moreover have "pool_kept st st1"
    by (rule memory_pool_alloc_kept [OF _ _ calculation(1)]) (use s in \<open>simp_all add: strs_state_def grow_room_def\<close>)
  ultimately have "memory_pool_strdup s st = Some ((p, s), st1)"
    "strs_state n (k - (length s + 1)) st1 xs st0 strs"
    using s(1) by (auto simp: memory_pool_strdup_def strs_state_def intro: pool_kept_trans)
  moreover from this(2) obtain strs' st' where "push_str (Some s) strs st1 = Some (strs', st')"
    "strs_state n (k - (length s + 1) - 0) st' (xs @ [Some s]) st0 strs'"
    using appends_push_str [of "Some s"] s(2) unfolding appends_def by (metis le0 length_Cons list.size(3))
  ultimately show "\<exists>strs' st'. push_dup s strs st = Some (strs', st')
      \<and> strs_state n (k - (length s + 1)) st' (xs @ [Some s]) st0 strs'"
    by (simp add: push_dup_def)
qed

lemma appends_push_args: "arg_strings as = Some ss \<Longrightarrow> appends (push_args as) (map Some ss) 0"
proof (induction as arbitrary: ss)
  case (Cons a as)
  show ?case
  proof (cases a)
    case None
    then have "push_args (a # as) = (\<lambda>strs st. Some (strs, st))" by (simp add: fun_eq_iff)
    then show ?thesis using Cons.prems None appends_none by simp
  next
    case (Some s)
    then obtain ss' where ss: "ss = s # ss'" "arg_strings as = Some ss'" using Cons.prems by auto
    have "push_args (a # as) = (\<lambda>strs st. do { (strs, st) \<leftarrow> push_str (Some s) strs st; push_args as strs st })"
      using Some by (simp add: fun_eq_iff)
    then show ?thesis
      using appends_bind [OF appends_push_str Cons.IH [OF ss(2)], of "Some s"] ss by simp
  qed
qed simp

lemmas appends_intros = appends_bind appends_push_str appends_push_dup appends_none

lemma appends_command:
  assumes "command_ok c"
  shows "appends (stringify_command c) (command_strings c) 7"
proof (cases c)
  case (SimpleCommand t)
  have "appends (push_dup s) [Some s] 7" if "length s \<le> 6" for s
    by (rule appends_slack [OF appends_push_dup]) (use that in simp)
  moreover have "appends (\<lambda>strs st. Some (strs, st)) [] 7" by (rule appends_slack [OF appends_none]) simp
  ultimately show ?thesis using assms SimpleCommand
    by (auto simp: stringify_command_def [abs_def] stringify_simple_cmd_def)
next
  case (GenericCommand t as)
  then obtain ss where ss: "arg_strings as = Some ss" using assms by auto
  have a: "appends (push_args as) (map Some ss) 7" by (rule appends_slack [OF appends_push_args [OF ss]]) simp
  have "appends (\<lambda>strs st. do { (strs, st) \<leftarrow> push_dup ''echo'' strs st; push_args as strs st })
      ([Some ''echo''] @ map Some ss) 7"
    by (rule appends_slack [OF appends_bind [OF appends_push_dup appends_push_args [OF ss]]]) simp
  then show ?thesis using assms GenericCommand ss a
    by (auto simp: stringify_command_def [abs_def] stringify_generic_cmd_def stringify_echo_cmd_def)
next
  case (ExportCommand t v s)
  have "appends (\<lambda>strs st. do { (strs, st) \<leftarrow> push_dup ''export'' strs st;
      (do { (strs, st) \<leftarrow> push_str v strs st; push_str s strs st }) }) ([Some ''export''] @ [v] @ [s]) 7"
    by (rule appends_slack [OF appends_bind [OF appends_push_dup appends_bind [OF appends_push_str appends_push_str]]]) simp
  then show ?thesis using assms ExportCommand
    by (simp add: stringify_command_def [abs_def] stringify_export_cmd_def)
next
  case (CDCommand t d)
  have "appends (\<lambda>strs st. do { (strs, st) \<leftarrow> push_dup ''cd'' strs st; push_str d strs st }) ([Some ''cd''] @ [d]) 7"
    by (rule appends_slack [OF appends_bind [OF appends_push_dup appends_push_str]]) simp
  then show ?thesis using assms CDCommand
    by (simp add: stringify_command_def [abs_def] stringify_cd_cmd_def)
next
  case (KillCommand t s j ss js)
  have "appends (\<lambda>strs st. do { (strs, st) \<leftarrow> push_dup ''kill'' strs st;
      (do { (strs, st) \<leftarrow> push_str ss strs st; push_str js strs st }) }) ([Some ''kill''] @ [ss] @ [js]) 7"
    by (rule appends_slack [OF appends_bind [OF appends_push_dup appends_bind [OF appends_push_str appends_push_str]]]) simp
  then show ?thesis using assms KillCommand
    by (simp add: stringify_command_def [abs_def] stringify_kill_cmd_def)
qed

lemma appends_holder:
  assumes "command_ok (cmd h)"
  shows "appends (stringify_holder h) (holder_strings h) 14"
proof -
  let ?in = "has_flag (flags h) REDIRECT_IN" and ?app = "has_flag (flags h) REDIRECT_APPEND"
    and ?out = "has_flag (flags h) REDIRECT_OUT" and ?pipe = "has_flag (flags h) PIPE_OUT"
  have a: "appends (\<lambda>strs st. if ?in then do { (strs, st) \<leftarrow> push_dup ''<'' strs st; push_str (redirect_in h) strs st }
      else Some (strs, st)) (if ?in then [Some ''<'', redirect_in h] else []) 2"
    using appends_bind [OF appends_push_dup appends_push_str, of "''<''" "redirect_in h"]
      appends_slack [OF appends_none, of 2] by (simp add: numeral_2_eq_2)
  have b: "appends (\<lambda>strs st. if ?app then push_dup ''>>'' strs st else if ?out then push_dup ''>'' strs st
      else Some (strs, st)) (if ?app then [Some ''>>''] else if ?out then [Some ''>''] else []) 3"
    using appends_push_dup [of "''>>''"] appends_slack [OF appends_push_dup [of "''>''"], of 3]
      appends_slack [OF appends_none, of 3] by (simp add: numeral_3_eq_3)
  have c: "appends (\<lambda>strs st. if ?out then push_str (redirect_out h) strs st else Some (strs, st))
      (if ?out then [redirect_out h] else []) 0"
    using appends_push_str [of "redirect_out h"] appends_none by simp
  have d: "appends (\<lambda>strs st. if ?pipe then push_dup ''|'' strs st else Some (strs, st))
      (if ?pipe then [Some ''|''] else []) 2"
    using appends_push_dup [of "''|''"] appends_slack [OF appends_none, of 2] by (simp add: numeral_2_eq_2)
  show ?thesis
    using appends_bind [OF appends_command [OF assms] appends_bind [OF a appends_bind [OF b appends_bind [OF c d]]]]
    by (simp add: stringify_holder_def [abs_def] holder_strings_def)
qed

lemma appends_holders:
  assumes "\<exists>h \<in> set hs. get_command_holder_type h = EOC" and "\<forall>h \<in> set (script_commands hs). command_ok (cmd h)"
  shows "appends (stringify_holders hs) (concat (map holder_strings (script_commands hs))) (14 * length (script_commands hs))"
  using assms
proof (induction hs)
  case Nil
  then show ?case by simp
next
  case (Cons h hs)
  show ?case
  proof (cases "get_command_holder_type h = EOC")
    case True
    then show ?thesis using appends_none by (simp add: script_commands_def)
  next
    case False
    then have "command_ok (cmd h)" using Cons.prems by (simp add: script_commands_def)
    moreover have "appends (stringify_holders hs) (concat (map holder_strings (script_commands hs))) (14 * length (script_commands hs))"
      by (rule Cons.IH) (use False Cons.prems in \<open>auto simp: script_commands_def\<close>)
    ultimately show ?thesis
      using appends_bind [OF appends_holder] False by (simp add: script_commands_def)
  qed
qed

lemma appends_script:
  assumes "script_ok hs"
  shows "appends (stringify_script hs) (script_strings hs) (14 * length (script_commands hs) + 2)"
proof -
  obtain h hs' where hs: "hs = h # hs'" using assms by (cases hs) (auto simp: script_ok_def)
  let ?bg = "has_flag (flags h) BACKGROUND"
  have b: "appends (\<lambda>strs st. if ?bg then push_dup ''&'' strs st else Some (strs, st))
      (if ?bg then [Some ''&''] else []) 2"
    using appends_push_dup [of "''&''"] appends_slack [OF appends_none, of 2] by (simp add: numeral_2_eq_2)
  have "appends (stringify_holders hs) (concat (map holder_strings (script_commands hs))) (14 * length (script_commands hs))"
    using assms by (intro appends_holders) (auto simp: script_ok_def)
  from appends_bind [OF this appends_bind [OF b appends_push_str [of None]]]
  show ?thesis by (simp add: stringify_script_def [abs_def] script_strings_def hs)
qed

subsection \<open>Condensing\<close>

lemma spaced_simps [simp]: "spaced [] = []" "spaced (s # ss) = s @ CHR '' '' # spaced ss"
  by (simp_all add: spaced_def)

lemma stack_sizes_ok:
  assumes "arg_strings as = Some ss" and "deque_sim 8 bs (length ss) d xs h" and "len + length (spaced ss) < 2 ^ 64"
  shows "\<exists>d' h'. stack_sizes as d len h = Some (d', len + length (spaced ss), h')
    \<and> deque_sim 8 bs 0 d' (xs @ map (\<lambda>s. length s + 1) ss) h' \<and> heap_bytes h' = heap_bytes h"
  using assms
proof (induction as arbitrary: ss d xs len h)
  case (Cons a as)
  show ?case
  proof (cases a)
    case None
    then show ?thesis using Cons.prems by auto
  next
    case (Some s)
    then obtain ss' where ss: "ss = s # ss'" "arg_strings as = Some ss'" using Cons.prems(1) by auto
    have sim: "deque_sim 8 bs (Suc (length ss')) d xs h" using Cons.prems(2) ss by simp
    obtain d1 h1 where p: "push_back malloc free 8 (length s + 1) d h = Some (d1, h1)"
      "deque_sim 8 bs (length ss') d1 (xs @ [length s + 1]) h1" "heap_bytes h1 = heap_bytes h"
      by (rule heap_push [OF sim]) simp_all
    have lt: "(len + (length s + 1)) + length (spaced ss') < 2 ^ 64" using Cons.prems(3) ss by simp
    then have w: "size64 (len + (length s + 1)) = len + (length s + 1)" by (intro size64_id) simp
    from Cons.IH [OF ss(2) p(2) lt] show ?thesis using Some ss p w by auto
  qed
qed simp

lemma copy_strings_ok:
  assumes "arg_strings as = Some ss" and "deque_sim 8 bs n d (map (\<lambda>s. length s + 1) ss) h"
    and "length (spaced ss) \<le> length rest"
  shows "\<exists>d'. copy_strings as d (length pre) (map Some pre @ rest) =
      Some (d', length pre + length (spaced ss), map Some (pre @ spaced ss) @ drop (length (spaced ss)) rest)
    \<and> deque_sim 8 bs n d' [] h"
  using assms
proof (induction as arbitrary: ss d pre rest)
  case (Cons a as)
  show ?case
  proof (cases a)
    case None
    then show ?thesis using Cons.prems by auto
  next
    case (Some s)
    then obtain ss' where ss: "ss = s # ss'" "arg_strings as = Some ss'" using Cons.prems(1) by auto
    have sim: "deque_sim 8 bs n d ((length s + 1) # map (\<lambda>s. length s + 1) ss') h" using Cons.prems(2) ss by simp
    obtain d1 where p: "pop_front d = Some (length s + 1, d1)" "deque_sim 8 bs n d1 (map (\<lambda>s. length s + 1) ss') h"
      by (rule heap_pop_front [OF sim])
    let ?rest = "drop (length s + 1) rest"
    have "strcpy_at (map Some pre @ rest) (length pre) s = Some (map Some pre @ map Some (s @ [NUL]) @ ?rest)"
      using Cons.prems(3) ss by (simp add: strcpy_at_def)
    moreover have "write_cell (map Some pre @ map Some (s @ [NUL]) @ ?rest) (length pre + (length s + 1) - 1) (CHR '' '')
        = Some (map Some (pre @ s @ '' '') @ ?rest)"
      by (simp add: write_cell_def list_update_append)
    moreover have "length (spaced ss') \<le> length ?rest" using Cons.prems(3) ss by simp
    from Cons.IH [OF ss(2) p(2) this, of "pre @ s @ '' ''"] obtain d2 where
      "copy_strings as d1 (length (pre @ s @ '' '')) (map Some (pre @ s @ '' '') @ ?rest) =
        Some (d2, length (pre @ s @ '' '') + length (spaced ss'),
          map Some ((pre @ s @ '' '') @ spaced ss') @ drop (length (spaced ss')) ?rest)"
      "deque_sim 8 bs n d2 [] h" by blast
    ultimately show ?thesis
      using Some ss p by (simp add: add.commute)
  qed
qed simp

lemma mset_other_blocks:
  assumes "deque_sim sz bs n d xs h"
  shows "mset (blocks h) = add_mset (data d, length (cells d) * sz) (mset bs)"
proof -
  have own: "(data d, length (cells d) * sz) \<in> set (blocks h)" and dist: "distinct (map fst (blocks h))"
    and bs: "filter (\<lambda>(q, _). q \<noteq> data d) (blocks h) = bs"
    using assms by (auto simp: deque_sim_def owned_def heap_ok_def)
  from filter_other_block [OF dist own] bs own show ?thesis by simp
qed

lemma condense_ok:
  assumes as: "arg_strings as = Some ss" and ready: "pool_ready st" and room: "length (spaced ss) + 1 \<le> room st"
    and av: "80 \<le> avail (pheap st)" "24 * length ss \<le> avail (pheap st)"
    and small: "length (spaced ss) < 2 ^ 63"
  shows "\<exists>p st'. condense_string_array as st = Some ((p, map Some (spaced ss @ [NUL])), st')
    \<and> pool_ready st' \<and> pool_kept st st' \<and> heap_kept (pheap st) (pheap st')"
proof -
  let ?T = "length (spaced ss)"
  have hok: "heap_ok (pheap st)" using ready by (auto simp: pool_ready_def pool_ok_def pool_inv_def deque_inv_def)
  obtain d0 :: "(nat, heap) deque" and h0 where d0: "new_deque malloc 8 10 (pheap st) = Some (d0, h0)"
    "deque_sim 8 (blocks (pheap st)) (length ss) d0 [] h0" "heap_bytes h0 = heap_bytes (pheap st)"
    by (rule heap_new [OF hok, of 8 10 "length ss"]) (use av in simp_all)
  obtain d1 h1 where d1: "stack_sizes as d0 0 h0 = Some (d1, ?T, h1)"
    "deque_sim 8 (blocks (pheap st)) 0 d1 (map (\<lambda>s. length s + 1) ss) h1" "heap_bytes h1 = heap_bytes h0"
    using stack_sizes_ok [OF as d0(2), of 0] small by auto
  let ?b = "(data d1, length (cells d1) * 8)"
  have m1: "mset (blocks h1) = add_mset ?b (mset (blocks (pheap st)))" by (rule mset_other_blocks [OF d1(2)])
  have ok1: "heap_ok h1" using d1(2) by (simp add: deque_sim_def)
  have inv1: "pool_inv (add_mset ?b bs) I (st\<lparr>pheap := h1\<rparr>)" if "pool_inv bs I st" for bs I
    using that m1 ok1 by (simp add: pool_inv_def deque_inv_def add_mset_commute)
  then have ready1: "pool_ready (st\<lparr>pheap := h1\<rparr>)" using ready by (auto simp: pool_ready_def pool_ok_def)
  have "room (st\<lparr>pheap := h1\<rparr>) = room st" by (simp add: room_def)
  then have "?T + 1 \<le> room (st\<lparr>pheap := h1\<rparr>)" using room by simp
  then obtain p st2 where a: "memory_pool_alloc (?T + 1) (st\<lparr>pheap := h1\<rparr>) = Some (p, st2)"
    "pool_ready st2" "pheap st2 = h1"
    using memory_pool_alloc_room [OF ready1] by (metis (no_types, lifting) pool_state.select_convs(2) pool_state.surjective pool_state.update_convs(2))
  have last: "drop ?T (replicate (?T + 1) (None :: char option)) = [None]"
    by (simp only: drop_replicate) simp
  obtain d3 where d3: "copy_strings as d1 0 (replicate (?T + 1) None) =
      Some (d3, ?T, map Some (spaced ss) @ [None])" "deque_sim 8 (blocks (pheap st)) 0 d3 [] h1"
    using copy_strings_ok [OF as d1(2), of "replicate (?T + 1) None" "[]"] last
    by (auto simp del: replicate.simps)
  obtain d4 h4 where d4: "destroy_deque free d3 h1 = Some (d4, h4)" "heap_ok h4" "blocks h4 = blocks (pheap st)"
    "heap_bytes h4 = heap_bytes h1"
    by (rule heap_destroy [OF d3(2)])
  have w: "write_cell (map Some (spaced ss) @ [None]) ?T NUL = Some (map Some (spaced ss @ [NUL]))"
    by (simp add: write_cell_def list_update_append)
  have kept: "pool_inv bs I (st2\<lparr>pheap := h4\<rparr>)" if inv: "pool_inv bs I st" for bs I
  proof -
    have inv2: "pool_inv (add_mset ?b bs) I st2" using pool_alloc_served(1) [OF inv1 [OF inv] a(1)] small by simp
    have "add_mset (deque_block (pool_deq st2)) (add_mset ?b bs + pool_blocks (deq_list (pool_deq st2)))
        = add_mset ?b (mset (blocks (pheap st)))"
      using inv2 a(3) m1 by (simp add: pool_inv_def deque_inv_def)
    then have "mset (blocks h4) = add_mset (deque_block (pool_deq st2)) (bs + pool_blocks (deq_list (pool_deq st2)))"
      using d4(3) by (simp add: add_mset_commute)
    then show ?thesis using inv2 d4(2) by (simp add: pool_inv_def deque_inv_def)
  qed
  then have "pool_ready (st2\<lparr>pheap := h4\<rparr>)" using a(2) ready by (auto simp: pool_ready_def pool_ok_def)
  moreover have "pool_kept st (st2\<lparr>pheap := h4\<rparr>)" using kept by (simp add: pool_kept_def)
  moreover have "heap_kept (pheap st) h4"
    using d4 d1(3) d0(3) by (simp add: heap_kept_def heap_bytes_def)
  moreover have "size64 (?T + 1) = ?T + 1" using small by (intro size64_id) simp
  ultimately show ?thesis
    using d0(1) d1(1) a d3(1) d4(1) w by (simp add: condense_string_array_def del: map_append replicate.simps)
qed

subsection \<open>Parsing\<close>

lemma arg_strings_of_strings: "arg_strings (xs @ [None]) = Some (map the (takeWhile (\<lambda>a. a \<noteq> None) xs))"
proof (induction xs)
  case (Cons x xs)
  then show ?case by (cases x) auto
qed simp

lemma written_map: "written (map Some xs) = xs"
  by (induction xs) (simp_all add: written_def)

lemma arg_strings_append: "arg_strings as = Some ss \<Longrightarrow> arg_strings (as @ rest) = Some ss"
proof (induction as arbitrary: ss)
  case (Cons a as)
  then show ?case by (cases a) auto
qed simp

lemma parse_ok:
  assumes y: "yyparse w st0 = Some (Some (Some hs), ended, w', st)"
    and hs: "script_ok hs" and nul: "NUL \<notin> set (script_text hs)" and ready: "pool_ready st"
    and room: "116 + 32 * length (script_strings hs) + 14 * length (script_commands hs) + length (script_text hs) \<le> room st"
    and av: "80 + 24 * length (script_strings hs) \<le> avail (pheap st)"
    and small: "length (script_text hs) < 2 ^ 63"
  shows "\<exists>st'. parse yyparse q w st0 =
      Some (Some hs, q\<lparr>running := running q \<and> \<not> ended, parsed_str := Some (script_text hs)\<rparr>, w', st')
    \<and> pool_ready st' \<and> pool_kept st st' \<and> blocks (pheap st') = blocks (pheap st) \<and> avail (pheap st') = avail (pheap st)"
proof -
  let ?N = "length (script_strings hs)" let ?T = "length (script_text hs)"
  let ?c = "14 * length (script_commands hs) + 2"
  obtain ss where ss: "arg_strings (script_strings hs) = Some ss"
    by (simp add: script_strings_def arg_strings_of_strings flip: append_assoc)
  have txt_eq: "script_text hs = spaced ss" using ss by (simp add: script_text_def)
  have ss_len: "length ss \<le> ?N"
  proof -
    have le: "length zs \<le> length args" if "arg_strings args = Some zs" for args :: args and zs
      using that by (induction args arbitrary: zs rule: arg_strings.induct) auto
    show ?thesis by (rule le [OF ss])
  qed
  obtain d0 :: CmdStrs and st1 where d0: "new_pool_deque 8 10 st = Some (d0, st1)"
    "grow_room 8 ?N (?c + (?T + 1)) d0 st1" "deq_list d0 = []" "pheap st1 = pheap st"
    by (rule new_pool_deque_room [OF ready, of 8 10 ?N "?c + (?T + 1)"]) (use room in simp_all)
  have "strs_state ?N (?c + (?T + 1)) st1 [] st d0" using d0 new_pool_deque_kept [OF ready _ d0(1)] room by (simp add: strs_state_def)
  then obtain d1 st2 where d1: "stringify_script hs d0 st1 = Some (d1, st2)"
    "strs_state ?N (?T + 1) st2 (script_strings hs) st d1"
    using appends_script [OF hs] unfolding appends_def by (metis (no_types, lifting) append_Nil diff_add_inverse le_add1 list.size(3) order_refl plus_nat.add_0)
  have g: "grow_room 8 ?N (?T + 1) d1 st2" and l: "deq_list d1 = script_strings hs" and h: "pheap st2 = pheap st" "pool_kept st st2"
    using d1(2) by (auto simp: strs_state_def)
  obtain cs d2 where cs: "as_array_pool_deque 8 d1 st2 = Some ((data d1, cs, length (deq_list d1)), d2, st2)"
    "take (length (deq_list d1)) cs = map Some (deq_list d1)"
    by (rule as_array_room [OF g]) (simp, simp, blast)
  obtain r where "written cs = script_strings hs @ r" using written_prefix [of "deq_list d1" cs] cs(2) l by auto
  then have as: "arg_strings (written cs) = Some ss" using arg_strings_append [OF ss] by simp
  have ready2: "pool_ready st2" and room2: "length (spaced ss) + 1 \<le> room st2"
    using g txt_eq by (simp_all add: grow_room_def)
  obtain p st3 where "condense_string_array (written cs) st2 = Some ((p, map Some (spaced ss @ [NUL])), st3)"
    "pool_ready st3" "pool_kept st2 st3" "heap_kept (pheap st2) (pheap st3)"
    using condense_ok [OF as ready2 room2] av h ss_len small txt_eq by auto
  moreover have "written (map Some (spaced ss @ [NUL])) = spaced ss @ [NUL]"
    by (rule written_map)
  moreover have "cstr (spaced ss @ [NUL]) = spaced ss"
    using cstr_append_NUL [of "spaced ss" "[]"] nul txt_eq by simp
  ultimately show ?thesis
    using y d0(1) d1(1) cs(1) txt_eq h pool_kept_trans [of st st2 st3]
    by (simp add: parse_def end_main_loop_def heap_kept_def del: map_append)
qed

text \<open>C25: after a successful parse the state holds the text of the script. If \<open>yyparse\<close> returns
  a well-formed script, \<open>parse\<close> returns that script and sets \<open>parsed_str\<close> to its strings, each
  followed by a space, up to the first \<open>NULL\<close>; \<open>running\<close> is cleared iff the parser called
  \<open>end_main_loop\<close>, and the heap is left as \<open>yyparse\<close> left it.\<close>

theorem parse_sets_text:
  assumes y: "yyparse w st0 = Some (Some (Some hs), ended, w', st)"
    and hs: "script_ok hs" and nul: "NUL \<notin> set (script_text hs)" and ready: "pool_ready st"
    and room: "116 + 32 * length (script_strings hs) + 14 * length (script_commands hs) + length (script_text hs) \<le> room st"
    and av: "80 + 24 * length (script_strings hs) \<le> avail (pheap st)"
    and small: "length (script_text hs) < 2 ^ 63"
  shows "\<exists>st'. parse yyparse q w st0 =
      Some (Some hs, q\<lparr>running := running q \<and> \<not> ended, parsed_str := Some (script_text hs)\<rparr>, w', st')
    \<and> pool_ready st' \<and> blocks (pheap st') = blocks (pheap st) \<and> avail (pheap st') = avail (pheap st)"
  using parse_ok [of yyparse, OF assms] by blast

definition demo_script :: "CommandHolder list" where
  "demo_script =
     [mk_command_holder (Some ''in'') None (REDIRECT_IN OR PIPE_OUT) (mk_generic_command [Some ''sort'', Some ''-u'', None]),
      mk_command_holder None None PIPE_IN (mk_echo_command [Some ''hi'', None]),
      mk_command_holder None None 0 mk_eoc]"

definition demo_yyparse :: "unit yyparse" where
  "demo_yyparse w st = Some (Some (Some demo_script), True, w, st)"

theorem parse_sets_text_witness:
  "\<exists>st st'. initialize_memory_pool 1024 demo_heap = Some st
    \<and> parse demo_yyparse \<lparr>running = True, is_a_tty = False, parsed_str = None\<rparr> () st =
      Some (Some demo_script,
        \<lparr>running = False, is_a_tty = False, parsed_str = Some ''sort -u < in | echo hi ''\<rparr>, (), st')"
proof -
  obtain st where i: "initialize_memory_pool 1024 demo_heap = Some st" and r: "pool_ready st"
    and m: "room st = 1024" "90000 \<le> avail (pheap st)" by (rule demo_state)
  note ev = script_ok_def script_text_def script_strings_def script_commands_def holder_strings_def demo_script_def
    mk_command_holder_def mk_generic_command_def mk_echo_command_def mk_eoc_def get_command_holder_type_def
    has_flag_def flag_defs
  have t: "script_text demo_script = ''sort -u < in | echo hi ''" by (simp add: ev)
  have s: "script_ok demo_script" "length (script_strings demo_script) = 8" "length (script_commands demo_script) = 2"
    by (simp_all add: ev)
  show ?thesis
    using parse_sets_text [of demo_yyparse "()" st demo_script True "()" st "\<lparr>running = True, is_a_tty = False, parsed_str = None\<rparr>"]
      i r m s unfolding t by (auto simp: demo_yyparse_def)
qed

end
