(* ===== verification/Execute.thy ===== *)
theory Execute
  imports ParseIface
begin

text \<open>
  Running scripts, \<open>src/project1/quash/src/execute.c\<close>: the builtins, the table of background
  jobs (a \<open>malloc\<close> deque of jobs, each with a deque of process ids), and \<open>run_script\<close> with
  \<open>create_process\<close>. The operating system answers through the parameter \<open>os\<close>; what the code
  does to it is recorded in the state: descriptor tables (which process holds which end of
  which pipe), the processes created with what they run, signals sent and waits made. A forked
  process gets a copy of the state, so its part of \<open>create_process\<close> is a function to a
  \<open>process\<close> record and changes nothing in the shell.
\<close>

subsection \<open>Descriptor tables\<close>

datatype handle = Stdio nat | PipeR nat | PipeW nat | ReadFile string | WriteFile string bool

type_synonym fdtab = "handle option list"

definition fd_get :: "fdtab \<Rightarrow> nat \<Rightarrow> handle option" where
  "fd_get tab i = (if i < length tab then tab ! i else None)"

definition fd_set :: "fdtab \<Rightarrow> nat \<Rightarrow> handle \<Rightarrow> fdtab" where
  "fd_set tab i h = (tab @ replicate (Suc i - length tab) None)[i := Some h]"

text \<open>\<open>close\<close> and \<open>dup2\<close> of a descriptor that is not open fail and change nothing.\<close>

definition fd_close :: "fdtab \<Rightarrow> nat \<Rightarrow> fdtab" where
  "fd_close tab i = tab[i := None]"

definition dup2 :: "fdtab \<Rightarrow> nat \<Rightarrow> nat \<Rightarrow> fdtab" where
  "dup2 tab old new = (case fd_get tab old of None \<Rightarrow> tab | Some h \<Rightarrow> fd_set tab new h)"

text \<open>A new descriptor is the lowest one not open.\<close>

fun first_free :: "fdtab \<Rightarrow> nat" where
  "first_free [] = 0"
| "first_free (None # tab) = 0"
| "first_free (Some h # tab) = Suc (first_free tab)"

definition fd_new :: "fdtab \<Rightarrow> handle \<Rightarrow> nat \<times> fdtab" where
  "fd_new tab h = (first_free tab, fd_set tab (first_free tab) h)"

subsection \<open>The operating system and the state of the shell\<close>

record os =
  os_fork :: "nat \<Rightarrow> int"
  os_pipe :: "nat \<Rightarrow> bool"
  os_open :: "string \<Rightarrow> bool"
  os_exec :: "string list \<Rightarrow> bool"
  os_wait :: "nat \<Rightarrow> int \<Rightarrow> int"
  os_chdir :: "string \<Rightarrow> string \<Rightarrow> string option"

text \<open>What a forked process ends up doing: running a program, or printing and exiting.\<close>

datatype action = Exec "string list" | Exit int string

record process =
  proc_pid :: int
  proc_fds :: fdtab
  proc_action :: action

record Job =
  pids :: "(int, heap) deque"
  job_id :: int
  cmd_string :: "nat \<times> string"

abbreviation (input) sizeof_pid_t :: nat where "sizeof_pid_t \<equiv> 4"
abbreviation (input) sizeof_Job :: nat where "sizeof_Job \<equiv> 56"

record shell =
  quash :: QuashState
  pipes :: "(nat \<times> nat) list"
  pipe_index :: nat
  background_jobs :: "(Job, heap) deque"
  next_job_id :: int
  deques_initialized :: bool
  sh_heap :: heap
  sh_env :: env
  cwd :: string
  fds :: fdtab
  out :: string
  errs :: "string list"
  procs :: "process list"
  signals :: "(int \<times> int) list"
  waited :: "int list"
  forks :: nat
  npipes :: nat
  polls :: nat

definition get_current_directory :: "shell \<Rightarrow> string" where
  "get_current_directory sh = cwd sh"

text \<open>\<open>strdup\<close>: a block of the heap and the text in it; \<open>NULL\<close> when the heap is exhausted.\<close>

definition strdup :: "string \<Rightarrow> heap \<Rightarrow> ((nat \<times> string) \<times> heap) option" where
  "strdup s h = do { (p, h) \<leftarrow> malloc (length s + 1) h; Some ((p, if p = 0 then ''(null)'' else s), h) }"

text \<open>A copy for the caller to free; \<open>parsed_str\<close> must not be \<open>NULL\<close>.\<close>

definition get_command_string :: "QuashState \<Rightarrow> heap \<Rightarrow> ((nat \<times> string) \<times> heap) option" where
  "get_command_string q h = do { s \<leftarrow> parsed_str q; strdup s h }"

subsection \<open>Jobs\<close>

definition print_job :: "int \<Rightarrow> int \<Rightarrow> string \<Rightarrow> string" where
  "print_job jid pid str = ''['' @ show_int jid @ '']'' @ [TAB] @ pad_left 8 (CHR '' '') (show_int pid) @ [TAB] @ str @ [NL]"

definition print_job_bg_start :: "int \<Rightarrow> int \<Rightarrow> string \<Rightarrow> string" where
  "print_job_bg_start jid pid str = ''Background job started: '' @ print_job jid pid str"

definition print_job_bg_complete :: "int \<Rightarrow> int \<Rightarrow> string \<Rightarrow> string" where
  "print_job_bg_complete jid pid str = ''Completed: '' @ [TAB] @ print_job jid pid str"

text \<open>The inner loop of \<open>check_jobs_bg_status\<close>: every process id is popped and polled once with
  \<open>WNOHANG\<close>; one that is still running (0) is pushed back. An error (-1) counts as finished.\<close>

fun poll_pids :: "os \<Rightarrow> nat \<Rightarrow> (int, heap) deque \<Rightarrow> bool \<Rightarrow> heap \<Rightarrow> nat
    \<Rightarrow> ((int, heap) deque \<times> bool \<times> heap \<times> nat) option" where
  "poll_pids os 0 ps all_done h k = Some (ps, all_done, h, k)"
| "poll_pids os (Suc n) ps all_done h k =
     do { (pid, ps) \<leftarrow> pop_front ps;
          if os_wait os k pid = 0
          then do { (ps, h) \<leftarrow> push_back malloc free sizeof_pid_t pid ps h; poll_pids os n ps False h (Suc k) }
          else poll_pids os n ps all_done h (Suc k) }"

text \<open>The outer loop: a job all of whose processes are done is reported and freed.\<close>

fun poll_jobs :: "os \<Rightarrow> nat \<Rightarrow> shell \<Rightarrow> shell option" where
  "poll_jobs os 0 sh = Some sh"
| "poll_jobs os (Suc n) sh =
     do { (job, jobs) \<leftarrow> pop_front (background_jobs sh);
          num_pids \<leftarrow> length_deque (pids job);
          (ps, all_done, h, k) \<leftarrow> poll_pids os num_pids (pids job) True (sh_heap sh) (polls sh);
          sh \<leftarrow>
            (if all_done
             then do { (d, h) \<leftarrow> destroy_deque free ps h;
                       h \<leftarrow> free (fst (cmd_string job)) h;
                       Some (sh\<lparr>background_jobs := jobs, sh_heap := h, polls := k,
                         out := out sh @ print_job_bg_complete (job_id job) 0 (snd (cmd_string job))\<rparr>) }
             else do { (jobs, h) \<leftarrow> push_back malloc free sizeof_Job (job\<lparr>pids := ps\<rparr>) jobs h;
                       Some (sh\<lparr>background_jobs := jobs, sh_heap := h, polls := k\<rparr>) });
          poll_jobs os n sh }"

definition check_jobs_bg_status :: "os \<Rightarrow> shell \<Rightarrow> shell option" where
  "check_jobs_bg_status os sh =
     (if \<not> deques_initialized sh then Some sh
      else do { e \<leftarrow> is_empty_deque (background_jobs sh);
                if e then Some sh
                else do { num_jobs \<leftarrow> length_deque (background_jobs sh); poll_jobs os num_jobs sh } })"

subsection \<open>Builtins\<close>

text \<open>\<open>execvp\<close> does not return when it succeeds; the result is the action of the process.\<close>

definition run_generic :: "os \<Rightarrow> args \<Rightarrow> action option" where
  "run_generic os as =
     do { ss \<leftarrow> arg_strings as;
          if ss = [] then None
          else if os_exec os ss then Some (Exec ss) else Some (Exit 0 []) }"

fun echo_loop :: "args \<Rightarrow> string option" where
  "echo_loop [] = None"
| "echo_loop (None # as) = Some []"
| "echo_loop (Some s # as) =
     (case as of [] \<Rightarrow> None
      | a # _ \<Rightarrow> do { r \<leftarrow> echo_loop as; Some (s @ (if a \<noteq> None then '' '' else []) @ r) })"

definition run_echo :: "args \<Rightarrow> string option" where
  "run_echo as = do { s \<leftarrow> echo_loop as; Some (s @ [NL]) }"

definition run_export :: "string option \<times> string option \<Rightarrow> shell \<Rightarrow> shell" where
  "run_export c sh = (case c of
     (Some var, Some v) \<Rightarrow> sh\<lparr>sh_env := (sh_env sh)(var := Some v)\<rparr>
   | _ \<Rightarrow> sh)"

definition run_cd :: "os \<Rightarrow> string option \<Rightarrow> shell \<Rightarrow> shell" where
  "run_cd os dir sh = (case dir of
     None \<Rightarrow> sh\<lparr>errs := errs sh @ [''ERROR: Failed to resolve path'']\<rparr>
   | Some dir \<Rightarrow> (case os_chdir os (cwd sh) dir of
       None \<Rightarrow> sh\<lparr>errs := errs sh @ [''ERROR: Failed to change directory'']\<rparr>
     | Some new_path \<Rightarrow> sh\<lparr>cwd := new_path, sh_env := (sh_env sh)(''PWD'' := Some new_path)\<rparr>))"

text \<open>The two loops of \<open>run_kill\<close>.\<close>

fun signal_pids :: "int \<Rightarrow> nat \<Rightarrow> (int, heap) deque \<Rightarrow> heap \<Rightarrow> (int \<times> int) list
    \<Rightarrow> ((int, heap) deque \<times> heap \<times> (int \<times> int) list) option" where
  "signal_pids sig 0 ps h log = Some (ps, h, log)"
| "signal_pids sig (Suc n) ps h log =
     do { (pid, ps) \<leftarrow> pop_front ps;
          (ps, h) \<leftarrow> push_back malloc free sizeof_pid_t pid ps h;
          signal_pids sig n ps h (log @ [(pid, sig)]) }"

fun kill_jobs :: "int \<Rightarrow> int \<Rightarrow> nat \<Rightarrow> shell \<Rightarrow> shell option" where
  "kill_jobs sig jid 0 sh = Some sh"
| "kill_jobs sig jid (Suc n) sh =
     do { (job, jobs) \<leftarrow> pop_front (background_jobs sh);
          (job, h, log) \<leftarrow>
            (if job_id job = jid
             then do { num_pids \<leftarrow> length_deque (pids job);
                       (ps, h, log) \<leftarrow> signal_pids sig num_pids (pids job) (sh_heap sh) (signals sh);
                       Some (job\<lparr>pids := ps\<rparr>, h, log) }
             else Some (job, sh_heap sh, signals sh));
          (jobs, h) \<leftarrow> push_back malloc free sizeof_Job job jobs h;
          kill_jobs sig jid n (sh\<lparr>background_jobs := jobs, sh_heap := h, signals := log\<rparr>) }"

definition run_kill :: "int \<times> int \<times> string option \<times> string option \<Rightarrow> shell \<Rightarrow> shell option" where
  "run_kill c sh =
     (case c of (sig, jid, _, _) \<Rightarrow>
      do { num_jobs \<leftarrow> length_deque (background_jobs sh); kill_jobs sig jid num_jobs sh })"

definition run_pwd :: "shell \<Rightarrow> string" where
  "run_pwd sh = get_current_directory sh @ [NL]"

fun list_jobs :: "nat \<Rightarrow> (Job, heap) deque \<Rightarrow> heap \<Rightarrow> string option" where
  "list_jobs 0 jobs h = Some []"
| "list_jobs (Suc n) jobs h =
     do { (job, jobs) \<leftarrow> pop_front jobs;
          pid \<leftarrow> peek_front (pids job);
          (jobs, h) \<leftarrow> push_back malloc free sizeof_Job job jobs h;
          r \<leftarrow> list_jobs n jobs h;
          Some (print_job (job_id job) pid (snd (cmd_string job)) @ r) }"

definition run_jobs :: "shell \<Rightarrow> string option" where
  "run_jobs sh =
     (if \<not> deques_initialized sh then Some []
      else do { e \<leftarrow> is_empty_deque (background_jobs sh);
                if e then Some []
                else do { n \<leftarrow> length_deque (background_jobs sh); list_jobs n (background_jobs sh) (sh_heap sh) } })"

subsection \<open>Processes\<close>

text \<open>In the child; what follows it is \<open>exit(0)\<close>.\<close>

definition child_run_command :: "os \<Rightarrow> Command \<Rightarrow> shell \<Rightarrow> action option" where
  "child_run_command os c sh = (case get_command_type c of
     GENERIC \<Rightarrow> do { as \<leftarrow> generic_args c; run_generic os as }
   | ECHO \<Rightarrow> do { as \<leftarrow> generic_args c; s \<leftarrow> run_echo as; Some (Exit 0 s) }
   | PWD \<Rightarrow> Some (Exit 0 (run_pwd sh))
   | JOBS \<Rightarrow> do { s \<leftarrow> run_jobs sh; Some (Exit 0 s) }
   | EXPORT \<Rightarrow> Some (Exit 0 []) | CD \<Rightarrow> Some (Exit 0 []) | KILL \<Rightarrow> Some (Exit 0 [])
   | EXIT \<Rightarrow> Some (Exit 0 []) | EOC \<Rightarrow> Some (Exit 0 []))"

definition parent_run_command :: "os \<Rightarrow> Command \<Rightarrow> shell \<Rightarrow> shell option" where
  "parent_run_command os c sh = (case get_command_type c of
     EXPORT \<Rightarrow> do { vs \<leftarrow> export_fields c; Some (run_export vs sh) }
   | CD \<Rightarrow> do { dir \<leftarrow> cd_dir c; Some (run_cd os dir sh) }
   | KILL \<Rightarrow> do { k \<leftarrow> kill_fields c; run_kill k sh }
   | GENERIC \<Rightarrow> Some sh | ECHO \<Rightarrow> Some sh | PWD \<Rightarrow> Some sh | JOBS \<Rightarrow> Some sh
   | EXIT \<Rightarrow> Some sh | EOC \<Rightarrow> Some sh)"

text \<open>The child's standard input and output; \<open>None\<close> when \<open>open\<close> fails and the child exits with 1.
  \<open>open\<close> of a \<open>NULL\<close> path fails.\<close>

definition child_input :: "os \<Rightarrow> CommandHolder \<Rightarrow> nat \<Rightarrow> fdtab \<Rightarrow> fdtab option" where
  "child_input os h prev_read tab =
     (if has_flag (flags h) REDIRECT_IN then
        (case redirect_in h of
           None \<Rightarrow> None
         | Some f \<Rightarrow> if os_open os f
             then (let (in_fd, tab) = fd_new tab (ReadFile f) in Some (fd_close (dup2 tab in_fd 0) in_fd))
             else None)
      else if has_flag (flags h) PIPE_IN then Some (fd_close (dup2 tab prev_read 0) prev_read)
      else Some tab)"

definition child_output :: "os \<Rightarrow> CommandHolder \<Rightarrow> nat \<times> nat \<Rightarrow> fdtab \<Rightarrow> fdtab option" where
  "child_output os h cur tab =
     do { tab \<leftarrow>
            (if has_flag (flags h) REDIRECT_OUT then
               (case redirect_out h of
                  None \<Rightarrow> None
                | Some f \<Rightarrow> if os_open os f
                    then (let (out_fd, tab) = fd_new tab (WriteFile f (has_flag (flags h) REDIRECT_APPEND))
                          in Some (fd_close (dup2 tab out_fd 1) out_fd))
                    else None)
             else if has_flag (flags h) PIPE_OUT then Some (fd_close (dup2 tab (snd cur) 1) (snd cur))
             else Some tab);
          Some (if has_flag (flags h) PIPE_OUT then fd_close tab (fst cur) else tab) }"

definition child_process :: "os \<Rightarrow> CommandHolder \<Rightarrow> int \<Rightarrow> shell \<Rightarrow> process option" where
  "child_process os h pid sh =
     (case child_input os h (fst (pipes sh ! (1 - pipe_index sh))) (fds sh) of
        None \<Rightarrow> Some \<lparr>proc_pid = pid, proc_fds = fds sh, proc_action = Exit 1 []\<rparr>
      | Some tab \<Rightarrow> (case child_output os h (pipes sh ! pipe_index sh) tab of
          None \<Rightarrow> Some \<lparr>proc_pid = pid, proc_fds = tab, proc_action = Exit 1 []\<rparr>
        | Some tab \<Rightarrow> do { a \<leftarrow> child_run_command os (cmd h) sh;
                          Some \<lparr>proc_pid = pid, proc_fds = tab, proc_action = a\<rparr> }))"

definition open_pipe :: "os \<Rightarrow> shell \<Rightarrow> shell" where
  "open_pipe os sh =
     (if os_pipe os (npipes sh)
      then (let (r, tab) = fd_new (fds sh) (PipeR (npipes sh));
                (w, tab) = fd_new tab (PipeW (npipes sh))
            in sh\<lparr>fds := tab, pipes := (pipes sh)[pipe_index sh := (r, w)], npipes := Suc (npipes sh)\<rparr>)
      else sh\<lparr>errs := errs sh @ [''pipe''], npipes := Suc (npipes sh)\<rparr>)"

text \<open>\<open>fork\<close> returns the child's id in the parent, -1 when no child could be made.\<close>

definition create_process :: "os \<Rightarrow> CommandHolder \<Rightarrow> shell \<Rightarrow> (int \<times> shell) option" where
  "create_process os h sh =
     (let p_in = has_flag (flags h) PIPE_IN; p_out = has_flag (flags h) PIPE_OUT;
          sh = (if p_out then open_pipe os sh else sh);
          pid = os_fork os (forks sh)
      in do {
        new \<leftarrow> (if pid = -1 then Some [] else do { p \<leftarrow> child_process os h pid sh; Some [p] });
        let tab = (if p_out then fd_close (fds sh) (snd (pipes sh ! pipe_index sh)) else fds sh);
        let tab = (if p_in then fd_close tab (fst (pipes sh ! (1 - pipe_index sh))) else tab);
        sh \<leftarrow> parent_run_command os (cmd h)
               (sh\<lparr>forks := Suc (forks sh), procs := procs sh @ new, fds := tab, pipe_index := 1 - pipe_index sh\<rparr>);
        Some (pid, sh) })"

text \<open>The loop of \<open>run_script\<close> over the commands.\<close>

fun run_commands :: "os \<Rightarrow> CommandHolder list \<Rightarrow> (int, heap) deque \<Rightarrow> shell \<Rightarrow> ((int, heap) deque \<times> shell) option" where
  "run_commands os [] ps sh = None"
| "run_commands os (h # hs) ps sh =
     (if get_command_holder_type h = EOC then Some (ps, sh)
      else do { (child_pid, sh) \<leftarrow> create_process os h sh;
                (ps, hp) \<leftarrow> push_back malloc free sizeof_pid_t child_pid ps (sh_heap sh);
                run_commands os hs ps (sh\<lparr>sh_heap := hp\<rparr>) })"

text \<open>Waiting for the processes of a job in the foreground.\<close>

partial_function (option) wait_pids :: "(int, heap) deque \<Rightarrow> shell \<Rightarrow> ((int, heap) deque \<times> shell) option" where
  "wait_pids ps sh =
     do { e \<leftarrow> is_empty_deque ps;
          if e then Some (ps, sh)
          else do { (pid, ps) \<leftarrow> pop_front ps; wait_pids ps (sh\<lparr>waited := waited sh @ [pid]\<rparr>) } }"

declare wait_pids.simps [code]

definition init_jobs :: "shell \<Rightarrow> shell option" where
  "init_jobs sh =
     (if deques_initialized sh then Some sh
      else do { (d, h) \<leftarrow> new_deque malloc sizeof_Job 10 (sh_heap sh);
                Some (sh\<lparr>background_jobs := d, deques_initialized := True, sh_heap := h\<rparr>) })"

text \<open>The two ends of \<open>run_script\<close>: a job in the foreground is waited for and freed, one in the
  background is added to the table; \<open>next_job_id\<close> overflows at \<open>INT_MAX\<close>.\<close>

definition wait_job :: "(int, heap) deque \<Rightarrow> nat \<times> string \<Rightarrow> shell \<Rightarrow> shell option" where
  "wait_job ps cs sh =
     do { (ps, sh) \<leftarrow> wait_pids ps sh;
          (d, h) \<leftarrow> destroy_deque free ps (sh_heap sh);
          h \<leftarrow> free (fst cs) h;
          Some (sh\<lparr>sh_heap := h\<rparr>) }"

definition add_job :: "(int, heap) deque \<Rightarrow> nat \<times> string \<Rightarrow> shell \<Rightarrow> shell option" where
  "add_job ps cs sh =
     (let jid = next_job_id sh in
      do { (jobs, h) \<leftarrow> push_back malloc free sizeof_Job \<lparr>pids = ps, job_id = jid, cmd_string = cs\<rparr>
                          (background_jobs sh) (sh_heap sh);
           pid \<leftarrow> peek_front ps;
           if INT_MAX \<le> jid then None
           else Some (sh\<lparr>background_jobs := jobs, sh_heap := h, next_job_id := jid + 1,
                        out := out sh @ print_job_bg_start jid pid (snd cs)\<rparr>) })"

definition run_script :: "os \<Rightarrow> CommandHolder list option \<Rightarrow> shell \<Rightarrow> shell option" where
  "run_script os holders sh = (case holders of
     None \<Rightarrow> Some sh
   | Some hs \<Rightarrow>
     do { sh \<leftarrow> init_jobs sh;
          sh \<leftarrow> check_jobs_bg_status os sh;
          (case hs of
             [] \<Rightarrow> None
           | h0 # rest \<Rightarrow>
             if get_command_holder_type h0 = EXIT \<and> (case rest of [] \<Rightarrow> False | h1 # _ \<Rightarrow> get_command_holder_type h1 = EOC)
             then Some (sh\<lparr>quash := end_main_loop (quash sh)\<rparr>)
             else do {
               (ps, h) \<leftarrow> new_deque malloc sizeof_pid_t 1 (sh_heap sh);
               ((tmp, str), h) \<leftarrow> get_command_string (quash sh) h;
               (cs, h) \<leftarrow> (if tmp = 0 then None else strdup str h);
               (ps, sh) \<leftarrow> run_commands os hs ps (sh\<lparr>sh_heap := h, pipe_index := 0\<rparr>);
               if has_flag (flags h0) BACKGROUND then add_job ps cs sh else wait_job ps cs sh }) })"

end
