(* ===== verification/Jobs.thy ===== *)
theory Jobs
  imports Execute
begin

text \<open>
  The background jobs of quash (\<open>execute.c\<close>): the invariant of the job table and its heap
  blocks, what \<open>check_jobs_bg_status\<close>, \<open>run_kill\<close> and \<open>run_jobs\<close> do to the table seen as a
  list, and that none of them allocates.
\<close>

subsection \<open>Rotating a deque\<close>

text \<open>Pushing back after popping the front needs no memory.\<close>

definition same_array :: "('a, 's) deque \<Rightarrow> ('a, 's) deque \<Rightarrow> bool" where
  "same_array d d' \<longleftrightarrow> deque_ok d' \<and> data d' = data d \<and> cap d' = cap d
     \<and> length (cells d') = length (cells d) \<and> destructor d' = destructor d"

lemma same_array_refl: "deque_ok d \<Longrightarrow> same_array d d"
  by (simp add: same_array_def)

lemma same_array_trans: "same_array d d' \<Longrightarrow> same_array d' d'' \<Longrightarrow> same_array d d''"
  by (simp add: same_array_def)

lemma pop_front_same:
  assumes "deque_ok d" and "deq_list d = x # xs"
  obtains d' where "pop_front d = Some (x, d')" and "same_array d d'" and "deq_list d' = xs"
  using pop_front_ok [OF assms(1)] assms(2) that [of "d\<lparr>front := Suc (front d) mod cap d\<rparr>"]
  by (simp add: same_array_def)

lemma push_back_same:
  assumes ok: "deque_ok d" and room: "Suc (length (deq_list d)) < cap d"
  obtains d' where "push_back malloc free sz x d h = Some (d', h)" and "same_array d d'"
    and "deq_list d' = deq_list d @ [x]"
proof -
  have b: "front d < cap d" "rear d < cap d" using ok by (auto simp: deque_ok_def)
  have nf: "front d \<noteq> Suc (rear d) mod cap d"
    using ring_full [OF b] room by (auto simp: deq_len_def)
  have l: "length (cells d) = cap d" using ok room by (auto simp: deque_ok_def)
  let ?d = "d\<lparr>cells := (cells d)[rear d := Some x], rear := Suc (rear d) mod cap d\<rparr>"
  have "push_back malloc free sz x d h = Some (?d, h)"
    using nf l b deque_ok_simps [OF ok] by (simp add: push_back_def on_push_def write_cell_def)
  then show ?thesis
    using that [of ?d] push_back_cells [OF ok nf l] l by (simp add: same_array_def)
qed

lemma same_array_room: "same_array d d' \<Longrightarrow> deque_ok d \<Longrightarrow> length (deq_list d') < length (deq_list d)
    \<Longrightarrow> Suc (length (deq_list d')) < cap d'"
  using deq_len_less [of d] by (simp add: same_array_def)

lemma rotate_deque:
  assumes ok: "deque_ok d" and l: "deq_list d = x # xs"
  obtains d1 d2 where "pop_front d = Some (x, d1)" and "push_back malloc free sz y d1 h = Some (d2, h)"
    and "same_array d d2" and "deq_list d2 = xs @ [y]"
proof -
  obtain d1 where d1: "pop_front d = Some (x, d1)" "same_array d d1" "deq_list d1 = xs"
    by (rule pop_front_same [OF ok l])
  have "length (deq_list d1) < length (deq_list d)" using d1 l by (simp del: deq_list_length)
  then have room: "Suc (length (deq_list d1)) < cap d1" by (rule same_array_room [OF d1(2) ok])
  have ok1: "deque_ok d1" using d1 by (simp add: same_array_def)
  obtain d2 where d2: "push_back malloc free sz y d1 h = Some (d2, h)" "same_array d1 d2"
    "deq_list d2 = deq_list d1 @ [y]" by (rule push_back_same [OF ok1 room])
  show ?thesis
    by (rule that [OF d1(1) d2(1) same_array_trans [OF d1(2) d2(2)]]) (simp add: d2(3) d1(3))
qed

subsection \<open>Jobs as the user sees them\<close>

type_synonym job_view = "int \<times> int list \<times> string"

definition view :: "Job \<Rightarrow> job_view" where
  "view j = (job_id j, deq_list (pids j), snd (cmd_string j))"

definition jobs :: "shell \<Rightarrow> job_view list" where
  "jobs sh = map view (deq_list (background_jobs sh))"

text \<open>The heap blocks of a job: its array of ids and its command string.\<close>

definition pids_block :: "(int, heap) deque \<Rightarrow> nat \<times> nat" where
  "pids_block ps = (data ps, length (cells ps) * sizeof_pid_t)"

definition string_block :: "nat \<times> string \<Rightarrow> (nat \<times> nat) multiset" where
  "string_block s = (if fst s = 0 then {#} else {#(fst s, length (snd s) + 1)#})"

definition job_blocks :: "Job \<Rightarrow> (nat \<times> nat) multiset" where
  "job_blocks j = add_mset (pids_block (pids j)) (string_block (cmd_string j))"

definition bg_job_ok :: "Job \<Rightarrow> bool" where
  "bg_job_ok j \<longleftrightarrow> deque_ok (pids j) \<and> destructor (pids j) = None \<and> deq_list (pids j) \<noteq> []"

definition blocks_of :: "Job list \<Rightarrow> (nat \<times> nat) multiset" where
  "blocks_of js = sum_list (map job_blocks js)"

text \<open>The heap holds the job table's array, the blocks of its jobs, and those of others, \<open>bs\<close>.\<close>

definition jobs_block :: "(Job, heap) deque \<Rightarrow> nat \<times> nat" where
  "jobs_block d = (data d, length (cells d) * sizeof_Job)"

definition jobs_inv :: "(nat \<times> nat) multiset \<Rightarrow> (Job, heap) deque \<Rightarrow> heap \<Rightarrow> bool" where
  "jobs_inv bs d h \<longleftrightarrow> heap_ok h \<and> deque_ok d \<and> destructor d = None \<and> (\<forall>j \<in> set (deq_list d). bg_job_ok j)
     \<and> mset (blocks h) = add_mset (jobs_block d) (blocks_of (deq_list d) + bs)"

text \<open>Two versions of a job that differ only in where its ring starts.\<close>

definition same_job :: "Job \<Rightarrow> Job \<Rightarrow> bool" where
  "same_job j j' \<longleftrightarrow> view j' = view j \<and> job_blocks j' = job_blocks j \<and> bg_job_ok j'"

subsection \<open>Signals\<close>

lemma signal_pids_ok:
  assumes "deque_ok ps" and "deq_list ps = xs @ ys"
  shows "\<exists>ps'. signal_pids sig (length xs) ps h log = Some (ps', h, log @ map (\<lambda>p. (p, sig)) xs)
    \<and> same_array ps ps' \<and> deq_list ps' = ys @ xs"
  using assms
proof (induction xs arbitrary: ps ys log)
  case Nil
  then show ?case by (simp add: same_array_refl)
next
  case (Cons x xs)
  obtain p1 p2 where p: "pop_front ps = Some (x, p1)" "push_back malloc free sizeof_pid_t x p1 h = Some (p2, h)"
    "same_array ps p2" "deq_list p2 = (xs @ ys) @ [x]"
    by (rule rotate_deque [of ps x "xs @ ys" sizeof_pid_t x h]) (use Cons.prems in simp_all)
  have "deque_ok p2" and "deq_list p2 = xs @ (ys @ [x])" using p by (simp_all add: same_array_def)
  from Cons.IH [OF this, of "log @ [(x, sig)]"] obtain ps' where
    "signal_pids sig (length xs) p2 h (log @ [(x, sig)]) = Some (ps', h, (log @ [(x, sig)]) @ map (\<lambda>p. (p, sig)) xs)"
    "same_array p2 ps'" "deq_list ps' = (ys @ [x]) @ xs" by blast
  then show ?case using p same_array_trans by auto
qed

definition kill_signals :: "int \<Rightarrow> int \<Rightarrow> job_view list \<Rightarrow> (int \<times> int) list" where
  "kill_signals sig jid js = concat (map (\<lambda>(i, ps, s). if i = jid then map (\<lambda>p. (p, sig)) ps else []) js)"

lemma same_job_pids:
  assumes "bg_job_ok j" and "same_array (pids j) ps" and "deq_list ps = deq_list (pids j)"
  shows "same_job j (j\<lparr>pids := ps\<rparr>)"
  using assms by (simp add: same_job_def view_def job_blocks_def pids_block_def bg_job_ok_def same_array_def)

lemma same_job_refl: "bg_job_ok j \<Longrightarrow> same_job j j"
  by (simp add: same_job_def)

lemma kill_jobs_ok:
  assumes "deque_ok (background_jobs sh)" and "deq_list (background_jobs sh) = js @ ks" and "\<forall>j \<in> set js. bg_job_ok j"
  shows "\<exists>d' js'. kill_jobs sig jid (length js) sh =
      Some (sh\<lparr>background_jobs := d', signals := signals sh @ kill_signals sig jid (map view js)\<rparr>)
    \<and> same_array (background_jobs sh) d' \<and> deq_list d' = ks @ js' \<and> list_all2 same_job js js'"
  using assms
proof (induction js arbitrary: ks sh)
  case Nil
  then show ?case by (intro exI [of _ "background_jobs sh"]) (simp add: same_array_refl kill_signals_def)
next
  case (Cons j js)
  let ?d = "background_jobs sh"
  have okj: "bg_job_ok j" using Cons.prems by simp
  then have okp: "deque_ok (pids j)" by (simp add: bg_job_ok_def)
  obtain ps where ps: "signal_pids sig (length (deq_list (pids j))) (pids j) (sh_heap sh) (signals sh) =
      Some (ps, sh_heap sh, signals sh @ map (\<lambda>p. (p, sig)) (deq_list (pids j)))"
    "same_array (pids j) ps" "deq_list ps = deq_list (pids j)"
    using signal_pids_ok [OF okp, of "deq_list (pids j)" "[]" sig "sh_heap sh" "signals sh"] by auto
  define j' where "j' = (if job_id j = jid then j\<lparr>pids := ps\<rparr> else j)"
  have j': "same_job j j'" using same_job_pids [OF okj ps(2,3)] same_job_refl [OF okj] by (simp add: j'_def)
  let ?log = "signals sh @ kill_signals sig jid [view j]"
  obtain d1 d2 where d: "pop_front ?d = Some (j, d1)" "push_back malloc free sizeof_Job j' d1 (sh_heap sh) = Some (d2, sh_heap sh)"
    "same_array ?d d2" "deq_list d2 = (js @ ks) @ [j']"
    by (rule rotate_deque [of ?d j "js @ ks" sizeof_Job j' "sh_heap sh"]) (use Cons.prems in simp_all)
  let ?sh = "sh\<lparr>background_jobs := d2, signals := ?log\<rparr>"
  have step: "kill_jobs sig jid (length (j # js)) sh = kill_jobs sig jid (length js) ?sh"
    using d(1,2) ps(1) length_deque_ok [OF okp]
    by (auto simp: j'_def kill_signals_def view_def)
  have "deque_ok (background_jobs ?sh)" and "deq_list (background_jobs ?sh) = js @ (ks @ [j'])"
    using d by (simp_all add: same_array_def)
  from Cons.IH [OF this] Cons.prems(3) obtain d' js' where
    "kill_jobs sig jid (length js) ?sh =
      Some (?sh\<lparr>background_jobs := d', signals := signals ?sh @ kill_signals sig jid (map view js)\<rparr>)"
    "same_array d2 d'" "deq_list d' = (ks @ [j']) @ js'" "list_all2 same_job js js'" by auto
  then show ?case
    using step d(3) j' same_array_trans
    by (intro exI [of _ d'] exI [of _ "j' # js'"]) (auto simp: kill_signals_def)
qed

subsection \<open>Polling\<close>

fun survivors :: "os \<Rightarrow> nat \<Rightarrow> int list \<Rightarrow> int list" where
  "survivors os k [] = []"
| "survivors os k (p # ps) = (if os_wait os k p = 0 then p # survivors os (Suc k) ps else survivors os (Suc k) ps)"

text \<open>What polling does to the table, and what it prints: the id printed is always 0.\<close>

fun poll_view :: "os \<Rightarrow> nat \<Rightarrow> job_view list \<Rightarrow> job_view list \<times> string \<times> nat" where
  "poll_view os k [] = ([], [], k)"
| "poll_view os k ((i, ps, s) # js) =
     (case poll_view os (k + length ps) js of (rest, msg, k') \<Rightarrow>
        if survivors os k ps = [] then (rest, print_job_bg_complete i 0 s @ msg, k')
        else ((i, survivors os k ps, s) # rest, msg, k'))"

lemma poll_pids_ok:
  assumes "deque_ok ps" and "deq_list ps = xs @ ys"
  shows "\<exists>ps'. poll_pids os (length xs) ps b h k = Some (ps', b \<and> survivors os k xs = [], h, k + length xs)
    \<and> same_array ps ps' \<and> deq_list ps' = ys @ survivors os k xs"
  using assms
proof (induction xs arbitrary: ps ys b k)
  case Nil
  then show ?case by (simp add: same_array_refl)
next
  case (Cons x xs)
  show ?case
  proof (cases "os_wait os k x = 0")
    case True
    obtain p1 p2 where p: "pop_front ps = Some (x, p1)" "push_back malloc free sizeof_pid_t x p1 h = Some (p2, h)"
      "same_array ps p2" "deq_list p2 = (xs @ ys) @ [x]"
      by (rule rotate_deque [of ps x "xs @ ys" sizeof_pid_t x h]) (use Cons.prems in simp_all)
    have "deque_ok p2" and "deq_list p2 = xs @ (ys @ [x])" using p by (simp_all add: same_array_def)
    from Cons.IH [OF this, of False "Suc k"] obtain ps' where
      "poll_pids os (length xs) p2 False h (Suc k) = Some (ps', False, h, Suc k + length xs)"
      "same_array p2 ps'" "deq_list ps' = (ys @ [x]) @ survivors os (Suc k) xs" by auto
    then show ?thesis using p True same_array_trans by auto
  next
    case False
    obtain p1 where p: "pop_front ps = Some (x, p1)" "same_array ps p1" "deq_list p1 = xs @ ys"
      by (rule pop_front_same [of ps x "xs @ ys"]) (use Cons.prems in simp_all)
    have "deque_ok p1" using p by (simp add: same_array_def)
    from Cons.IH [OF this p(3), of b "Suc k"] obtain ps' where
      "poll_pids os (length xs) p1 b h (Suc k) = Some (ps', b \<and> survivors os (Suc k) xs = [], h, Suc k + length xs)"
      "same_array p1 ps'" "deq_list ps' = ys @ survivors os (Suc k) xs" by auto
    then show ?thesis using p False same_array_trans by auto
  qed
qed

lemma free_job:
  assumes ok: "heap_ok h" and m: "mset (blocks h) = add_mset (pids_block ps) (string_block s) + bs"
    and ps: "deque_ok ps" "destructor ps = None"
  obtains d h1 h2 where "destroy_deque free ps h = Some (d, h1)" and "free (fst s) h1 = Some h2"
    and "heap_ok h2" and "mset (blocks h2) = bs" and "avail h \<le> avail h2"
proof -
  obtain h1 where h1: "free (data ps) h = Some h1" "heap_ok h1" "mset (blocks h1) = string_block s + bs"
    "avail h \<le> avail h1"
    using free_blocks [OF ok, of "data ps" "length (cells ps) * sizeof_pid_t" "string_block s + bs"] m
    by (auto simp: pids_block_def)
  have "\<exists>h2. free (fst s) h1 = Some h2 \<and> heap_ok h2 \<and> mset (blocks h2) = bs \<and> avail h \<le> avail h2"
  proof (cases "fst s = 0")
    case True
    then show ?thesis using h1 by (simp add: free_def string_block_def)
  next
    case False
    then show ?thesis using free_blocks [OF h1(2), of "fst s" "length (snd s) + 1" bs] h1(3,4)
      by (auto simp: string_block_def)
  qed
  then show ?thesis using that h1 ps by (auto simp: destroy_deque_each)
qed

text \<open>Part of the invariant during the loop: the deque holds the jobs \<open>js\<close>.\<close>

lemma blocks_of_simps [simp]:
  "blocks_of [] = {#}" "blocks_of (j # js) = job_blocks j + blocks_of js"
  "blocks_of (js @ ks) = blocks_of js + blocks_of ks"
  by (simp_all add: blocks_of_def)

lemma poll_jobs_ok:
  assumes "jobs_inv bs (background_jobs sh) (sh_heap sh)" and "deq_list (background_jobs sh) = js @ ks"
    and "poll_view os (polls sh) (map view js) = (vs, msg, k')"
  shows "\<exists>d' h' js'. poll_jobs os (length js) sh =
      Some (sh\<lparr>background_jobs := d', sh_heap := h', polls := k', out := out sh @ msg\<rparr>)
    \<and> jobs_inv bs d' h' \<and> deq_list d' = ks @ js' \<and> map view js' = vs \<and> avail (sh_heap sh) \<le> avail h'"
  using assms
proof (induction js arbitrary: sh ks vs msg)
  case Nil
  then show ?case by (intro exI [of _ "background_jobs sh"] exI [of _ "sh_heap sh"]) simp
next
  case (Cons j js)
  let ?d = "background_jobs sh" and ?h = "sh_heap sh" and ?k = "polls sh"
  have inv: "heap_ok ?h" "deque_ok ?d" "destructor ?d = None" "\<forall>j \<in> set (deq_list ?d). bg_job_ok j"
    "mset (blocks ?h) = add_mset (jobs_block ?d) (blocks_of (deq_list ?d) + bs)"
    using Cons.prems(1) by (auto simp: jobs_inv_def)
  have okj: "bg_job_ok j" using inv(4) Cons.prems(2) by simp
  then have okp: "deque_ok (pids j)" "destructor (pids j) = None" by (auto simp: bg_job_ok_def)
  let ?ps = "deq_list (pids j)" let ?sv = "survivors os ?k ?ps"
  obtain ps where ps: "poll_pids os (length ?ps) (pids j) True ?h ?k = Some (ps, ?sv = [], ?h, ?k + length ?ps)"
    "same_array (pids j) ps" "deq_list ps = ?sv"
    using poll_pids_ok [OF okp(1), of ?ps "[]" os True ?h ?k] by auto
  have blk: "pids_block ps = pids_block (pids j)" using ps(2) by (simp add: pids_block_def same_array_def)
  obtain vs' msg' where tl: "poll_view os (?k + length ?ps) (map view js) = (vs', msg', k')"
    using Cons.prems(3) by (auto simp: view_def [of j] split: prod.splits if_splits)
  show ?case
  proof (cases "?sv = []")
    case True
    have head: "vs = vs'" "msg = print_job_bg_complete (job_id j) 0 (snd (cmd_string j)) @ msg'"
      using Cons.prems(3) tl True by (simp_all add: view_def [of j])
    obtain d1 where d1: "pop_front ?d = Some (j, d1)" "same_array ?d d1" "deq_list d1 = js @ ks"
      by (rule pop_front_same [OF inv(2), of j "js @ ks"]) (use Cons.prems(2) in simp)
    have m: "mset (blocks ?h) = add_mset (pids_block ps) (string_block (cmd_string j))
        + add_mset (jobs_block d1) (blocks_of (js @ ks) + bs)"
      using inv(5) Cons.prems(2) blk d1(2) by (simp add: job_blocks_def jobs_block_def same_array_def)
    have okps: "deque_ok ps" "destructor ps = None" using ps(2) okp by (simp_all add: same_array_def)
    obtain e h1 h2 where f: "destroy_deque free ps ?h = Some (e, h1)" "free (fst (cmd_string j)) h1 = Some h2"
      "heap_ok h2" "mset (blocks h2) = add_mset (jobs_block d1) (blocks_of (js @ ks) + bs)" "avail ?h \<le> avail h2"
      by (rule free_job [OF inv(1) m okps])
    let ?sh = "sh\<lparr>background_jobs := d1, sh_heap := h2, polls := ?k + length ?ps,
      out := out sh @ print_job_bg_complete (job_id j) 0 (snd (cmd_string j))\<rparr>"
    have step: "poll_jobs os (length (j # js)) sh = poll_jobs os (length js) ?sh"
      using d1(1) ps(1) f(1,2) length_deque_ok [OF okp(1)] True by simp
    have "jobs_inv bs (background_jobs ?sh) (sh_heap ?sh)"
      using inv f d1 Cons.prems(2) by (simp add: jobs_inv_def same_array_def)
    moreover have "deq_list (background_jobs ?sh) = js @ ks" using d1 by simp
    moreover have "poll_view os (polls ?sh) (map view js) = (vs', msg', k')" using tl by simp
    ultimately obtain d' h' js' where
      "poll_jobs os (length js) ?sh = Some (?sh\<lparr>background_jobs := d', sh_heap := h', polls := k', out := out ?sh @ msg'\<rparr>)"
      "jobs_inv bs d' h'" "deq_list d' = ks @ js'" "map view js' = vs'" "avail h2 \<le> avail h'"
      using Cons.IH [of ?sh ks vs' msg'] by auto
    then show ?thesis using step head f(5) by (intro exI [of _ d'] exI [of _ h'] exI [of _ js']) simp
  next
    case False
    let ?j = "j\<lparr>pids := ps\<rparr>"
    have head: "vs = (job_id j, ?sv, snd (cmd_string j)) # vs'" "msg = msg'"
      using Cons.prems(3) tl False by (simp_all add: view_def [of j])
    obtain d1 d2 where d: "pop_front ?d = Some (j, d1)" "push_back malloc free sizeof_Job ?j d1 ?h = Some (d2, ?h)"
      "same_array ?d d2" "deq_list d2 = (js @ ks) @ [?j]"
      by (rule rotate_deque [of ?d j "js @ ks" sizeof_Job ?j ?h]) (use inv(2) Cons.prems(2) in simp_all)
    let ?sh = "sh\<lparr>background_jobs := d2, sh_heap := ?h, polls := ?k + length ?ps\<rparr>"
    have step: "poll_jobs os (length (j # js)) sh = poll_jobs os (length js) ?sh"
      using d(1,2) ps(1) length_deque_ok [OF okp(1)] False by simp
    have okj': "bg_job_ok ?j" using okp ps False by (simp add: bg_job_ok_def same_array_def)
    have "job_blocks ?j = job_blocks j" using blk by (simp add: job_blocks_def)
    then have "jobs_inv bs (background_jobs ?sh) (sh_heap ?sh)"
      using inv d okj' Cons.prems(2) by (simp add: jobs_inv_def same_array_def jobs_block_def ac_simps)
    moreover have "deq_list (background_jobs ?sh) = js @ (ks @ [?j])" using d by simp
    moreover have "poll_view os (polls ?sh) (map view js) = (vs', msg', k')" using tl by simp
    ultimately obtain d' h' js' where
      "poll_jobs os (length js) ?sh = Some (?sh\<lparr>background_jobs := d', sh_heap := h', polls := k', out := out ?sh @ msg'\<rparr>)"
      "jobs_inv bs d' h'" "deq_list d' = (ks @ [?j]) @ js'" "map view js' = vs'" "avail ?h \<le> avail h'"
      using Cons.IH [of ?sh "ks @ [?j]" vs' msg'] by auto
    then show ?thesis using step head ps(3)
      by (intro exI [of _ d'] exI [of _ h'] exI [of _ "?j # js'"]) (simp add: view_def [of ?j])
  qed
qed

lemma check_jobs_ok:
  assumes init: "deques_initialized sh" and inv: "jobs_inv bs (background_jobs sh) (sh_heap sh)"
    and v: "poll_view os (polls sh) (jobs sh) = (vs, msg, k)"
  shows "\<exists>d' h'. check_jobs_bg_status os sh =
      Some (sh\<lparr>background_jobs := d', sh_heap := h', polls := k, out := out sh @ msg\<rparr>)
    \<and> jobs_inv bs d' h' \<and> map view (deq_list d') = vs \<and> avail (sh_heap sh) \<le> avail h'"
proof -
  let ?d = "background_jobs sh"
  have ok: "deque_ok ?d" using inv by (simp add: jobs_inv_def)
  show ?thesis
  proof (cases "deq_list ?d = []")
    case True
    then have "vs = []" "msg = []" "k = polls sh" using v by (auto simp: jobs_def)
    then show ?thesis using init True is_empty_deque_ok [OF ok] inv
      by (intro exI [of _ ?d] exI [of _ "sh_heap sh"]) (simp add: check_jobs_bg_status_def)
  next
    case False
    obtain d' h' js' where p: "poll_jobs os (length (deq_list ?d)) sh =
        Some (sh\<lparr>background_jobs := d', sh_heap := h', polls := k, out := out sh @ msg\<rparr>)"
      and r: "jobs_inv bs d' h'" "deq_list d' = [] @ js'" "map view js' = vs" "avail (sh_heap sh) \<le> avail h'"
      using poll_jobs_ok [OF inv, of "deq_list ?d" "[]" os vs msg k] v by (auto simp: jobs_def)
    then show ?thesis
      using init False is_empty_deque_ok [OF ok] length_deque_ok [OF ok]
      by (intro exI [of _ d'] exI [of _ h']) (simp add: check_jobs_bg_status_def)
  qed
qed

lemma same_jobs_views: "list_all2 same_job js js' \<Longrightarrow> map view js' = map view js \<and> blocks_of js' = blocks_of js \<and> (\<forall>j \<in> set js'. bg_job_ok j)"
  by (induction rule: list_all2_induct) (auto simp: same_job_def)

lemma run_kill_ok:
  assumes ok: "deque_ok (background_jobs sh)" and js: "\<forall>j \<in> set (deq_list (background_jobs sh)). bg_job_ok j"
  shows "\<exists>d'. run_kill (sig, jid, ss, js') sh =
      Some (sh\<lparr>background_jobs := d', signals := signals sh @ kill_signals sig jid (jobs sh)\<rparr>)
    \<and> same_array (background_jobs sh) d' \<and> map view (deq_list d') = jobs sh
    \<and> blocks_of (deq_list d') = blocks_of (deq_list (background_jobs sh)) \<and> (\<forall>j \<in> set (deq_list d'). bg_job_ok j)"
proof -
  let ?d = "background_jobs sh"
  obtain d' ks where k: "kill_jobs sig jid (length (deq_list ?d)) sh =
      Some (sh\<lparr>background_jobs := d', signals := signals sh @ kill_signals sig jid (map view (deq_list ?d))\<rparr>)"
    "same_array ?d d'" "deq_list d' = [] @ ks" "list_all2 same_job (deq_list ?d) ks"
    using kill_jobs_ok [OF ok, of "deq_list ?d" "[]" sig jid] js by auto
  then show ?thesis
    using same_jobs_views [OF k(4)] length_deque_ok [OF ok] by (auto simp: run_kill_def jobs_def)
qed

lemma list_jobs_ok:
  assumes "deque_ok d" and "deq_list d = js @ ks" and "\<forall>j \<in> set js. bg_job_ok j"
  shows "list_jobs (length js) d h =
    Some (concat (map (\<lambda>(i, ps, s). print_job i (hd ps) s) (map view js)))"
  using assms
proof (induction js arbitrary: d ks)
  case Nil
  then show ?case by simp
next
  case (Cons j js)
  obtain d1 d2 where d: "pop_front d = Some (j, d1)" "push_back malloc free sizeof_Job j d1 h = Some (d2, h)"
    "same_array d d2" "deq_list d2 = (js @ ks) @ [j]"
    by (rule rotate_deque [of d j "js @ ks" sizeof_Job j h]) (use Cons.prems in simp_all)
  have okj: "bg_job_ok j" using Cons.prems by simp
  then have "peek_front (pids j) = Some (hd (deq_list (pids j)))"
    using peek_front_hd [of "pids j"] by (simp add: bg_job_ok_def)
  moreover have "list_jobs (length js) d2 h = Some (concat (map (\<lambda>(i, ps, s). print_job i (hd ps) s) (map view js)))"
    by (rule Cons.IH [of d2 "ks @ [j]"]) (use d Cons.prems in \<open>simp_all add: same_array_def\<close>)
  ultimately show ?case using d by (simp add: view_def [of j])
qed

lemma run_jobs_ok:
  assumes "deques_initialized sh" and ok: "deque_ok (background_jobs sh)"
    and js: "\<forall>j \<in> set (deq_list (background_jobs sh)). bg_job_ok j"
  shows "run_jobs sh = Some (concat (map (\<lambda>(i, ps, s). print_job i (hd ps) s) (jobs sh)))"
  using assms(1) list_jobs_ok [OF ok, of "deq_list (background_jobs sh)" "[]" "sh_heap sh"] js
    is_empty_deque_ok [OF ok] length_deque_ok [OF ok]
  by (auto simp: run_jobs_def jobs_def)

subsection \<open>The properties\<close>

text \<open>C26: \<open>check_jobs_bg_status\<close> polls every process of every job once and keeps exactly the
  jobs with a process still running, in their order, with their remaining ids; each finished
  job is reported once (with process id 0) and its two blocks are freed. The job table stays
  well formed, with its blocks on the heap accounted for; nothing else in the shell changes, and no
  memory is needed.\<close>

theorem check_jobs_bg_status_polls:
  assumes "deques_initialized sh" and "jobs_inv bs (background_jobs sh) (sh_heap sh)"
  shows "\<exists>d' h'. check_jobs_bg_status os sh =
      Some (sh\<lparr>background_jobs := d', sh_heap := h',
        polls := snd (snd (poll_view os (polls sh) (jobs sh))),
        out := out sh @ fst (snd (poll_view os (polls sh) (jobs sh)))\<rparr>)
    \<and> jobs_inv bs d' h' \<and> avail (sh_heap sh) \<le> avail h'
    \<and> map view (deq_list d') = fst (poll_view os (polls sh) (jobs sh))"
proof -
  obtain vs msg k where v: "poll_view os (polls sh) (jobs sh) = (vs, msg, k)" by (cases "poll_view os (polls sh) (jobs sh)") auto
  show ?thesis using check_jobs_ok [OF assms v] by (auto simp: v)
qed

definition demo_job :: Job where
  "demo_job = \<lparr>pids = \<lparr>data = 20, cells = [Some 41, Some 42, None], cap = 3, front = 0, rear = 2, destructor = None\<rparr>,
     job_id = 1, cmd_string = (40, ''sleep 9 & '')\<rparr>"

definition demo_shell :: shell where
  "demo_shell = \<lparr>quash = \<lparr>running = True, is_a_tty = False, parsed_str = Some ''echo hi ''\<rparr>,
     pipes = [(0, 0), (0, 0)], pipe_index = 0,
     background_jobs = \<lparr>data = 100, cells = [Some demo_job, None], cap = 2, front = 0, rear = 1, destructor = None\<rparr>,
     next_job_id = 2, deques_initialized = True,
     sh_heap = \<lparr>blocks = [(100, 112), (20, 12), (40, 11)], brk = 300, avail = 10000\<rparr>,
     sh_env = (\<lambda>x. None), cwd = ''/'', fds = [Some (Stdio 0), Some (Stdio 1), Some (Stdio 2)],
     out = [], errs = [], procs = [], signals = [], waited = [], forks = 0, npipes = 0, polls = 0\<rparr>"

text \<open>An operating system on which every call succeeds; process 42 keeps running.\<close>

definition demo_os :: os where
  "demo_os = \<lparr>os_fork = (\<lambda>k. 500 + int k), os_pipe = (\<lambda>k. True), os_open = (\<lambda>f. True), os_exec = (\<lambda>a. True),
     os_wait = (\<lambda>k p. if p = 42 then 0 else p), os_chdir = (\<lambda>c d. Some d)\<rparr>"

lemma demo_job_ok: "bg_job_ok demo_job"
  by (auto simp: bg_job_ok_def demo_job_def deque_ok_def deq_list_def deq_len_def deq_cell_def less_2_cases_iff)

lemma demo_shell_jobs: "deq_list (background_jobs demo_shell) = [demo_job]"
  by (simp add: demo_shell_def deq_list_def deq_len_def deq_cell_def)

lemma demo_jobs: "jobs demo_shell = [(1, [41, 42], ''sleep 9 & '')]"
  by (simp add: jobs_def demo_shell_jobs)
     (simp add: view_def demo_job_def deq_list_def deq_len_def deq_cell_def upt_rec)

lemma demo_shell_inv: "jobs_inv {#} (background_jobs demo_shell) (sh_heap demo_shell)"
proof -
  have "heap_ok (sh_heap demo_shell)"
    by (auto simp: demo_shell_def heap_ok_def heap_bytes_def overlap_def pairwise_insert)
  moreover have "deque_ok (background_jobs demo_shell)"
    by (simp add: demo_shell_def deque_ok_def deq_len_def deq_cell_def)
  moreover have "destructor (background_jobs demo_shell) = None" by (simp add: demo_shell_def)
  moreover have "mset (blocks (sh_heap demo_shell))
      = add_mset (jobs_block (background_jobs demo_shell)) (job_blocks demo_job)"
    by (simp add: demo_shell_def demo_job_def jobs_block_def job_blocks_def pids_block_def string_block_def)
  ultimately show ?thesis using demo_job_ok by (simp add: jobs_inv_def demo_shell_jobs blocks_of_def)
qed

theorem check_jobs_bg_status_polls_witness:
  "\<exists>d' h'. check_jobs_bg_status demo_os demo_shell =
      Some (demo_shell\<lparr>background_jobs := d', sh_heap := h', polls := 2, out := []\<rparr>)
    \<and> jobs_inv {#} d' h' \<and> map view (deq_list d') = [(1, [42], ''sleep 9 & '')]"
proof -
  have v: "poll_view demo_os (polls demo_shell) (jobs demo_shell) = ([(1, [42], ''sleep 9 & '')], [], 2)"
    unfolding demo_jobs by (simp add: demo_os_def demo_shell_def)
  have i: "deques_initialized demo_shell" "out demo_shell = []" by (simp_all add: demo_shell_def)
  show ?thesis
    using check_jobs_bg_status_polls [OF i(1) demo_shell_inv, of demo_os] unfolding v i(2)
    by (elim exE conjE, intro exI conjI) (simp_all del: map_eq_Cons_conv)
qed

text \<open>C27: \<open>kill\<close> sends the signal to every process of the jobs with that number, in order, and
  to no other process, and leaves the job table as it was; a number no job has does nothing.\<close>

theorem run_kill_signals:
  assumes "deque_ok (background_jobs sh)" and "\<forall>j \<in> set (deq_list (background_jobs sh)). bg_job_ok j"
  shows "\<exists>d'. run_kill (sig, jid, sig_str, job_str) sh =
      Some (sh\<lparr>background_jobs := d',
        signals := signals sh @ concat (map (\<lambda>(i, ps, s). if i = jid then map (\<lambda>p. (p, sig)) ps else []) (jobs sh))\<rparr>)
    \<and> map view (deq_list d') = jobs sh"
  using run_kill_ok [OF assms, of sig jid sig_str job_str] by (auto simp: kill_signals_def)

theorem run_kill_signals_witness:
  "\<exists>d'. run_kill (9, 1, Some ''9'', Some ''1'') demo_shell =
      Some (demo_shell\<lparr>background_jobs := d', signals := [(41, 9), (42, 9)]\<rparr>)"
proof -
  have ok: "deque_ok (background_jobs demo_shell)" "\<forall>j \<in> set (deq_list (background_jobs demo_shell)). bg_job_ok j"
    using demo_shell_inv demo_job_ok unfolding jobs_inv_def demo_shell_jobs by simp_all
  have "signals demo_shell = []" by (simp add: demo_shell_def)
  then show ?thesis using run_kill_signals [OF ok, of 9 1 "Some ''9''" "Some ''1''"] by (auto simp: demo_jobs)
qed

end
