(* ===== verification/Pipeline.thy ===== *)
theory Pipeline
  imports Jobs
begin

text \<open>
  Pipelines of quash (\<open>create_process\<close> and the loop of \<open>run_script\<close>, \<open>execute.c\<close>): which end of
  which pipe each child has as its standard input and output, that no other descriptor leaks
  into a child, and that the shell's own table ends as it was.
\<close>

subsection \<open>Descriptor tables as maps\<close>

lemma fd_get_set [simp]: "fd_get (fd_set tab i h) j = (if j = i then Some h else fd_get tab j)"
  by (auto simp: fd_get_def fd_set_def nth_append nth_list_update)

lemma fd_get_close [simp]: "fd_get (fd_close tab i) j = (if j = i then None else fd_get tab j)"
  by (auto simp: fd_get_def fd_close_def nth_list_update)

lemma fd_get_dup2: "fd_get tab old = Some h \<Longrightarrow> fd_get (dup2 tab old new) j = (if j = new then Some h else fd_get tab j)"
  by (simp add: dup2_def)

lemma first_free_none: "fd_get tab (first_free tab) = None"
  by (induction tab rule: first_free.induct) (auto simp: fd_get_def)

lemma fd_get_new: "fd_new tab h = (i, tab') \<Longrightarrow> fd_get tab i = None \<and> fd_get tab' = (fd_get tab)(i := Some h)"
  by (auto simp: fd_new_def first_free_none)

subsection \<open>Scripts\<close>

text \<open>A command with a pipe on its left (\<open>i\<close>) and on its right (\<open>p\<close>), which then has no
  redirection on that side.\<close>

definition linked :: "bool \<Rightarrow> bool \<Rightarrow> CommandHolder \<Rightarrow> bool" where
  "linked i p h \<longleftrightarrow> get_command_holder_type h \<noteq> EOC
    \<and> (has_flag (flags h) PIPE_IN \<longleftrightarrow> i) \<and> (has_flag (flags h) PIPE_OUT \<longleftrightarrow> p)
    \<and> (i \<longrightarrow> \<not> has_flag (flags h) REDIRECT_IN) \<and> (p \<longrightarrow> \<not> has_flag (flags h) REDIRECT_OUT)
    \<and> (has_flag (flags h) REDIRECT_IN \<longrightarrow> redirect_in h \<noteq> None)
    \<and> (has_flag (flags h) REDIRECT_OUT \<longrightarrow> redirect_out h \<noteq> None)"

text \<open>The commands of a script: each is piped to the next; \<open>i\<close> tells whether the first reads a pipe.\<close>

fun pipeline :: "bool \<Rightarrow> CommandHolder list \<Rightarrow> bool" where
  "pipeline i [] \<longleftrightarrow> False"
| "pipeline i (h # hs) \<longleftrightarrow> linked i (hs \<noteq> []) h \<and> (hs \<noteq> [] \<longrightarrow> pipeline True hs)"

text \<open>The structure stored in the union is the one its type names, with terminated arguments.\<close>

fun runnable :: "Command \<Rightarrow> bool" where
  "runnable (SimpleCommand t) \<longleftrightarrow> t = PWD \<or> t = JOBS \<or> t = EXIT \<or> t = EOC"
| "runnable (GenericCommand t as) \<longleftrightarrow>
    (case arg_strings as of None \<Rightarrow> False | Some ss \<Rightarrow> t = ECHO \<or> t = GENERIC \<and> ss \<noteq> [])"
| "runnable (ExportCommand t v s) \<longleftrightarrow> t = EXPORT"
| "runnable (CDCommand t d) \<longleftrightarrow> t = CD"
| "runnable (KillCommand t s j ss js) \<longleftrightarrow> t = KILL"

subsection \<open>Running one command\<close>

fun words :: "string list \<Rightarrow> string" where
  "words [] = []"
| "words [s] = s"
| "words (s # ss) = s @ '' '' @ words ss"

lemma echo_loop_words: "arg_strings as = Some ss \<Longrightarrow> echo_loop as = Some (words ss)"
proof (induction as arbitrary: ss rule: echo_loop.induct)
  case (3 s as)
  then obtain a bs rs where as: "as = a # bs" "arg_strings as = Some rs" "ss = s # rs"
    by (cases as) auto
  with 3 have "echo_loop as = Some (words rs)" by blast
  moreover have "words ss = s @ (if a \<noteq> None then '' '' else []) @ words rs"
    using as by (cases a; cases rs) auto
  ultimately show ?case using as(1) by simp
qed auto

lemma run_echo_words: "arg_strings as = Some ss \<Longrightarrow> run_echo as = Some (words ss @ [NL])"
  by (simp add: run_echo_def echo_loop_words)

text \<open>The job table as the children and \<open>kill\<close> need it.\<close>

definition table_ok :: "shell \<Rightarrow> bool" where
  "table_ok sh \<longleftrightarrow> deques_initialized sh \<and> deque_ok (background_jobs sh)
     \<and> (\<forall>j \<in> set (deq_list (background_jobs sh)). bg_job_ok j)"

lemma child_run_command_defined:
  assumes "runnable c" and "table_ok sh"
  shows "\<exists>a. child_run_command os c sh = Some a"
proof -
  obtain s where "run_jobs sh = Some s" using run_jobs_ok [of sh] assms(2) by (auto simp: table_ok_def)
  then show ?thesis using assms(1)
    by (cases c) (auto simp: child_run_command_def run_generic_def run_echo_words split: option.splits)
qed

text \<open>What making a process leaves alone, and what a command run in the shell itself does.\<close>

definition same_rest :: "shell \<Rightarrow> shell \<Rightarrow> bool" where
  "same_rest sh sh' \<longleftrightarrow> quash sh' = quash sh \<and> next_job_id sh' = next_job_id sh
    \<and> waited sh' = waited sh \<and> out sh' = out sh \<and> polls sh' = polls sh"

definition same_shell :: "shell \<Rightarrow> shell \<Rightarrow> bool" where
  "same_shell sh sh' \<longleftrightarrow> fds sh' = fds sh \<and> pipes sh' = pipes sh \<and> pipe_index sh' = pipe_index sh
    \<and> procs sh' = procs sh \<and> forks sh' = forks sh \<and> npipes sh' = npipes sh
    \<and> sh_heap sh' = sh_heap sh \<and> same_rest sh sh'"

text \<open>Two versions of the job table.\<close>

definition same_table :: "shell \<Rightarrow> shell \<Rightarrow> bool" where
  "same_table sh sh' \<longleftrightarrow> table_ok sh' \<and> same_array (background_jobs sh) (background_jobs sh') \<and> jobs sh' = jobs sh
    \<and> blocks_of (deq_list (background_jobs sh')) = blocks_of (deq_list (background_jobs sh))"

lemma same_table_refl: "table_ok sh \<Longrightarrow> same_table sh sh"
  by (simp add: same_table_def table_ok_def same_array_refl)

lemma same_table_trans: "same_table sh sh' \<Longrightarrow> same_table sh' sh'' \<Longrightarrow> same_table sh sh''"
  by (auto simp: same_table_def intro: same_array_trans)

lemma parent_run_command_keeps:
  assumes "runnable c" and ok: "table_ok sh"
  shows "\<exists>sh'. parent_run_command os c sh = Some sh' \<and> same_shell sh sh' \<and> same_table sh sh'"
proof (cases "\<exists>t s j ss js. c = KillCommand t s j ss js")
  case True
  then obtain s j ss js where c: "c = KillCommand KILL s j ss js" using assms(1) by auto
  have t: "deque_ok (background_jobs sh)" "\<forall>j \<in> set (deq_list (background_jobs sh)). bg_job_ok j"
    using ok by (auto simp: table_ok_def)
  from run_kill_ok [OF t, of s j ss js] c ok show ?thesis
    by (auto simp: parent_run_command_def same_shell_def same_rest_def same_table_def table_ok_def jobs_def same_array_def)
next
  case False
  have "same_table sh (sh\<lparr>sh_env := e\<rparr>)" "same_table sh (sh\<lparr>cwd := w, sh_env := e\<rparr>)" "same_table sh (sh\<lparr>errs := r\<rparr>)"
    for e w r using same_table_refl [OF ok] by (simp_all add: same_table_def table_ok_def jobs_def)
  with False show ?thesis using assms(1) same_table_refl [OF ok]
    by (cases c) (auto simp: parent_run_command_def same_shell_def same_rest_def run_export_def run_cd_def split: option.splits)
qed

subsection \<open>The descriptors of a child\<close>

text \<open>The standard input and output the child should have, \<open>n\<close> the number of pipes made before
  its own: a redirection, a pipe, or what the shell has.\<close>

definition in_handle :: "nat \<Rightarrow> CommandHolder \<Rightarrow> handle option \<Rightarrow> handle option" where
  "in_handle n h old = (if has_flag (flags h) REDIRECT_IN then map_option ReadFile (redirect_in h)
     else if has_flag (flags h) PIPE_IN then Some (PipeR (n - 1)) else old)"

definition out_handle :: "nat \<Rightarrow> CommandHolder \<Rightarrow> handle option \<Rightarrow> handle option" where
  "out_handle n h old = (if has_flag (flags h) REDIRECT_OUT
       then map_option (\<lambda>f. WriteFile f (has_flag (flags h) REDIRECT_APPEND)) (redirect_out h)
     else if has_flag (flags h) PIPE_OUT then Some (PipeW n) else old)"

definition files_open :: "os \<Rightarrow> CommandHolder \<Rightarrow> bool" where
  "files_open os h \<longleftrightarrow> (\<forall>f \<in> set_option (redirect_in h) \<union> set_option (redirect_out h). os_open os f)"

lemma child_input_ok:
  assumes l: "linked i p h" and f: "files_open os h" and z: "fd_get tab 0 \<noteq> None"
    and r: "i \<Longrightarrow> fd_get tab r = Some (PipeR (n - 1))"
  shows "\<exists>tab'. child_input os h r tab = Some tab'
    \<and> fd_get tab' = (if i then (fd_get tab)(0 := in_handle n h (fd_get tab 0), r := None)
        else (fd_get tab)(0 := in_handle n h (fd_get tab 0)))"
proof (cases "has_flag (flags h) REDIRECT_IN")
  case True
  then obtain g where g: "redirect_in h = Some g" "os_open os g" "\<not> i"
    using l f by (auto simp: linked_def files_open_def)
  obtain j t where t: "fd_new tab (ReadFile g) = (j, t)" by (cases "fd_new tab (ReadFile g)") auto
  note new = fd_get_new [OF t]
  then have "j \<noteq> 0" using z by metis
  with new have "j \<noteq> 0" "fd_get tab j = None" "fd_get t = (fd_get tab)(j := Some (ReadFile g))" by blast+
  then have "fd_get (fd_close (dup2 t j 0) j) = (fd_get tab)(0 := Some (ReadFile g))"
    by (auto simp: fun_eq_iff fd_get_dup2)
  with True g t show ?thesis by (simp add: child_input_def in_handle_def)
next
  case False
  show ?thesis
  proof (cases i)
    case True
    then have "fd_get (fd_close (dup2 tab r 0) r) = (fd_get tab)(0 := Some (PipeR (n - 1)), r := None)"
      using r by (auto simp: fun_eq_iff fd_get_dup2)
    with True False l show ?thesis by (simp add: child_input_def in_handle_def linked_def)
  next
    case no: False
    with False l show ?thesis by (simp add: child_input_def in_handle_def linked_def fun_upd_idem)
  qed
qed

lemma child_output_ok:
  assumes l: "linked i p h" and f: "files_open os h" and z: "fd_get tab 1 \<noteq> None"
    and r: "p \<Longrightarrow> fd_get tab w = Some (PipeW n)"
  shows "\<exists>tab'. child_output os h (r, w) tab = Some tab'
    \<and> fd_get tab' = (if p then (fd_get tab)(1 := out_handle n h (fd_get tab 1), w := None, r := None)
        else (fd_get tab)(1 := out_handle n h (fd_get tab 1)))"
proof (cases "has_flag (flags h) REDIRECT_OUT")
  case True
  then obtain g where g: "redirect_out h = Some g" "os_open os g" "\<not> p" "\<not> has_flag (flags h) PIPE_OUT"
    using l f by (auto simp: linked_def files_open_def)
  let ?g = "WriteFile g (has_flag (flags h) REDIRECT_APPEND)"
  obtain j t where t: "fd_new tab ?g = (j, t)" by (cases "fd_new tab ?g") auto
  note new = fd_get_new [OF t]
  then have "j \<noteq> 1" using z by metis
  with new have "j \<noteq> 1" "fd_get tab j = None" "fd_get t = (fd_get tab)(j := Some ?g)" by blast+
  then have "fd_get (fd_close (dup2 t j 1) j) = (fd_get tab)(1 := Some ?g)"
    by (auto simp: fun_eq_iff fd_get_dup2)
  with True g t show ?thesis by (simp add: child_output_def out_handle_def)
next
  case False
  show ?thesis
  proof (cases p)
    case True
    then have "fd_get (fd_close (fd_close (dup2 tab w 1) w) r) = (fd_get tab)(1 := Some (PipeW n), w := None, r := None)"
      using r by (auto simp: fun_eq_iff fd_get_dup2)
    with True False l show ?thesis by (simp add: child_output_def out_handle_def linked_def)
  next
    case no: False
    with False l show ?thesis by (simp add: child_output_def out_handle_def linked_def fun_upd_idem)
  qed
qed

text \<open>The shell's own table between two commands: \<open>tab\<close>, and the read end of the last pipe
  when the next command reads it (\<open>i\<close>).\<close>

definition parent_fds :: "bool \<Rightarrow> (nat \<Rightarrow> handle option) \<Rightarrow> shell \<Rightarrow> bool" where
  "parent_fds i tab sh \<longleftrightarrow> length (pipes sh) = 2 \<and> pipe_index sh < 2 \<and> tab 0 \<noteq> None \<and> tab 1 \<noteq> None
    \<and> (if i then tab (fst (pipes sh ! (1 - pipe_index sh))) = None
          \<and> fd_get (fds sh) = tab(fst (pipes sh ! (1 - pipe_index sh)) := Some (PipeR (npipes sh - 1)))
        else fd_get (fds sh) = tab)"

lemma open_pipe_ok:
  assumes "os_pipe os (npipes sh)"
  obtains r w t where "open_pipe os sh = sh\<lparr>fds := t, pipes := (pipes sh)[pipe_index sh := (r, w)], npipes := Suc (npipes sh)\<rparr>"
    and "fd_get (fds sh) r = None" and "fd_get (fds sh) w = None" and "w \<noteq> r"
    and "fd_get t = (fd_get (fds sh))(r := Some (PipeR (npipes sh)), w := Some (PipeW (npipes sh)))"
proof -
  obtain r t1 where n1: "fd_new (fds sh) (PipeR (npipes sh)) = (r, t1)" by (cases "fd_new (fds sh) (PipeR (npipes sh))") auto
  obtain w t where n2: "fd_new t1 (PipeW (npipes sh)) = (w, t)" by (cases "fd_new t1 (PipeW (npipes sh))") auto
  show ?thesis
    by (rule that [of r w t]) (use fd_get_new [OF n1] fd_get_new [OF n2] assms n1 n2 in \<open>auto simp: open_pipe_def split: if_splits\<close>)
qed

subsection \<open>Making one process\<close>

lemma create_process_ok:
  assumes l: "linked i p h" and run: "runnable (cmd h)" and t: "table_ok sh" and f: "files_open os h"
    and os: "os_pipe os (npipes sh)" "os_fork os (forks sh) \<noteq> -1" and fd: "parent_fds i tab sh"
  shows "\<exists>sh' q. create_process os h sh = Some (os_fork os (forks sh), sh') \<and> procs sh' = procs sh @ [q]
    \<and> proc_pid q = os_fork os (forks sh)
    \<and> fd_get (proc_fds q) = tab(0 := in_handle (npipes sh) h (tab 0), 1 := out_handle (npipes sh) h (tab 1))
    \<and> (\<exists>sh0. child_run_command os (cmd h) sh0 = Some (proc_action q))
    \<and> parent_fds p tab sh' \<and> npipes sh' = npipes sh + of_bool p \<and> forks sh' = Suc (forks sh)
    \<and> sh_heap sh' = sh_heap sh \<and> same_rest sh sh' \<and> same_table sh sh'"
proof -
  let ?n = "npipes sh" and ?x = "pipe_index sh" and ?pid = "os_fork os (forks sh)"
  have flags: "has_flag (flags h) PIPE_IN = i" "has_flag (flags h) PIPE_OUT = p" using l by (auto simp: linked_def)
  have px: "length (pipes sh) = 2" "?x < 2" and z: "tab 0 \<noteq> None" "tab 1 \<noteq> None"
    using fd by (auto simp: parent_fds_def)
  have ix: "1 - ?x < 2" "1 - ?x \<noteq> ?x" "1 - (1 - ?x) = ?x" using px(2) less_2_cases by fastforce+
  define prev where "prev = fst (pipes sh ! (1 - ?x))"
  have before: "fd_get (fds sh) = (if i then tab(prev := Some (PipeR (?n - 1))) else tab)" "i \<Longrightarrow> tab prev = None"
    using fd by (auto simp: parent_fds_def prev_def)
  define sh1 where "sh1 = (if p then open_pipe os sh else sh)"
  obtain r w t1 where sh1: "sh1 = sh\<lparr>fds := t1, pipes := (if p then (pipes sh)[?x := (r, w)] else pipes sh), npipes := ?n + of_bool p\<rparr>"
    and rw: "p \<Longrightarrow> fd_get (fds sh) r = None \<and> fd_get (fds sh) w = None \<and> w \<noteq> r"
    and t1: "fd_get t1 = (if p then (fd_get (fds sh))(r := Some (PipeR ?n), w := Some (PipeW ?n)) else fd_get (fds sh))"
  proof (cases p)
    case True
    show ?thesis by (rule open_pipe_ok [OF os(1)], rule that) (auto simp: sh1_def True)
  next
    case False
    show ?thesis by (rule that [of 0 0 "fds sh"]) (auto simp: sh1_def False)
  qed
  have tabs: "tab r = None \<and> tab w = None \<and> r \<noteq> 0 \<and> r \<noteq> 1 \<and> w \<noteq> 0 \<and> w \<noteq> 1 \<and> w \<noteq> r \<and> (i \<longrightarrow> r \<noteq> prev \<and> w \<noteq> prev)" if p
    using rw [OF that] before z by (auto intro!: gr0I split: if_splits)
  have prev: "prev \<noteq> 0" "prev \<noteq> 1" if i using before(2) [OF that] z by metis+
  have cells: "fst (pipes sh1 ! (1 - ?x)) = prev" "p \<Longrightarrow> pipes sh1 ! ?x = (r, w)" "pipe_index sh1 = ?x"
    using ix px by (simp_all add: sh1 prev_def)
  have t1': "fd_get t1 = (if i then (if p then tab(prev := Some (PipeR (?n - 1)), r := Some (PipeR ?n), w := Some (PipeW ?n)) else tab(prev := Some (PipeR (?n - 1))))
     else if p then tab(r := Some (PipeR ?n), w := Some (PipeW ?n)) else tab)"
    unfolding t1 before(1) by simp
  obtain ti where ti: "child_input os h prev t1 = Some ti"
    "fd_get ti = (if i then (fd_get t1)(0 := in_handle ?n h (fd_get t1 0), prev := None) else (fd_get t1)(0 := in_handle ?n h (fd_get t1 0)))"
    using child_input_ok [OF l f, of t1 prev ?n] z tabs prev by (force simp: t1')
  have w1: "fd_get ti 1 \<noteq> None" "p \<Longrightarrow> fd_get ti w = Some (PipeW ?n)"
    using z tabs prev unfolding ti(2) t1' by (auto split: if_splits)
  obtain to where to: "child_output os h (pipes sh1 ! ?x) ti = Some to"
    "fd_get to = (if p then (fd_get ti)(1 := out_handle ?n h (fd_get ti 1), w := None, r := None)
        else (fd_get ti)(1 := out_handle ?n h (fd_get ti 1)))"
  proof (cases p)
    case True
    from child_output_ok [OF l f w1(1) w1(2)] True that show ?thesis by (fastforce simp: cells(2) [OF True])
  next
    case False
    obtain a b where ab: "pipes sh1 ! ?x = (a, b)" by (cases "pipes sh1 ! ?x") auto
    show ?thesis using child_output_ok [OF l f w1(1), of b ?n a] False that ab by auto
  qed
  have child: "fd_get to = tab(0 := in_handle ?n h (tab 0), 1 := out_handle ?n h (tab 1))"
  proof -
    have "fd_get ti = (if p then tab(0 := in_handle ?n h (tab 0), r := Some (PipeR ?n), w := Some (PipeW ?n))
        else tab(0 := in_handle ?n h (tab 0)))"
      using tabs prev before(2) unfolding ti(2) t1' by (cases i; cases p) (simp_all add: fun_eq_iff)
    then show ?thesis using tabs unfolding to(2) by (cases p) (simp_all add: fun_eq_iff)
  qed
  have t1_table: "table_ok sh1" using t by (simp add: sh1 table_ok_def)
  obtain a where a: "child_run_command os (cmd h) sh1 = Some a"
    using child_run_command_defined [OF run t1_table, of os] by blast
  have fds1: "fds sh1 = t1" by (simp add: sh1)
  let ?q = "\<lparr>proc_pid = ?pid, proc_fds = to, proc_action = a\<rparr>"
  have q: "child_process os h ?pid sh1 = Some ?q"
    unfolding child_process_def cells(3) cells(1) fds1 ti(1) option.case to(1) a by simp
  define tp where "tp = (let tab = (if p then fd_close t1 (snd (pipes sh1 ! ?x)) else t1) in if i then fd_close tab prev else tab)"
  have tp: "fd_get tp = (if p then tab(r := Some (PipeR ?n)) else tab)"
    using tabs prev before(2) by (cases p) (auto simp: fun_eq_iff tp_def t1' cells(2) Let_def)
  let ?sh2 = "sh1\<lparr>forks := Suc (forks sh), procs := procs sh @ [?q], fds := tp, pipe_index := 1 - ?x\<rparr>"
  have "table_ok ?sh2" using t by (simp add: sh1 table_ok_def)
  from parent_run_command_keeps [OF run this, of os] obtain sh3 where
    sh3: "parent_run_command os (cmd h) ?sh2 = Some sh3" "same_shell ?sh2 sh3" "same_table ?sh2 sh3" by blast
  have "create_process os h sh = Some (?pid, sh3)"
  proof -
    have "forks sh1 = forks sh" "procs sh1 = procs sh" by (simp_all add: sh1)
    then show ?thesis using q sh3(1) os(2)
      unfolding create_process_def Let_def flags sh1_def [symmetric] cells(3) cells(1) fds1 tp_def by simp
  qed
  moreover have "parent_fds p tab sh3"
    using sh3(2) tp tabs z ix px cells(2) by (auto simp: parent_fds_def same_shell_def sh1)
  moreover have "same_table sh sh3" using sh3(3) by (simp add: sh1 same_table_def jobs_def)
  moreover have "procs sh3 = procs sh @ [?q]" "npipes sh3 = ?n + of_bool p" "forks sh3 = Suc (forks sh)"
      "sh_heap sh3 = sh_heap sh" "same_rest sh sh3"
    using sh3(2) by (simp_all add: same_shell_def sh1 same_rest_def)
  ultimately show ?thesis using child a by (intro exI [of _ sh3] exI [of _ ?q]) auto
qed

subsection \<open>The loop over a script\<close>

lemma pids_push:
  assumes sim: "deque_sim sizeof_pid_t bs (Suc n) d xs h" and c: "cap d \<le> max 1 (2 * length xs)"
  obtains d' h' where "push_back malloc free sizeof_pid_t x d h = Some (d', h')"
    and "deque_sim sizeof_pid_t bs n d' (xs @ [x]) h'" and "heap_bytes h' = heap_bytes h"
    and "cap d' \<le> max 1 (2 * length (xs @ [x]))"
proof -
  have sz: "0 < sizeof_pid_t" "sizeof_pid_t < 2 ^ 32" by simp_all
  note al = deque_alloc_malloc [OF sz]
  obtain d' h' where p: "push_back malloc free sizeof_pid_t x d h = Some (d', h')"
    and s: "deque_sim sizeof_pid_t bs n d' (xs @ [x]) h'" "heap_bytes h' = heap_bytes h"
    by (rule heap_push [OF sim sz])
  have ok: "deque_ok d" "deque_ok d'" "deq_list d = xs" using sim s by (auto simp: deque_sim_def)
  have hd: "deque_alloc.holds heap_ok owned sizeof_pid_t d h"
    using sim by (simp add: deque_alloc.holds_def [OF al] deque_sim_def)
  have "cap d' \<le> max 1 (2 * length (xs @ [x]))"
  proof (cases "front d = Suc (rear d) mod cap d")
    case True
    have b: "front d < cap d" "rear d < cap d" using ok by (auto simp: deque_ok_def)
    have "length xs = cap d - 1" using ring_full [OF b] True deq_list_length [of d] ok(3) by (simp add: deq_len_def)
    moreover have "length (cells d') = 2 * cap d" using deque_alloc.push_back_Some [OF al hd p] True by auto
    ultimately show ?thesis using ok b by (auto simp: deque_ok_def)
  next
    case False
    then have "cap d \<noteq> 1" using ok(1) by (auto simp: deque_ok_def)
    moreover have "length (cells d') = length (cells d)" using deque_alloc.push_back_Some [OF al hd p] False by auto
    ultimately show ?thesis using ok c by (auto simp: deque_ok_def)
  qed
  with that [OF p s] show ?thesis by blast
qed

fun children_fds :: "(nat \<Rightarrow> handle option) \<Rightarrow> nat \<Rightarrow> CommandHolder list \<Rightarrow> (nat \<Rightarrow> handle option) list" where
  "children_fds tab n [] = []"
| "children_fds tab n (h # hs) =
     tab(0 := in_handle n h (tab 0), 1 := out_handle n h (tab 1)) # children_fds tab (Suc n) hs"

definition os_willing :: "os \<Rightarrow> bool" where
  "os_willing os \<longleftrightarrow> (\<forall>k. os_pipe os k \<and> os_fork os k \<noteq> -1)"

definition commands_ok :: "os \<Rightarrow> CommandHolder list \<Rightarrow> bool" where
  "commands_ok os cs \<longleftrightarrow> (\<forall>h \<in> set cs. runnable (cmd h) \<and> files_open os h)"

definition child_pids :: "os \<Rightarrow> nat \<Rightarrow> nat \<Rightarrow> int list" where
  "child_pids os k n = map (os_fork os) [k..<k + n]"

text \<open>The processes made for \<open>cs\<close>, the first of them fork number \<open>k\<close>, after \<open>n\<close> pipes.\<close>

definition children_of :: "os \<Rightarrow> (nat \<Rightarrow> handle option) \<Rightarrow> nat \<Rightarrow> nat \<Rightarrow> CommandHolder list \<Rightarrow> process list \<Rightarrow> bool" where
  "children_of os tab k n cs new \<longleftrightarrow> map proc_pid new = child_pids os k (length cs)
    \<and> map (\<lambda>q. fd_get (proc_fds q)) new = children_fds tab n cs
    \<and> list_all2 (\<lambda>h q. \<exists>sh. child_run_command os (cmd h) sh = Some (proc_action q)) cs new"

lemma child_pids_Suc: "child_pids os k (Suc n) = os_fork os k # child_pids os (Suc k) n"
  using upt_conv_Cons [of k "k + Suc n"] by (simp add: child_pids_def)

lemma run_commands_ok:
  assumes "pipeline i cs" and "commands_ok os cs" and os: "os_willing os" and "table_ok sh"
    and "parent_fds i tab sh" and e: "get_command_holder_type e = EOC"
    and "deque_sim sizeof_pid_t bs (length cs + m) ps xs (sh_heap sh)" and "cap ps \<le> max 1 (2 * length xs)"
  shows "\<exists>ps' sh' new. run_commands os (cs @ e # rest) ps sh = Some (ps', sh')
    \<and> deque_sim sizeof_pid_t bs m ps' (xs @ child_pids os (forks sh) (length cs)) (sh_heap sh')
    \<and> cap ps' \<le> max 1 (2 * (length xs + length cs)) \<and> heap_bytes (sh_heap sh') = heap_bytes (sh_heap sh)
    \<and> procs sh' = procs sh @ new \<and> children_of os tab (forks sh) (npipes sh) cs new
    \<and> parent_fds False tab sh' \<and> forks sh' = forks sh + length cs \<and> npipes sh' = npipes sh + (length cs - 1)
    \<and> same_rest sh sh' \<and> same_table sh sh'"
  using assms(1,2,4,5,7,8)
proof (induction cs arbitrary: i sh ps xs)
  case Nil
  then show ?case by simp
next
  case (Cons h hs)
  let ?p = "hs \<noteq> []"
  have l: "linked i ?p h" and run: "runnable (cmd h)" and f: "files_open os h" and tl: "commands_ok os hs"
    using Cons.prems by (auto simp: commands_ok_def)
  have o: "os_pipe os (npipes sh)" "os_fork os (forks sh) \<noteq> -1" using os by (auto simp: os_willing_def)
  obtain sh1 q where c: "create_process os h sh = Some (os_fork os (forks sh), sh1)" "procs sh1 = procs sh @ [q]"
    "proc_pid q = os_fork os (forks sh)"
    "fd_get (proc_fds q) = tab(0 := in_handle (npipes sh) h (tab 0), 1 := out_handle (npipes sh) h (tab 1))"
    "\<exists>sh0. child_run_command os (cmd h) sh0 = Some (proc_action q)"
    "parent_fds ?p tab sh1" "npipes sh1 = npipes sh + of_bool ?p" "forks sh1 = Suc (forks sh)"
    "sh_heap sh1 = sh_heap sh" "same_rest sh sh1" "same_table sh sh1"
    using create_process_ok [OF l run Cons.prems(3) f o Cons.prems(4)] by blast
  have "deque_sim sizeof_pid_t bs (Suc (length hs + m)) ps xs (sh_heap sh)" using Cons.prems(5) by simp
  from pids_push [OF this Cons.prems(6), of "os_fork os (forks sh)"] obtain ps1 hp where
    p: "push_back malloc free sizeof_pid_t (os_fork os (forks sh)) ps (sh_heap sh) = Some (ps1, hp)"
    "deque_sim sizeof_pid_t bs (length hs + m) ps1 (xs @ [os_fork os (forks sh)]) hp" "heap_bytes hp = heap_bytes (sh_heap sh)"
    "cap ps1 \<le> max 1 (2 * length (xs @ [os_fork os (forks sh)]))" by blast
  let ?sh = "sh1\<lparr>sh_heap := hp\<rparr>"
  have step: "run_commands os ((h # hs) @ e # rest) ps sh = run_commands os (hs @ e # rest) ps1 ?sh"
    using l c(1,9) p(1) by (simp add: linked_def)
  have st: "table_ok ?sh" "parent_fds ?p tab ?sh" "same_table sh ?sh" "same_rest sh ?sh"
    using c(6,10,11) by (cases ?p; simp add: same_table_def table_ok_def parent_fds_def jobs_def same_rest_def)+
  show ?case
  proof (cases ?p)
    case False
    then show ?thesis unfolding step
      using e p c st
      by (intro exI [of _ ps1] exI [of _ ?sh] exI [of _ "[q]"])
        (simp add: children_of_def child_pids_def)
  next
    case True
    have pl: "pipeline True hs" and pf: "parent_fds True tab ?sh" using True Cons.prems(1) st(2) by simp_all
    have sim: "deque_sim sizeof_pid_t bs (length hs + m) ps1 (xs @ [os_fork os (forks sh)]) (sh_heap ?sh)"
      using p(2) by simp
    from Cons.IH [OF pl tl st(1) pf sim p(4)] obtain ps' sh' new where
      "run_commands os (hs @ e # rest) ps1 ?sh = Some (ps', sh')"
      "deque_sim sizeof_pid_t bs m ps' ((xs @ [os_fork os (forks sh)]) @ child_pids os (forks ?sh) (length hs)) (sh_heap sh')"
      "cap ps' \<le> max 1 (2 * (length (xs @ [os_fork os (forks sh)]) + length hs))"
      "heap_bytes (sh_heap sh') = heap_bytes (sh_heap ?sh)"
      "procs sh' = procs ?sh @ new" "children_of os tab (forks ?sh) (npipes ?sh) hs new"
      "parent_fds False tab sh'" "forks sh' = forks ?sh + length hs" "npipes sh' = npipes ?sh + (length hs - 1)"
      "same_rest ?sh sh'" "same_table ?sh sh'" by blast
    then show ?thesis unfolding step
      using c p(3) st True same_table_trans [OF st(3)]
      by (intro exI [of _ ps'] exI [of _ sh'] exI [of _ "q # new"])
        (simp add: children_of_def child_pids_Suc same_rest_def Suc_leI)
  qed
qed

subsection \<open>The pipeline is connected\<close>

lemma pipeline_linked: "pipeline i cs \<Longrightarrow> j < length cs \<Longrightarrow> linked (0 < j \<or> i) (Suc j < length cs) (cs ! j)"
proof (induction cs arbitrary: i j)
  case Nil
  then show ?case by simp
next
  case (Cons h hs)
  then show ?case using Cons.IH [of True "j - 1"] by (cases j) auto
qed

lemma children_fds_nth: "j < length cs \<Longrightarrow> children_fds tab n cs ! j =
    tab(0 := in_handle (n + j) (cs ! j) (tab 0), 1 := out_handle (n + j) (cs ! j) (tab 1))"
proof (induction cs arbitrary: n j)
  case Nil
  then show ?case by simp
next
  case (Cons h hs)
  then show ?case by (cases j) (simp_all add: fun_eq_iff)
qed

text \<open>The descriptors child \<open>j\<close> of the script \<open>cs\<close> should have, \<open>n\<close> the number of its first pipe.\<close>

definition child_fds :: "(nat \<Rightarrow> handle option) \<Rightarrow> nat \<Rightarrow> CommandHolder list \<Rightarrow> nat \<Rightarrow> nat \<Rightarrow> handle option" where
  "child_fds tab n cs j = tab
     (0 := (if 0 < j then Some (PipeR (n + (j - 1)))
            else if has_flag (flags (cs ! j)) REDIRECT_IN then map_option ReadFile (redirect_in (cs ! j))
            else tab 0),
      1 := (if Suc j < length cs then Some (PipeW (n + j))
            else if has_flag (flags (cs ! j)) REDIRECT_OUT
            then map_option (\<lambda>f. WriteFile f (has_flag (flags (cs ! j)) REDIRECT_APPEND)) (redirect_out (cs ! j))
            else tab 1))"

text \<open>C28: The loop of \<open>run_script\<close> makes one process for each command, in order, each with its
  number pushed on the deque. Child \<open>j\<close> writes to the pipe that child \<open>j + 1\<close> reads; at the
  ends of the pipeline and nowhere else stands a redirection or the shell's own input and
  output. No child holds any other end of a pipe, so that a reader sees the end of its input,
  and the shell's own table ends as it was.\<close>

theorem pipeline_connected:
  assumes "pipeline False cs" and "commands_ok os cs" and "os_willing os" and "table_ok sh"
    and "length (pipes sh) = 2" and "pipe_index sh < 2"
    and "fd_get (fds sh) 0 \<noteq> None" and "fd_get (fds sh) 1 \<noteq> None" and "get_command_holder_type e = EOC"
    and "deque_sim sizeof_pid_t bs (length cs) ps [] (sh_heap sh)" and "cap ps = 1"
  shows "\<exists>ps' sh' new. run_commands os (cs @ [e]) ps sh = Some (ps', sh')
    \<and> deq_list ps' = child_pids os (forks sh) (length cs)
    \<and> procs sh' = procs sh @ new \<and> map proc_pid new = child_pids os (forks sh) (length cs)
    \<and> fd_get (fds sh') = fd_get (fds sh)
    \<and> (\<forall>j < length cs. fd_get (proc_fds (new ! j)) = child_fds (fd_get (fds sh)) (npipes sh) cs j)"
proof -
  let ?tab = "fd_get (fds sh)"
  have "parent_fds False ?tab sh" using assms(5-8) by (simp add: parent_fds_def)
  moreover have "deque_sim sizeof_pid_t bs (length cs + 0) ps [] (sh_heap sh)" using assms(10) by simp
  moreover have "cap ps \<le> max 1 (2 * length ([] :: int list))" using assms(11) by simp
  ultimately obtain ps' sh' new where r: "run_commands os (cs @ [e]) ps sh = Some (ps', sh')"
    "deque_sim sizeof_pid_t bs 0 ps' ([] @ child_pids os (forks sh) (length cs)) (sh_heap sh')"
    "procs sh' = procs sh @ new" "children_of os ?tab (forks sh) (npipes sh) cs new" "parent_fds False ?tab sh'"
    using run_commands_ok [OF assms(1-4) _ assms(9), of ?tab bs 0 ps "[]" "[]"] by blast
  have ch: "map (\<lambda>q. fd_get (proc_fds q)) new = children_fds ?tab (npipes sh) cs" and len: "length new = length cs"
    using r(4) by (auto simp: children_of_def dest: list_all2_lengthD)
  have nth: "fd_get (proc_fds (new ! j)) = ?tab(0 := in_handle (npipes sh + j) (cs ! j) (?tab 0),
      1 := out_handle (npipes sh + j) (cs ! j) (?tab 1))" if "j < length cs" for j
    using arg_cong [OF ch, of "\<lambda>xs. xs ! j"] that len children_fds_nth [of j cs ?tab "npipes sh"] by simp
  have io: "in_handle (npipes sh + j) (cs ! j) x = (if 0 < j then Some (PipeR (npipes sh + (j - 1)))
      else if has_flag (flags (cs ! j)) REDIRECT_IN then map_option ReadFile (redirect_in (cs ! j)) else x)"
    "out_handle (npipes sh + j) (cs ! j) x = (if Suc j < length cs then Some (PipeW (npipes sh + j))
      else if has_flag (flags (cs ! j)) REDIRECT_OUT
      then map_option (\<lambda>f. WriteFile f (has_flag (flags (cs ! j)) REDIRECT_APPEND)) (redirect_out (cs ! j)) else x)"
    if "j < length cs" for j x
    using pipeline_linked [OF assms(1) that] by (auto simp: linked_def in_handle_def out_handle_def)
  show ?thesis
    using r nth io by (intro exI [of _ ps'] exI [of _ sh'] exI [of _ new])
      (simp add: deque_sim_def children_of_def parent_fds_def child_fds_def)
qed

definition demo_pipeline :: "CommandHolder list" where
  "demo_pipeline = [mk_command_holder None None PIPE_OUT (mk_generic_command [Some ''ls'', None]),
     mk_command_holder None (Some ''f'') (PIPE_IN OR REDIRECT_OUT) (mk_generic_command [Some ''wc'', None])]"

definition demo_eoc :: CommandHolder where
  "demo_eoc = mk_command_holder None None 0 mk_eoc"

definition demo_pids :: "(int, heap) deque" where
  "demo_pids = \<lparr>data = 200, cells = [None], cap = 1, front = 0, rear = 0, destructor = None\<rparr>"

lemma demo_commands_ok: "pipeline False demo_pipeline" "commands_ok demo_os demo_pipeline" "get_command_holder_type demo_eoc = EOC"
  by (simp_all add: demo_pipeline_def demo_eoc_def linked_def commands_ok_def files_open_def has_flag_def flag_defs demo_os_def
    get_command_holder_type_def mk_command_holder_def mk_generic_command_def mk_eoc_def)

theorem pipeline_connected_witness:
  "\<exists>ps' sh'. run_commands demo_os (demo_pipeline @ [demo_eoc]) demo_pids
       (demo_shell\<lparr>sh_heap := \<lparr>blocks = [(200, 4)], brk = 300, avail = 1000\<rparr>\<rparr>) = Some (ps', sh')
    \<and> deq_list ps' = [500, 501]
    \<and> fd_get (proc_fds (procs sh' ! 0)) 1 = Some (PipeW 0) \<and> fd_get (proc_fds (procs sh' ! 1)) 0 = Some (PipeR 0)
    \<and> fd_get (proc_fds (procs sh' ! 1)) 1 = Some (WriteFile ''f'' False)"
proof -
  let ?h = "\<lparr>blocks = [(200, 4)], brk = 300, avail = 1000\<rparr> :: heap" let ?sh = "demo_shell\<lparr>sh_heap := ?h\<rparr>"
  have ok: "deque_ok (background_jobs demo_shell)" "\<forall>j \<in> set (deq_list (background_jobs demo_shell)). bg_job_ok j"
    using demo_shell_inv demo_job_ok unfolding jobs_inv_def demo_shell_jobs by simp_all
  have w: "os_willing demo_os" by (simp add: os_willing_def demo_os_def)
  have t: "table_ok ?sh" using ok by (simp add: table_ok_def) (simp add: demo_shell_def)
  have f: "length (pipes ?sh) = 2" "pipe_index ?sh < 2" "fd_get (fds ?sh) 0 \<noteq> None" "fd_get (fds ?sh) 1 \<noteq> None"
    by (simp_all add: demo_shell_def fd_get_def)
  have d: "deque_sim sizeof_pid_t [] (length demo_pipeline) demo_pids [] (sh_heap ?sh)"
    by (simp add: deque_sim_def demo_pipeline_def demo_pids_def heap_ok_def heap_bytes_def deque_ok_def deq_list_def
      deq_len_def owned_def)
  have c: "cap demo_pids = 1" by (simp add: demo_pids_def)
  obtain ps' sh' and new :: "process list" where r: "run_commands demo_os (demo_pipeline @ [demo_eoc]) demo_pids ?sh = Some (ps', sh')"
    "deq_list ps' = child_pids demo_os (forks ?sh) (length demo_pipeline)"
    "procs sh' = procs ?sh @ new" "\<forall>j < length demo_pipeline. fd_get (proc_fds (new ! j)) = child_fds (fd_get (fds ?sh)) (npipes ?sh) demo_pipeline j"
    using pipeline_connected [OF demo_commands_ok(1,2) w t f demo_commands_ok(3) d c]
    by blast
  have len: "length demo_pipeline = 2" by (simp add: demo_pipeline_def)
  have "deq_list ps' = [500, 501]" using r(2) by (simp add: len child_pids_def demo_os_def demo_shell_def upt_rec)
  moreover have "fd_get (proc_fds (new ! 0)) 1 = Some (PipeW 0)"
    using r(4) len by (simp add: demo_shell_def child_fds_def)
  moreover have "fd_get (proc_fds (new ! 1)) 0 = Some (PipeR 0)" "fd_get (proc_fds (new ! 1)) 1 = Some (WriteFile ''f'' False)"
    using r(4) len by (simp_all add: demo_shell_def child_fds_def demo_pipeline_def mk_command_holder_def has_flag_def flag_defs)
  moreover have "procs sh' = new" using r(3) by (simp add: demo_shell_def)
  ultimately show ?thesis using r(1) by blast
qed

end
