(* ===== verification/Script.thy ===== *)
theory Script
  imports Pipeline ParseText
begin

text \<open>
  Whole scripts of quash (\<open>run_script\<close>, \<open>execute.c\<close>): the invariant of the shell between two
  lines of input, and what a script does to the job table, to the processes waited for, to the
  descriptors and to the heap.
\<close>

subsection \<open>The invariant of the shell\<close>

text \<open>The job table as the user sees it; before the first script there is none.\<close>

definition table :: "shell \<Rightarrow> job_view list" where
  "table sh = (if deques_initialized sh then jobs sh else [])"

definition shell_inv :: "(nat \<times> nat) multiset \<Rightarrow> shell \<Rightarrow> bool" where
  "shell_inv bs sh \<longleftrightarrow>
     (if deques_initialized sh then jobs_inv bs (background_jobs sh) (sh_heap sh)
      else heap_ok (sh_heap sh) \<and> mset (blocks (sh_heap sh)) = bs)
     \<and> length (pipes sh) = 2 \<and> pipe_index sh < 2 \<and> fd_get (fds sh) 0 \<noteq> None \<and> fd_get (fds sh) 1 \<noteq> None"

text \<open>Bytes of heap that are enough for a script of \<open>n\<close> commands with the text \<open>str\<close>.\<close>

definition script_bytes :: "nat \<Rightarrow> string \<Rightarrow> shell \<Rightarrow> nat" where
  "script_bytes n str sh = 564 + 2 * (length str + 1) + 12 * (n + 14 * (length (table sh) + 1))"

subsection \<open>The beginning of a script\<close>

lemma new_deque_avail:
  assumes "new_deque malloc sz c h = Some (d, h')" and "deque_sim sz (blocks h) n d [] h'" and "heap_bytes h' = heap_bytes h"
  shows "avail h = avail h' + c * sz" and "cap d = max 1 c"
proof -
  have c: "length (cells d) = c" and "cap d = max 1 c"
    using assms(1) by (auto simp: new_deque_def bind_eq_Some_conv split: if_splits)
  have "sum_list (map snd (blocks h')) = sum_mset (image_mset snd (mset (blocks h')))"
    by (simp flip: sum_mset_sum_list)
  also have "\<dots> = c * sz + sum_list (map snd (blocks h))"
    by (simp add: mset_other_blocks [OF assms(2)] c flip: sum_mset_sum_list)
  finally show "avail h = avail h' + c * sz" using assms(3) by (simp add: heap_bytes_def)
  show "cap d = max 1 c" by fact
qed

lemma init_jobs_ok:
  assumes inv: "shell_inv bs sh" and a: "560 \<le> avail (sh_heap sh)"
  shows "\<exists>d h. init_jobs sh = Some (sh\<lparr>background_jobs := d, deques_initialized := True, sh_heap := h\<rparr>)
    \<and> jobs_inv bs d h \<and> map view (deq_list d) = table sh \<and> avail (sh_heap sh) \<le> avail h + 560"
proof (cases "deques_initialized sh")
  case True
  have "sh\<lparr>background_jobs := background_jobs sh, deques_initialized := True, sh_heap := sh_heap sh\<rparr> = sh"
    using True by (cases sh) simp
  with True inv show ?thesis
    by (intro exI [of _ "background_jobs sh"] exI [of _ "sh_heap sh"]) (simp add: init_jobs_def shell_inv_def table_def jobs_def)
next
  case False
  have ok: "heap_ok (sh_heap sh)" "mset (blocks (sh_heap sh)) = bs" using False inv by (auto simp: shell_inv_def)
  have sz: "0 < sizeof_Job" "sizeof_Job < 2 ^ 32" "10 * sizeof_Job \<le> avail (sh_heap sh)" "3 * 0 * sizeof_Job \<le> avail (sh_heap sh)"
    using a by simp_all
  obtain d :: "(Job, heap) deque" and h where n: "new_deque malloc sizeof_Job 10 (sh_heap sh) = Some (d, h)"
    "deque_sim sizeof_Job (blocks (sh_heap sh)) 0 d [] h" "heap_bytes h = heap_bytes (sh_heap sh)"
    by (rule heap_new [OF ok(1) sz])
  note m = mset_other_blocks [OF n(2)] and av = new_deque_avail [OF n]
  show ?thesis using False n m ok av
    by (intro exI [of _ d] exI [of _ h])
      (simp add: init_jobs_def jobs_inv_def deque_sim_def table_def jobs_block_def)
qed

text \<open>A block taken from the heap leaves a deque as it was.\<close>

lemma deque_sim_malloc:
  assumes sim: "deque_sim sz bs n d xs h" and m: "malloc k h = Some (p, h')" "p \<noteq> 0"
    and room: "3 * (length xs + n') * sz + k \<le> avail h + length (cells d) * sz"
  shows "deque_sim sz ((p, k) # bs) n' d xs h'"
proof -
  have ok: "heap_ok h" and own: "owned (data d) (length (cells d) * sz) h" using sim by (auto simp: deque_sim_def)
  note mo = malloc_owned [OF ok m]
  have "data d < brk h" using ok own by (force simp: heap_ok_def owned_def)
  with mo sim room show ?thesis by (auto simp: deque_sim_def owned_def)
qed

lemma strdup_ok:
  assumes sim: "deque_sim sz bs n d xs h" and room: "3 * (length xs + n') * sz + (length s + 1) \<le> avail h"
  shows "\<exists>p h'. strdup s h = Some ((p, s), h') \<and> p \<noteq> 0 \<and> deque_sim sz ((p, length s + 1) # bs) n' d xs h'
    \<and> avail h' + (length s + 1) = avail h"
proof -
  have ok: "heap_ok h" using sim by (simp add: deque_sim_def)
  then have "0 < brk h" by (simp add: heap_ok_def)
  then obtain h' where m: "malloc (length s + 1) h = Some (brk h, h')" "brk h \<noteq> 0"
    using malloc_room [of h "length s + 1"] room by auto
  have "deque_sim sz ((brk h, length s + 1) # bs) n' d xs h'"
    by (rule deque_sim_malloc [OF sim m]) (use room in simp)
  then show ?thesis using m malloc_owned [OF ok m]
    by (intro exI [of _ "brk h"] exI [of _ h']) (use room in \<open>simp add: strdup_def\<close>)
qed

subsection \<open>The end of a script\<close>

lemma wait_pids_ok:
  assumes "deque_ok ps" and "deq_list ps = xs"
  shows "\<exists>ps'. wait_pids ps sh = Some (ps', sh\<lparr>waited := waited sh @ xs\<rparr>) \<and> same_array ps ps'"
  using assms
proof (induction xs arbitrary: ps sh)
  case Nil
  then show ?case using is_empty_deque_ok [of ps] by (subst wait_pids.simps) (simp add: same_array_refl)
next
  case (Cons x xs)
  obtain p1 where p: "pop_front ps = Some (x, p1)" "same_array ps p1" "deq_list p1 = xs"
    by (rule pop_front_same [OF Cons.prems])
  then obtain ps' where "wait_pids p1 (sh\<lparr>waited := waited sh @ [x]\<rparr>) = Some (ps', sh\<lparr>waited := waited sh @ x # xs\<rparr>)"
    "same_array p1 ps'" using Cons.IH [of p1 "sh\<lparr>waited := waited sh @ [x]\<rparr>"] by (auto simp: same_array_def)
  then show ?case using p is_empty_deque_ok [OF Cons.prems(1)] Cons.prems(2) same_array_trans [OF p(2)]
    by (subst wait_pids.simps) auto
qed

lemma wait_job_ok:
  assumes ok: "heap_ok (sh_heap sh)" and m: "mset (blocks (sh_heap sh)) = add_mset (pids_block ps) (string_block cs) + bs"
    and ps: "deque_ok ps" "destructor ps = None" "deq_list ps = xs"
  shows "\<exists>h. wait_job ps cs sh = Some (sh\<lparr>waited := waited sh @ xs, sh_heap := h\<rparr>) \<and> heap_ok h \<and> mset (blocks h) = bs"
proof -
  obtain ps' where w: "wait_pids ps sh = Some (ps', sh\<lparr>waited := waited sh @ xs\<rparr>)" "same_array ps ps'"
    using wait_pids_ok [OF ps(1,3)] by blast
  have p': "deque_ok ps'" "destructor ps' = None" "pids_block ps' = pids_block ps"
    using w(2) ps by (simp_all add: same_array_def pids_block_def)
  then have m': "mset (blocks (sh_heap sh)) = add_mset (pids_block ps') (string_block cs) + bs" using m by simp
  obtain d h1 h2 where "destroy_deque free ps' (sh_heap sh) = Some (d, h1)" "free (fst cs) h1 = Some h2"
    "heap_ok h2" "mset (blocks h2) = bs" by (rule free_job [OF ok m' p'(1,2)])
  with w show ?thesis by (intro exI [of _ h2]) (simp add: wait_job_def)
qed

lemma add_job_ok:
  assumes inv: "jobs_inv bs (background_jobs sh) (sh_heap sh)" and bs: "bs = add_mset (pids_block ps) (string_block cs) + bs'"
    and room: "168 * (length (deq_list (background_jobs sh)) + 1) \<le> avail (sh_heap sh)"
    and ps: "deque_ok ps" "destructor ps = None" "deq_list ps = x # xs" and j: "next_job_id sh < INT_MAX"
  shows "\<exists>d h. add_job ps cs sh = Some (sh\<lparr>background_jobs := d, sh_heap := h, next_job_id := next_job_id sh + 1,
      out := out sh @ print_job_bg_start (next_job_id sh) x (snd cs)\<rparr>)
    \<and> jobs_inv bs' d h \<and> map view (deq_list d) = jobs sh @ [(next_job_id sh, x # xs, snd cs)]"
proof -
  let ?d = "background_jobs sh" and ?h = "sh_heap sh"
  define others where "others = filter (\<lambda>(q, _). q \<noteq> data ?d) (blocks ?h)"
  let ?js = "deq_list ?d"
  let ?j = "\<lparr>pids = ps, job_id = next_job_id sh, cmd_string = cs\<rparr>"
  have i: "heap_ok ?h" "deque_ok ?d" "destructor ?d = None" "\<forall>j \<in> set ?js. bg_job_ok j"
    "mset (blocks ?h) = add_mset (jobs_block ?d) (blocks_of ?js + bs)" using inv by (auto simp: jobs_inv_def)
  have own: "owned (data ?d) (length (cells ?d) * sizeof_Job) ?h"
    using i(5) by (metis jobs_block_def owned_def set_mset_add_mset_insert set_mset_mset insertI1)
  have sim: "deque_sim sizeof_Job others (Suc 0) ?d ?js ?h"
    using i own room by (simp add: deque_sim_def others_def del: deq_list_length)
  have sz: "0 < sizeof_Job" "sizeof_Job < 2 ^ 32" by simp_all
  obtain d h where p: "push_back malloc free sizeof_Job ?j ?d ?h = Some (d, h)"
    "deque_sim sizeof_Job others 0 d (?js @ [?j]) h" by (rule heap_push [OF sim sz])
  have "mset others = blocks_of ?js + bs"
    using mset_other_blocks [OF sim] i(5) by (simp add: jobs_block_def)
  then have "mset (blocks h) = add_mset (jobs_block d) (blocks_of (?js @ [?j]) + bs')"
    using mset_other_blocks [OF p(2)] bs by (simp add: jobs_block_def job_blocks_def)
  moreover have "bg_job_ok ?j" using ps by (simp add: bg_job_ok_def)
  ultimately have "jobs_inv bs' d h" using p(2) i(4) by (simp add: jobs_inv_def deque_sim_def)
  moreover have "peek_front ps = Some x" using peek_front_hd [OF ps(1)] ps(3) by simp
  ultimately show ?thesis using p j ps(3)
    by (intro exI [of _ d] exI [of _ h]) (simp add: add_job_def deque_sim_def jobs_def view_def Let_def)
qed

subsection \<open>The whole script\<close>

lemma poll_view_length: "poll_view os k vs = (vs', msg, k') \<Longrightarrow> length vs' \<le> length vs"
proof (induction vs arbitrary: k vs' msg)
  case Nil
  then show ?case by simp
next
  case (Cons v vs)
  then show ?case by (cases v) (auto split: prod.splits if_splits, fastforce+)
qed

lemma same_table_inv:
  assumes "same_table sh sh'" and "jobs_inv bs (background_jobs sh) h" and "heap_ok h'"
    and "mset (blocks h') = add_mset (jobs_block (background_jobs sh)) (blocks_of (deq_list (background_jobs sh)) + bs')"
  shows "jobs_inv bs' (background_jobs sh') h'"
  using assms by (simp add: same_table_def jobs_inv_def table_ok_def same_array_def jobs_block_def)

text \<open>The state in which the commands of a script have been started: the number of the heap
  block that will not be freed, the deque of process ids and the job's text.\<close>

lemma run_script_started:
  assumes inv: "shell_inv bs sh" and pl: "pipeline False cs" and ok: "commands_ok os cs" and os: "os_willing os"
    and e: "get_command_holder_type e = EOC" and str: "parsed_str (quash sh) = Some str"
    and ex: "\<not> (get_command_holder_type (hd cs) = EXIT \<and> tl cs = [])"
    and room: "script_bytes (length cs) str sh \<le> avail (sh_heap sh)"
    and v: "poll_view os (polls sh) (table sh) = (vs, msg, k)"
  obtains ps sh' p q where "run_script os (Some (cs @ [e])) sh =
      (if has_flag (flags (hd cs)) BACKGROUND then add_job ps (q, str) sh' else wait_job ps (q, str) sh')"
    and "jobs_inv (add_mset (pids_block ps) (string_block (q, str)) + add_mset (p, length str + 1) bs)
      (background_jobs sh') (sh_heap sh')"
    and "deque_ok ps" and "destructor ps = None" and "deq_list ps = child_pids os (forks sh) (length cs)"
    and "168 * (length vs + 1) \<le> avail (sh_heap sh')" and "jobs sh' = vs" and "deques_initialized sh'"
    and "parent_fds False (fd_get (fds sh)) sh'" and "next_job_id sh' = next_job_id sh" and "waited sh' = waited sh"
    and "out sh' = out sh @ msg" and "length (procs sh') = length (procs sh) + length cs" and "quash sh' = quash sh"
proof -
  have nonempty: "cs \<noteq> []" using pl by auto
  let ?K = "length (table sh)" and ?l = "length str + 1" and ?m = "14 * (length (table sh) + 1)"
  have r: "564 + 2 * ?l + 12 * (length cs + ?m) \<le> avail (sh_heap sh)" using room by (simp only: script_bytes_def)
  obtain d0 h0 where i: "init_jobs sh = Some (sh\<lparr>background_jobs := d0, deques_initialized := True, sh_heap := h0\<rparr>)"
    "jobs_inv bs d0 h0" "map view (deq_list d0) = table sh" "avail (sh_heap sh) \<le> avail h0 + 560"
    using init_jobs_ok [OF inv] r by auto
  let ?sh0 = "sh\<lparr>background_jobs := d0, deques_initialized := True, sh_heap := h0\<rparr>"
  have c0: "deques_initialized ?sh0" "jobs_inv bs (background_jobs ?sh0) (sh_heap ?sh0)"
    "poll_view os (polls ?sh0) (jobs ?sh0) = (vs, msg, k)" using i v by (simp_all add: jobs_def)
  from check_jobs_ok [OF this] obtain d1 h1 where c: "check_jobs_bg_status os ?sh0 =
      Some (?sh0\<lparr>background_jobs := d1, sh_heap := h1, polls := k, out := out ?sh0 @ msg\<rparr>)"
    "jobs_inv bs d1 h1" "map view (deq_list d1) = vs" "avail h0 \<le> avail h1" by auto
  let ?sh1 = "?sh0\<lparr>background_jobs := d1, sh_heap := h1, polls := k, out := out ?sh0 @ msg\<rparr>"
  have a1: "4 + 2 * ?l + 12 * (length cs + ?m) \<le> avail h1" using r i(4) c(4) by linarith
  have h1: "heap_ok h1" using c(2) by (simp add: jobs_inv_def)
  obtain ps0 :: "(int, heap) deque" and h2 where n: "new_deque malloc sizeof_pid_t 1 h1 = Some (ps0, h2)"
    "deque_sim sizeof_pid_t (blocks h1) (length cs + ?m) ps0 [] h2" "heap_bytes h2 = heap_bytes h1"
    by (rule heap_new [OF h1, of sizeof_pid_t 1 "length cs + ?m"]) (use a1 in simp_all)
  have a2: "2 * ?l + 12 * (length cs + ?m) \<le> avail h2" using a1 new_deque_avail(1) [OF n] by simp
  obtain p h3 where p: "strdup str h2 = Some ((p, str), h3)" "p \<noteq> 0"
    "deque_sim sizeof_pid_t ((p, ?l) # blocks h1) (length cs + ?m) ps0 [] h3" "avail h3 + ?l = avail h2"
    using strdup_ok [OF n(2), of "length cs + ?m" str] a2 by auto
  have "?l + 12 * (length cs + ?m) \<le> avail h3" using a2 p(4) by simp
  then obtain q h4 where q: "strdup str h3 = Some ((q, str), h4)" "q \<noteq> 0"
    "deque_sim sizeof_pid_t ((q, ?l) # (p, ?l) # blocks h1) (length cs + ?m) ps0 [] h4"
    using strdup_ok [OF p(3), of "length cs + ?m" str] by auto
  let ?sh2 = "?sh1\<lparr>sh_heap := h4, pipe_index := 0\<rparr>"
  have d1: "deque_ok d1" "\<forall>j \<in> set (deq_list d1). bg_job_ok j" using c(2) by (auto simp: jobs_inv_def)
  have t2: "table_ok ?sh2" using d1 by (simp add: table_ok_def)
  have f2: "parent_fds False (fd_get (fds sh)) ?sh2" using inv by (simp add: shell_inv_def parent_fds_def)
  have s2: "deque_sim sizeof_pid_t ((q, ?l) # (p, ?l) # blocks h1) (length cs + ?m) ps0 [] (sh_heap ?sh2)"
    "cap ps0 \<le> max 1 (2 * length ([] :: int list))" using q(3) new_deque_avail(2) [OF n] by simp_all
  obtain ps sh' new where rc: "run_commands os (cs @ e # []) ps0 ?sh2 = Some (ps, sh')"
    "deque_sim sizeof_pid_t ((q, ?l) # (p, ?l) # blocks h1) ?m ps ([] @ child_pids os (forks ?sh2) (length cs)) (sh_heap sh')"
    "cap ps \<le> max 1 (2 * (length ([] :: int list) + length cs))" "procs sh' = procs ?sh2 @ new"
    "children_of os (fd_get (fds sh)) (forks ?sh2) (npipes ?sh2) cs new"
    "parent_fds False (fd_get (fds sh)) sh'" "same_rest ?sh2 sh'" "same_table ?sh2 sh'"
    using run_commands_ok [OF pl ok os t2 f2 e s2, of "[]"] by blast
  have run: "run_script os (Some (cs @ [e])) sh =
      (if has_flag (flags (hd cs)) BACKGROUND then add_job ps (q, str) sh' else wait_job ps (q, str) sh')"
  proof -
    obtain c0 c1 where cs: "cs = c0 # c1" using nonempty by (cases cs) auto
    have "(case c1 @ [e] of [] \<Rightarrow> False | h1 # x \<Rightarrow> get_command_holder_type h1 = EOC) = (c1 = [])"
      using pl e by (cases c1) (auto simp: cs linked_def)
    moreover have "get_command_string (quash sh) h2 = Some ((p, str), h3)" using str p(1) by (simp add: get_command_string_def)
    ultimately show ?thesis using i(1) c(1) n(1) p(2) q(1) rc(1) ex
      by (auto simp: run_script_def cs simp del: run_commands.simps)
  qed
  have blk: "mset (blocks (sh_heap sh')) = add_mset (jobs_block d1) (blocks_of (deq_list d1)
      + (add_mset (pids_block ps) (string_block (q, str)) + add_mset (p, ?l) bs))"
    using mset_other_blocks [OF rc(2)] c(2) q(2) by (simp add: jobs_inv_def pids_block_def string_block_def)
  have okp: "deque_ok ps" "destructor ps = None" "deq_list ps = child_pids os (forks sh) (length cs)" "heap_ok (sh_heap sh')"
    using rc(2) by (simp_all add: deque_sim_def)
  have "jobs_inv (add_mset (pids_block ps) (string_block (q, str)) + add_mset (p, ?l) bs) (background_jobs sh') (sh_heap sh')"
    by (rule same_table_inv [OF rc(8) _ okp(4)]) (use c(2) blk in simp_all)
  moreover have "168 * (length vs + 1) \<le> avail (sh_heap sh')"
  proof -
    have "length vs \<le> ?K" using poll_view_length [OF v] .
    moreover have "length (cells ps) \<le> 2 * length cs" using okp(1) rc(3) nonempty by (cases cs) (auto simp: deque_ok_def)
    moreover have "12 * (length cs + ?m) \<le> avail (sh_heap sh') + length (cells ps) * 4"
      using rc(2) by (simp add: deque_sim_def child_pids_def)
    ultimately show ?thesis by (simp add: algebra_simps)
  qed
  moreover have "jobs sh' = vs" "deques_initialized sh'"
    using rc(8) c(3) by (simp_all add: same_table_def table_ok_def jobs_def)
  moreover have "next_job_id sh' = next_job_id sh" "waited sh' = waited sh" "out sh' = out sh @ msg" "quash sh' = quash sh"
    using rc(7) by (simp_all add: same_rest_def)
  moreover have "length (procs sh') = length (procs sh) + length cs"
    using rc(4,5) by (auto simp: children_of_def dest: list_all2_lengthD)
  ultimately show ?thesis using that [OF run] okp(1-3) rc(6) by blast
qed


lemma run_script_ok:
  assumes "shell_inv bs sh" and "pipeline False cs" and "commands_ok os cs" and "os_willing os"
    and "get_command_holder_type e = EOC" and "parsed_str (quash sh) = Some str"
    and "\<not> (get_command_holder_type (hd cs) = EXIT \<and> tl cs = [])"
    and "script_bytes (length cs) str sh \<le> avail (sh_heap sh)" and "next_job_id sh < INT_MAX"
  shows "\<exists>sh' p. run_script os (Some (cs @ [e])) sh = Some sh'
    \<and> shell_inv (add_mset (p, length str + 1) bs) sh' \<and> fd_get (fds sh') = fd_get (fds sh)
    \<and> length (procs sh') = length (procs sh) + length cs \<and> quash sh' = quash sh
    \<and> (let (vs, msg, k) = poll_view os (polls sh) (table sh); new = child_pids os (forks sh) (length cs) in
        if has_flag (flags (hd cs)) BACKGROUND
        then table sh' = vs @ [(next_job_id sh, new, str)] \<and> next_job_id sh' = next_job_id sh + 1
          \<and> waited sh' = waited sh \<and> out sh' = out sh @ msg @ print_job_bg_start (next_job_id sh) (hd new) str
        else table sh' = vs \<and> next_job_id sh' = next_job_id sh
          \<and> waited sh' = waited sh @ new \<and> out sh' = out sh @ msg)"
proof -
  obtain vs msg k where v: "poll_view os (polls sh) (table sh) = (vs, msg, k)" by (cases "poll_view os (polls sh) (table sh)") auto
  let ?new = "child_pids os (forks sh) (length cs)" and ?b = "(\<lambda>p. add_mset (p, length str + 1) bs)"
  obtain ps sh1 p q where r: "run_script os (Some (cs @ [e])) sh =
      (if has_flag (flags (hd cs)) BACKGROUND then add_job ps (q, str) sh1 else wait_job ps (q, str) sh1)"
    "jobs_inv (add_mset (pids_block ps) (string_block (q, str)) + ?b p) (background_jobs sh1) (sh_heap sh1)"
    "deque_ok ps" "destructor ps = None" "deq_list ps = ?new" "168 * (length vs + 1) \<le> avail (sh_heap sh1)"
    "jobs sh1 = vs" "deques_initialized sh1" "parent_fds False (fd_get (fds sh)) sh1" "next_job_id sh1 = next_job_id sh"
    "waited sh1 = waited sh" "out sh1 = out sh @ msg" "length (procs sh1) = length (procs sh) + length cs" "quash sh1 = quash sh"
    by (rule run_script_started [OF assms(1-8) v])
  have new: "?new = hd ?new # tl ?new" using assms(2) by (cases cs) (auto simp: child_pids_Suc)
  show ?thesis
  proof (cases "has_flag (flags (hd cs)) BACKGROUND")
    case True
    have "168 * (length (deq_list (background_jobs sh1)) + 1) \<le> avail (sh_heap sh1)"
      using r(6,7) by (auto simp: jobs_def simp del: deq_list_length)
    from add_job_ok [OF r(2) refl this r(3,4)] r(5,10) new assms(9) obtain d h where
      a: "add_job ps (q, str) sh1 = Some (sh1\<lparr>background_jobs := d, sh_heap := h, next_job_id := next_job_id sh1 + 1,
        out := out sh1 @ print_job_bg_start (next_job_id sh1) (hd ?new) str\<rparr>)"
      "jobs_inv (?b p) d h" "map view (deq_list d) = jobs sh1 @ [(next_job_id sh1, ?new, str)]" by fastforce
    show ?thesis using True r a v
      by (intro exI [of _ "sh1\<lparr>background_jobs := d, sh_heap := h, next_job_id := next_job_id sh1 + 1,
        out := out sh1 @ print_job_bg_start (next_job_id sh1) (hd ?new) str\<rparr>"] exI [of _ p])
        (simp add: shell_inv_def table_def jobs_def parent_fds_def)
  next
    case False
    let ?rest = "add_mset (jobs_block (background_jobs sh1)) (blocks_of (deq_list (background_jobs sh1)) + ?b p)"
    have i: "heap_ok (sh_heap sh1)" "mset (blocks (sh_heap sh1)) = add_mset (pids_block ps) (string_block (q, str)) + ?rest"
      using r(2) by (simp_all add: jobs_inv_def)
    from wait_job_ok [OF i r(3-5)] obtain h where
      w: "wait_job ps (q, str) sh1 = Some (sh1\<lparr>waited := waited sh1 @ ?new, sh_heap := h\<rparr>)" "heap_ok h" "mset (blocks h) = ?rest"
      by blast
    have "jobs_inv (?b p) (background_jobs sh1) h" using r(2) w by (simp add: jobs_inv_def)
    then show ?thesis using False r w v
      by (intro exI [of _ "sh1\<lparr>waited := waited sh1 @ ?new, sh_heap := h\<rparr>"] exI [of _ p])
        (simp add: shell_inv_def table_def jobs_def parent_fds_def)
  qed
qed

text \<open>C29: Between two lines the shell is in a good state: its descriptors are in place, and the
  heap holds the job table, the blocks of its jobs and those of others. \<open>run_script\<close> of a
  pipeline polls the jobs, starts one process for each command and then waits for all of them in
  order, or, when the first command has \<open>&\<close>, adds them to the table as the job with the next
  number. It leaves the shell in a good state again, except that one block of the size of the
  command's text stays allocated each time: \<open>execute.c:489\<close> duplicates a text that is already
  a copy.\<close>

theorem run_script_runs:
  assumes "shell_inv bs sh" and "pipeline False cs" and "commands_ok os cs" and "os_willing os"
    and "get_command_holder_type e = EOC" and "parsed_str (quash sh) = Some str"
    and "\<not> (get_command_holder_type (hd cs) = EXIT \<and> tl cs = [])"
    and "script_bytes (length cs) str sh \<le> avail (sh_heap sh)" and "next_job_id sh < INT_MAX"
  shows "\<exists>sh' p. run_script os (Some (cs @ [e])) sh = Some sh'
    \<and> shell_inv (add_mset (p, length str + 1) bs) sh' \<and> fd_get (fds sh') = fd_get (fds sh)
    \<and> length (procs sh') = length (procs sh) + length cs
    \<and> (let (vs, msg, k) = poll_view os (polls sh) (table sh); new = child_pids os (forks sh) (length cs) in
        if has_flag (flags (hd cs)) BACKGROUND
        then table sh' = vs @ [(next_job_id sh, new, str)] \<and> next_job_id sh' = next_job_id sh + 1
          \<and> waited sh' = waited sh \<and> out sh' = out sh @ msg @ print_job_bg_start (next_job_id sh) (hd new) str
        else table sh' = vs \<and> next_job_id sh' = next_job_id sh
          \<and> waited sh' = waited sh @ new \<and> out sh' = out sh @ msg)"
  using run_script_ok [OF assms] by blast

definition demo_bg :: "CommandHolder list" where
  "demo_bg = [mk_command_holder None None BACKGROUND (mk_generic_command [Some ''sleep'', Some ''5'', None])]"

lemma demo_bg_ok: "pipeline False demo_bg" "commands_ok demo_os demo_bg"
  by (simp_all add: demo_bg_def linked_def commands_ok_def files_open_def has_flag_def flag_defs demo_os_def
    get_command_holder_type_def mk_command_holder_def mk_generic_command_def)

lemma demo_shell_table: "table demo_shell = [(1, [41, 42], ''sleep 9 & '')]"
proof -
  have "deques_initialized demo_shell" by (simp add: demo_shell_def)
  then show ?thesis by (simp add: table_def demo_jobs)
qed

lemma demo_shell_good: "shell_inv {#} demo_shell"
proof -
  have "deques_initialized demo_shell" "length (pipes demo_shell) = 2" "pipe_index demo_shell < 2"
    "fd_get (fds demo_shell) 0 \<noteq> None" "fd_get (fds demo_shell) 1 \<noteq> None"
    by (simp_all add: demo_shell_def fd_get_def)
  then show ?thesis using demo_shell_inv by (simp add: shell_inv_def)
qed

theorem run_script_runs_witness:
  "\<exists>sh'. run_script demo_os (Some (demo_bg @ [demo_eoc])) demo_shell = Some sh'
    \<and> table sh' = [(1, [42], ''sleep 9 & ''), (2, [500], ''echo hi '')] \<and> next_job_id sh' = 3"
proof -
  have w: "os_willing demo_os" by (simp add: os_willing_def demo_os_def)
  have f: "parsed_str (quash demo_shell) = Some ''echo hi ''" "next_job_id demo_shell < INT_MAX" "next_job_id demo_shell = 2"
    "forks demo_shell = 0" "avail (sh_heap demo_shell) = 10000" "polls demo_shell = 0"
    by (simp_all add: demo_shell_def INT_MAX_def)
  have len: "length demo_bg = 1" by (simp add: demo_bg_def)
  have x: "\<not> (get_command_holder_type (hd demo_bg) = EXIT \<and> tl demo_bg = [])" and bg: "has_flag (flags (hd demo_bg)) BACKGROUND"
    by (simp_all add: demo_bg_def get_command_holder_type_def mk_command_holder_def mk_generic_command_def has_flag_def flag_defs)
  have room: "script_bytes (length demo_bg) ''echo hi '' demo_shell \<le> avail (sh_heap demo_shell)"
    by (simp add: script_bytes_def demo_shell_table f len)
  have v: "poll_view demo_os (polls demo_shell) (table demo_shell) = ([(1, [42], ''sleep 9 & '')], [], 2)"
    unfolding demo_shell_table f by (simp add: demo_os_def)
  have p: "child_pids demo_os (forks demo_shell) (length demo_bg) = [500]"
    by (simp add: child_pids_def f len demo_os_def)
  from run_script_runs [OF demo_shell_good demo_bg_ok w demo_commands_ok(3) f(1) x room f(2)] bg v p
  show ?thesis by (auto simp: f)
qed

end
