(* ===== verification/Quash.thy ===== *)
theory Quash
  imports Script
begin

text \<open>
  The main loop of quash, \<open>src/project1/quash/src/quash.c\<close>: each round opens a memory pool,
  parses until there is a script, runs it and closes the pool. The pool and the shell share one
  heap: \<open>sh_heap\<close> between the rounds, the \<open>pheap\<close> of the pool while there is one.
\<close>

subsection \<open>The program\<close>

definition initial_state :: "bool \<Rightarrow> QuashState" where
  "initial_state isatty = \<lparr>running = True, is_a_tty = isatty, parsed_str = None\<rparr>"

definition is_running :: "QuashState \<Rightarrow> bool" where
  "is_running q = running q"

definition is_tty :: "QuashState \<Rightarrow> bool" where
  "is_tty q = is_a_tty q"

text \<open>The loop over the path: the index after the last slash.\<close>

fun last_dir_idx :: "string \<Rightarrow> nat \<Rightarrow> nat \<Rightarrow> nat" where
  "last_dir_idx [] i idx = idx"
| "last_dir_idx (c # cs) i idx = last_dir_idx cs (Suc i) (if c = CHR ''/'' then Suc i else idx)"

definition print_prompt :: "shell \<Rightarrow> shell" where
  "print_prompt sh =
     (let cwd = get_current_directory sh in
      sh\<lparr>out := out sh @ ''[QUASH - '' @ show_cstr (lookup_env (sh_env sh) ''USER'') @ ''@''
        @ show_cstr (lookup_env (sh_env sh) ''HOSTNAME'') @ '' '' @ drop (last_dir_idx cwd 0 0) cwd @ '']$ ''\<rparr>)"

text \<open>\<open>while ((script = parse(&state)) == NULL);\<close> does not look at \<open>running\<close>.\<close>

partial_function (option) next_script :: "'w yyparse \<Rightarrow> QuashState \<Rightarrow> 'w \<Rightarrow> pool_state
    \<Rightarrow> (CommandHolder list \<times> QuashState \<times> 'w \<times> pool_state) option" where
  "next_script yyparse q w st =
     do { (script, q, w, st) \<leftarrow> parse yyparse q w st;
          (case script of None \<Rightarrow> next_script yyparse q w st | Some hs \<Rightarrow> Some (hs, q, w, st)) }"

declare next_script.simps [code]

text \<open>One round; the parser reads the environment and the current directory of the process.\<close>

definition main_round :: "(env \<Rightarrow> string \<Rightarrow> 'w yyparse) \<Rightarrow> os \<Rightarrow> 'w \<Rightarrow> shell \<Rightarrow> ('w \<times> shell) option" where
  "main_round yyparse os w sh =
     (let sh = (if is_tty (quash sh) then print_prompt sh else sh) in
      do { st \<leftarrow> initialize_memory_pool 1024 (sh_heap sh);
           (script, q, w, st) \<leftarrow> next_script (yyparse (sh_env sh) (cwd sh)) (quash sh) w st;
           sh \<leftarrow> run_script os (Some script) (sh\<lparr>quash := q, sh_heap := pheap st\<rparr>);
           st \<leftarrow> destroy_memory_pool (st\<lparr>pheap := sh_heap sh\<rparr>);
           Some (w, sh\<lparr>sh_heap := pheap st\<rparr>) })"

partial_function (option) main_loop :: "(env \<Rightarrow> string \<Rightarrow> 'w yyparse) \<Rightarrow> os \<Rightarrow> 'w \<Rightarrow> shell \<Rightarrow> ('w \<times> shell) option" where
  "main_loop yyparse os w sh =
     (if is_running (quash sh)
      then do { (w, sh) \<leftarrow> main_round yyparse os w sh; main_loop yyparse os w sh }
      else Some (w, sh))"

declare main_loop.simps [code]

definition greeting :: string where
  "greeting = ''Welcome to Quash!'' @ [NL] @ ''Type '' @ [CHR 0x22] @ ''exit'' @ [CHR 0x22] @ '' or '' @ [CHR 0x22]
     @ ''quit'' @ [CHR 0x22] @ '' to quit'' @ [NL] @ replicate 33 (CHR ''-'') @ [NL]"

definition quash_main :: "bool \<Rightarrow> (env \<Rightarrow> string \<Rightarrow> 'w yyparse) \<Rightarrow> os \<Rightarrow> 'w \<Rightarrow> shell \<Rightarrow> ('w \<times> shell) option" where
  "quash_main isatty yyparse os w sh =
     (let sh = sh\<lparr>quash := initial_state isatty\<rparr> in
      main_loop yyparse os w (if is_tty (quash sh) then sh\<lparr>out := out sh @ greeting\<rparr> else sh))"

subsection \<open>Lines that are no script\<close>

text \<open>The parser comes back with \<open>NULL\<close> for some blank or wrong lines; the flag says whether
  it has ended the loop meanwhile.\<close>

inductive skips :: "'w yyparse \<Rightarrow> 'w \<Rightarrow> pool_state \<Rightarrow> bool \<Rightarrow> 'w \<Rightarrow> pool_state \<Rightarrow> bool" for yyparse where
  here: "skips yyparse w st False w st"
| null: "yyparse w st = Some (Some None, ended, w1, st1) \<Longrightarrow> skips yyparse w1 st1 ended' w2 st2
    \<Longrightarrow> skips yyparse w st (ended \<or> ended') w2 st2"

lemma end_main_loop_twice [simp]: "end_main_loop (end_main_loop q) = end_main_loop q"
  by (simp add: end_main_loop_def)

lemma next_script_skips:
  "skips yyparse w st ended w' st' \<Longrightarrow>
    next_script yyparse q w st = next_script yyparse (if ended then end_main_loop q else q) w' st'"
proof (induction arbitrary: q rule: skips.induct)
  case (here w st)
  then show ?case by simp
next
  case (null w st ended w1 st1 ended' w2 st2)
  then show ?case by (subst next_script.simps) (simp add: parse_def)
qed

text \<open>At the end of the input the parser always fails, and ends the loop; but the round goes on
  parsing, for ever.\<close>

definition at_end :: "'w yyparse \<Rightarrow> 'w \<Rightarrow> bool" where
  "at_end yyparse w \<longleftrightarrow> (\<forall>st. case yyparse w st of None \<Rightarrow> True | Some (script, ended, w', st') \<Rightarrow> script = Some None \<and> ended \<and> w' = w)"

lemma next_script_never:
  assumes "next_script yyparse q w st = Some r"
  shows "\<not> at_end yyparse w"
proof (rule next_script.raw_induct [where P = "\<lambda>yyparse q w st r. \<not> at_end yyparse w", OF _ assms])
  fix rec :: "'a yyparse \<Rightarrow> QuashState \<Rightarrow> 'a \<Rightarrow> pool_state \<Rightarrow> (CommandHolder list \<times> QuashState \<times> 'a \<times> pool_state) option"
    and yyparse q w st r
  assume IH: "\<And>yyparse q w st r. rec yyparse q w st = Some r \<Longrightarrow> \<not> at_end yyparse w"
    and eq: "do { (script, q, w, st) \<leftarrow> parse yyparse q w st;
      (case script of None \<Rightarrow> rec yyparse q w st | Some hs \<Rightarrow> Some (hs, q, w, st)) } = Some r"
  show "\<not> at_end yyparse w"
  proof
    assume e: "at_end yyparse w"
    from eq obtain s ended v st1 where p: "yyparse w st = Some (s, ended, v, st1)"
      by (auto simp: parse_def bind_eq_Some_conv)
    then have "s = Some None" "v = w" using e by (auto simp: at_end_def split: option.splits dest!: spec [of _ st])
    then show False using IH eq e p by (auto simp: parse_def Let_def)
  qed
qed

lemma next_script_at_end: "at_end yyparse w \<Longrightarrow> next_script yyparse q w st = None"
  using next_script_never by (metis not_Some_eq)

lemma main_loop_at_end:
  assumes "is_running (quash sh)" and "at_end (yyparse (sh_env sh) (cwd sh)) w"
  shows "main_loop yyparse os w sh = None"
proof -
  have "main_round yyparse os w sh = None"
    using next_script_at_end [OF assms(2)] by (auto simp: main_round_def Let_def print_prompt_def bind_eq_None_conv)
  then show ?thesis using assms(1) by (simp add: main_loop.simps)
qed

text \<open>The first \<open>n\<close> turns of that loop, all of which leave \<open>script\<close> \<open>NULL\<close>.\<close>

fun null_parses :: "nat \<Rightarrow> 'w yyparse \<Rightarrow> QuashState \<Rightarrow> 'w \<Rightarrow> pool_state \<Rightarrow> (QuashState \<times> 'w \<times> pool_state) option" where
  "null_parses 0 yyparse q w st = Some (q, w, st)"
| "null_parses (Suc n) yyparse q w st =
     do { (script, q, w, st) \<leftarrow> parse yyparse q w st;
          (case script of None \<Rightarrow> null_parses n yyparse q w st | Some hs \<Rightarrow> None) }"

lemma null_parses_next_script:
  "null_parses n yyparse q w st = Some (q', w', st') \<Longrightarrow> next_script yyparse q w st = next_script yyparse q' w' st'"
proof (induction n arbitrary: q w st)
  case 0
  then show ?case by simp
next
  case (Suc n)
  then show ?case by (subst next_script.simps) (auto simp: bind_eq_Some_conv split: option.splits)
qed

lemma null_parses_at_end:
  assumes "\<And>st. yyparse w st = Some (Some None, True, w, st)"
  shows "null_parses n yyparse q w st = Some (if n = 0 then q else end_main_loop q, w, st)"
  by (induction n arbitrary: q) (simp_all add: parse_def assms)

subsection \<open>A round\<close>

text \<open>The blocks of the memory pool, and those of the shell's own state.\<close>

definition pool_own :: "pool_state \<Rightarrow> (nat \<times> nat) multiset" where
  "pool_own st = add_mset (deque_block (pool_deq st)) (pool_blocks (deq_list (pool_deq st)))"

definition table_own :: "shell \<Rightarrow> (nat \<times> nat) multiset" where
  "table_own sh = (if deques_initialized sh
     then add_mset (jobs_block (background_jobs sh)) (blocks_of (deq_list (background_jobs sh))) else {#})"

lemma shell_inv_blocks:
  "shell_inv bs sh \<Longrightarrow> mset (blocks (sh_heap sh)) = table_own sh + bs \<and> heap_ok (sh_heap sh)"
  by (auto simp: shell_inv_def table_own_def jobs_inv_def)

lemma shell_inv_heap:
  assumes "shell_inv bs sh" and "heap_ok h" and "mset (blocks h) = table_own sh + bs'"
  shows "shell_inv bs' (sh\<lparr>sh_heap := h\<rparr>)"
  using assms by (auto simp: shell_inv_def table_own_def jobs_inv_def)

lemma pool_inv_blocks: "pool_inv bs I st \<Longrightarrow> mset (blocks (pheap st)) = bs + pool_own st \<and> heap_ok (pheap st)"
  by (simp add: pool_inv_def deque_inv_def pool_own_def)

lemma shell_inv_pool:
  assumes inv: "shell_inv bs sh" and p: "pool_inv (mset (blocks (sh_heap sh))) I st"
  shows "shell_inv (bs + pool_own st) (sh\<lparr>sh_heap := pheap st\<rparr>)"
  using shell_inv_heap [OF inv, of "pheap st" "bs + pool_own st"] pool_inv_blocks [OF p] shell_inv_blocks [OF inv]
  by (simp add: add.assoc)

lemma destroy_pool_shell:
  assumes p: "pool_inv bs0 I st" and inv: "shell_inv (bs + pool_own st) sh"
  shows "\<exists>st'. destroy_memory_pool (st\<lparr>pheap := sh_heap sh\<rparr>) = Some st' \<and> shell_inv bs (sh\<lparr>sh_heap := pheap st'\<rparr>)"
proof -
  have "pool_inv (table_own sh + bs) I (st\<lparr>pheap := sh_heap sh\<rparr>)"
    using p shell_inv_blocks [OF inv] by (simp add: pool_inv_def deque_inv_def pool_own_def ac_simps)
  from destroy_memory_pool_inv [OF this] shell_inv_heap [OF inv] show ?thesis by auto
qed

lemma shell_inv_other [simp]:
  "shell_inv bs (sh\<lparr>quash := q\<rparr>) = shell_inv bs sh" "shell_inv bs (sh\<lparr>out := tx\<rparr>) = shell_inv bs sh"
  "shell_inv bs (sh\<lparr>quash := q, sh_heap := h\<rparr>) = shell_inv bs (sh\<lparr>sh_heap := h\<rparr>)"
  by (simp_all add: shell_inv_def)

lemma table_other [simp]:
  "table (sh\<lparr>quash := q\<rparr>) = table sh" "table (sh\<lparr>out := tx\<rparr>) = table sh" "table (sh\<lparr>sh_heap := h\<rparr>) = table sh"
  "table (sh\<lparr>quash := q, sh_heap := h\<rparr>) = table sh"
  by (simp_all add: table_def jobs_def)

lemma script_bytes_other [simp]:
  "script_bytes n str (sh\<lparr>quash := q\<rparr>) = script_bytes n str sh" "script_bytes n str (sh\<lparr>out := tx\<rparr>) = script_bytes n str sh"
  "script_bytes n str (sh\<lparr>quash := q, sh_heap := h\<rparr>) = script_bytes n str sh"
  by (simp_all add: script_bytes_def)

text \<open>The shell a round starts with, its prompt printed.\<close>

definition prompted :: "shell \<Rightarrow> shell" where
  "prompted sh = (if is_tty (quash sh) then print_prompt sh else sh)"

lemma main_round_ok:
  assumes inv: "shell_inv bs sh" and run: "is_running (quash sh)"
    and init: "initialize_memory_pool 1024 (sh_heap sh) = Some st0"
    and skip: "skips (yyparse (sh_env sh) (cwd sh)) w st0 gone w1 st1"
    and y: "yyparse (sh_env sh) (cwd sh) w1 st1 = Some (Some (Some (cs @ [e])), ended, w2, st)"
    and others: "pool_kept st0 st" and ready: "pool_ready st" and tx: "tx = script_text (cs @ [e])"
    and hs: "script_ok (cs @ [e])" and nul: "NUL \<notin> set tx"
    and room: "116 + 32 * length (script_strings (cs @ [e])) + 14 * length (script_commands (cs @ [e])) + length tx \<le> room st"
    and av: "80 + 24 * length (script_strings (cs @ [e])) \<le> avail (pheap st)" and small: "length tx < 2 ^ 63"
    and pl: "pipeline False cs" and ok: "commands_ok os cs" and os: "os_willing os"
    and e: "get_command_holder_type e = EOC" and ex: "\<not> (get_command_holder_type (hd cs) = EXIT \<and> tl cs = [])"
    and bytes: "script_bytes (length cs) tx sh \<le> avail (pheap st)" and job: "next_job_id sh < INT_MAX"
  shows "\<exists>sh' p. main_round yyparse os w sh = Some (w2, sh') \<and> shell_inv (add_mset (p, length tx + 1) bs) sh'
    \<and> fd_get (fds sh') = fd_get (fds sh) \<and> length (procs sh') = length (procs sh) + length cs
    \<and> (is_running (quash sh') \<longleftrightarrow> \<not> gone \<and> \<not> ended)
    \<and> (let (vs, msg, k) = poll_view os (polls sh) (table sh); new = child_pids os (forks sh) (length cs) in
        if has_flag (flags (hd cs)) BACKGROUND
        then table sh' = vs @ [(next_job_id sh, new, tx)] \<and> waited sh' = waited sh
        else table sh' = vs \<and> waited sh' = waited sh @ new)"
proof -
  obtain I0 where p0: "pool_inv (mset (blocks (sh_heap sh))) I0 st0"
    using initialize_memory_pool_inv [OF conjunct2 [OF shell_inv_blocks [OF inv]] init] by blast
  let ?y = "yyparse (sh_env sh) (cwd sh)"
  let ?q = "if gone then end_main_loop (quash sh) else quash sh"
  obtain st2 where parse: "parse ?y ?q w1 st1 =
      Some (Some (cs @ [e]), ?q\<lparr>running := running ?q \<and> \<not> ended, parsed_str := Some tx\<rparr>, w2, st2)"
    and kept: "pool_kept st st2" and a2: "avail (pheap st2) = avail (pheap st)"
    using parse_ok [of ?y, OF y hs nul [unfolded tx] ready room [unfolded tx] av small [unfolded tx], of ?q] tx by auto
  let ?q2 = "?q\<lparr>running := running ?q \<and> \<not> ended, parsed_str := Some tx\<rparr>"
  have script: "next_script ?y (quash sh) w st0 = Some (cs @ [e], ?q2, w2, st2)"
    unfolding next_script_skips [OF skip] by (subst next_script.simps) (simp add: parse)
  have p2: "pool_inv (mset (blocks (sh_heap sh))) I0 st2"
    using p0 others kept by (simp add: pool_kept_def)
  let ?sh = "(prompted sh)\<lparr>quash := ?q2, sh_heap := pheap st2\<rparr>"
  have same: "shell_inv bs (prompted sh)" "sh_heap (prompted sh) = sh_heap sh" "table (prompted sh) = table sh"
    "script_bytes n str (prompted sh) = script_bytes n str sh" "fds (prompted sh) = fds sh" "procs (prompted sh) = procs sh"
    "polls (prompted sh) = polls sh" "forks (prompted sh) = forks sh" "next_job_id (prompted sh) = next_job_id sh"
    "waited (prompted sh) = waited sh" "sh_env (prompted sh) = sh_env sh" "cwd (prompted sh) = cwd sh"
    "quash (prompted sh) = quash sh" for n str
    using inv by (simp_all add: prompted_def print_prompt_def Let_def)
  have i: "shell_inv (bs + pool_own st2) ?sh"
    unfolding shell_inv_other using shell_inv_pool [OF same(1), of I0 st2] p2 same(2) by simp
  obtain vs msg k where v: "poll_view os (polls sh) (table sh) = (vs, msg, k)"
    by (cases "poll_view os (polls sh) (table sh)") auto
  have t: "table ?sh = table sh" "polls ?sh = polls sh" "next_job_id ?sh = next_job_id sh" "forks ?sh = forks sh"
    "waited ?sh = waited sh" "fds ?sh = fds sh" "procs ?sh = procs sh" "quash ?sh = ?q2"
    "parsed_str (quash ?sh) = Some tx" "script_bytes (length cs) tx ?sh \<le> avail (sh_heap ?sh)"
    using same bytes a2 by simp_all
  have "next_job_id ?sh < INT_MAX" using job t(3) by simp
  from run_script_ok [OF i pl ok os e t(9) ex t(10) this] obtain sh2 p where
    r: "run_script os (Some (cs @ [e])) ?sh = Some sh2"
    "shell_inv (add_mset (p, length tx + 1) (bs + pool_own st2)) sh2" "fd_get (fds sh2) = fd_get (fds sh)"
    "length (procs sh2) = length (procs sh) + length cs" "quash sh2 = ?q2"
    "if has_flag (flags (hd cs)) BACKGROUND
        then table sh2 = vs @ [(next_job_id sh, child_pids os (forks sh) (length cs), tx)] \<and> waited sh2 = waited sh
        else table sh2 = vs \<and> waited sh2 = waited sh @ child_pids os (forks sh) (length cs)"
    unfolding t by (auto simp: v Let_def split: if_splits)
  have "shell_inv (add_mset (p, length tx + 1) bs + pool_own st2) sh2" using r(2) by simp
  from destroy_pool_shell [OF p2 this] obtain st3 where
    d: "destroy_memory_pool (st2\<lparr>pheap := sh_heap sh2\<rparr>) = Some st3"
    "shell_inv (add_mset (p, length tx + 1) bs) (sh2\<lparr>sh_heap := pheap st3\<rparr>)" by blast
  have "main_round yyparse os w sh = Some (w2, sh2\<lparr>sh_heap := pheap st3\<rparr>)"
    using init script r(1) d(1) same by (simp add: main_round_def flip: prompted_def)
  moreover have "is_running (quash sh2) \<longleftrightarrow> \<not> gone \<and> \<not> ended"
    using run r(5) by (simp add: is_running_def end_main_loop_def)
  ultimately show ?thesis using d(2) r(3,4,6)
    by (intro exI [of _ "sh2\<lparr>sh_heap := pheap st3\<rparr>"] exI [of _ p]) (simp add: Let_def v)
qed

text \<open>C36: A round of quash keeps the shell good. Blank and wrong lines are passed over; if then
  the parser returns a well-formed script, leaving everybody else's memory alone and some room,
  the script runs as \<open>run_script\<close> says, the whole memory pool is given back, and the heap is
  again that of the job table and of others, with only the duplicated text left over. The loop
  goes on unless the parser has seen the end of the input.\<close>

theorem main_round_runs:
  assumes inv: "shell_inv bs sh" and run: "is_running (quash sh)"
    and init: "initialize_memory_pool 1024 (sh_heap sh) = Some st0"
    and skip: "skips (yyparse (sh_env sh) (cwd sh)) w st0 gone w1 st1"
    and y: "yyparse (sh_env sh) (cwd sh) w1 st1 = Some (Some (Some (cs @ [e])), ended, w2, st)"
    and others: "pool_kept st0 st" and ready: "pool_ready st" and tx: "tx = script_text (cs @ [e])"
    and hs: "script_ok (cs @ [e])" and nul: "NUL \<notin> set tx"
    and room: "116 + 32 * length (script_strings (cs @ [e])) + 14 * length (script_commands (cs @ [e])) + length tx \<le> room st"
    and av: "80 + 24 * length (script_strings (cs @ [e])) \<le> avail (pheap st)" and small: "length tx < 2 ^ 63"
    and pl: "pipeline False cs" and ok: "commands_ok os cs" and os: "os_willing os"
    and e: "get_command_holder_type e = EOC" and ex: "\<not> (get_command_holder_type (hd cs) = EXIT \<and> tl cs = [])"
    and bytes: "script_bytes (length cs) tx sh \<le> avail (pheap st)" and job: "next_job_id sh < INT_MAX"
  shows "\<exists>sh' p. main_round yyparse os w sh = Some (w2, sh') \<and> shell_inv (add_mset (p, length tx + 1) bs) sh'
    \<and> fd_get (fds sh') = fd_get (fds sh) \<and> length (procs sh') = length (procs sh) + length cs
    \<and> (is_running (quash sh') \<longleftrightarrow> \<not> gone \<and> \<not> ended)
    \<and> (let (vs, msg, k) = poll_view os (polls sh) (table sh); new = child_pids os (forks sh) (length cs) in
        if has_flag (flags (hd cs)) BACKGROUND
        then table sh' = vs @ [(next_job_id sh, new, tx)] \<and> waited sh' = waited sh
        else table sh' = vs \<and> waited sh' = waited sh @ new)"
  using main_round_ok [where yyparse = yyparse, OF assms] by blast

text \<open>A blank line and then a job in the background, in the shell of the other examples.\<close>

definition demo_lines :: "env \<Rightarrow> string \<Rightarrow> nat yyparse" where
  "demo_lines env dir w st =
     (if w = 0 then Some (Some None, False, 1, st) else Some (Some (Some (demo_bg @ [demo_eoc])), w = 2, w + 1, st))"

lemma demo_pool:
  obtains st where "initialize_memory_pool 1024 (sh_heap demo_shell) = Some st" and "pool_ready st"
    and "room st = 1024" and "8000 \<le> avail (pheap st)"
proof -
  obtain st where i: "initialize_memory_pool 1024 (sh_heap demo_shell) = Some st" and r: "room st = 1024"
    and a: "8000 \<le> avail (pheap st)"
    by (simp add: demo_shell_def pool_eval room_def upt_rec deq_list_def deq_len_def deq_cell_def cong: bind_left_cong)
  moreover have "pool_ready st"
    using initialize_memory_pool_inv [OF conjunct2 [OF shell_inv_blocks [OF demo_shell_good]] i]
    by (auto simp: pool_ready_def pool_ok_def)
  ultimately show ?thesis using that by blast
qed

theorem main_round_runs_witness:
  "\<exists>sh'. main_round demo_lines demo_os 0 demo_shell = Some (2, sh') \<and> is_running (quash sh')
    \<and> table sh' = [(1, [42], ''sleep 9 & ''), (2, [500], ''sleep 5 & '')]"
proof -
  obtain st where st: "initialize_memory_pool 1024 (sh_heap demo_shell) = Some st" "pool_ready st"
    "room st = 1024" "8000 \<le> avail (pheap st)" by (rule demo_pool)
  have f: "is_running (quash demo_shell)" "next_job_id demo_shell < INT_MAX" "next_job_id demo_shell = 2"
    "forks demo_shell = 0" "polls demo_shell = 0"
    by (simp_all add: demo_shell_def INT_MAX_def is_running_def)
  have sk: "skips (demo_lines (sh_env demo_shell) (cwd demo_shell)) 0 st False 1 st"
    using skips.null [of "demo_lines (sh_env demo_shell) (cwd demo_shell)" 0 st False 1 st, OF _ skips.here] by (simp add: demo_lines_def)
  have y: "demo_lines (sh_env demo_shell) (cwd demo_shell) 1 st = Some (Some (Some (demo_bg @ [demo_eoc])), False, 2, st)"
    by (simp add: demo_lines_def)
  note ev = script_ok_def script_text_def script_strings_def script_commands_def holder_strings_def demo_bg_def demo_eoc_def
    mk_command_holder_def mk_generic_command_def mk_eoc_def get_command_holder_type_def has_flag_def flag_defs
  have tx: "script_text (demo_bg @ [demo_eoc]) = ''sleep 5 & ''" by (simp add: ev)
  have s: "script_ok (demo_bg @ [demo_eoc])" "length (script_strings (demo_bg @ [demo_eoc])) = 4"
    "length (script_commands (demo_bg @ [demo_eoc])) = 1" "length demo_bg = 1" "has_flag (flags (hd demo_bg)) BACKGROUND"
    "\<not> (get_command_holder_type (hd demo_bg) = EXIT \<and> tl demo_bg = [])" "get_command_holder_type demo_eoc = EOC"
    by (simp_all add: ev)
  have w: "os_willing demo_os" by (simp add: os_willing_def demo_os_def)
  have v: "poll_view demo_os (polls demo_shell) (table demo_shell) = ([(1, [42], ''sleep 9 & '')], [], 2)"
    unfolding demo_shell_table f by (simp add: demo_os_def)
  have p: "child_pids demo_os (forks demo_shell) (length demo_bg) = [500]"
    by (simp add: child_pids_def f s demo_os_def)
  have b: "script_bytes (length demo_bg) ''sleep 5 & '' demo_shell \<le> avail (pheap st)"
    using st(4) by (simp add: script_bytes_def demo_shell_table s)
  have m: "NUL \<notin> set ''sleep 5 & ''" "116 + 32 * length (script_strings (demo_bg @ [demo_eoc]))
      + 14 * length (script_commands (demo_bg @ [demo_eoc])) + length ''sleep 5 & '' \<le> room st"
    "80 + 24 * length (script_strings (demo_bg @ [demo_eoc])) \<le> avail (pheap st)" "length ''sleep 5 & '' < 2 ^ 63"
    using s st by simp_all
  from main_round_runs [where yyparse = demo_lines, OF demo_shell_good f(1) st(1) sk y pool_kept_refl st(2) tx [symmetric]
      s(1) m demo_bg_ok w s(7,6) b f(2)]
  show ?thesis using s(5) v p f(3) by auto
qed

end
