(* ===== verification/Grammar.thy ===== *)
theory Grammar
  imports Pipeline
begin

text \<open>
  The semantic actions of quash's grammar, \<open>src/project1/quash/src/parsing/parse.y\<close>, over parse
  trees: which script a line becomes. Which tree a text has is said in \<open>Scanner\<close> and \<open>Reader\<close>. A deque of the memory pool is the list of its elements
  (\<open>Deque.deque_refines_list\<close>), and a string token is the string it was cleaned up to.
\<close>

subsection \<open>Parse trees\<close>

datatype content =
    Program string "string list"
  | Echo "string list"
  | Export string string
  | Cd_home
  | Cd_to string
  | Pwd
  | Jobs
  | Exit
  | Kill string string

datatype redir_mark = Redirin | Redirout | Redirout_app

record cmd_tree =
  tree_content :: content
  tree_redir :: "(redir_mark \<times> string) list"
  tree_bg :: bool

subsection \<open>Actions\<close>

text \<open>\<open>cmd\<close> and \<open>cmd_arguments\<close>: a pointer is pushed in front of the rest, \<open>NULL\<close> ends it.\<close>

fun cmd_arguments :: "string list \<Rightarrow> args" where
  "cmd_arguments [] = [None]"
| "cmd_arguments (s # ss) = Some s # cmd_arguments ss"

text \<open>\<open>realpath\<close> is the C library's. Copying \<open>NULL\<close>, the value of an unset \<open>HOME\<close>, stops the
  process (\<open>memory_pool_strdup\<close> asserts).\<close>

definition cmd_content :: "env \<Rightarrow> (string \<Rightarrow> string option) \<Rightarrow> content \<Rightarrow> Command option" where
  "cmd_content env realpath c = (case c of
     Program s ss \<Rightarrow> Some (mk_generic_command (cmd_arguments (s # ss)))
   | Echo [] \<Rightarrow> Some (mk_echo_command [None])
   | Echo ss \<Rightarrow> Some (mk_echo_command (cmd_arguments ss))
   | Export v s \<Rightarrow> Some (mk_export_command (Some v) (Some s))
   | Cd_home \<Rightarrow> (case lookup_env env ''HOME'' of None \<Rightarrow> None | Some d \<Rightarrow> Some (mk_cd_command (Some d)))
   | Cd_to s \<Rightarrow> Some (mk_cd_command (realpath s))
   | Pwd \<Rightarrow> Some mk_pwd_command
   | Jobs \<Rightarrow> Some mk_jobs_command
   | Exit \<Rightarrow> Some mk_exit_command
   | Kill s j \<Rightarrow> Some (mk_kill_command s j))"

fun redir_inner :: "(redir_mark \<times> string) list \<Rightarrow> Redirect" where
  "redir_inner [] = mk_redirect None None False"
| "redir_inner [(m, s)] = (case m of
     Redirin \<Rightarrow> mk_redirect (Some s) None False
   | Redirout \<Rightarrow> mk_redirect None (Some s) False
   | Redirout_app \<Rightarrow> mk_redirect None (Some s) True)"
| "redir_inner ((m, s) # ms) = (let r = redir_inner ms in case m of
     Redirin \<Rightarrow> r\<lparr>r_in := Some s\<rparr>
   | Redirout \<Rightarrow> r\<lparr>r_out := Some s, r_append := False\<rparr>
   | Redirout_app \<Rightarrow> r\<lparr>r_out := Some s, r_append := True\<rparr>)"

definition cmd_top :: "env \<Rightarrow> (string \<Rightarrow> string option) \<Rightarrow> cmd_tree \<Rightarrow> CommandHolder option" where
  "cmd_top env realpath t =
     do { c \<leftarrow> cmd_content env realpath (tree_content t);
          let r = redir_inner (tree_redir t);
          let fl = (if r_append r then REDIRECT_APPEND else 0) OR (if r_out r \<noteq> None then REDIRECT_OUT else 0)
            OR (if r_in r \<noteq> None then REDIRECT_IN else 0) OR (if tree_bg t then BACKGROUND else 0);
          Some (mk_command_holder (r_in r) (r_out r) fl c) }"

fun cmds :: "env \<Rightarrow> (string \<Rightarrow> string option) \<Rightarrow> cmd_tree list \<Rightarrow> CommandHolder list option" where
  "cmds env realpath [] = None"
| "cmds env realpath [t] = do { c \<leftarrow> cmd_top env realpath t; Some [c] }"
| "cmds env realpath (t # ts) =
     do { c \<leftarrow> cmd_top env realpath t;
          cs \<leftarrow> cmds env realpath ts;
          (case cs of [] \<Rightarrow> None | prev # cs \<Rightarrow>
             (let c = c\<lparr>flags := (flags c AND NOT (REDIRECT_APPEND OR REDIRECT_OUT)) OR PIPE_OUT\<rparr>;
                  prev = prev\<lparr>flags := (flags prev AND NOT REDIRECT_IN) OR PIPE_IN\<rparr>;
                  c = (if has_flag (flags prev) BACKGROUND then c\<lparr>flags := flags c OR BACKGROUND\<rparr> else c)
              in Some (c # prev # cs))) }"

definition top :: "env \<Rightarrow> (string \<Rightarrow> string option) \<Rightarrow> cmd_tree list \<Rightarrow> CommandHolder list option" where
  "top env realpath ts = do { cs \<leftarrow> cmds env realpath ts; Some (cs @ [mk_command_holder None None 0 mk_eoc]) }"

subsection \<open>Flags\<close>

lemma has_flag_or [simp]: "has_flag (a OR b) m \<longleftrightarrow> has_flag a m \<or> has_flag b m"
  by (auto simp: has_flag_def bit_eq_iff bit_simps)

lemma has_flag_0 [simp]: "\<not> has_flag 0 m"
  by (simp add: has_flag_def)

lemma has_flag_drop: "has_flag (a AND NOT k) m \<longleftrightarrow> has_flag a (m AND NOT k)"
  by (simp add: has_flag_def ac_simps)

lemma has_flag_if [simp]: "has_flag (if b then a else 0) m \<longleftrightarrow> b \<and> has_flag a m"
  by simp

text \<open>Each flag is a bit of its own.\<close>

lemma has_flag_flag [simp]:
  "has_flag REDIRECT_IN REDIRECT_IN" "\<not> has_flag REDIRECT_IN REDIRECT_OUT" "\<not> has_flag REDIRECT_IN REDIRECT_APPEND" "\<not> has_flag REDIRECT_IN PIPE_IN" "\<not> has_flag REDIRECT_IN PIPE_OUT" "\<not> has_flag REDIRECT_IN BACKGROUND"
  "\<not> has_flag REDIRECT_OUT REDIRECT_IN" "has_flag REDIRECT_OUT REDIRECT_OUT" "\<not> has_flag REDIRECT_OUT REDIRECT_APPEND" "\<not> has_flag REDIRECT_OUT PIPE_IN" "\<not> has_flag REDIRECT_OUT PIPE_OUT" "\<not> has_flag REDIRECT_OUT BACKGROUND"
  "\<not> has_flag REDIRECT_APPEND REDIRECT_IN" "\<not> has_flag REDIRECT_APPEND REDIRECT_OUT" "has_flag REDIRECT_APPEND REDIRECT_APPEND" "\<not> has_flag REDIRECT_APPEND PIPE_IN" "\<not> has_flag REDIRECT_APPEND PIPE_OUT" "\<not> has_flag REDIRECT_APPEND BACKGROUND"
  "\<not> has_flag PIPE_IN REDIRECT_IN" "\<not> has_flag PIPE_IN REDIRECT_OUT" "\<not> has_flag PIPE_IN REDIRECT_APPEND" "has_flag PIPE_IN PIPE_IN" "\<not> has_flag PIPE_IN PIPE_OUT" "\<not> has_flag PIPE_IN BACKGROUND"
  "\<not> has_flag PIPE_OUT REDIRECT_IN" "\<not> has_flag PIPE_OUT REDIRECT_OUT" "\<not> has_flag PIPE_OUT REDIRECT_APPEND" "\<not> has_flag PIPE_OUT PIPE_IN" "has_flag PIPE_OUT PIPE_OUT" "\<not> has_flag PIPE_OUT BACKGROUND"
  "\<not> has_flag BACKGROUND REDIRECT_IN" "\<not> has_flag BACKGROUND REDIRECT_OUT" "\<not> has_flag BACKGROUND REDIRECT_APPEND" "\<not> has_flag BACKGROUND PIPE_IN" "\<not> has_flag BACKGROUND PIPE_OUT" "has_flag BACKGROUND BACKGROUND"
  by (simp_all add: has_flag_def flag_defs)

lemma drop_flag [simp]:
  "\<not> has_flag (a AND NOT REDIRECT_IN) REDIRECT_IN"
  "has_flag (a AND NOT REDIRECT_IN) REDIRECT_OUT = has_flag a REDIRECT_OUT"
  "has_flag (a AND NOT REDIRECT_IN) REDIRECT_APPEND = has_flag a REDIRECT_APPEND"
  "has_flag (a AND NOT REDIRECT_IN) PIPE_IN = has_flag a PIPE_IN"
  "has_flag (a AND NOT REDIRECT_IN) PIPE_OUT = has_flag a PIPE_OUT"
  "has_flag (a AND NOT REDIRECT_IN) BACKGROUND = has_flag a BACKGROUND"
  "has_flag (a AND NOT REDIRECT_APPEND AND NOT REDIRECT_OUT) REDIRECT_IN = has_flag a REDIRECT_IN"
  "\<not> has_flag (a AND NOT REDIRECT_APPEND AND NOT REDIRECT_OUT) REDIRECT_OUT"
  "\<not> has_flag (a AND NOT REDIRECT_APPEND AND NOT REDIRECT_OUT) REDIRECT_APPEND"
  "has_flag (a AND NOT REDIRECT_APPEND AND NOT REDIRECT_OUT) PIPE_IN = has_flag a PIPE_IN"
  "has_flag (a AND NOT REDIRECT_APPEND AND NOT REDIRECT_OUT) PIPE_OUT = has_flag a PIPE_OUT"
  "has_flag (a AND NOT REDIRECT_APPEND AND NOT REDIRECT_OUT) BACKGROUND = has_flag a BACKGROUND"
  by (simp_all add: flag_defs has_flag_def and.assoc)

subsection \<open>What the actions build\<close>

lemma arg_strings_cmd_arguments [simp]: "arg_strings (cmd_arguments ss) = Some ss"
  by (induction ss) auto

lemma cmd_content_runnable:
  assumes "cmd_content env realpath c = Some d"
  shows "runnable d" and "get_command_type d \<noteq> EOC"
  using assms by (auto simp: cmd_content_def mk_generic_command_def mk_echo_command_def mk_export_command_def
    mk_cd_command_def mk_pwd_command_def mk_jobs_command_def mk_exit_command_def mk_kill_command_def
    split: content.splits list.splits option.splits)

text \<open>The redirection a list of them comes to: the leftmost one counts.\<close>

lemma redir_inner_leftmost:
  "r_in (redir_inner ms) = map_option snd (find (\<lambda>(m, s). m = Redirin) ms)"
  "r_out (redir_inner ms) = map_option snd (find (\<lambda>(m, s). m \<noteq> Redirin) ms)"
  "r_append (redir_inner ms) \<longleftrightarrow> map_option fst (find (\<lambda>(m, s). m \<noteq> Redirin) ms) = Some Redirout_app"
  by (induction ms rule: redir_inner.induct) (auto simp: mk_redirect_def Let_def split: redir_mark.splits)

lemma cmd_top_linked:
  assumes "cmd_top env realpath t = Some c"
  shows "linked False False c" and "runnable (cmd c)" and "has_flag (flags c) BACKGROUND \<longleftrightarrow> tree_bg t"
  using assms cmd_content_runnable
  by (auto simp: cmd_top_def Let_def bind_eq_Some_conv linked_def mk_command_holder_def get_command_holder_type_def)

text \<open>The changes the action for a pipe makes, and the action seen as an equation.\<close>

definition pipe_out :: "CommandHolder \<Rightarrow> CommandHolder" where
  "pipe_out c = c\<lparr>flags := (flags c AND NOT (REDIRECT_APPEND OR REDIRECT_OUT)) OR PIPE_OUT\<rparr>"

definition pipe_in :: "CommandHolder \<Rightarrow> CommandHolder" where
  "pipe_in c = c\<lparr>flags := (flags c AND NOT REDIRECT_IN) OR PIPE_IN\<rparr>"

definition in_background :: "CommandHolder \<Rightarrow> CommandHolder" where
  "in_background c = c\<lparr>flags := flags c OR BACKGROUND\<rparr>"

lemma linked_pipe_in: "linked False p c \<Longrightarrow> linked True p (pipe_in c)"
  by (simp add: linked_def get_command_holder_type_def pipe_in_def)

lemma linked_background: "linked i p c \<Longrightarrow> linked i p (in_background c)"
  by (simp add: linked_def get_command_holder_type_def in_background_def)

lemma linked_pipe_out: "linked i False c \<Longrightarrow> linked i True (pipe_out c)"
  by (simp add: linked_def get_command_holder_type_def pipe_out_def)

lemma cmds_Cons:
  assumes "cmds env realpath (t # t' # ts) = Some cs"
  obtains c prev rest where "cmd_top env realpath t = Some c" and "cmds env realpath (t' # ts) = Some (prev # rest)"
    and "cs = (if has_flag (flags (pipe_in prev)) BACKGROUND then in_background (pipe_out c) else pipe_out c) # pipe_in prev # rest"
proof -
  from assms obtain c ps where c: "cmd_top env realpath t = Some c" and ps: "cmds env realpath (t' # ts) = Some ps"
    by (auto simp: bind_eq_Some_conv)
  with assms obtain prev rest where p: "ps = prev # rest" by (cases ps) auto
  note r = ps [unfolded p]
  have "cs = (if has_flag (flags (pipe_in prev)) BACKGROUND then in_background (pipe_out c) else pipe_out c) # pipe_in prev # rest"
    using assms c r by (auto simp: Let_def pipe_in_def pipe_out_def in_background_def split: if_splits)
  with that [OF c r] show ?thesis by blast
qed

lemma cmds_pipeline:
  assumes "cmds env realpath ts = Some cs"
  shows "pipeline False cs \<and> length cs = length ts \<and> (\<forall>h \<in> set cs. runnable (cmd h))
    \<and> (has_flag (flags (hd cs)) BACKGROUND \<longleftrightarrow> (\<exists>t \<in> set ts. tree_bg t))"
  using assms
proof (induction env realpath ts arbitrary: cs rule: cmds.induct)
  case (1 env realpath)
  then show ?case by simp
next
  case (2 env realpath t)
  then show ?case using cmd_top_linked by (auto simp: bind_eq_Some_conv)
next
  case (3 env realpath t t' ts)
  obtain c prev rest where c: "cmd_top env realpath t = Some c" and r: "cmds env realpath (t' # ts) = Some (prev # rest)"
    and cs: "cs = (if has_flag (flags (pipe_in prev)) BACKGROUND then in_background (pipe_out c) else pipe_out c) # pipe_in prev # rest"
    by (rule cmds_Cons [OF 3(2)])
  from 3(1) [OF c r] have ih: "pipeline False (prev # rest)" "length rest = length ts" "\<forall>h \<in> set (prev # rest). runnable (cmd h)"
    "has_flag (flags prev) BACKGROUND \<longleftrightarrow> (\<exists>t \<in> set (t' # ts). tree_bg t)" by auto
  note top = cmd_top_linked [OF c]
  have "linked False True (pipe_out c)" "linked False True (in_background (pipe_out c))" "linked True (rest \<noteq> []) (pipe_in prev)"
    using linked_pipe_out [OF top(1)] linked_background linked_pipe_in ih(1) by auto
  moreover have "has_flag (flags (in_background h)) BACKGROUND" "has_flag (flags (pipe_out h)) BACKGROUND = has_flag (flags h) BACKGROUND"
    "has_flag (flags (pipe_in h)) BACKGROUND = has_flag (flags h) BACKGROUND"
    "cmd (in_background h) = cmd h" "cmd (pipe_out h) = cmd h" "cmd (pipe_in h) = cmd h" for h
    by (simp_all add: pipe_in_def pipe_out_def in_background_def)
  ultimately show ?case using ih top(2,3) unfolding cs by auto
qed


lemma cmds_redirections:
  assumes "cmds env realpath ts = Some cs"
  shows "redirect_in (hd cs) = map_option snd (find (\<lambda>(m, s). m = Redirin) (tree_redir (hd ts)))"
    and "redirect_out (last cs) = map_option snd (find (\<lambda>(m, s). m \<noteq> Redirin) (tree_redir (last ts)))"
proof -
  have top: "redirect_in c = r_in (redir_inner (tree_redir t)) \<and> redirect_out c = r_out (redir_inner (tree_redir t))"
    if "cmd_top env realpath t = Some c" for env realpath t c
    using that by (auto simp: cmd_top_def bind_eq_Some_conv Let_def mk_command_holder_def)
  have "redirect_in (hd cs) = r_in (redir_inner (tree_redir (hd ts))) \<and>
      redirect_out (last cs) = r_out (redir_inner (tree_redir (last ts)))"
    using assms
  proof (induction env realpath ts arbitrary: cs rule: cmds.induct)
    case (3 env realpath t t' ts)
    obtain c prev rest where c: "cmd_top env realpath t = Some c" and r: "cmds env realpath (t' # ts) = Some (prev # rest)"
      and cs: "cs = (if has_flag (flags (pipe_in prev)) BACKGROUND then in_background (pipe_out c) else pipe_out c) # pipe_in prev # rest"
      by (rule cmds_Cons [OF 3(2)])
    have "redirect_out (last (pipe_in prev # rest)) = redirect_out (last (prev # rest))" by (simp add: pipe_in_def)
    then show ?case using 3(1) [OF c r] top [OF c] unfolding cs by (simp add: pipe_out_def in_background_def)
  qed (use top in \<open>auto simp: bind_eq_Some_conv\<close>)
  then show "redirect_in (hd cs) = map_option snd (find (\<lambda>(m, s). m = Redirin) (tree_redir (hd ts)))"
    and "redirect_out (last cs) = map_option snd (find (\<lambda>(m, s). m \<noteq> Redirin) (tree_redir (last ts)))"
    by (simp_all add: redir_inner_leftmost)
qed

lemma grammar_ok:
  assumes "top env realpath ts = Some hs"
  shows "\<exists>cs e. hs = cs @ [e] \<and> get_command_holder_type e = EOC \<and> length cs = length ts
    \<and> pipeline False cs \<and> (\<forall>h \<in> set cs. runnable (cmd h))
    \<and> (has_flag (flags (hd cs)) BACKGROUND \<longleftrightarrow> (\<exists>t \<in> set ts. tree_bg t))
    \<and> redirect_in (hd cs) = map_option snd (find (\<lambda>(m, s). m = Redirin) (tree_redir (hd ts)))
    \<and> redirect_out (last cs) = map_option snd (find (\<lambda>(m, s). m \<noteq> Redirin) (tree_redir (last ts)))"
proof -
  obtain cs where cs: "cmds env realpath ts = Some cs" and hs: "hs = cs @ [mk_command_holder None None 0 mk_eoc]"
    using assms by (auto simp: top_def bind_eq_Some_conv)
  have e: "get_command_holder_type (mk_command_holder None None 0 mk_eoc) = EOC"
    by (simp add: get_command_holder_type_def mk_command_holder_def mk_eoc_def)
  from cmds_pipeline [OF cs] cmds_redirections [OF cs] e show ?thesis unfolding hs by blast
qed

text \<open>C35: Every script the grammar builds from a line is one \<open>run_script\<close> is made for: the
  commands are piped one to the next, no side of a command has both a pipe and a redirection,
  a redirection has a file name, each command's structure is the one its type names with
  terminated arguments, and the first command tells whether the line is in the background
  (\<open>run_script\<close> looks at no other). Of several redirections of one kind the leftmost counts.\<close>

theorem grammar_builds_pipelines:
  assumes "top env realpath ts = Some hs"
  shows "\<exists>cs e. hs = cs @ [e] \<and> get_command_holder_type e = EOC \<and> length cs = length ts
    \<and> pipeline False cs \<and> (\<forall>h \<in> set cs. runnable (cmd h))
    \<and> (has_flag (flags (hd cs)) BACKGROUND \<longleftrightarrow> (\<exists>t \<in> set ts. tree_bg t))
    \<and> redirect_in (hd cs) = map_option snd (find (\<lambda>(m, s). m = Redirin) (tree_redir (hd ts)))
    \<and> redirect_out (last cs) = map_option snd (find (\<lambda>(m, s). m \<noteq> Redirin) (tree_redir (last ts)))"
  by (rule grammar_ok [OF assms])

definition demo_tree :: "cmd_tree list" where
  "demo_tree = [\<lparr>tree_content = Program ''sort'' [''-u''], tree_redir = [(Redirin, ''a''), (Redirin, ''b'')], tree_bg = False\<rparr>,
     \<lparr>tree_content = Echo [''hi''], tree_redir = [(Redirin, ''c''), (Redirout_app, ''d'')], tree_bg = True\<rparr>]"

theorem grammar_builds_pipelines_witness:
  "\<exists>hs cs e. top (\<lambda>x. None) Some demo_tree = Some hs \<and> hs = cs @ [e] \<and> length cs = 2 \<and> pipeline False cs
    \<and> has_flag (flags (hd cs)) BACKGROUND \<and> redirect_in (hd cs) = Some ''a'' \<and> redirect_out (last cs) = Some ''d''"
proof -
  obtain hs where t: "top (\<lambda>x. None) Some demo_tree = Some hs"
    by (simp add: top_def demo_tree_def cmd_top_def cmd_content_def Let_def)
  from grammar_builds_pipelines [OF t] t show ?thesis by (auto simp: demo_tree_def)
qed

end
