(* ===== verification/Scanner.thy ===== *)
theory Scanner
  imports Grammar
begin

text \<open>
  The scanner of quash, \<open>src/project1/quash/src/parsing/parse.l\<close>: the rules as functions that
  return the length of their longest match. flex takes the rule with the longest match, the first
  of them if there are several. The copies the actions make of the text in the memory pool are
  left out, as is the message for a character no rule takes.
\<close>

subsection \<open>Tokens\<close>

datatype token = PIPE | BCKGRND | EQUALS | REDIRIN | REDIROUT | REDIROUTAPP | ECHO_TOK | EXPORT_TOK | CD_TOK | PWD_TOK
  | JOBS_TOK | KILL_TOK | EOC_TOK | END | EXIT_TOK string | NUM string | ID string | SIM_STR string | STR_TOK string

definition BACKSLASH :: char where "BACKSLASH = CHR 0x5C"
definition QUOTE :: char where "QUOTE = CHR 0x27"

text \<open>The character classes of the rules \<open>whitesp\<close>, \<open>string\<close> and \<open>sim_str\<close>.\<close>

definition is_whitesp :: "char \<Rightarrow> bool" where
  "is_whitesp c \<longleftrightarrow> c = CHR '' '' \<or> c = TAB \<or> c = CR"

definition is_plain :: "char \<Rightarrow> bool" where
  "is_plain c \<longleftrightarrow> \<not> is_whitesp c \<and> c \<notin> {NL, QUOTE, CHR ''#'', CHR ''<'', CHR ''>'', CHR ''='', CHR ''&'', CHR ''|'', BACKSLASH}"

definition is_sim :: "char \<Rightarrow> bool" where
  "is_sim c \<longleftrightarrow> is_plain c \<and> c \<noteq> CHR ''$''"

text \<open>The length of the longest match of a rule, 0 if it matches nothing. A quoted part ends at the
  first quote that is not escaped.\<close>

fun quoted_len :: "string \<Rightarrow> nat option" where
  "quoted_len [] = None"
| "quoted_len (c # s) =
     (if c = QUOTE then Some 1
      else if c = BACKSLASH then (case s of [] \<Rightarrow> None | d # t \<Rightarrow> map_option (\<lambda>n. n + 2) (quoted_len t))
      else map_option Suc (quoted_len s))"

function string_len :: "string \<Rightarrow> nat" where
  "string_len [] = 0"
| "string_len (c # s) =
     (if is_plain c then Suc (string_len s)
      else if c = BACKSLASH then (case s of [] \<Rightarrow> 0 | d # t \<Rightarrow> Suc (Suc (string_len t)))
      else if c = QUOTE then (case quoted_len s of None \<Rightarrow> 0 | Some n \<Rightarrow> Suc (n + string_len (drop n s)))
      else 0)"
  by pat_completeness auto
termination
  by (relation "measure length") auto

definition span_len :: "(char \<Rightarrow> bool) \<Rightarrow> string \<Rightarrow> nat" where
  "span_len p s = length (takeWhile p s)"

definition lit_len :: "string \<Rightarrow> string \<Rightarrow> nat" where
  "lit_len w s = (if take (length w) s = w then length w else 0)"

definition id_len :: "string \<Rightarrow> nat" where
  "id_len s = (case s of [] \<Rightarrow> 0 | c # t \<Rightarrow> if is_first_identifier_char c then Suc (span_len is_identifier_char t) else 0)"

definition comment_len :: "string \<Rightarrow> nat" where
  "comment_len s = (case s of [] \<Rightarrow> 0 | c # t \<Rightarrow> if c = CHR ''#'' then Suc (span_len (\<lambda>c. c \<noteq> NL) t) else 0)"

definition any_len :: "string \<Rightarrow> nat" where
  "any_len s = (if s \<noteq> [] \<and> hd s \<noteq> NL then 1 else 0)"

text \<open>The rules in their order: the longest match and what is returned for the text matched. The last
  one takes any character but a newline; it returns no token and prints a message.\<close>

definition rules :: "((string \<Rightarrow> nat) \<times> (string \<Rightarrow> token option)) list" where
  "rules =
    [(lit_len ''|'', \<lambda>w. Some PIPE), (lit_len ''&'', \<lambda>w. Some BCKGRND), (lit_len ''='', \<lambda>w. Some EQUALS),
     (lit_len ''<'', \<lambda>w. Some REDIRIN), (lit_len ''>'', \<lambda>w. Some REDIROUT), (lit_len ''>>'', \<lambda>w. Some REDIROUTAPP),
     (lit_len ''echo'', \<lambda>w. Some ECHO_TOK), (lit_len ''export'', \<lambda>w. Some EXPORT_TOK), (lit_len ''cd'', \<lambda>w. Some CD_TOK),
     (lit_len ''pwd'', \<lambda>w. Some PWD_TOK), (lit_len ''jobs'', \<lambda>w. Some JOBS_TOK), (lit_len ''kill'', \<lambda>w. Some KILL_TOK),
     (lit_len [NL], \<lambda>w. Some EOC_TOK), (\<lambda>s. max (lit_len ''exit'' s) (lit_len ''quit'' s), \<lambda>w. Some (EXIT_TOK w)),
     (span_len is_digit, \<lambda>w. Some (NUM w)), (id_len, \<lambda>w. Some (ID w)), (span_len is_sim, \<lambda>w. Some (SIM_STR w)),
     (string_len, \<lambda>w. Some (STR_TOK w)), (comment_len, \<lambda>w. None), (span_len is_whitesp, \<lambda>w. None),
     (any_len, \<lambda>w. None)]"

fun longest :: "((string \<Rightarrow> nat) \<times> (string \<Rightarrow> token option)) list \<Rightarrow> string \<Rightarrow> nat \<times> (string \<Rightarrow> token option)" where
  "longest [] s = (0, \<lambda>w. None)"
| "longest ((len, act) # rs) s = (let r = longest rs s in if fst r \<le> len s then (len s, act) else r)"

lemma longest_ge: "(len, act) \<in> set rs \<Longrightarrow> len s \<le> fst (longest rs s)"
  by (induction rs) (auto simp: Let_def)

lemma longest_nth:
  assumes "i < length rs" and "list_all (\<lambda>r. fst r s < fst (rs ! i) s) (take i rs)"
    and "list_all (\<lambda>r. fst r s \<le> fst (rs ! i) s) (drop (Suc i) rs)"
  shows "longest rs s = (fst (rs ! i) s, snd (rs ! i))"
  using assms
proof (induction rs arbitrary: i)
  case (Cons r rs)
  obtain len act where r: "r = (len, act)" by fastforce
  show ?case
  proof (cases i)
    case 0
    have "fst (longest rs s) \<le> n" if "list_all (\<lambda>r. fst r s \<le> n) rs" for n
      using that by (induction rs) (auto simp: Let_def)
    then show ?thesis using Cons.prems 0 r by (simp add: Let_def)
  next
    case (Suc j)
    then have "longest rs s = (fst (rs ! j) s, snd (rs ! j))" using Cons by simp
    then show ?thesis using Cons.prems Suc r by (simp add: Let_def)
  qed
qed simp

lemma longest_rule:
  assumes "i < length rules" and "snd (rules ! i) = act" and "fst (rules ! i) s = n" and "list_all (\<lambda>r. fst r s < n) (take i rules)"
    and "list_all (\<lambda>r. fst r s \<le> n) (drop (Suc i) rules)"
  shows "longest rules s = (n, act)"
  using longest_nth [of i rules s] assms by simp

lemma longest_pos:
  assumes "s \<noteq> []"
  shows "0 < fst (longest rules s)"
proof (cases "hd s = NL")
  case True
  have "(lit_len [NL], \<lambda>w. Some EOC_TOK) \<in> set rules"
    unfolding rules_def by (rule list.set_intros(1) | rule list.set_intros(2))+
  moreover have "lit_len [NL] s = 1" using True assms by (cases s) (auto simp: lit_len_def)
  ultimately show ?thesis using longest_ge [of "lit_len [NL]" "\<lambda>w. Some EOC_TOK" rules s] by simp
next
  case False
  have "(any_len, \<lambda>w. None) \<in> set rules"
    unfolding rules_def by (rule list.set_intros(1) | rule list.set_intros(2))+
  moreover have "any_len s = 1" using False assms by (simp add: any_len_def)
  ultimately show ?thesis using longest_ge [of any_len "\<lambda>w. None" rules s] by simp
qed

text \<open>The next token and the rest of the input; at the end it is \<open>END\<close>, for ever.\<close>

function yylex :: "string \<Rightarrow> token \<times> string" where
  "yylex s = (if s = [] then (END, [])
     else (let n = fst (longest rules s) in
       (case snd (longest rules s) (take n s) of None \<Rightarrow> yylex (drop n s) | Some t \<Rightarrow> (t, drop n s))))"
  by pat_completeness auto
termination
  by (relation "measure length") (auto simp: longest_pos)

declare yylex.simps [simp del]

lemma yylex_rest: "fst (yylex s) \<noteq> END \<Longrightarrow> length (snd (yylex s)) < length s"
proof (induction s rule: yylex.induct)
  case (1 s)
  show ?case
  proof (cases "s = [] \<or> snd (longest rules s) (take (fst (longest rules s)) s) \<noteq> None")
    case True
    then show ?thesis using 1(2) longest_pos [of s] by (subst yylex.simps) (auto simp: Let_def yylex.simps [of "[]"])
  next
    case False
    then have e: "yylex s = yylex (drop (fst (longest rules s)) s)" by (subst yylex.simps) (auto simp: Let_def)
    have "length (drop (fst (longest rules s)) s) \<le> length s" by simp
    then show ?thesis using 1 False unfolding e by (meson less_le_trans not_None_eq)
  qed
qed

text \<open>The tokens of a line, what ends it (\<open>EOC_TOK\<close> or \<open>END\<close>) and the rest of the input.\<close>

function scan_line :: "string \<Rightarrow> token list \<times> token \<times> string" where
  "scan_line s =
     (case yylex s of (t, r) \<Rightarrow>
        if t = EOC_TOK \<or> t = END then ([], t, r) else apfst ((#) t) (scan_line r))"
  by pat_completeness auto
termination
  by (relation "measure length") (use yylex_rest in \<open>auto, metis fst_conv snd_conv\<close>)

declare scan_line.simps [simp del]

subsection \<open>Typing tokens\<close>

text \<open>How a token is typed, and which texts can be typed for it. Any string token can be written in
  quotes; an unquoted one is a \<open>STR_TOK\<close> only if it has an escape, a quote or a dollar sign.\<close>

definition command_words :: "string list" where
  "command_words = [''echo'', ''export'', ''cd'', ''pwd'', ''jobs'', ''kill'', ''exit'', ''quit'']"

fun token_text :: "token \<Rightarrow> string" where
  "token_text PIPE = ''|''"
| "token_text BCKGRND = ''&''"
| "token_text EQUALS = ''=''"
| "token_text REDIRIN = ''<''"
| "token_text REDIROUT = ''>''"
| "token_text REDIROUTAPP = ''>>''"
| "token_text ECHO_TOK = ''echo''"
| "token_text EXPORT_TOK = ''export''"
| "token_text CD_TOK = ''cd''"
| "token_text PWD_TOK = ''pwd''"
| "token_text JOBS_TOK = ''jobs''"
| "token_text KILL_TOK = ''kill''"
| "token_text EOC_TOK = [NL]"
| "token_text END = []"
| "token_text (EXIT_TOK w) = w"
| "token_text (NUM w) = w"
| "token_text (ID w) = w"
| "token_text (SIM_STR w) = w"
| "token_text (STR_TOK w) = w"

definition is_id :: "string \<Rightarrow> bool" where
  "is_id w \<longleftrightarrow> w \<noteq> [] \<and> is_first_identifier_char (hd w) \<and> list_all is_identifier_char w"

fun typable :: "token \<Rightarrow> bool" where
  "typable EOC_TOK = False"
| "typable END = False"
| "typable (EXIT_TOK w) = (w = ''exit'' \<or> w = ''quit'')"
| "typable (NUM w) = (w \<noteq> [] \<and> list_all is_digit w)"
| "typable (ID w) = (is_id w \<and> w \<notin> set command_words)"
| "typable (SIM_STR w) = (w \<noteq> [] \<and> list_all is_sim w \<and> \<not> list_all is_digit w \<and> \<not> is_id w)"
| "typable (STR_TOK w) = (w \<noteq> [] \<and> string_len w = length w \<and> \<not> list_all is_sim w)"
| "typable t = True"

definition type_line :: "token list \<Rightarrow> string" where
  "type_line ts = concat (map (\<lambda>t. token_text t @ '' '') ts) @ [NL]"

subsection \<open>Lengths of matches\<close>

lemma blank_facts [simp]: "\<not> is_digit CHR '' ''" "\<not> is_identifier_char CHR '' ''" "\<not> is_first_identifier_char CHR '' ''"
  "\<not> is_plain CHR '' ''" "\<not> is_sim CHR '' ''" "is_whitesp CHR '' ''"
  by (simp_all add: is_sim_def is_plain_def is_whitesp_def is_identifier_char_def is_first_identifier_char_def char_class_defs)

lemma not_identifier [simp]: "\<not> is_identifier_char CHR ''#''" "\<not> is_identifier_char CHR ''<''" "\<not> is_identifier_char CHR ''>''"
  "\<not> is_identifier_char CHR ''=''" "\<not> is_identifier_char CHR ''&''" "\<not> is_identifier_char CHR ''|''" "\<not> is_identifier_char CHR ''$''"
  "\<not> is_identifier_char CHR 0x5C" "\<not> is_identifier_char CHR 0x27" "\<not> is_identifier_char CHR 0x09" "\<not> is_identifier_char CHR 0x0A"
  "\<not> is_identifier_char CHR 0x0D"
  by (simp_all add: is_identifier_char_def char_class_defs)

lemma not_first_digit: "is_first_identifier_char c \<Longrightarrow> \<not> is_digit c"
  by (auto simp: is_first_identifier_char_def char_class_defs)

lemma first_identifier: "is_first_identifier_char c \<Longrightarrow> is_identifier_char c"
  by (auto simp: is_first_identifier_char_def is_identifier_char_def isalnum_def)

lemma span_len_all: "list_all p w \<Longrightarrow> \<not> p x \<Longrightarrow> span_len p (w @ x # s) = length w"
  by (simp add: span_len_def takeWhile_append2 list_all_iff)

lemma span_len_less: "\<not> list_all p w \<Longrightarrow> span_len p (w @ s) < length w"
  by (induction w) (auto simp: span_len_def)

lemma span_len_0: "w \<noteq> [] \<Longrightarrow> \<not> p (hd w) \<Longrightarrow> span_len p (w @ s) = 0"
  by (cases w) (simp_all add: span_len_def)

lemma lit_len_0: "w \<noteq> [] \<Longrightarrow> hd w \<noteq> c \<Longrightarrow> lit_len (c # l) (w @ s) = 0"
  by (cases w) (simp_all add: lit_len_def)

lemma lit_len_less:
  assumes "w \<noteq> []" and "w \<noteq> l" and "CHR '' '' \<notin> set l"
  shows "lit_len l (w @ CHR '' '' # s) < length w"
proof -
  have "length l < length w" if t: "take (length l) (w @ CHR '' '' # s) = l"
  proof (rule ccontr)
    assume "\<not> length l < length w"
    then have "length l = length w \<or> length w < length l" by linarith
    then show False
    proof
      assume "length l = length w"
      with t assms(2) show False by simp
    next
      assume "length w < length l"
      then obtain k where "length l = length w + Suc k" using less_imp_Suc_add by fastforce
      with t have "l = w @ CHR '' '' # take k s" by simp
      with assms(3) show False by (metis in_set_conv_decomp)
    qed
  qed
  with assms(1) show ?thesis by (simp add: lit_len_def)
qed

lemma lit_len_self: "lit_len w (w @ s) = length w"
  by (simp add: lit_len_def)

lemma quoted_len_append: "quoted_len s = Some n \<Longrightarrow> n \<le> length s \<and> quoted_len (s @ t) = Some n"
proof (induction s arbitrary: n rule: quoted_len.induct)
  case (2 c s)
  then show ?case by (cases s) (auto split: if_splits)
qed simp

lemma string_len_append:
  "string_len w = length w \<Longrightarrow> string_len (w @ CHR '' '' # s) = length w"
proof (induction w rule: string_len.induct)
  case 1
  show ?case by (simp add: BACKSLASH_def QUOTE_def)
next
  case (2 c w)
  consider "is_plain c" | "\<not> is_plain c" "c = BACKSLASH" | "\<not> (is_plain c \<or> c = BACKSLASH)" by blast
  then show ?case
  proof cases
    case 1
    then show ?thesis using 2(1) 2(4) by simp
  next
    case p: 2
    then obtain d t where "w = d # t" using 2(4) by (cases w) auto
    then show ?thesis using p 2(2) 2(4) by simp
  next
    case False: 3
    then obtain n where q: "c = QUOTE" "quoted_len w = Some n" "n + string_len (drop n w) = length w"
      using 2(4) by (auto split: if_splits option.splits)
    moreover have n: "n \<le> length w" "quoted_len (w @ CHR '' '' # s) = Some n"
      using quoted_len_append [OF q(2)] by simp_all
    ultimately have "string_len (drop n w @ CHR '' '' # s) = length (drop n w)" using 2(3) False by simp
    then show ?thesis using False q n by simp
  qed
qed

lemma string_len_plain: "list_all is_plain w \<Longrightarrow> string_len w = length w"
  by (induction w) auto

lemma string_len_sim: "list_all is_sim w \<Longrightarrow> string_len w = length w"
  by (rule string_len_plain) (simp add: list_all_iff is_sim_def)

lemma id_len_id: "is_id w \<Longrightarrow> id_len (w @ CHR '' '' # s) = length w"
  using span_len_all [of is_identifier_char "tl w" "CHR '' ''" s]
  by (cases w) (simp_all add: id_len_def is_id_def)

lemma id_len_less: "w \<noteq> [] \<Longrightarrow> \<not> is_id w \<Longrightarrow> id_len (w @ s) < length w"
  using span_len_less [of is_identifier_char "tl w" s]
  by (cases w) (auto simp: id_len_def is_id_def is_first_identifier_char_def is_identifier_char_def isalnum_def)

subsection \<open>Typed tokens are scanned\<close>

text \<open>What the longest match makes of the input, once it is known.\<close>

lemma yylex_longest:
  assumes "longest rules (w @ r) = (length w, act)" and "w \<noteq> []"
  shows "yylex (w @ r) = (case act w of None \<Rightarrow> yylex r | Some t \<Rightarrow> (t, r))"
  using assms by (subst yylex.simps) (simp add: Let_def split: option.split)

lemma yylex_newline: "yylex (NL # s) = (EOC_TOK, s)"
proof -
  have "longest rules ([NL] @ s) = (length [NL], \<lambda>w. Some EOC_TOK)"
    by (simp add: rules_def lit_len_def span_len_def id_len_def comment_len_def any_len_def is_digit_def char_nat_def
      is_first_identifier_char_def char_class_defs is_sim_def is_plain_def is_whitesp_def BACKSLASH_def QUOTE_def)
  from yylex_longest [OF this] show ?thesis by simp
qed

lemma not_whitesp: "\<not> is_whitesp CHR ''|''" "\<not> is_whitesp CHR ''&''" "\<not> is_whitesp CHR ''=''" "\<not> is_whitesp CHR ''<''"
  "\<not> is_whitesp CHR ''>''" "\<not> is_whitesp CHR ''e''" "\<not> is_whitesp CHR ''c''" "\<not> is_whitesp CHR ''p''" "\<not> is_whitesp CHR ''j''"
  "\<not> is_whitesp CHR ''k''" "\<not> is_whitesp CHR ''q''" "\<not> is_whitesp CHR 0x0A"
  by (simp_all add: is_whitesp_def)

lemma longest_whitesp:
  assumes "is_whitesp c"
  shows "longest rules (c # s) = (length (takeWhile is_whitesp (c # s)), \<lambda>w. None)"
proof -
  have "\<not> is_first_identifier_char c" "\<not> is_digit c" "\<not> is_plain c" "c \<noteq> QUOTE" "c \<noteq> BACKSLASH" "c \<noteq> NL" "c \<noteq> CHR ''#''"
    using assms unfolding is_whitesp_def
    by (elim disjE; simp add: is_first_identifier_char_def char_class_defs is_plain_def is_whitesp_def BACKSLASH_def QUOTE_def)+
  moreover have "lit_len (d # l) (c # s) = 0" if "\<not> is_whitesp d" for d l using assms that by (auto simp: lit_len_def)
  ultimately show ?thesis using assms
    by (simp add: rules_def span_len_def id_len_def comment_len_def any_len_def is_sim_def not_whitesp)
qed

lemma yylex_whitesp: "yylex (dropWhile is_whitesp s) = yylex s"
proof (cases "s = [] \<or> \<not> is_whitesp (hd s)")
  case True
  then show ?thesis by (cases s) simp_all
next
  case False
  then have "longest rules s = (length (takeWhile is_whitesp s), \<lambda>w. None)"
    using longest_whitesp [of "hd s" "tl s"] by (cases s) simp_all
  then show ?thesis using False yylex_longest [of "takeWhile is_whitesp s" "dropWhile is_whitesp s" "\<lambda>w. None"]
    by (cases s) simp_all
qed

lemma yylex_blank: "yylex (CHR '' '' # s) = yylex s"
  using yylex_whitesp [of "CHR '' '' # s"] yylex_whitesp [of s] by simp

text \<open>A word: every rule for characters takes all of it, so the order of the rules decides.\<close>

lemma word_lens:
  assumes "is_id w"
  shows "id_len (w @ CHR '' '' # s) = length w" and "span_len is_sim (w @ CHR '' '' # s) = length w"
    and "string_len (w @ CHR '' '' # s) = length w" and "span_len is_digit (w @ CHR '' '' # s) = 0"
    and "comment_len (w @ CHR '' '' # s) = 0" and "span_len is_whitesp (w @ CHR '' '' # s) = 0" and "0 < length w"
    and "any_len (w @ CHR '' '' # s) = 1"
    and "c \<in> {CHR ''|'', CHR ''&'', CHR ''='', CHR ''<'', CHR ''>'', NL} \<Longrightarrow> lit_len (c # l) (w @ CHR '' '' # s) = 0"
proof -
  have w: "w \<noteq> []" "is_first_identifier_char (hd w)" "list_all is_identifier_char w" using assms by (simp_all add: is_id_def)
  have sim: "is_sim c" if "is_identifier_char c" for c
    using that by (auto simp: is_sim_def is_plain_def is_whitesp_def BACKSLASH_def QUOTE_def)
  have first: "c \<noteq> CHR ''#''" "\<not> is_whitesp c" "c \<noteq> NL" "c \<notin> {CHR ''|'', CHR ''&'', CHR ''='', CHR ''<'', CHR ''>'', NL}"
      "\<not> is_digit c"
    if "is_first_identifier_char c" for c
    using not_first_digit [OF that] first_identifier [OF that] by (auto simp: is_whitesp_def)
  show "id_len (w @ CHR '' '' # s) = length w" by (rule id_len_id [OF assms])
  have all: "list_all is_sim w" using w(3) sim by (auto simp: list_all_iff)
  then show "span_len is_sim (w @ CHR '' '' # s) = length w" by (rule span_len_all) simp
  from all show "string_len (w @ CHR '' '' # s) = length w" by (intro string_len_append string_len_sim)
  show "span_len is_digit (w @ CHR '' '' # s) = 0" "span_len is_whitesp (w @ CHR '' '' # s) = 0" "0 < length w"
    using w(1) first [OF w(2)] by (simp_all add: span_len_0)
  show "comment_len (w @ CHR '' '' # s) = 0" "any_len (w @ CHR '' '' # s) = 1"
    using w(1) first [OF w(2)] by (cases w; simp add: comment_len_def any_len_def)+
  show "lit_len (c # l) (w @ CHR '' '' # s) = 0" if "c \<in> {CHR ''|'', CHR ''&'', CHR ''='', CHR ''<'', CHR ''>'', NL}"
    using w(1) first [OF w(2)] that by (intro lit_len_0) auto
qed

text \<open>The first character of the other tokens that are characters of a string.\<close>

lemma string_lens:
  assumes "string_len w = length w" and "w \<noteq> []"
  shows "string_len (w @ CHR '' '' # s) = length w" and "comment_len (w @ CHR '' '' # s) = 0"
    and "span_len is_whitesp (w @ CHR '' '' # s) = 0" and "any_len (w @ CHR '' '' # s) = 1"
    and "c \<in> {CHR ''|'', CHR ''&'', CHR ''='', CHR ''<'', CHR ''>'', NL} \<Longrightarrow> lit_len (c # l) (w @ CHR '' '' # s) = 0"
proof -
  have h: "is_plain (hd w) \<or> hd w = BACKSLASH \<or> hd w = QUOTE" using assms by (cases w) (auto split: if_splits)
  then have "hd w \<noteq> CHR ''#''" "\<not> is_whitesp (hd w)" "hd w \<noteq> NL" "hd w \<notin> {CHR ''|'', CHR ''&'', CHR ''='', CHR ''<'', CHR ''>'', NL}"
    by (auto simp: is_plain_def is_whitesp_def BACKSLASH_def QUOTE_def)
  note h = this
  show "string_len (w @ CHR '' '' # s) = length w" by (rule string_len_append [OF assms(1)])
  show "span_len is_whitesp (w @ CHR '' '' # s) = 0" using assms(2) h by (simp add: span_len_0)
  show "comment_len (w @ CHR '' '' # s) = 0" "any_len (w @ CHR '' '' # s) = 1"
    using assms(2) h by (cases w; simp add: comment_len_def any_len_def)+
  show "lit_len (c # l) (w @ CHR '' '' # s) = 0" if "c \<in> {CHR ''|'', CHR ''&'', CHR ''='', CHR ''<'', CHR ''>'', NL}"
    using assms(2) h that by (intro lit_len_0) auto
qed

lemma lit_words:
  assumes "w \<noteq> []"
  shows "w \<noteq> ''echo'' \<Longrightarrow> lit_len ''echo'' (w @ CHR '' '' # s) < length w"
    and "w \<noteq> ''export'' \<Longrightarrow> lit_len ''export'' (w @ CHR '' '' # s) < length w"
    and "w \<noteq> ''cd'' \<Longrightarrow> lit_len ''cd'' (w @ CHR '' '' # s) < length w"
    and "w \<noteq> ''pwd'' \<Longrightarrow> lit_len ''pwd'' (w @ CHR '' '' # s) < length w"
    and "w \<noteq> ''jobs'' \<Longrightarrow> lit_len ''jobs'' (w @ CHR '' '' # s) < length w"
    and "w \<noteq> ''kill'' \<Longrightarrow> lit_len ''kill'' (w @ CHR '' '' # s) < length w"
    and "w \<noteq> ''exit'' \<Longrightarrow> lit_len ''exit'' (w @ CHR '' '' # s) < length w"
    and "w \<noteq> ''quit'' \<Longrightarrow> lit_len ''quit'' (w @ CHR '' '' # s) < length w"
  using assms by (simp_all add: lit_len_less)

lemma longest_id:
  assumes "is_id w" and "w \<notin> set command_words"
  shows "longest rules (w @ CHR '' '' # s) = (length w, \<lambda>w. Some (ID w))"
proof -
  have "w \<noteq> []" "w \<noteq> ''echo''" "w \<noteq> ''export''" "w \<noteq> ''cd''" "w \<noteq> ''pwd''" "w \<noteq> ''jobs''" "w \<noteq> ''kill''" "w \<noteq> ''exit''" "w \<noteq> ''quit''"
    using assms by (auto simp: command_words_def is_id_def)
  then show ?thesis using assms(1)
    by (intro longest_rule [where i = 15 and n = "length w"]) (simp_all add: rules_def word_lens lit_words Suc_le_eq)
qed

lemma longest_sim:
  assumes "w \<noteq> []" and "list_all is_sim w" and "\<not> list_all is_digit w" and "\<not> is_id w"
  shows "longest rules (w @ CHR '' '' # s) = (length w, \<lambda>w. Some (SIM_STR w))"
proof -
  have ne: "w \<noteq> ''echo''" "w \<noteq> ''export''" "w \<noteq> ''cd''" "w \<noteq> ''pwd''" "w \<noteq> ''jobs''" "w \<noteq> ''kill''" "w \<noteq> ''exit''" "w \<noteq> ''quit''"
    using assms(4) by (auto simp: is_id_def is_first_identifier_char_def is_identifier_char_def char_class_defs)
  show ?thesis using ne assms
    by (intro longest_rule [where i = 16 and n = "length w"])
      (simp_all add: rules_def string_lens string_len_sim span_len_all span_len_less id_len_less lit_words Suc_le_eq)
qed

lemma longest_number:
  assumes "w \<noteq> []" and "list_all is_digit w"
  shows "longest rules (w @ CHR '' '' # s) = (length w, \<lambda>w. Some (NUM w))"
proof -
  have d: "is_sim c \<and> \<not> is_first_identifier_char c" if "is_digit c" for c
    using that not_first_digit by (auto simp: is_sim_def is_plain_def is_whitesp_def BACKSLASH_def QUOTE_def char_class_defs)
  have all: "list_all is_sim w" using assms(2) d by (auto simp: list_all_iff)
  have "is_digit (hd w)" using assms by (cases w) auto
  then have i: "\<not> is_id w" using d by (auto simp: is_id_def)
  have "\<not> is_digit CHR ''e''" "\<not> is_digit CHR ''c''" "\<not> is_digit CHR ''p''" "\<not> is_digit CHR ''j''" "\<not> is_digit CHR ''k''" "\<not> is_digit CHR ''q''"
    by (simp_all add: char_class_defs)
  then have ne: "w \<noteq> ''echo''" "w \<noteq> ''export''" "w \<noteq> ''cd''" "w \<noteq> ''pwd''" "w \<noteq> ''jobs''" "w \<noteq> ''kill''" "w \<noteq> ''exit''" "w \<noteq> ''quit''"
    using assms(2) by auto
  show ?thesis using ne assms all i
    by (intro longest_rule [where i = 14 and n = "length w"])
      (simp_all add: rules_def string_lens string_len_sim span_len_all id_len_less [THEN less_imp_le] lit_words Suc_le_eq)
qed

lemma longest_string:
  assumes "w \<noteq> []" and "string_len w = length w" and "\<not> list_all is_sim w"
  shows "longest rules (w @ CHR '' '' # s) = (length w, \<lambda>w. Some (STR_TOK w))"
proof -
  have sub: "is_digit c \<Longrightarrow> is_sim c" "is_identifier_char c \<Longrightarrow> is_sim c" for c
    by (auto simp: is_sim_def is_plain_def is_whitesp_def BACKSLASH_def QUOTE_def) (auto simp: char_class_defs)
  have l: "\<not> list_all is_digit w" "\<not> is_id w" using assms(3) sub by (auto simp: list_all_iff is_id_def)
  have ne: "w \<noteq> ''echo''" "w \<noteq> ''export''" "w \<noteq> ''cd''" "w \<noteq> ''pwd''" "w \<noteq> ''jobs''" "w \<noteq> ''kill''" "w \<noteq> ''exit''" "w \<noteq> ''quit''"
    using l(2) by (auto simp: is_id_def is_first_identifier_char_def is_identifier_char_def char_class_defs)
  show ?thesis using ne assms l
    by (intro longest_rule [where i = 17 and n = "length w"])
      (simp_all add: rules_def string_lens span_len_less id_len_less lit_words Suc_le_eq)
qed

lemma longest_command:
  shows "longest rules (''echo'' @ CHR '' '' # s) = (4, \<lambda>w. Some ECHO_TOK)"
    and "longest rules (''export'' @ CHR '' '' # s) = (6, \<lambda>w. Some EXPORT_TOK)"
    and "longest rules (''cd'' @ CHR '' '' # s) = (2, \<lambda>w. Some CD_TOK)"
    and "longest rules (''pwd'' @ CHR '' '' # s) = (3, \<lambda>w. Some PWD_TOK)"
    and "longest rules (''jobs'' @ CHR '' '' # s) = (4, \<lambda>w. Some JOBS_TOK)"
    and "longest rules (''kill'' @ CHR '' '' # s) = (4, \<lambda>w. Some KILL_TOK)"
    and "longest rules (''exit'' @ CHR '' '' # s) = (4, \<lambda>w. Some (EXIT_TOK w))"
    and "longest rules (''quit'' @ CHR '' '' # s) = (4, \<lambda>w. Some (EXIT_TOK w))"
proof -
  have id: "is_id ''echo''" "is_id ''export''" "is_id ''cd''" "is_id ''pwd''" "is_id ''jobs''" "is_id ''kill''" "is_id ''exit''" "is_id ''quit''"
    by (simp_all add: is_id_def is_first_identifier_char_def is_identifier_char_def char_class_defs)
  note at = longest_rule [where i = 6] longest_rule [where i = 7] longest_rule [where i = 8] longest_rule [where i = 9]
    longest_rule [where i = 10] longest_rule [where i = 11] longest_rule [where i = 13]
  have lens: "id_len (w @ CHR '' '' # s) = length w" "span_len is_sim (w @ CHR '' '' # s) = length w"
    "string_len (w @ CHR '' '' # s) = length w" "span_len is_digit (w @ CHR '' '' # s) = 0"
    "comment_len (w @ CHR '' '' # s) = 0" "span_len is_whitesp (w @ CHR '' '' # s) = 0" "any_len (w @ CHR '' '' # s) = 1"
    if "is_id w" for w using word_lens [OF that] by simp_all
  show "longest rules (''echo'' @ CHR '' '' # s) = (4, \<lambda>w. Some ECHO_TOK)"
    using lens [OF id(1)] by (intro at(1)) (simp_all add: rules_def lit_len_def)
  show "longest rules (''export'' @ CHR '' '' # s) = (6, \<lambda>w. Some EXPORT_TOK)"
    using lens [OF id(2)] by (intro at(2)) (simp_all add: rules_def lit_len_def)
  show "longest rules (''cd'' @ CHR '' '' # s) = (2, \<lambda>w. Some CD_TOK)"
    using lens [OF id(3)] by (intro at(3)) (simp_all add: rules_def lit_len_def)
  show "longest rules (''pwd'' @ CHR '' '' # s) = (3, \<lambda>w. Some PWD_TOK)"
    using lens [OF id(4)] by (intro at(4)) (simp_all add: rules_def lit_len_def)
  show "longest rules (''jobs'' @ CHR '' '' # s) = (4, \<lambda>w. Some JOBS_TOK)"
    using lens [OF id(5)] by (intro at(5)) (simp_all add: rules_def lit_len_def)
  show "longest rules (''kill'' @ CHR '' '' # s) = (4, \<lambda>w. Some KILL_TOK)"
    using lens [OF id(6)] by (intro at(6)) (simp_all add: rules_def lit_len_def)
  show "longest rules (''exit'' @ CHR '' '' # s) = (4, \<lambda>w. Some (EXIT_TOK w))"
    using lens [OF id(7)] by (intro at(7)) (simp_all add: rules_def lit_len_def)
  show "longest rules (''quit'' @ CHR '' '' # s) = (4, \<lambda>w. Some (EXIT_TOK w))"
    using lens [OF id(8)] by (intro at(7)) (simp_all add: rules_def lit_len_def)
qed

lemma longest_symbol:
  shows "longest rules (''|'' @ CHR '' '' # s) = (1, \<lambda>w. Some PIPE)"
    and "longest rules (''&'' @ CHR '' '' # s) = (1, \<lambda>w. Some BCKGRND)"
    and "longest rules (''='' @ CHR '' '' # s) = (1, \<lambda>w. Some EQUALS)"
    and "longest rules (''<'' @ CHR '' '' # s) = (1, \<lambda>w. Some REDIRIN)"
    and "longest rules (''>'' @ CHR '' '' # s) = (1, \<lambda>w. Some REDIROUT)"
    and "longest rules (''>>'' @ CHR '' '' # s) = (2, \<lambda>w. Some REDIROUTAPP)"
proof -
  note lens = rules_def lit_len_def span_len_def id_len_def comment_len_def any_len_def is_first_identifier_char_def char_class_defs
    is_sim_def is_plain_def is_whitesp_def BACKSLASH_def QUOTE_def
  show "longest rules (''|'' @ CHR '' '' # s) = (1, \<lambda>w. Some PIPE)" by (rule longest_rule [where i = 0]) (simp_all add: lens)
  show "longest rules (''&'' @ CHR '' '' # s) = (1, \<lambda>w. Some BCKGRND)" by (rule longest_rule [where i = 1]) (simp_all add: lens)
  show "longest rules (''='' @ CHR '' '' # s) = (1, \<lambda>w. Some EQUALS)" by (rule longest_rule [where i = 2]) (simp_all add: lens)
  show "longest rules (''<'' @ CHR '' '' # s) = (1, \<lambda>w. Some REDIRIN)" by (rule longest_rule [where i = 3]) (simp_all add: lens)
  show "longest rules (''>'' @ CHR '' '' # s) = (1, \<lambda>w. Some REDIROUT)" by (rule longest_rule [where i = 4]) (simp_all add: lens)
  show "longest rules (''>>'' @ CHR '' '' # s) = (2, \<lambda>w. Some REDIROUTAPP)" by (rule longest_rule [where i = 5]) (simp_all add: lens)
qed

text \<open>A typed token is scanned, and no more of the input.\<close>

lemma yylex_found:
  assumes "longest rules (w @ CHR '' '' # s) = (n, act)" and "n = length w" and "act w = Some t" and "w \<noteq> []"
  shows "yylex (w @ CHR '' '' # s) = (t, CHR '' '' # s)"
  using yylex_longest [of w "CHR '' '' # s" act] assms by simp

lemma yylex_literal:
  shows "yylex (''|'' @ CHR '' '' # s) = (PIPE, CHR '' '' # s)"
    and "yylex (''&'' @ CHR '' '' # s) = (BCKGRND, CHR '' '' # s)"
    and "yylex (''='' @ CHR '' '' # s) = (EQUALS, CHR '' '' # s)"
    and "yylex (''<'' @ CHR '' '' # s) = (REDIRIN, CHR '' '' # s)"
    and "yylex (''>'' @ CHR '' '' # s) = (REDIROUT, CHR '' '' # s)"
    and "yylex (''>>'' @ CHR '' '' # s) = (REDIROUTAPP, CHR '' '' # s)"
    and "yylex (''echo'' @ CHR '' '' # s) = (ECHO_TOK, CHR '' '' # s)"
    and "yylex (''export'' @ CHR '' '' # s) = (EXPORT_TOK, CHR '' '' # s)"
    and "yylex (''cd'' @ CHR '' '' # s) = (CD_TOK, CHR '' '' # s)"
    and "yylex (''pwd'' @ CHR '' '' # s) = (PWD_TOK, CHR '' '' # s)"
    and "yylex (''jobs'' @ CHR '' '' # s) = (JOBS_TOK, CHR '' '' # s)"
    and "yylex (''kill'' @ CHR '' '' # s) = (KILL_TOK, CHR '' '' # s)"
    and "yylex (''exit'' @ CHR '' '' # s) = (EXIT_TOK ''exit'', CHR '' '' # s)"
    and "yylex (''quit'' @ CHR '' '' # s) = (EXIT_TOK ''quit'', CHR '' '' # s)"
  by (rule yylex_found, rule longest_command longest_symbol, simp, simp, simp)+

lemma yylex_typable:
  assumes "typable t"
  shows "yylex (token_text t @ CHR '' '' # s) = (t, CHR '' '' # s)"
proof (cases t)
  case (EXIT_TOK w)
  with assms show ?thesis by (auto simp only: token_text.simps typable.simps yylex_literal)
next
  case (NUM w)
  with assms have "w \<noteq> []" "list_all is_digit w" by simp_all
  then show ?thesis unfolding NUM token_text.simps by (intro yylex_found [OF longest_number]) simp_all
next
  case (ID w)
  with assms have "is_id w" "w \<notin> set command_words" by simp_all
  then show ?thesis unfolding ID token_text.simps by (intro yylex_found [OF longest_id]) (simp_all add: is_id_def)
next
  case (SIM_STR w)
  with assms have "w \<noteq> []" "list_all is_sim w" "\<not> list_all is_digit w" "\<not> is_id w" by simp_all
  then show ?thesis unfolding SIM_STR token_text.simps by (intro yylex_found [OF longest_sim]) simp_all
next
  case (STR_TOK w)
  with assms have "w \<noteq> []" "string_len w = length w" "\<not> list_all is_sim w" by simp_all
  then show ?thesis unfolding STR_TOK token_text.simps by (intro yylex_found [OF longest_string]) simp_all
qed (use assms in \<open>simp_all only: token_text.simps typable.simps yylex_literal\<close>)

lemma scan_line_typed: "list_all typable ts \<Longrightarrow> scan_line (type_line ts @ s) = (ts, EOC_TOK, s)"
proof (induction ts)
  case Nil
  then show ?case by (subst scan_line.simps) (simp add: type_line_def yylex_newline [unfolded NL_def])
next
  case (Cons t ts)
  have "typable t" using Cons.prems by simp
  have l: "type_line (t # ts) @ s = token_text t @ CHR '' '' # type_line ts @ s" by (simp add: type_line_def)
  have "scan_line (CHR '' '' # type_line ts @ s) = scan_line (type_line ts @ s)"
    by (subst (1 2) scan_line.simps) (simp add: yylex_blank)
  moreover have "t \<noteq> EOC_TOK" "t \<noteq> END" using Cons.prems by auto
  ultimately show ?case unfolding l using Cons yylex_typable [OF \<open>typable t\<close>]
    by (subst scan_line.simps) simp
qed

subsection \<open>Quoting\<close>

text \<open>A text in single quotes is one token, whatever characters it has but backslashes.\<close>

lemma quoted_len_quoted:
  "BACKSLASH \<notin> set s \<Longrightarrow> quoted_len (concat (map (\<lambda>c. if c = QUOTE then [BACKSLASH, QUOTE] else [c]) s) @ [QUOTE])
    = Some (length (concat (map (\<lambda>c. if c = QUOTE then [BACKSLASH, QUOTE] else [c]) s)) + 1)"
  by (induction s) (auto simp: BACKSLASH_def QUOTE_def)

lemma typable_quoted: "BACKSLASH \<notin> set s \<Longrightarrow> typable (STR_TOK (quoted s))"
  using quoted_len_quoted [of s, unfolded QUOTE_def BACKSLASH_def]
  by (simp add: quoted_def QUOTE_def BACKSLASH_def is_plain_def is_sim_def)

text \<open>The scanner takes any escaped character in quotes, \<open>interpret_complex_string_token\<close> only an
  escaped quote: a quoted backslash is a token that the latter does not see the end of, and it
  stops the process (\<open>clean\<close> ends within the quotes).\<close>

lemma quoted_backslash_token:
  "yylex (QUOTE # BACKSLASH # BACKSLASH # QUOTE # CHR '' '' # s) = (STR_TOK [QUOTE, BACKSLASH, BACKSLASH, QUOTE], CHR '' '' # s)
    \<and> fst (clean env False [QUOTE, BACKSLASH, BACKSLASH, QUOTE])"
proof -
  have "typable (STR_TOK [QUOTE, BACKSLASH, BACKSLASH, QUOTE])"
    by (simp add: QUOTE_def BACKSLASH_def is_plain_def is_sim_def)
  from yylex_typable [OF this] show ?thesis by (simp add: clean.simps QUOTE_def BACKSLASH_def)
qed

end
