(* ===== verification/Reader.thy ===== *)
theory Reader
  imports Scanner Quash
begin

text \<open>
  The productions of quash's grammar, \<open>src/project1/quash/src/parsing/parse.y\<close>, over tokens: which
  lines have which parse tree (\<open>Grammar\<close> has the actions for them). A reader by recursive descent
  finds the tree of a line; it agrees with the productions, so no line has two trees. A line
  the productions do not derive matches \<open>error\<close>. What bison makes of the grammar is the subject of
  \<open>Automaton\<close>.
\<close>

subsection \<open>Productions\<close>

text \<open>The text of a string token is cleaned up; \<open>clean\<close> is what \<open>interpret_complex_string_token\<close>
  computes (\<open>ParseIface.interpret_token_clean\<close>).\<close>

fun first_string :: "env \<Rightarrow> token \<Rightarrow> string option" where
  "first_string env (STR_TOK s) = Some (snd (clean env False s))"
| "first_string env (SIM_STR s) = Some s"
| "first_string env (NUM s) = Some s"
| "first_string env (ID s) = Some s"
| "first_string env t = None"

fun special_string :: "token \<Rightarrow> string option" where
  "special_string EXPORT_TOK = Some ''export''"
| "special_string CD_TOK = Some ''cd''"
| "special_string KILL_TOK = Some ''kill''"
| "special_string PWD_TOK = Some ''pwd''"
| "special_string JOBS_TOK = Some ''jobs''"
| "special_string (EXIT_TOK s) = Some s"
| "special_string t = None"

definition string_of_token :: "env \<Rightarrow> token \<Rightarrow> string option" where
  "string_of_token env t = (case first_string env t of Some s \<Rightarrow> Some s | None \<Rightarrow> special_string t)"

fun mark_of_token :: "token \<Rightarrow> redir_mark option" where
  "mark_of_token REDIRIN = Some Redirin"
| "mark_of_token REDIROUT = Some Redirout"
| "mark_of_token REDIROUTAPP = Some Redirout_app"
| "mark_of_token t = None"

inductive derives_arguments :: "env \<Rightarrow> token list \<Rightarrow> string list \<Rightarrow> bool" for env where
  last_argument: "string_of_token env t = Some s \<Longrightarrow> derives_arguments env [t] [s]"
| argument: "string_of_token env t = Some s \<Longrightarrow> derives_arguments env ts ss \<Longrightarrow> derives_arguments env (t # ts) (s # ss)"

inductive derives_content :: "env \<Rightarrow> token list \<Rightarrow> content \<Rightarrow> bool" for env where
  program: "first_string env t = Some s \<Longrightarrow> derives_content env [t] (Program s [])"
| program_arguments: "first_string env t = Some s \<Longrightarrow> derives_arguments env ts ss \<Longrightarrow> derives_content env (t # ts) (Program s ss)"
| echo: "derives_content env [ECHO_TOK] (Echo [])"
| echo_arguments: "derives_arguments env ts ss \<Longrightarrow> derives_content env (ECHO_TOK # ts) (Echo ss)"
| export: "string_of_token env t = Some s \<Longrightarrow> derives_content env [EXPORT_TOK, ID v, EQUALS, t] (Export v s)"
| cd_home: "derives_content env [CD_TOK] Cd_home"
| cd_to: "string_of_token env t = Some s \<Longrightarrow> derives_content env [CD_TOK, t] (Cd_to s)"
| pwd: "derives_content env [PWD_TOK] Pwd"
| jobs_of_shell: "derives_content env [JOBS_TOK] Jobs"
| exit: "derives_content env [EXIT_TOK w] Exit"
| kill: "derives_content env [KILL_TOK, NUM s, NUM j] (Kill s j)"

inductive derives_redir :: "env \<Rightarrow> token list \<Rightarrow> (redir_mark \<times> string) list \<Rightarrow> bool" for env where
  no_redir: "derives_redir env [] []"
| redir: "mark_of_token m = Some k \<Longrightarrow> string_of_token env t = Some s \<Longrightarrow> derives_redir env ts ms
    \<Longrightarrow> derives_redir env (m # t # ts) ((k, s) # ms)"

inductive derives_cmd_top :: "env \<Rightarrow> token list \<Rightarrow> cmd_tree \<Rightarrow> bool" for env where
  foreground: "derives_content env cs c \<Longrightarrow> derives_redir env rs r
    \<Longrightarrow> derives_cmd_top env (cs @ rs) \<lparr>tree_content = c, tree_redir = r, tree_bg = False\<rparr>"
| background: "derives_content env cs c \<Longrightarrow> derives_redir env rs r
    \<Longrightarrow> derives_cmd_top env (cs @ rs @ [BCKGRND]) \<lparr>tree_content = c, tree_redir = r, tree_bg = True\<rparr>"

inductive derives_cmds :: "env \<Rightarrow> token list \<Rightarrow> cmd_tree list \<Rightarrow> bool" for env where
  last_cmd: "derives_cmd_top env ts c \<Longrightarrow> derives_cmds env ts [c]"
| piped_cmd: "derives_cmd_top env ts c \<Longrightarrow> derives_cmds env us cs \<Longrightarrow> derives_cmds env (ts @ PIPE # us) (c # cs)"

subsection \<open>Reading a line\<close>

fun read_strings :: "env \<Rightarrow> token list \<Rightarrow> string list \<times> token list" where
  "read_strings env [] = ([], [])"
| "read_strings env (t # ts) =
     (case string_of_token env t of None \<Rightarrow> ([], t # ts) | Some s \<Rightarrow> apfst ((#) s) (read_strings env ts))"

definition read_content :: "env \<Rightarrow> token list \<Rightarrow> (content \<times> token list) option" where
  "read_content env ts = (case ts of
     [] \<Rightarrow> None
   | t # ts \<Rightarrow>
      (case first_string env t of
         Some s \<Rightarrow> Some (apfst (Program s) (read_strings env ts))
       | None \<Rightarrow> (case t of
           ECHO_TOK \<Rightarrow> Some (apfst Echo (read_strings env ts))
         | EXPORT_TOK \<Rightarrow> (case ts of
             ID v # EQUALS # u # us \<Rightarrow> map_option (\<lambda>s. (Export v s, us)) (string_of_token env u)
           | _ \<Rightarrow> None)
         | CD_TOK \<Rightarrow> (case ts of
             [] \<Rightarrow> Some (Cd_home, [])
           | u # us \<Rightarrow> (case string_of_token env u of Some s \<Rightarrow> Some (Cd_to s, us) | None \<Rightarrow> Some (Cd_home, ts)))
         | PWD_TOK \<Rightarrow> Some (Pwd, ts)
         | JOBS_TOK \<Rightarrow> Some (Jobs, ts)
         | EXIT_TOK w \<Rightarrow> Some (Exit, ts)
         | KILL_TOK \<Rightarrow> (case ts of NUM s # NUM j # us \<Rightarrow> Some (Kill s j, us) | _ \<Rightarrow> None)
         | _ \<Rightarrow> None)))"

fun read_redir :: "env \<Rightarrow> token list \<Rightarrow> (redir_mark \<times> string) list \<times> token list" where
  "read_redir env (m # t # ts) =
     (case mark_of_token m of None \<Rightarrow> ([], m # t # ts)
      | Some k \<Rightarrow> (case string_of_token env t of None \<Rightarrow> ([], m # t # ts)
        | Some s \<Rightarrow> apfst ((#) (k, s)) (read_redir env ts)))"
| "read_redir env ts = ([], ts)"

definition read_bg :: "token list \<Rightarrow> bool \<times> token list" where
  "read_bg ts = (if ts \<noteq> [] \<and> hd ts = BCKGRND then (True, tl ts) else (False, ts))"

definition read_cmd_top :: "env \<Rightarrow> token list \<Rightarrow> (cmd_tree \<times> token list) option" where
  "read_cmd_top env ts =
     do { (c, ts) \<leftarrow> read_content env ts;
          let (r, ts) = read_redir env ts;
          let (b, ts) = read_bg ts;
          Some (\<lparr>tree_content = c, tree_redir = r, tree_bg = b\<rparr>, ts) }"

lemma read_strings_length: "length (snd (read_strings env ts)) \<le> length ts"
  by (induction ts) (auto split: option.splits)

lemma read_redir_length: "length (snd (read_redir env ts)) \<le> length ts"
  by (induction env ts rule: read_redir.induct) (auto split: option.splits intro: le_SucI)

lemma read_content_length:
  assumes "read_content env ts = Some (c, us)"
  shows "length us < length ts"
proof (cases ts)
  case Nil
  then show ?thesis using assms by (simp add: read_content_def)
next
  case (Cons t vs)
  then show ?thesis using assms read_strings_length [of env vs]
    by (cases t) (auto simp: read_content_def apfst_def map_prod_def split: list.splits option.splits token.splits prod.splits)
qed

lemma read_cmd_top_length:
  assumes "read_cmd_top env ts = Some (c, us)"
  shows "length us < length ts"
proof -
  from assms obtain d vs where c: "read_content env ts = Some (d, vs)" and us: "us = snd (read_bg (snd (read_redir env vs)))"
    by (auto simp: read_cmd_top_def bind_eq_Some_conv Let_def split_beta)
  have "length us \<le> length (snd (read_redir env vs))" unfolding us by (simp add: read_bg_def)
  then show ?thesis using read_content_length [OF c] read_redir_length [of env vs] by linarith
qed

function read_cmds :: "env \<Rightarrow> token list \<Rightarrow> cmd_tree list option" where
  "read_cmds env ts =
     (case read_cmd_top env ts of
        None \<Rightarrow> None
      | Some (c, us) \<Rightarrow>
          if us = [] then Some [c] else if hd us = PIPE then map_option ((#) c) (read_cmds env (tl us)) else None)"
  by pat_completeness auto
termination
  by (relation "measure (\<lambda>(env, ts). length ts)") (auto dest: read_cmd_top_length)

declare read_cmds.simps [simp del]

subsection \<open>The reader finds the derivation\<close>

text \<open>What ends a list of strings, and of redirections.\<close>

definition no_string :: "env \<Rightarrow> token list \<Rightarrow> bool" where
  "no_string env us \<longleftrightarrow> us = [] \<or> string_of_token env (hd us) = None"

definition no_mark :: "token list \<Rightarrow> bool" where
  "no_mark us \<longleftrightarrow> us = [] \<or> mark_of_token (hd us) = None"

lemma string_of_operator [simp]: "string_of_token env PIPE = None" "string_of_token env BCKGRND = None"
  "string_of_token env EQUALS = None" "string_of_token env ECHO_TOK = None"
  by (simp_all add: string_of_token_def)

lemma string_of_mark: "mark_of_token m = Some k \<Longrightarrow> string_of_token env m = None"
  by (cases m) (simp_all add: string_of_token_def)

lemma read_strings_sound:
  "\<exists>vs. ts = vs @ snd (read_strings env ts) \<and>
    (if vs = [] then fst (read_strings env ts) = [] else derives_arguments env vs (fst (read_strings env ts)))"
proof (induction ts)
  case (Cons t ts)
  then obtain vs where vs: "ts = vs @ snd (read_strings env ts)"
    "if vs = [] then fst (read_strings env ts) = [] else derives_arguments env vs (fst (read_strings env ts))" by blast
  show ?case
  proof (cases "string_of_token env t")
    case (Some s)
    then show ?thesis using vs
      by (intro exI [of _ "t # vs"]) (auto intro: derives_arguments.intros split: if_splits)
  qed simp
qed simp

lemma read_strings_complete:
  "derives_arguments env vs ss \<Longrightarrow> no_string env us \<Longrightarrow> read_strings env (vs @ us) = (ss, us)"
  by (induction rule: derives_arguments.induct) (cases us; simp add: no_string_def)+

lemma read_strings_none: "no_string env us \<Longrightarrow> read_strings env us = ([], us)"
  by (cases us) (simp_all add: no_string_def)

lemma read_redir_sound: "\<exists>vs. ts = vs @ snd (read_redir env ts) \<and> derives_redir env vs (fst (read_redir env ts))"
proof (induction env ts rule: read_redir.induct)
  case (1 env m t ts)
  show ?case
  proof (cases "mark_of_token m = None \<or> string_of_token env t = None")
    case True
    then have "read_redir env (m # t # ts) = ([], m # t # ts)" by (auto split: option.splits)
    then show ?thesis by (intro exI [of _ "[]"]) (simp add: no_redir)
  next
    case False
    then obtain k s where k: "mark_of_token m = Some k" "string_of_token env t = Some s" by auto
    with 1 obtain vs where "ts = vs @ snd (read_redir env ts)" "derives_redir env vs (fst (read_redir env ts))" by blast
    then show ?thesis using k by (intro exI [of _ "m # t # vs"]) (auto intro: redir)
  qed
qed (auto intro: no_redir exI [of _ "[]"])

lemma read_redir_complete: "derives_redir env vs r \<Longrightarrow> no_mark us \<Longrightarrow> read_redir env (vs @ us) = (r, us)"
proof (induction rule: derives_redir.induct)
  case no_redir
  then show ?case by (cases us rule: list.exhaust [case_product list.exhaust [of "tl us"]]) (auto simp: no_mark_def split: option.splits)
qed simp

lemma read_content_sound:
  assumes "read_content env ts = Some (c, us)"
  shows "\<exists>vs. ts = vs @ us \<and> derives_content env vs c"
proof -
  obtain t xs where ts: "ts = t # xs" using assms by (cases ts) (auto simp: read_content_def)
  obtain vs where vs: "xs = vs @ snd (read_strings env xs)"
    "if vs = [] then fst (read_strings env xs) = [] else derives_arguments env vs (fst (read_strings env xs))"
    using read_strings_sound by blast
  show ?thesis
  proof (cases "first_string env t")
    case (Some s)
    then have "c = Program s (fst (read_strings env xs))" "us = snd (read_strings env xs)"
      using assms by (auto simp: read_content_def ts apfst_def map_prod_def split_beta)
    then show ?thesis using vs Some ts
      by (intro exI [of _ "t # vs"]) (auto intro: program program_arguments split: if_splits)
  next
    case None
    show ?thesis
    proof (cases "t = ECHO_TOK")
      case True
      then have "c = Echo (fst (read_strings env xs))" "us = snd (read_strings env xs)"
        using assms by (auto simp: read_content_def ts apfst_def map_prod_def split_beta)
      then show ?thesis using vs True ts
        by (intro exI [of _ "t # vs"]) (auto intro: echo echo_arguments split: if_splits)
    next
      case False
      then show ?thesis using None assms ts
        by (cases t) (auto simp: read_content_def intro: derives_content.intros split: list.splits option.splits token.splits)
    qed
  qed
qed

lemma read_content_complete: "derives_content env vs c \<Longrightarrow> no_string env us \<Longrightarrow> read_content env (vs @ us) = Some (c, us)"
proof (induction rule: derives_content.induct)
  case cd_home
  then show ?case by (cases us) (auto simp: read_content_def no_string_def)
qed (auto simp: read_content_def read_strings_none read_strings_complete)

lemma read_bg_other: "us = [] \<or> hd us = PIPE \<Longrightarrow> read_bg us = (False, us)"
  by (auto simp: read_bg_def)

lemma read_cmd_top_sound:
  assumes "read_cmd_top env ts = Some (c, us)"
  shows "\<exists>vs. ts = vs @ us \<and> derives_cmd_top env vs c"
proof -
  from assms obtain d ws r xs b where c: "read_content env ts = Some (d, ws)" and r: "read_redir env ws = (r, xs)"
    and b: "read_bg xs = (b, us)" and e: "c = \<lparr>tree_content = d, tree_redir = r, tree_bg = b\<rparr>"
    by (auto simp: read_cmd_top_def bind_eq_Some_conv Let_def split_beta prod_eq_iff)
  obtain cs rs where cs: "ts = cs @ ws" "derives_content env cs d" and rs: "ws = rs @ xs" "derives_redir env rs r"
    using read_content_sound [OF c] read_redir_sound [of ws env] r by auto
  have "xs = (if b then [BCKGRND] else []) @ us" using b by (cases xs) (auto simp: read_bg_def split: if_splits)
  then show ?thesis using cs rs foreground [OF cs(2) rs(2)] background [OF cs(2) rs(2)] unfolding e
    by (intro exI [of _ "cs @ rs @ (if b then [BCKGRND] else [])"]) auto
qed

lemma derives_redir_no_string: "derives_redir env rs r \<Longrightarrow> no_string env us \<Longrightarrow> no_string env (rs @ us)"
  by (cases rule: derives_redir.cases) (auto simp: no_string_def string_of_mark)

lemma read_cmd_top_complete:
  assumes "derives_cmd_top env vs c" and "us = [] \<or> hd us = PIPE"
  shows "read_cmd_top env (vs @ us) = Some (c, us)"
  using assms(1)
proof cases
  case (foreground cs d rs r)
  have "no_string env us" "no_mark us" using assms(2) by (auto simp: no_string_def no_mark_def)
  then show ?thesis using foreground read_bg_other [OF assms(2)]
    by (simp add: read_cmd_top_def read_content_complete derives_redir_no_string read_redir_complete)
next
  case (background cs d rs r)
  have "no_string env (BCKGRND # us)" "no_mark (BCKGRND # us)" by (simp_all add: no_string_def no_mark_def)
  then show ?thesis using background
    by (simp add: read_cmd_top_def read_content_complete derives_redir_no_string read_redir_complete read_bg_def)
qed

lemma read_cmds_sound: "read_cmds env ts = Some cs \<Longrightarrow> derives_cmds env ts cs"
proof (induction env ts arbitrary: cs rule: read_cmds.induct)
  case (1 env ts)
  then obtain c us where c: "read_cmd_top env ts = Some (c, us)"
    by (subst (asm) (2) read_cmds.simps) (auto split: option.splits)
  obtain vs where vs: "ts = vs @ us" "derives_cmd_top env vs c" using read_cmd_top_sound [OF c] by blast
  show ?case
  proof (cases "us = []")
    case True
    then have "cs = [c]" using 1(2) c by (subst (asm) read_cmds.simps) simp
    then show ?thesis using vs True by (simp add: last_cmd)
  next
    case False
    then obtain cs' where "hd us = PIPE" "read_cmds env (tl us) = Some cs'" "cs = c # cs'"
      using 1(2) c by (subst (asm) read_cmds.simps) (auto split: if_splits)
    moreover have "derives_cmds env (tl us) cs'" using 1(1) c False calculation by blast
    ultimately show ?thesis using vs False piped_cmd [of env vs c "tl us" cs'] by (cases us) auto
  qed
qed

lemma read_cmds_complete: "derives_cmds env ts cs \<Longrightarrow> read_cmds env ts = Some cs"
proof (induction rule: derives_cmds.induct)
  case (last_cmd ts c)
  then show ?case using read_cmd_top_complete [of env ts c "[]"] by (subst read_cmds.simps) simp
next
  case (piped_cmd ts c us cs)
  then show ?case using read_cmd_top_complete [of env ts c "PIPE # us"] by (subst read_cmds.simps) simp
qed

subsection \<open>Lines\<close>

datatype line = Blank | Wrong | Commands "cmd_tree list"

text \<open>A wrong line is given up at its end. Of the actions that were done before the error was seen
  nothing is kept.\<close>

definition line_of_tokens :: "env \<Rightarrow> token list \<Rightarrow> token \<Rightarrow> line" where
  "line_of_tokens env ts e =
     (if ts = [] \<and> e = EOC_TOK then Blank
      else (case read_cmds env ts of None \<Rightarrow> Wrong | Some cs \<Rightarrow> Commands cs))"

text \<open>A string token whose quotes do not close for \<open>interpret_complex_string_token\<close> stops the process.\<close>

definition quotes_close :: "env \<Rightarrow> token \<Rightarrow> bool" where
  "quotes_close env t = (case t of STR_TOK s \<Rightarrow> \<not> fst (clean env False s) | _ \<Rightarrow> True)"

text \<open>What \<open>yyparse\<close> leaves in \<open>*__ret_cmds\<close>, whether it calls \<open>end_main_loop\<close>, and the rest of
  the input.\<close>

definition read_script :: "env \<Rightarrow> (string \<Rightarrow> string option) \<Rightarrow> string
    \<Rightarrow> (CommandHolder list option \<times> bool \<times> string) option" where
  "read_script env realpath s =
     (case scan_line s of (ts, e, r) \<Rightarrow>
       (case line_of_tokens env ts e of
          Commands cs \<Rightarrow>
            if list_all (quotes_close env) ts
            then do { hs \<leftarrow> top env realpath cs; Some (Some hs, e = END, r) } else None
        | _ \<Rightarrow> Some (None, e = END, r)))"

subsection \<open>Typing commands\<close>

text \<open>How a command can be typed: strings in quotes, blanks between the tokens.\<close>

definition typed_string :: "string \<Rightarrow> token" where
  "typed_string s = STR_TOK (quoted s)"

fun content_tokens :: "content \<Rightarrow> token list" where
  "content_tokens (Program s ss) = map typed_string (s # ss)"
| "content_tokens (Echo ss) = ECHO_TOK # map typed_string ss"
| "content_tokens (Export v s) = [EXPORT_TOK, ID v, EQUALS, typed_string s]"
| "content_tokens Cd_home = [CD_TOK]"
| "content_tokens (Cd_to s) = [CD_TOK, typed_string s]"
| "content_tokens Pwd = [PWD_TOK]"
| "content_tokens Jobs = [JOBS_TOK]"
| "content_tokens Exit = [EXIT_TOK ''exit'']"
| "content_tokens (Kill s j) = [KILL_TOK, NUM s, NUM j]"

fun mark_token :: "redir_mark \<Rightarrow> token" where
  "mark_token Redirin = REDIRIN"
| "mark_token Redirout = REDIROUT"
| "mark_token Redirout_app = REDIROUTAPP"

definition redir_tokens :: "(redir_mark \<times> string) list \<Rightarrow> token list" where
  "redir_tokens r = concat (map (\<lambda>(m, s). [mark_token m, typed_string s]) r)"

definition cmd_tokens :: "cmd_tree \<Rightarrow> token list" where
  "cmd_tokens c = content_tokens (tree_content c) @ redir_tokens (tree_redir c) @ (if tree_bg c then [BCKGRND] else [])"

fun cmds_tokens :: "cmd_tree list \<Rightarrow> token list" where
  "cmds_tokens [] = []"
| "cmds_tokens [c] = cmd_tokens c"
| "cmds_tokens (c # cs) = cmd_tokens c @ PIPE # cmds_tokens cs"

definition typable_string :: "string \<Rightarrow> bool" where
  "typable_string s \<longleftrightarrow> BACKSLASH \<notin> set s \<and> NUL \<notin> set s"

fun typable_content :: "content \<Rightarrow> bool" where
  "typable_content (Program s ss) = list_all typable_string (s # ss)"
| "typable_content (Echo ss) = list_all typable_string ss"
| "typable_content (Export v s) = (typable (ID v) \<and> typable_string s)"
| "typable_content (Cd_to s) = typable_string s"
| "typable_content (Kill s j) = (typable (NUM s) \<and> typable (NUM j))"
| "typable_content c = True"

definition typable_cmd :: "cmd_tree \<Rightarrow> bool" where
  "typable_cmd c \<longleftrightarrow> typable_content (tree_content c) \<and> list_all (\<lambda>(m, s). typable_string s) (tree_redir c)"

lemma clean_quoted:
  assumes "typable_string s"
  shows "clean env False (quoted s) = (False, s)"
proof -
  have "s = [] \<or> last s \<noteq> CHR 0x5C" using assms last_in_set [of s] by (metis typable_string_def BACKSLASH_def)
  from clean_in_quotes [OF this, of env] show ?thesis by (simp add: quoted_def clean.simps(2))
qed

lemma typed_string_facts:
  assumes "typable_string s"
  shows "typable (typed_string s)" and "quotes_close env (typed_string s)" and "first_string env (typed_string s) = Some s"
    and "string_of_token env (typed_string s) = Some s"
  using assms clean_quoted [OF assms] typable_quoted [of s]
  by (simp_all add: typed_string_def quotes_close_def string_of_token_def typable_string_def del: typable.simps)

lemma derives_typed_strings:
  "list_all typable_string ss \<Longrightarrow> ss \<noteq> [] \<Longrightarrow> derives_arguments env (map typed_string ss) ss"
proof (induction ss)
  case (Cons s ss)
  then show ?case by (cases "ss = []") (auto intro: derives_arguments.intros typed_string_facts)
qed simp

lemma derives_content_typed: "typable_content c \<Longrightarrow> derives_content env (content_tokens c) c"
proof (cases c)
  case (Program s ss)
  assume "typable_content c"
  then show ?thesis using Program
    by (cases "ss = []") (auto intro: program program_arguments derives_typed_strings typed_string_facts)
next
  case (Echo ss)
  assume "typable_content c"
  then show ?thesis using Echo by (cases "ss = []") (auto intro: echo echo_arguments derives_typed_strings)
qed (auto intro: derives_content.intros typed_string_facts)

lemma derives_redir_typed: "list_all (\<lambda>(m, s). typable_string s) r \<Longrightarrow> derives_redir env (redir_tokens r) r"
proof (induction r)
  case (Cons x r)
  obtain m s where "x = (m, s)" by fastforce
  moreover have "mark_of_token (mark_token m) = Some m" by (cases m) simp_all
  ultimately show ?case using Cons by (auto simp: redir_tokens_def intro: redir typed_string_facts)
qed (simp add: redir_tokens_def no_redir)

lemma derives_cmd_typed: "typable_cmd c \<Longrightarrow> derives_cmd_top env (cmd_tokens c) c"
  using foreground [OF derives_content_typed derives_redir_typed] background [OF derives_content_typed derives_redir_typed]
  by (cases c) (simp add: typable_cmd_def cmd_tokens_def)

lemma derives_cmds_typed: "list_all typable_cmd cs \<Longrightarrow> cs \<noteq> [] \<Longrightarrow> derives_cmds env (cmds_tokens cs) cs"
  by (induction cs rule: cmds_tokens.induct) (auto intro: last_cmd piped_cmd derives_cmd_typed)

lemma typable_tokens:
  assumes "list_all typable_cmd cs"
  shows "list_all (\<lambda>t. typable t \<and> quotes_close env t) (cmds_tokens cs)"
proof -
  have c: "list_all (\<lambda>t. typable t \<and> quotes_close env t) (content_tokens c)" if "typable_content c" for c
    using that typed_string_facts(1,2) by (cases c) (auto simp: list_all_iff quotes_close_def [of env "ID x" for x]
      quotes_close_def [of env "NUM x" for x] quotes_close_def [of env "EXIT_TOK x" for x] quotes_close_def)
  have r: "list_all (\<lambda>t. typable t \<and> quotes_close env t) (redir_tokens r)" if "list_all (\<lambda>(m, s). typable_string s) r" for r
  proof -
    have "typable (mark_token m) \<and> quotes_close env (mark_token m)" for m by (cases m) (simp_all add: quotes_close_def)
    then show ?thesis using that typed_string_facts(1,2) by (auto simp: list_all_iff redir_tokens_def)
  qed
  have "list_all (\<lambda>t. typable t \<and> quotes_close env t) (cmd_tokens c)" if "typable_cmd c" for c
    using c r that by (auto simp: cmd_tokens_def typable_cmd_def quotes_close_def)
  then show ?thesis using assms by (induction cs rule: cmds_tokens.induct) (auto simp: quotes_close_def)
qed

lemma derives_cmds_nonempty: "\<not> derives_cmds env [] cs"
proof
  assume "derives_cmds env [] cs"
  then have "read_cmds env [] = Some cs" by (rule read_cmds_complete)
  then show False by (subst (asm) read_cmds.simps) (simp add: read_cmd_top_def read_content_def)
qed

text \<open>The productions and the reader agree: a line has at most one parse tree, and reading it
  from left to right, without going back, finds the tree.\<close>

lemma productions_unambiguous: "derives_cmds env ts cs \<longleftrightarrow> read_cmds env ts = Some cs"
  using read_cmds_sound read_cmds_complete by blast

lemma typed_line_ok:
  assumes "cs \<noteq> []" and "list_all typable_cmd cs"
  shows "read_script env realpath (type_line (cmds_tokens cs) @ s) = map_option (\<lambda>hs. (Some hs, False, s)) (top env realpath cs)"
proof -
  have t: "list_all typable (cmds_tokens cs)" "list_all (quotes_close env) (cmds_tokens cs)"
    using typable_tokens [OF assms(2), of env] by (simp_all add: list_all_iff)
  have "read_cmds env (cmds_tokens cs) = Some cs" by (rule read_cmds_complete [OF derives_cmds_typed [OF assms(2,1)]])
  moreover have "cmds_tokens cs \<noteq> []"
    using calculation read_cmds_sound derives_cmds_nonempty by fastforce
  ultimately show ?thesis using scan_line_typed [OF t(1), of s] t(2)
    by (cases "top env realpath cs") (simp_all add: read_script_def line_of_tokens_def)
qed

text \<open>C30: Every list of piped commands can be typed, with any arguments and redirections that have
  no backslash: the scanner, the productions and the clean up of the strings take the line to the
  script the actions build from it, and the next line is still to read.\<close>

theorem typed_line_read:
  assumes "cs \<noteq> []" and "list_all typable_cmd cs"
  shows "read_script env realpath (type_line (cmds_tokens cs) @ s) = map_option (\<lambda>hs. (Some hs, False, s)) (top env realpath cs)"
  by (rule typed_line_ok [OF assms])

theorem typed_line_read_witness:
  "\<exists>hs. read_script (\<lambda>x. None) Some (type_line (cmds_tokens demo_tree) @ ''exit'') = Some (Some hs, False, ''exit'')"
proof -
  have "\<exists>hs. top (\<lambda>x. None) Some demo_tree = Some hs"
    by (simp add: top_def demo_tree_def cmd_top_def cmd_content_def Let_def)
  moreover have "demo_tree \<noteq> []" "list_all typable_cmd demo_tree"
    by (simp_all add: demo_tree_def typable_cmd_def typable_string_def BACKSLASH_def)
  ultimately show ?thesis using typed_line_read [of demo_tree "\<lambda>x. None" Some "''exit''"] by auto
qed

subsection \<open>Lines the grammar does not take\<close>

text \<open>\<open>echo\<close> is not among the strings that may also be arguments, as the other words are.\<close>

lemma echo_argument_wrong: "read_script env realpath (type_line [ECHO_TOK, ECHO_TOK] @ s) = Some (None, False, s)"
proof -
  have "read_cmds env [ECHO_TOK, ECHO_TOK] = None"
    by (subst read_cmds.simps) (simp add: read_cmd_top_def read_content_def read_bg_def)
  then show ?thesis using scan_line_typed [of "[ECHO_TOK, ECHO_TOK]" s] by (simp add: read_script_def line_of_tokens_def)
qed

text \<open>The end of the input, right after the last line.\<close>

lemma read_script_end: "read_script env realpath [] = Some (None, True, [])"
proof -
  have "read_cmds env [] = None" using read_cmds_sound [of env "[]"] derives_cmds_nonempty by (cases "read_cmds env []") auto
  moreover have "scan_line [] = ([], END, [])" by (subst scan_line.simps) (subst yylex.simps, simp)
  ultimately show ?thesis by (simp add: read_script_def line_of_tokens_def)
qed

end
