(* ===== verification/Automaton.thy ===== *)
theory Automaton
  imports Reader
begin

text \<open>
  The parser bison made of the grammar, \<open>src/project1/quash/src/parsing/parse.tab.c\<close>: its tables and
  the loop of \<open>yyparse\<close>, with the recovery from errors. It is shown to read every line as the
  productions say (\<open>Reader\<close>), up to the size its stack can have. Semantic values are parts of a
  parse tree; \<open>Grammar\<close> has what the actions make of them.
\<close>

subsection \<open>Tables\<close>

definition YYMAXDEPTH :: nat where "YYMAXDEPTH = 10000"
definition YYFINAL :: nat where "YYFINAL = 35"
definition YYLAST :: int where "YYLAST = 56"
definition YYNTOKENS :: int where "YYNTOKENS = 23"
definition YYPACT_NINF :: int where "YYPACT_NINF = -18"
definition YYTERROR :: int where "YYTERROR = 1"

definition yypact :: "int list" where
  "yypact =
   [2, -6, 32, -12, 32, -18, -18, -11, -18, -18, -18, -18, -18, -18, 9, 21, 34, -2, -18, 32, -18, -18, -18,
    -18, -18, -18, -18, -18, -18, 32, -18, -18, 35, -18, 28, -18, -18, -18, 14, -18, -18, -18, 38, -18, 32,
    -18, -18, 32, -18, -18, -18, -18, -2, -18, -18]"

definition yydefact :: "int list" where
  "yydefact =
   [0, 0, 11, 0, 14, 16, 17, 0, 2, 41, 42, 44, 43, 18, 0, 0, 7, 21, 10, 30, 6, 5, 35, 36, 38, 39, 37, 40, 12,
    31, 34, 33, 0, 15, 0, 1, 4, 3, 0, 24, 25, 26, 27, 20, 0, 29, 32, 0, 19, 8, 28, 9, 23, 13, 22]"

definition yypgoto :: "int list" where
  "yypgoto =
   [-18, -18, 17, -18, -18, -18, 4, -18, -18, -18, -17, -4, -18, 1]"

definition yydefgoto :: "int list" where
  "yydefgoto =
   [-1, 14, 15, 16, 17, 42, 43, 44, 51, 18, 28, 29, 30, 31]"

definition yytable :: "int list" where
  "yytable =
   [33, 19, 45, 1, 20, 39, 40, 41, 32, 35, 34, 21, 46, 2, 3, 4, 5, 6, 7, 8, 9, 10, 11, 12, 13, 2, 3, 4, 5, 6,
    7, 36, 9, 10, 11, 12, 13, 38, 37, 19, 52, 47, 50, 53, 22, 23, 24, 25, 26, 48, 9, 10, 11, 12, 27, 49, 54]"

definition yycheck :: "int list" where
  "yycheck =
   [4, 0, 19, 1, 10, 7, 8, 9, 20, 0, 21, 17, 29, 11, 12, 13, 14, 15, 16, 17, 18, 19, 20, 21, 22, 11, 12, 13,
    14, 15, 16, 10, 18, 19, 20, 21, 22, 3, 17, 38, 44, 6, 4, 47, 12, 13, 14, 15, 16, 21, 18, 19, 20, 21, 22,
    38, 52]"

definition yyr1 :: "int list" where
  "yyr1 =
   [0, 23, 24, 24, 24, 24, 24, 25, 25, 26, 27, 27, 27, 27, 27, 27, 27, 27, 27, 27, 28, 28, 29, 29, 30, 30,
    30, 31, 31, 32, 32, 33, 33, 34, 34, 35, 35, 35, 35, 35, 35, 36, 36, 36, 36]"

definition yyr2 :: "nat list" where
  "yyr2 =
   [0, 2, 1, 2, 2, 2, 2, 1, 3, 3, 1, 1, 2, 4, 1, 2, 1, 1, 1, 3, 1, 0, 3, 2, 1, 1, 1, 0, 1, 2, 1, 1, 2, 1, 1,
    1, 1, 1, 1, 1, 1, 1, 1, 1, 1]"

text \<open>\<open>yytranslate\<close>: the number of a token in the tables.\<close>

fun yytranslate :: "token \<Rightarrow> int" where
  "yytranslate PIPE = 3"
| "yytranslate BCKGRND = 4"
| "yytranslate EQUALS = 6"
| "yytranslate REDIRIN = 7"
| "yytranslate REDIROUT = 8"
| "yytranslate REDIROUTAPP = 9"
| "yytranslate END = 10"
| "yytranslate ECHO_TOK = 11"
| "yytranslate EXPORT_TOK = 12"
| "yytranslate CD_TOK = 13"
| "yytranslate PWD_TOK = 14"
| "yytranslate JOBS_TOK = 15"
| "yytranslate KILL_TOK = 16"
| "yytranslate EOC_TOK = 17"
| "yytranslate (STR_TOK s) = 18"
| "yytranslate (SIM_STR s) = 19"
| "yytranslate (ID s) = 20"
| "yytranslate (NUM s) = 21"
| "yytranslate (EXIT_TOK s) = 22"

text \<open>The entry of the table for a row and a column, if the check says it is one.\<close>

definition yylookup :: "int \<Rightarrow> int \<Rightarrow> int \<Rightarrow> int option" where
  "yylookup row col k =
     (let n = row + col in if 0 \<le> n \<and> n \<le> YYLAST \<and> yycheck ! nat n = k then Some (yytable ! nat n) else None)"

datatype yyaction = Shift nat | Reduce nat | Fail

definition yydefault :: "nat \<Rightarrow> yyaction" where
  "yydefault q = (if yydefact ! q = 0 then Fail else Reduce (nat (yydefact ! q)))"

definition yybackup :: "nat \<Rightarrow> token \<Rightarrow> yyaction" where
  "yybackup q t =
     (if yypact ! q = YYPACT_NINF then yydefault q
      else (case yylookup (yypact ! q) (yytranslate t) (yytranslate t) of
          None \<Rightarrow> yydefault q
        | Some k \<Rightarrow> if k \<le> 0 then Reduce (nat (- k)) else Shift (nat k)))"

definition yygoto :: "nat \<Rightarrow> nat \<Rightarrow> nat" where
  "yygoto n q =
     (let yylhs = nat (yyr1 ! n - YYNTOKENS) in
      nat (case yylookup (yypgoto ! yylhs) (int q) (int q) of Some k \<Rightarrow> k | None \<Rightarrow> yydefgoto ! yylhs))"

text \<open>Whether the error token can be shifted.\<close>

definition yyerror_shift :: "nat \<Rightarrow> nat option" where
  "yyerror_shift q =
     (if yypact ! q = YYPACT_NINF then None
      else (case yylookup (yypact ! q) YYTERROR YYTERROR of None \<Rightarrow> None | Some k \<Rightarrow> if 0 < k then Some (nat k) else None))"

subsection \<open>Semantic values\<close>

datatype yystype = VError | VTok token | VStr string | VStrs "string list" | VCmd "string list" | VMark redir_mark
  | VRedir "(redir_mark \<times> string) list" | VBg bool | VContent content | VTree cmd_tree | VTrees "cmd_tree list"

text \<open>The actions: a value, or the end of the parse with the commands and whether the input has
  ended. A string whose quotes do not close stops the process (no result).\<close>

definition yyaction_string :: "env \<Rightarrow> nat \<Rightarrow> yystype list \<Rightarrow> yystype option" where
  "yyaction_string env n vs = (case vs of
     [VStr s] \<Rightarrow> if n \<in> {33, 34} then Some (VStr s) else None
   | [VTok t] \<Rightarrow>
       (if n = 35 then Some (VStr ''export'')
        else if n = 36 then Some (VStr ''cd'')
        else if n = 37 then Some (VStr ''kill'')
        else if n = 38 then Some (VStr ''pwd'')
        else if n = 39 then Some (VStr ''jobs'')
        else (case t of
            EXIT_TOK s \<Rightarrow> if n = 40 then Some (VStr s) else None
          | STR_TOK s \<Rightarrow> if n = 41 \<and> quotes_close env t then Some (VStr (snd (clean env False s))) else None
          | SIM_STR s \<Rightarrow> if n = 42 then Some (VStr s) else None
          | NUM s \<Rightarrow> if n = 43 then Some (VStr s) else None
          | ID s \<Rightarrow> if n = 44 then Some (VStr s) else None
          | _ \<Rightarrow> None))
   | _ \<Rightarrow> None)"

definition yyaction_content :: "nat \<Rightarrow> yystype list \<Rightarrow> yystype option" where
  "yyaction_content n vs =
     (if n = 10 then (case vs of [VCmd (s # ss)] \<Rightarrow> Some (VContent (Program s ss)) | _ \<Rightarrow> None)
      else if n = 11 then Some (VContent (Echo []))
      else if n = 12 then (case vs of [_, VStrs ss] \<Rightarrow> Some (VContent (Echo ss)) | _ \<Rightarrow> None)
      else if n = 13 then (case vs of [_, VTok (ID v), _, VStr s] \<Rightarrow> Some (VContent (Export v s)) | _ \<Rightarrow> None)
      else if n = 14 then Some (VContent Cd_home)
      else if n = 15 then (case vs of [_, VStr s] \<Rightarrow> Some (VContent (Cd_to s)) | _ \<Rightarrow> None)
      else if n = 16 then Some (VContent Pwd)
      else if n = 17 then Some (VContent Jobs)
      else if n = 18 then Some (VContent Exit)
      else (case vs of [_, VTok (NUM s), VTok (NUM j)] \<Rightarrow> Some (VContent (Kill s j)) | _ \<Rightarrow> None))"

definition yyaction_redir :: "nat \<Rightarrow> yystype list \<Rightarrow> yystype option" where
  "yyaction_redir n vs =
     (if n = 20 then (case vs of [VRedir ms] \<Rightarrow> Some (VRedir ms) | _ \<Rightarrow> None)
      else if n = 21 then Some (VRedir [])
      else if n = 22 then (case vs of [VMark m, VStr s, VRedir ms] \<Rightarrow> Some (VRedir ((m, s) # ms)) | _ \<Rightarrow> None)
      else if n = 23 then (case vs of [VMark m, VStr s] \<Rightarrow> Some (VRedir [(m, s)]) | _ \<Rightarrow> None)
      else if n = 24 then Some (VMark Redirin)
      else if n = 25 then Some (VMark Redirout)
      else if n = 26 then Some (VMark Redirout_app)
      else if n = 27 then Some (VBg False)
      else Some (VBg True))"

definition yyaction_arguments :: "nat \<Rightarrow> yystype list \<Rightarrow> yystype option" where
  "yyaction_arguments n vs =
     (if n = 29 then (case vs of [VStr s, VStrs ss] \<Rightarrow> Some (VCmd (s # ss)) | _ \<Rightarrow> None)
      else if n = 30 then (case vs of [VStr s] \<Rightarrow> Some (VCmd [s]) | _ \<Rightarrow> None)
      else if n = 31 then (case vs of [VStr s] \<Rightarrow> Some (VStrs [s]) | _ \<Rightarrow> None)
      else (case vs of [VStr s, VStrs ss] \<Rightarrow> Some (VStrs (s # ss)) | _ \<Rightarrow> None))"

definition yyaction_cmds :: "nat \<Rightarrow> yystype list \<Rightarrow> yystype option" where
  "yyaction_cmds n vs =
     (if n = 7 then (case vs of [VTree t] \<Rightarrow> Some (VTrees [t]) | _ \<Rightarrow> None)
      else if n = 8 then (case vs of [VTree t, _, VTrees ts] \<Rightarrow> Some (VTrees (t # ts)) | _ \<Rightarrow> None)
      else (case vs of [VContent c, VRedir r, VBg b] \<Rightarrow> Some (VTree \<lparr>tree_content = c, tree_redir = r, tree_bg = b\<rparr>) | _ \<Rightarrow> None))"

definition yyaction_top :: "nat \<Rightarrow> yystype list \<Rightarrow> (cmd_tree list option \<times> bool) option" where
  "yyaction_top n vs =
     (if n = 2 then Some (None, False)
      else if n = 3 then (case vs of [VTrees ts, _] \<Rightarrow> Some (Some ts, False) | _ \<Rightarrow> None)
      else if n = 4 then (case vs of [VTrees ts, _] \<Rightarrow> Some (Some ts, True) | _ \<Rightarrow> None)
      else if n = 5 then Some (None, False)
      else Some (None, True))"

definition yyreduce :: "env \<Rightarrow> nat \<Rightarrow> yystype list \<Rightarrow> yystype option" where
  "yyreduce env n vs =
     (if n < 10 then yyaction_cmds n vs
      else if n < 20 then yyaction_content n vs
      else if n < 29 then yyaction_redir n vs
      else if n < 33 then yyaction_arguments n vs
      else yyaction_string env n vs)"

subsection \<open>The loop\<close>

text \<open>The stack of states with their values, the top first; the input from the token read ahead on;
  the error status. A token read ahead stays in the input until it is shifted or discarded. The
  result is what \<open>*__ret_cmds\<close> is set to (\<open>None\<close> if it is not), whether the input has ended, and the
  rest of it.\<close>

type_synonym yystack = "(nat \<times> yystype) list"
type_synonym yyresult = "cmd_tree list option option \<times> bool \<times> string"

fun yypop :: "yystack \<Rightarrow> yystack option" where
  "yypop [] = None"
| "yypop ((q, v) # st) = (case yyerror_shift q of Some k \<Rightarrow> Some ((k, VError) # (q, v) # st) | None \<Rightarrow> yypop st)"

text \<open>One turn of the loop. A token read ahead stays in the input until it is shifted or discarded; the
  message of \<open>yyerror\<close> is left out. When the stack is exhausted \<open>yyparse\<close> returns: a token that was
  read ahead just then is lost in the code, and is still in the rest of the input here.\<close>

definition yystep :: "env \<Rightarrow> yystack \<times> string \<times> nat \<Rightarrow> (yyresult + yystack \<times> string \<times> nat) option" where
  "yystep env c = (case c of (st, s, yyerrstatus) \<Rightarrow>
     (let q = fst (hd st) in
      if YYMAXDEPTH \<le> length st then Some (Inl (None, False, s))
      else if q = YYFINAL then Some (Inl (None, False, s))
      else (case yybackup q (fst (yylex s)) of
          Shift k \<Rightarrow> Some (Inr ((k, VTok (fst (yylex s))) # st, snd (yylex s), yyerrstatus - 1))
        | Reduce n \<Rightarrow>
            (let vs = rev (map snd (take (yyr2 ! n) st)); st = drop (yyr2 ! n) st in
             if n < 7 then do { (ret, ended) \<leftarrow> yyaction_top n vs; Some (Inl (Some ret, ended, s)) }
             else do { v \<leftarrow> yyreduce env n vs; Some (Inr ((yygoto n (fst (hd st)), v) # st, s, yyerrstatus)) })
        | Fail \<Rightarrow>
            (let s = (if yyerrstatus = 3 then snd (yylex s) else s) in
             (case yypop st of None \<Rightarrow> Some (Inl (None, False, s)) | Some st \<Rightarrow> Some (Inr (st, s, 3)))))))"

partial_function (option) yyrun :: "env \<Rightarrow> yystack \<times> string \<times> nat \<Rightarrow> yyresult option" where
  "yyrun env c = do { r \<leftarrow> yystep env c; (case r of Inl res \<Rightarrow> Some res | Inr c \<Rightarrow> yyrun env c) }"

declare yyrun.simps [code]

definition yyparse_line :: "env \<Rightarrow> string \<Rightarrow> yyresult option" where
  "yyparse_line env s = yyrun env ([(0, VError)], s, 0)"

subsection \<open>Steps\<close>

lemmas yytables = yypact_def yydefact_def yypgoto_def yydefgoto_def yytable_def yycheck_def yyr1_def yyr2_def
  YYLAST_def YYNTOKENS_def YYPACT_NINF_def YYTERROR_def

text \<open>The states by the symbol last read that come up below: in these a string may follow, in
  \<open>args_states\<close> a list of them.\<close>

definition args_states :: "nat set" where "args_states = {2, 19, 29}"
definition string_states :: "nat set" where "string_states = {2, 4, 19, 29, 44, 47}"

definition steps :: "env \<Rightarrow> yystack \<times> string \<times> nat \<Rightarrow> yystack \<times> string \<times> nat \<Rightarrow> bool" where
  "steps env = (\<lambda>c c'. yystep env c = Some (Inr c'))\<^sup>*\<^sup>*"

lemma steps_refl [simp]: "steps env c c"
  by (simp add: steps_def)

lemma steps_trans: "steps env c c' \<Longrightarrow> steps env c' c'' \<Longrightarrow> steps env c c''"
  unfolding steps_def by (rule rtranclp_trans)

lemma steps_one: "yystep env c = Some (Inr c') \<Longrightarrow> steps env c' c'' \<Longrightarrow> steps env c c''"
  unfolding steps_def by (rule converse_rtranclp_into_rtranclp)

lemma yyrun_steps: "steps env c c' \<Longrightarrow> yyrun env c = yyrun env c'"
  unfolding steps_def
  by (induction rule: converse_rtranclp_induct) (simp, subst yyrun.simps, simp)

text \<open>A stack with room on it; the final state is never entered.\<close>

definition room_for :: "nat \<Rightarrow> yystack \<Rightarrow> bool" where
  "room_for n st \<longleftrightarrow> length st + n < YYMAXDEPTH"

lemma room_for_Cons [simp]: "room_for n (x # st) \<longleftrightarrow> room_for (Suc n) st"
  by (simp add: room_for_def)

lemma room_for_less: "room_for n st \<Longrightarrow> m \<le> n \<Longrightarrow> room_for m st"
  by (simp add: room_for_def)

lemma step_shift:
  assumes "yybackup q t = Shift k" and "yylex s = (t, s')" and "q \<noteq> 35" and "room_for 1 st"
    and "steps env ((k, VTok t) # (q, x) # st, s', 0) c"
  shows "steps env ((q, x) # st, s, 0) c"
  by (rule steps_one [OF _ assms(5)]) (use assms in \<open>simp add: yystep_def room_for_def YYFINAL_def\<close>)

lemma step_reduce:
  assumes "yybackup q (fst (yylex s)) = Reduce n" and "q \<noteq> 35" and "7 \<le> n" and "room_for 1 st"
    and "yyreduce env n (rev (map snd (take (yyr2 ! n) ((q, x) # st)))) = Some v"
    and "steps env (let st' = drop (yyr2 ! n) ((q, x) # st) in (yygoto n (fst (hd st')), v) # st', s, 0) c"
  shows "steps env ((q, x) # st, s, 0) c"
  by (rule steps_one [OF _ assms(6)]) (use assms in \<open>simp add: yystep_def room_for_def YYFINAL_def Let_def\<close>)

text \<open>Entries of the tables.\<close>

lemma default_states:
  "yybackup 5 t = Reduce 16" "yybackup 6 t = Reduce 17" "yybackup 8 t = Reduce 2" "yybackup 9 t = Reduce 41"
  "yybackup 10 t = Reduce 42" "yybackup 11 t = Reduce 44" "yybackup 12 t = Reduce 43" "yybackup 13 t = Reduce 18"
  "yybackup 18 t = Reduce 10" "yybackup 20 t = Reduce 6" "yybackup 21 t = Reduce 5" "yybackup 22 t = Reduce 35"
  "yybackup 23 t = Reduce 36" "yybackup 24 t = Reduce 38" "yybackup 25 t = Reduce 39" "yybackup 26 t = Reduce 37"
  "yybackup 27 t = Reduce 40" "yybackup 28 t = Reduce 12" "yybackup 30 t = Reduce 34" "yybackup 31 t = Reduce 33"
  "yybackup 33 t = Reduce 15" "yybackup 36 t = Reduce 4" "yybackup 37 t = Reduce 3" "yybackup 39 t = Reduce 24"
  "yybackup 40 t = Reduce 25" "yybackup 41 t = Reduce 26" "yybackup 43 t = Reduce 20" "yybackup 45 t = Reduce 29"
  "yybackup 46 t = Reduce 32" "yybackup 48 t = Reduce 19" "yybackup 49 t = Reduce 8" "yybackup 50 t = Reduce 28"
  "yybackup 51 t = Reduce 9" "yybackup 53 t = Reduce 13" "yybackup 54 t = Reduce 22"
  by (simp_all add: yybackup_def yydefault_def yytables)

lemma yyerror_shift_state: "q < 55 \<Longrightarrow> yyerror_shift q = (if q = 0 then Some 1 else None)"
proof -
  have "list_all (\<lambda>q. yyerror_shift q = (if q = 0 then Some 1 else None)) [0..<55]"
    by (simp add: upt_rec yyerror_shift_def yylookup_def yytables)
  then show "q < 55 \<Longrightarrow> ?thesis" by (simp add: list_all_iff)
qed

subsection \<open>Strings\<close>

text \<open>The state a string token is shifted to, the rule for it, and the state after that.\<close>

fun string_entry :: "token \<Rightarrow> nat \<times> nat \<times> nat \<times> nat" where
  "string_entry (STR_TOK s) = (9, 41, 31, 33)"
| "string_entry (SIM_STR s) = (10, 42, 31, 33)"
| "string_entry (ID s) = (11, 44, 31, 33)"
| "string_entry (NUM s) = (12, 43, 31, 33)"
| "string_entry EXPORT_TOK = (22, 35, 30, 34)"
| "string_entry CD_TOK = (23, 36, 30, 34)"
| "string_entry PWD_TOK = (24, 38, 30, 34)"
| "string_entry JOBS_TOK = (25, 39, 30, 34)"
| "string_entry KILL_TOK = (26, 37, 30, 34)"
| "string_entry (EXIT_TOK s) = (27, 40, 30, 34)"
| "string_entry t = (0, 0, 0, 0)"

lemma string_entry_tables:
  assumes "q \<in> string_states" and "string_of_token env t = Some v" and "quotes_close env t"
    and "string_entry t = (k, n, m, i)"
  shows "yybackup q t = Shift k" and "yybackup k u = Reduce n" and "yybackup m u = Reduce i" and "yyr2 ! n = 1" and "yyr2 ! i = 1"
    and "yygoto n q = m" and "yygoto i q = yygoto 33 q" and "7 \<le> n" and "7 \<le> i" and "k \<noteq> 35" and "m \<noteq> 35"
    and "yyreduce env n [VTok t] = Some (VStr v)" and "yyreduce env i [VStr v] = Some (VStr v)"
proof -
  show "yybackup q t = Shift k" "yygoto n q = m" using assms
    by (cases t; auto simp: string_states_def yybackup_def yydefault_def yygoto_def yylookup_def yytables string_of_token_def)+
  show "yybackup k u = Reduce n" "yybackup m u = Reduce i" "yyr2 ! n = 1" "yyr2 ! i = 1" "7 \<le> n" "7 \<le> i" "k \<noteq> 35" "m \<noteq> 35"
    using assms by (cases t; auto simp: default_states yyr2_def string_of_token_def)+
  show "yygoto i q = yygoto 33 q" using assms by (cases t) (auto simp: yygoto_def yyr1_def string_of_token_def)
  show "yyreduce env n [VTok t] = Some (VStr v)" "yyreduce env i [VStr v] = Some (VStr v)"
    using assms by (cases t; auto simp: yyreduce_def yyaction_string_def string_of_token_def)+
qed

lemma steps_string:
  assumes "q \<in> string_states" and "yylex s = (t, s')" and "string_of_token env t = Some v" and "quotes_close env t"
    and "room_for 2 st" and "steps env ((yygoto 33 q, VStr v) # (q, x) # st, s', 0) c"
  shows "steps env ((q, x) # st, s, 0) c"
proof -
  obtain k n m i where e: "string_entry t = (k, n, m, i)" by (metis prod_cases4)
  note tab = string_entry_tables [OF assms(1,3,4) e]
  have q: "q \<noteq> 35" using assms(1) by (auto simp: string_states_def)
  have r: "room_for 1 st" using assms(5) by (rule room_for_less) simp
  have two: "steps env ((m, VStr v) # (q, x) # st, s', 0) c"
    by (rule step_reduce [OF tab(3) tab(11,9)]) (use assms(5,6) tab in \<open>simp_all add: numeral_2_eq_2\<close>)
  have "steps env ((k, VTok t) # (q, x) # st, s', 0) c"
    by (rule step_reduce [OF tab(2) tab(10,8)]) (use assms(5) tab two in \<open>simp_all add: numeral_2_eq_2\<close>)
  then show ?thesis by (rule step_shift [OF tab(1) assms(2) q r])
qed

lemma scan_line_Cons:
  assumes "scan_line s = (t # ts, e, r)"
  obtains s' where "yylex s = (t, s')" and "scan_line s' = (ts, e, r)" and "t \<noteq> EOC_TOK" and "t \<noteq> END"
  using assms by (subst (asm) scan_line.simps) (auto simp: apfst_def map_prod_def split: prod.splits if_splits)

lemma scan_line_Nil:
  assumes "scan_line s = ([], e, r)"
  shows "yylex s = (e, r)" and "e = EOC_TOK \<or> e = END"
  using assms by (subst (asm) scan_line.simps, auto simp: apfst_def map_prod_def split: prod.splits if_splits)+

lemma next_no_string:
  assumes "scan_line s = (ts, e, r)" and "no_string env ts"
  shows "string_of_token env (fst (yylex s)) = None"
proof (cases ts)
  case Nil
  then show ?thesis using scan_line_Nil [of s e r] assms(1) by (auto simp: string_of_token_def)
next
  case (Cons t ts')
  then show ?thesis using assms by (auto simp: no_string_def elim: scan_line_Cons)
qed

lemma read_strings_no_string: "no_string env (snd (read_strings env ts))"
  by (induction ts) (auto simp: no_string_def split: option.splits)

text \<open>No string follows: the default of the state.\<close>

lemma no_string_default:
  "q \<in> string_states \<Longrightarrow> string_of_token env t = None \<Longrightarrow> yybackup q t = yydefault q"
  by (cases t) (auto simp: string_states_def yybackup_def yydefault_def yylookup_def yytables string_of_token_def)

lemma steps_arguments:
  assumes "scan_line s = (t # ts, e, r)" and "string_of_token env t = Some v" and "read_strings env ts = (ss, us)"
    and "list_all (quotes_close env) (t # ts)" and "q \<in> args_states" and "room_for (length ts + 3) st"
  shows "\<exists>s'. scan_line s' = (us, e, r) \<and> steps env ((q, x) # st, s, 0) ((yygoto 31 q, VStrs (v # ss)) # (q, x) # st, s', 0)"
  using assms
proof (induction ts arbitrary: s t v q x st ss)
  case (Nil s t v q x st ss)
  obtain s' where s': "yylex s = (t, s')" "scan_line s' = ([], e, r)" using Nil(1) by (rule scan_line_Cons)
  have q: "q \<in> string_states" "yygoto 33 q = 29" using Nil(5)
    by (auto simp: args_states_def string_states_def yygoto_def yylookup_def yytables)
  have "string_of_token env (fst (yylex s')) = None" by (rule next_no_string [OF s'(2)]) (simp add: no_string_def)
  then have "yybackup 29 (fst (yylex s')) = Reduce 31"
    using no_string_default [of 29] by (simp add: string_states_def yydefault_def yydefact_def)
  then have "steps env ((29, VStr v) # (q, x) # st, s', 0) ((yygoto 31 q, VStrs [v]) # (q, x) # st, s', 0)"
    by (rule step_reduce [where v = "VStrs [v]"]) (use Nil(6) in \<open>simp_all add: yyr2_def yyreduce_def yyaction_arguments_def room_for_def\<close>)
  then have "steps env ((q, x) # st, s, 0) ((yygoto 31 q, VStrs [v]) # (q, x) # st, s', 0)"
    using steps_string [OF q(1) s'(1) Nil(2)] Nil(4,6) q(2) by (simp add: room_for_def)
  then show ?case using s'(2) Nil(3) by auto
next
  case (Cons t' ts s t v q x st ss)
  obtain s' where s': "yylex s = (t, s')" "scan_line s' = (t' # ts, e, r)" using Cons(2) by (rule scan_line_Cons)
  have q: "q \<in> string_states" "yygoto 33 q = 29" using Cons(6)
    by (auto simp: args_states_def string_states_def yygoto_def yylookup_def yytables)
  have first: "steps env ((29, VStr v) # (q, x) # st, s', 0) c \<Longrightarrow> steps env ((q, x) # st, s, 0) c" for c
    using steps_string [OF q(1) s'(1) Cons(3)] Cons(5,7) q(2) by (simp add: room_for_def)
  show ?case
  proof (cases "string_of_token env t'")
    case None
    have "yybackup 29 (fst (yylex s')) = Reduce 31"
      using no_string_default [of 29] next_no_string [OF s'(2), of env] None
      by (simp add: no_string_def string_states_def yydefault_def yydefact_def)
    then have "steps env ((29, VStr v) # (q, x) # st, s', 0) ((yygoto 31 q, VStrs [v]) # (q, x) # st, s', 0)"
      by (rule step_reduce [where v = "VStrs [v]"]) (use Cons(7) in \<open>simp_all add: yyr2_def yyreduce_def yyaction_arguments_def room_for_def\<close>)
    then show ?thesis using first s'(2) Cons(4) None by auto
  next
    case (Some v')
    obtain ss' where ss: "ss = v' # ss'" "read_strings env ts = (ss', us)"
      using Cons(4) Some by (auto simp: apfst_def map_prod_def split: prod.splits)
    obtain s'' where s'': "scan_line s'' = (us, e, r)"
      "steps env ((29, VStr v) # (q, x) # st, s', 0) ((yygoto 31 29, VStrs (v' # ss')) # (29, VStr v) # (q, x) # st, s'', 0)"
      using Cons(1) [OF s'(2) Some ss(2), of 29 "(q, x) # st" "VStr v"] Cons(5,7) by (auto simp: args_states_def room_for_def)
    have g: "yygoto 31 29 = 46" by (simp add: yygoto_def yylookup_def yytables)
    have "steps env ((46, VStrs (v' # ss')) # (29, VStr v) # (q, x) # st, s'', 0)
        ((yygoto 31 q, VStrs (v # v' # ss')) # (q, x) # st, s'', 0)"
    proof (rule step_reduce [OF default_states(29)])
      show "steps env (let st' = drop (yyr2 ! 32) ((46, VStrs (v' # ss')) # (29, VStr v) # (q, x) # st)
          in (yygoto 32 (fst (hd st')), VStrs (v # v' # ss')) # st', s'', 0) ((yygoto 31 q, VStrs (v # v' # ss')) # (q, x) # st, s'', 0)"
        by (simp add: yyr2_def yygoto_def yyr1_def)
    qed (use Cons(7) in \<open>simp_all add: yyr2_def yyreduce_def yyaction_arguments_def room_for_def\<close>)
    from first [OF steps_trans [OF s''(2) [unfolded g] this]] s''(1) show ?thesis unfolding ss(1) by blast
  qed
qed

subsection \<open>Stacks on which the parser fails\<close>

text \<open>State 0 is at the bottom, and no other.\<close>

fun base_stack :: "yystack \<Rightarrow> bool" where
  "base_stack [] = False"
| "base_stack ((q, x) # st) = (if st = [] then q = 0 else 0 < q \<and> q < 55 \<and> q \<noteq> 35 \<and> base_stack st)"

text \<open>The parser comes to a state where the next token is wrong, in the line that ends with \<open>e\<close>.\<close>

definition fails :: "env \<Rightarrow> token \<Rightarrow> string \<Rightarrow> yystack \<times> string \<times> nat \<Rightarrow> bool" where
  "fails env e r c \<longleftrightarrow> (\<exists>q x st s ts. steps env c ((q, x) # st, s, 0) \<and> yybackup q (fst (yylex s)) = Fail
     \<and> scan_line s = (ts, e, r) \<and> base_stack ((q, x) # st) \<and> room_for 2 st)"

lemma fails_now:
  "yybackup q (fst (yylex s)) = Fail \<Longrightarrow> scan_line s = (ts, e, r) \<Longrightarrow> base_stack ((q, x) # st) \<Longrightarrow> room_for 2 st
    \<Longrightarrow> fails env e r ((q, x) # st, s, 0)"
  unfolding fails_def using steps_refl by blast

lemma fails_steps: "steps env c c' \<Longrightarrow> fails env e r c' \<Longrightarrow> fails env e r c"
  unfolding fails_def using steps_trans by blast

lemma shift:
  assumes "yybackup q t = Shift k" and "yylex s = (t, s')" and "q \<noteq> 35" and "room_for 5 st"
  shows "steps env ((q, x) # st, s, 0) ((k, VTok t) # (q, x) # st, s', 0)"
  by (rule step_shift [OF assms(1-3) room_for_less [OF assms(4)] steps_refl]) simp

text \<open>A reduction, by the number of symbols it takes from the stack.\<close>

lemma reduce:
  assumes "yybackup q (fst (yylex s)) = Reduce n" and "q \<noteq> 35" and "7 \<le> n" and "room_for 5 st" and "length vs \<le> 4"
    and "yyr2 ! n = length vs" and "yyreduce env n (rev (map snd vs)) = Some v" and "vs \<noteq> []" and "fst (hd vs) = q"
    and "yygoto n p = k"
  shows "steps env (vs @ (p, x) # st, s, 0) ((k, v) # (p, x) # st, s, 0)"
proof -
  obtain y ws where vs: "vs = (q, y) # ws" using assms(8,9) by (cases vs) auto
  have "steps env ((q, y) # ws @ (p, x) # st, s, 0) ((k, v) # (p, x) # st, s, 0)"
    by (rule step_reduce [OF assms(1-3), where v = v]) (use assms(4-7,10) vs in \<open>simp_all add: room_for_def Let_def\<close>)
  then show ?thesis using vs by simp
qed

subsection \<open>Commands\<close>

lemma content_goto:
  assumes "q \<in> {0, 38}"
  shows "10 \<le> n \<Longrightarrow> n < 20 \<Longrightarrow> yygoto n q = 17" and "n \<in> {29, 30} \<Longrightarrow> yygoto n q = 18" and "41 \<le> n \<Longrightarrow> n < 45 \<Longrightarrow> yygoto n q = 19"
proof -
  have g: "\<forall>n \<in> set [10..<20]. yygoto n q = 17" "\<forall>n \<in> set [41..<45]. yygoto n q = 19"
    using assms by (auto simp: upt_rec yygoto_def yylookup_def yytables)
  show "10 \<le> n \<Longrightarrow> n < 20 \<Longrightarrow> yygoto n q = 17" by (rule bspec [OF g(1)]) (simp only: set_upt atLeastLessThan_iff)
  show "41 \<le> n \<Longrightarrow> n < 45 \<Longrightarrow> yygoto n q = 19" by (rule bspec [OF g(2)]) (simp only: set_upt atLeastLessThan_iff)
  show "n \<in> {29, 30} \<Longrightarrow> yygoto n q = 18" using assms by (auto simp: yygoto_def yylookup_def yytables)
qed

lemma command_start:
  assumes "q \<in> {0, 38}"
  shows "yybackup q ECHO_TOK = Shift 2" and "yybackup q EXPORT_TOK = Shift 3" and "yybackup q CD_TOK = Shift 4"
    and "yybackup q PWD_TOK = Shift 5" and "yybackup q JOBS_TOK = Shift 6" and "yybackup q (EXIT_TOK w) = Shift 13"
    and "yybackup q KILL_TOK = Shift 7"
    and "first_string env t = Some v \<Longrightarrow> string_entry t = (k, n, m, i) \<Longrightarrow> yybackup q t = Shift k \<and> m = 31 \<and> 41 \<le> n \<and> n < 45"
    and "t \<in> {PIPE, BCKGRND, EQUALS, REDIRIN, REDIROUT, REDIROUTAPP, END} \<Longrightarrow> yybackup q t = Fail"
    and "yybackup 38 EOC_TOK = Fail"
proof -
  note tab = yybackup_def yydefault_def yylookup_def yytables
  show "yybackup q ECHO_TOK = Shift 2" "yybackup q EXPORT_TOK = Shift 3" "yybackup q CD_TOK = Shift 4" "yybackup q PWD_TOK = Shift 5"
    "yybackup q JOBS_TOK = Shift 6" "yybackup q (EXIT_TOK w) = Shift 13" "yybackup q KILL_TOK = Shift 7" "yybackup 38 EOC_TOK = Fail"
    using assms by (auto simp: tab)
  show "first_string env t = Some v \<Longrightarrow> string_entry t = (k, n, m, i) \<Longrightarrow> yybackup q t = Shift k \<and> m = 31 \<and> 41 \<le> n \<and> n < 45"
    using assms by (cases t) (auto simp: tab)
  show "t \<in> {PIPE, BCKGRND, EQUALS, REDIRIN, REDIROUT, REDIROUTAPP, END} \<Longrightarrow> yybackup q t = Fail"
    using assms by (auto simp: tab)
qed

text \<open>Within the commands that take a fixed number of tokens.\<close>

lemma command_tokens:
  "yybackup 3 t = (case t of ID v \<Rightarrow> Shift 32 | _ \<Rightarrow> Fail)"
  "yybackup 32 t = (if t = EQUALS then Shift 47 else Fail)"
  "yybackup 7 t = (case t of NUM v \<Rightarrow> Shift 34 | _ \<Rightarrow> Fail)"
  "yybackup 34 t = (case t of NUM v \<Rightarrow> Shift 48 | _ \<Rightarrow> Fail)"
  by (cases t; simp add: yybackup_def yydefault_def yylookup_def yytables)+

lemma string_list_end:
  assumes "scan_line s = (ts, e, r)" and "no_string env ts" and "q \<in> string_states"
  shows "yybackup q (fst (yylex s)) = yydefault q"
  by (rule no_string_default [OF assms(3) next_no_string [OF assms(1,2)]])

text \<open>From the state \<open>q\<close> in which a command begins, with its first token.\<close>

definition begins :: "nat \<Rightarrow> yystack \<Rightarrow> token list \<Rightarrow> token \<Rightarrow> bool" where
  "begins q st ts e \<longleftrightarrow> q \<in> {0, 38} \<and> (q = 38 \<or> ts \<noteq> [] \<or> e = END) \<and> room_for (length ts + 9) st"

lemma begins_facts:
  assumes "begins q st ts e"
  shows "q \<in> {0, 38}" and "q \<noteq> 35" and "room_for 5 st" and "room_for 6 st" and "room_for 7 st" and "room_for 8 st" and "room_for 9 st"
  using assms by (auto simp: begins_def room_for_def)

lemma steps_program:
  assumes "begins q st (t # ts) e" and "yylex s = (t, s')" and "scan_line s' = (ts, e, r)" and "first_string env t = Some v"
    and "list_all (quotes_close env) (t # ts)" and "read_strings env ts = (ss, us)"
  shows "\<exists>s'. scan_line s' = (us, e, r) \<and> steps env ((q, x) # st, s, 0) ((17, VContent (Program v ss)) # (q, x) # st, s', 0)"
proof -
  note b = begins_facts [OF assms(1)]
  obtain k n m i where e: "string_entry t = (k, n, m, i)" by (metis prod_cases4)
  have sv: "string_of_token env t = Some v" using assms(4) by (simp add: string_of_token_def)
  have "quotes_close env t" using assms(5) by simp
  note tab = string_entry_tables [of 29, OF _ sv this e, simplified string_states_def, simplified]
  note at = command_start(8) [OF b(1) assms(4) e]
  have "steps env ((q, x) # st, s, 0) ((k, VTok t) # (q, x) # st, s', 0)"
    using at by (intro shift [OF _ assms(2) b(2,3)]) simp
  moreover have "steps env ([(k, VTok t)] @ (q, x) # st, s', 0) ((19, VStr v) # (q, x) # st, s', 0)"
    using tab at b content_goto(3) [OF b(1)] by (intro reduce [where n = n]) simp_all
  ultimately have first: "steps env ((q, x) # st, s, 0) ((19, VStr v) # (q, x) # st, s', 0)" using steps_trans by fastforce
  have cmd: "steps env ([(18, VCmd (v # ss))] @ (q, x) # st, u, 0) ((17, VContent (Program v ss)) # (q, x) # st, u, 0)" for u
    using b content_goto(1) [OF b(1), of 10] default_states
    by (intro reduce [where n = 10]) (simp_all add: yyr2_def yyreduce_def yyaction_content_def)
  show ?thesis
  proof (cases "no_string env ts")
    case True
    then have ss: "ss = []" "us = ts" using assms(6) read_strings_none [of env ts] by simp_all
    have "yybackup 19 (fst (yylex s')) = Reduce 30"
      using string_list_end [OF assms(3) True, of 19] by (simp add: string_states_def yydefault_def yydefact_def)
    then have "steps env ([(19, VStr v)] @ (q, x) # st, s', 0) ((18, VCmd [v]) # (q, x) # st, s', 0)"
      using b content_goto(2) [OF b(1), of 30]
      by (intro reduce [where n = 30]) (simp_all add: yyr2_def yyreduce_def yyaction_arguments_def)
    then show ?thesis using steps_trans [OF first steps_trans [OF _ cmd [of s']]] ss assms(3) by auto
  next
    case False
    then obtain t' ts' v' ss' where ts: "ts = t' # ts'" "string_of_token env t' = Some v'" "read_strings env ts' = (ss', us)" "ss = v' # ss'"
      using assms(6) by (cases ts) (auto simp: no_string_def apfst_def map_prod_def split: prod.splits)
    obtain s'' where s'': "scan_line s'' = (us, e, r)"
      "steps env ((19, VStr v) # (q, x) # st, s', 0) ((yygoto 31 19, VStrs (v' # ss')) # (19, VStr v) # (q, x) # st, s'', 0)"
      using steps_arguments [of s' t' ts' e r env v' ss' us 19 "(q, x) # st" "VStr v"] assms(1,3,5) ts
      by (auto simp: args_states_def begins_def room_for_def)
    have g: "yygoto 31 19 = 45" by (simp add: yygoto_def yylookup_def yytables)
    have "steps env ([(45, VStrs (v' # ss')), (19, VStr v)] @ (q, x) # st, s'', 0) ((18, VCmd (v # ss)) # (q, x) # st, s'', 0)"
      using b content_goto(2) [OF b(1), of 29] default_states ts(4)
      by (intro reduce [where n = 29]) (simp_all add: yyr2_def yyreduce_def yyaction_arguments_def)
    then have "steps env ((q, x) # st, s, 0) ((17, VContent (Program v ss)) # (q, x) # st, s'', 0)"
      using steps_trans [OF first steps_trans [OF s''(2) [unfolded g] steps_trans [OF _ cmd [of s'']]]] by simp
    then show ?thesis using s''(1) by blast
  qed
qed

end
