(* ===== verification/Yyparse.thy ===== *)
theory Yyparse
  imports Automaton
begin

text \<open>
  The generated parser reads lines as the productions of the grammar say: whatever the reader of
  \<open>Reader\<close> makes of the tokens, the automaton comes to, and where the reader gives up it fails and
  recovers at the end of the line.
\<close>

lemma steps_echo:
  assumes "begins q st (ECHO_TOK # ts) e" and "yylex s = (ECHO_TOK, s')" and "scan_line s' = (ts, e, r)"
    and "list_all (quotes_close env) ts" and "read_strings env ts = (ss, us)"
  shows "\<exists>s'. scan_line s' = (us, e, r) \<and> steps env ((q, x) # st, s, 0) ((17, VContent (Echo ss)) # (q, x) # st, s', 0)"
proof -
  note b = begins_facts [OF assms(1)]
  have first: "steps env ((q, x) # st, s, 0) ((2, VTok ECHO_TOK) # (q, x) # st, s', 0)"
    by (rule shift [OF command_start(1) [OF b(1)] assms(2) b(2,3)])
  show ?thesis
  proof (cases "no_string env ts")
    case True
    then have ss: "ss = []" "us = ts" using assms(5) read_strings_none [of env ts] by simp_all
    have "yybackup 2 (fst (yylex s')) = Reduce 11"
      using string_list_end [OF assms(3) True, of 2] by (simp add: string_states_def yydefault_def yydefact_def)
    then have "steps env ([(2, VTok ECHO_TOK)] @ (q, x) # st, s', 0) ((17, VContent (Echo [])) # (q, x) # st, s', 0)"
      using b content_goto(1) [OF b(1), of 11]
      by (intro reduce [where n = 11]) (simp_all add: yyr2_def yyreduce_def yyaction_content_def)
    then show ?thesis using steps_trans [OF first] ss assms(3) by auto
  next
    case False
    then obtain t' ts' v' ss' where ts: "ts = t' # ts'" "string_of_token env t' = Some v'" "read_strings env ts' = (ss', us)" "ss = v' # ss'"
      using assms(5) by (cases ts) (auto simp: no_string_def apfst_def map_prod_def split: prod.splits)
    obtain s'' where s'': "scan_line s'' = (us, e, r)"
      "steps env ((2, VTok ECHO_TOK) # (q, x) # st, s', 0) ((yygoto 31 2, VStrs (v' # ss')) # (2, VTok ECHO_TOK) # (q, x) # st, s'', 0)"
      using steps_arguments [of s' t' ts' e r env v' ss' us 2 "(q, x) # st" "VTok ECHO_TOK"] assms(1,3,4) ts
      by (auto simp: args_states_def begins_def room_for_def)
    have g: "yygoto 31 2 = 28" by (simp add: yygoto_def yylookup_def yytables)
    have "steps env ([(28, VStrs (v' # ss')), (2, VTok ECHO_TOK)] @ (q, x) # st, s'', 0) ((17, VContent (Echo ss)) # (q, x) # st, s'', 0)"
      using b content_goto(1) [OF b(1), of 12] default_states ts(4)
      by (intro reduce [where n = 12]) (simp_all add: yyr2_def yyreduce_def yyaction_content_def)
    then have "steps env ((q, x) # st, s, 0) ((17, VContent (Echo ss)) # (q, x) # st, s'', 0)"
      using steps_trans [OF first steps_trans [OF s''(2) [unfolded g]]] by simp
    then show ?thesis using s''(1) by blast
  qed
qed

text \<open>Commands of one token.\<close>

lemma steps_word:
  assumes "begins q st (t # ts) e" and "yylex s = (t, s')" and "yybackup q t = Shift k" and "\<And>u. yybackup k u = Reduce n"
    and "yyr2 ! n = 1" and "10 \<le> n" and "n < 20" and "yyreduce env n [VTok t] = Some (VContent c)" and "k \<noteq> 35"
  shows "steps env ((q, x) # st, s, 0) ((17, VContent c) # (q, x) # st, s', 0)"
proof -
  note b = begins_facts [OF assms(1)]
  have "steps env ([(k, VTok t)] @ (q, x) # st, s', 0) ((17, VContent c) # (q, x) # st, s', 0)"
    using assms b content_goto(1) [OF b(1) assms(6,7)] by (intro reduce [where n = n]) simp_all
  then show ?thesis using steps_trans [OF shift [OF assms(3,2) b(2,3)]] by simp
qed

lemma steps_cd:
  assumes "begins q st (CD_TOK # ts) e" and "yylex s = (CD_TOK, s')" and "scan_line s' = (ts, e, r)"
    and "list_all (quotes_close env) ts"
  shows "\<exists>c us s'. read_content env (CD_TOK # ts) = Some (c, us) \<and> scan_line s' = (us, e, r) \<and>
    steps env ((q, x) # st, s, 0) ((17, VContent c) # (q, x) # st, s', 0)"
proof -
  note b = begins_facts [OF assms(1)]
  have first: "steps env ((q, x) # st, s, 0) ((4, VTok CD_TOK) # (q, x) # st, s', 0)"
    by (rule shift [OF command_start(3) [OF b(1)] assms(2) b(2,3)])
  show ?thesis
  proof (cases "no_string env ts")
    case True
    have "yybackup 4 (fst (yylex s')) = Reduce 14"
      using string_list_end [OF assms(3) True, of 4] by (simp add: string_states_def yydefault_def yydefact_def)
    then have "steps env ([(4, VTok CD_TOK)] @ (q, x) # st, s', 0) ((17, VContent Cd_home) # (q, x) # st, s', 0)"
      using b content_goto(1) [OF b(1), of 14]
      by (intro reduce [where n = 14]) (simp_all add: yyr2_def yyreduce_def yyaction_content_def)
    moreover have "read_content env (CD_TOK # ts) = Some (Cd_home, ts)"
      using True by (cases ts) (auto simp: read_content_def no_string_def)
    ultimately show ?thesis using steps_trans [OF first] assms(3) by auto
  next
    case False
    then obtain t us v where ts: "ts = t # us" "string_of_token env t = Some v" by (cases ts) (auto simp: no_string_def)
    obtain s'' where s'': "yylex s' = (t, s'')" "scan_line s'' = (us, e, r)" using assms(3) ts(1) by (auto elim: scan_line_Cons)
    have g: "yygoto 33 4 = 33" by (simp add: yygoto_def yylookup_def yytables)
    have "steps env ([(33, VStr v), (4, VTok CD_TOK)] @ (q, x) # st, s'', 0) ((17, VContent (Cd_to v)) # (q, x) # st, s'', 0)"
      using b content_goto(1) [OF b(1), of 15] default_states
      by (intro reduce [where n = 15]) (simp_all add: yyr2_def yyreduce_def yyaction_content_def)
    then have "steps env ((4, VTok CD_TOK) # (q, x) # st, s', 0) ((17, VContent (Cd_to v)) # (q, x) # st, s'', 0)"
      by (intro steps_string [OF _ s''(1) ts(2)]) (use assms(4) ts(1) b g in \<open>simp_all add: string_states_def room_for_def\<close>)
    moreover have "read_content env (CD_TOK # ts) = Some (Cd_to v, us)" using ts by (simp add: read_content_def)
    ultimately show ?thesis using steps_trans [OF first] s''(2) by blast
  qed
qed

text \<open>Commands with a fixed number of tokens; the parser fails at the first wrong one.\<close>

lemma next_token: "scan_line s = (ts, e, r) \<Longrightarrow> fst (yylex s) = (if ts = [] then e else hd ts)"
  by (cases ts) (auto dest: scan_line_Nil elim: scan_line_Cons)

lemma end_token: "scan_line s = (ts, e, r) \<Longrightarrow> e = EOC_TOK \<or> e = END"
proof (induction ts arbitrary: s)
  case (Cons t ts)
  then show ?case by (auto elim: scan_line_Cons)
qed (rule scan_line_Nil)

lemma steps_kill:
  assumes "begins q st (KILL_TOK # ts) e" and "yylex s = (KILL_TOK, s')" and "scan_line s' = (ts, e, r)" and "base_stack ((q, x) # st)"
  shows "case read_content env (KILL_TOK # ts) of Some (c, us) \<Rightarrow> \<exists>s'. scan_line s' = (us, e, r) \<and>
      steps env ((q, x) # st, s, 0) ((17, VContent c) # (q, x) # st, s', 0)
    | None \<Rightarrow> fails env e r ((q, x) # st, s, 0)"
proof -
  note b = begins_facts [OF assms(1)]
  have first: "steps env ((q, x) # st, s, 0) ((7, VTok KILL_TOK) # (q, x) # st, s', 0)"
    by (rule shift [OF command_start(7) [OF b(1)] assms(2) b(2,3)])
  note e = end_token [OF assms(3)]
  show ?thesis
  proof (cases "\<exists>a us. ts = NUM a # us")
    case False
    then have "yybackup 7 (fst (yylex s')) = Fail"
      using e next_token [OF assms(3)] by (cases ts) (auto simp: command_tokens split: token.splits)
    then have "fails env e r ((7, VTok KILL_TOK) # (q, x) # st, s', 0)"
      using assms(3,4) b by (intro fails_now) (auto simp: room_for_def)
    moreover have "read_content env (KILL_TOK # ts) = None" using False by (auto simp: read_content_def split: list.splits token.splits)
    ultimately show ?thesis using fails_steps [OF first] by simp
  next
    case True
    then obtain a us where ts: "ts = NUM a # us" by blast
    obtain s2 where s2: "yylex s' = (NUM a, s2)" "scan_line s2 = (us, e, r)" using assms(3) ts by (auto elim: scan_line_Cons)
    have "steps env ((7, VTok KILL_TOK) # (q, x) # st, s', 0) ((34, VTok (NUM a)) # (7, VTok KILL_TOK) # (q, x) # st, s2, 0)"
      using s2(1) b by (intro shift) (simp_all add: command_tokens)
    note second = steps_trans [OF first this]
    show ?thesis
    proof (cases "\<exists>b vs. us = NUM b # vs")
      case False
      then have "yybackup 34 (fst (yylex s2)) = Fail"
        using e next_token [OF s2(2)] by (cases us) (auto simp: command_tokens split: token.splits)
      then have "fails env e r ((34, VTok (NUM a)) # (7, VTok KILL_TOK) # (q, x) # st, s2, 0)"
        using s2(2) assms(4) b by (intro fails_now) (auto simp: room_for_def)
      moreover have "read_content env (KILL_TOK # ts) = None" using False ts by (auto simp: read_content_def split: list.splits token.splits)
      ultimately show ?thesis using fails_steps [OF second] by simp
    next
      case True
      then obtain d vs where us: "us = NUM d # vs" by blast
      obtain s3 where s3: "yylex s2 = (NUM d, s3)" "scan_line s3 = (vs, e, r)" using s2(2) us by (auto elim: scan_line_Cons)
      have "steps env ((34, VTok (NUM a)) # (7, VTok KILL_TOK) # (q, x) # st, s2, 0)
          ([(48, VTok (NUM d)), (34, VTok (NUM a)), (7, VTok KILL_TOK)] @ (q, x) # st, s3, 0)"
        using shift [of 34 "NUM d" 48 s2 s3 "(7, VTok KILL_TOK) # (q, x) # st"] s3(1) b by (simp add: command_tokens)
      moreover have "steps env ([(48, VTok (NUM d)), (34, VTok (NUM a)), (7, VTok KILL_TOK)] @ (q, x) # st, s3, 0)
          ((17, VContent (Kill a d)) # (q, x) # st, s3, 0)"
        using b content_goto(1) [OF b(1), of 19] default_states
        by (intro reduce [where n = 19]) (simp_all add: yyr2_def yyreduce_def yyaction_content_def)
      ultimately have "steps env ((q, x) # st, s, 0) ((17, VContent (Kill a d)) # (q, x) # st, s3, 0)"
        using second steps_trans by blast
      moreover have "read_content env (KILL_TOK # ts) = Some (Kill a d, vs)" using ts us by (simp add: read_content_def)
      ultimately show ?thesis using s3(2) by auto
    qed
  qed
qed

lemma steps_export:
  assumes "begins q st (EXPORT_TOK # ts) e" and "yylex s = (EXPORT_TOK, s')" and "scan_line s' = (ts, e, r)"
    and "base_stack ((q, x) # st)" and "list_all (quotes_close env) ts"
  shows "case read_content env (EXPORT_TOK # ts) of Some (c, us) \<Rightarrow> \<exists>s'. scan_line s' = (us, e, r) \<and>
      steps env ((q, x) # st, s, 0) ((17, VContent c) # (q, x) # st, s', 0)
    | None \<Rightarrow> fails env e r ((q, x) # st, s, 0)"
proof -
  note b = begins_facts [OF assms(1)]
  have first: "steps env ((q, x) # st, s, 0) ((3, VTok EXPORT_TOK) # (q, x) # st, s', 0)"
    by (rule shift [OF command_start(2) [OF b(1)] assms(2) b(2,3)])
  note e = end_token [OF assms(3)]
  show ?thesis
  proof (cases "\<exists>a us. ts = ID a # us")
    case False
    then have "yybackup 3 (fst (yylex s')) = Fail"
      using e next_token [OF assms(3)] by (cases ts) (auto simp: command_tokens split: token.splits)
    then have "fails env e r ((3, VTok EXPORT_TOK) # (q, x) # st, s', 0)"
      using assms(3,4) b by (intro fails_now) (auto simp: room_for_def)
    moreover have "read_content env (EXPORT_TOK # ts) = None" using False by (auto simp: read_content_def split: list.splits token.splits)
    ultimately show ?thesis using fails_steps [OF first] by simp
  next
    case True
    then obtain a us where ts: "ts = ID a # us" by blast
    obtain s2 where s2: "yylex s' = (ID a, s2)" "scan_line s2 = (us, e, r)" using assms(3) ts by (auto elim: scan_line_Cons)
    have "steps env ((3, VTok EXPORT_TOK) # (q, x) # st, s', 0) ((32, VTok (ID a)) # (3, VTok EXPORT_TOK) # (q, x) # st, s2, 0)"
      using s2(1) b by (intro shift) (simp_all add: command_tokens)
    note second = steps_trans [OF first this]
    show ?thesis
    proof (cases "\<exists>vs. us = EQUALS # vs")
      case False
      then have "yybackup 32 (fst (yylex s2)) = Fail"
        using e next_token [OF s2(2)] by (cases us) (auto simp: command_tokens)
      then have "fails env e r ((32, VTok (ID a)) # (3, VTok EXPORT_TOK) # (q, x) # st, s2, 0)"
        using s2(2) assms(4) b by (intro fails_now) (auto simp: room_for_def)
      moreover have "read_content env (EXPORT_TOK # ts) = None" using False ts by (auto simp: read_content_def split: list.splits token.splits)
      ultimately show ?thesis using fails_steps [OF second] by simp
    next
      case True
      then obtain vs where us: "us = EQUALS # vs" by blast
      obtain s3 where s3: "yylex s2 = (EQUALS, s3)" "scan_line s3 = (vs, e, r)" using s2(2) us by (auto elim: scan_line_Cons)
      have "steps env ((32, VTok (ID a)) # (3, VTok EXPORT_TOK) # (q, x) # st, s2, 0)
          ((47, VTok EQUALS) # (32, VTok (ID a)) # (3, VTok EXPORT_TOK) # (q, x) # st, s3, 0)"
        using s3(1) b by (intro shift) (simp_all add: command_tokens)
      note third = steps_trans [OF second this]
      show ?thesis
      proof (cases "no_string env vs")
        case True
        then have "yybackup 47 (fst (yylex s3)) = Fail"
          using string_list_end [OF s3(2) True, of 47] by (simp add: string_states_def yydefault_def yydefact_def)
        then have "fails env e r ((47, VTok EQUALS) # (32, VTok (ID a)) # (3, VTok EXPORT_TOK) # (q, x) # st, s3, 0)"
          using s3(2) assms(4) b by (intro fails_now) (auto simp: room_for_def)
        moreover have "read_content env (EXPORT_TOK # ts) = None"
          using True ts us by (cases vs) (auto simp: read_content_def no_string_def)
        ultimately show ?thesis using fails_steps [OF third] by simp
      next
        case False
        then obtain t ws v where vs: "vs = t # ws" "string_of_token env t = Some v" by (cases vs) (auto simp: no_string_def)
        obtain s4 where s4: "yylex s3 = (t, s4)" "scan_line s4 = (ws, e, r)" using s3(2) vs(1) by (auto elim: scan_line_Cons)
        have g: "yygoto 33 47 = 53" by (simp add: yygoto_def yylookup_def yytables)
        have "steps env ([(53, VStr v), (47, VTok EQUALS), (32, VTok (ID a)), (3, VTok EXPORT_TOK)] @ (q, x) # st, s4, 0)
            ((17, VContent (Export a v)) # (q, x) # st, s4, 0)"
          using b content_goto(1) [OF b(1), of 13] default_states
          by (intro reduce [where n = 13]) (simp_all add: yyr2_def yyreduce_def yyaction_content_def)
        then have "steps env ((47, VTok EQUALS) # (32, VTok (ID a)) # (3, VTok EXPORT_TOK) # (q, x) # st, s3, 0)
            ((17, VContent (Export a v)) # (q, x) # st, s4, 0)"
          by (intro steps_string [OF _ s4(1) vs(2)]) (use assms(5) ts us vs b g in \<open>simp_all add: string_states_def room_for_def\<close>)
        moreover have "read_content env (EXPORT_TOK # ts) = Some (Export a v, ws)" using ts us vs by (simp add: read_content_def)
        ultimately show ?thesis using steps_trans [OF third] s4(2) by auto
      qed
    qed
  qed
qed

lemma steps_content:
  assumes "begins q st ts e" and "scan_line s = (ts, e, r)" and "base_stack ((q, x) # st)" and "list_all (quotes_close env) ts"
  shows "case read_content env ts of Some (c, us) \<Rightarrow> \<exists>s'. scan_line s' = (us, e, r) \<and>
      steps env ((q, x) # st, s, 0) ((17, VContent c) # (q, x) # st, s', 0)
    | None \<Rightarrow> fails env e r ((q, x) # st, s, 0)"
proof (cases ts)
  case Nil
  note b = begins_facts [OF assms(1)]
  have "yybackup q (fst (yylex s)) = Fail"
    using scan_line_Nil [of s e r] assms(1,2) Nil command_start(9) [OF b(1), of END] command_start(10) [OF b(1)]
    by (auto simp: begins_def)
  then have "fails env e r ((q, x) # st, s, 0)" using assms(2,3) b by (intro fails_now) (auto simp: room_for_def)
  then show ?thesis using Nil by (simp add: read_content_def)
next
  case (Cons t ts')
  note b = begins_facts [OF assms(1)]
  obtain s' where s': "yylex s = (t, s')" "scan_line s' = (ts', e, r)" "t \<noteq> EOC_TOK" "t \<noteq> END"
    using assms(2) Cons by (auto elim: scan_line_Cons)
  note start = assms(1) [unfolded Cons] and quotes = assms(4) [unfolded Cons]
  have quotes': "list_all (quotes_close env) ts'" using quotes by simp
  have word: "\<exists>s'. scan_line s' = (ts', e, r) \<and> steps env ((q, x) # st, s, 0) ((17, VContent c) # (q, x) # st, s', 0)"
    if "yybackup q t = Shift k" "\<And>u. yybackup k u = Reduce n" "yyr2 ! n = 1" "10 \<le> n" "n < 20"
      "yyreduce env n [VTok t] = Some (VContent c)" "k \<noteq> 35" for c k n
    using steps_word [OF start s'(1) that] s'(2) by blast
  show ?thesis
  proof (cases "first_string env t")
    case (Some v)
    obtain ss us where rs: "read_strings env ts' = (ss, us)" by fastforce
    from steps_program [OF start s'(1,2) Some quotes rs] show ?thesis
      using Some rs Cons by (auto simp: read_content_def)
  next
    case None
    have fail: "fails env e r ((q, x) # st, s, 0)" if "t \<in> {PIPE, BCKGRND, EQUALS, REDIRIN, REDIROUT, REDIROUTAPP, END}"
      using command_start(9) [OF b(1) that] s'(1) assms(2,3) b by (intro fails_now) (auto simp: room_for_def)
    note defs = read_content_def yyr2_def yyreduce_def yyaction_content_def
    show ?thesis
    proof (cases t)
      case ECHO_TOK
      obtain ss us where rs: "read_strings env ts' = (ss, us)" by fastforce
      from steps_echo [OF start [unfolded ECHO_TOK] s'(1) [unfolded ECHO_TOK] s'(2) quotes' rs] show ?thesis
        using ECHO_TOK rs Cons by (auto simp: read_content_def)
    next
      case EXPORT_TOK
      from steps_export [OF start [unfolded EXPORT_TOK] s'(1) [unfolded EXPORT_TOK] s'(2) assms(3) quotes'] show ?thesis
        using EXPORT_TOK Cons by simp
    next
      case CD_TOK
      from steps_cd [OF start [unfolded CD_TOK] s'(1) [unfolded CD_TOK] s'(2) quotes', of x] show ?thesis
        using CD_TOK Cons by auto
    next
      case KILL_TOK
      from steps_kill [OF start [unfolded KILL_TOK] s'(1) [unfolded KILL_TOK] s'(2) assms(3), of env] show ?thesis
        using KILL_TOK Cons by simp
    next
      case PWD_TOK
      then show ?thesis using word [of 5 16 Pwd] command_start(4) [OF b(1)] default_states(1) Cons by (simp add: defs)
    next
      case JOBS_TOK
      then show ?thesis using word [of 6 17 Jobs] command_start(5) [OF b(1)] default_states(2) Cons by (simp add: defs)
    next
      case (EXIT_TOK w)
      then show ?thesis using word [of 13 18 Exit] command_start(6) [OF b(1)] default_states(8) Cons by (simp add: defs)
    qed (use None s' Cons fail in \<open>simp_all add: read_content_def\<close>)
  qed
qed

subsection \<open>Redirections and the background\<close>

lemma redir_tables:
  "q \<in> {17, 52} \<Longrightarrow> mark_of_token t = Some m \<Longrightarrow> \<exists>k n. yybackup q t = Shift k \<and> (\<forall>u. yybackup k u = Reduce n) \<and> 7 \<le> n \<and> yyr2 ! n = 1
     \<and> yyreduce env n [VTok t] = Some (VMark m) \<and> yygoto n q = 44 \<and> k \<noteq> 35"
  "mark_of_token t = None \<Longrightarrow> yybackup 17 t = Reduce 21" "mark_of_token t = None \<Longrightarrow> yybackup 52 t = Reduce 23"
  "yybackup 42 t = (if t = BCKGRND then Shift 50 else Reduce 27)"
  "yybackup 16 t = (if t = PIPE then Shift 38 else Reduce 7)"
  "yybackup 15 t = (case t of END \<Rightarrow> Shift 36 | EOC_TOK \<Rightarrow> Shift 37 | _ \<Rightarrow> Fail)"
proof -
  note tab = yybackup_def yydefault_def yylookup_def yygoto_def yytables
  show "q \<in> {17, 52} \<Longrightarrow> mark_of_token t = Some m \<Longrightarrow> \<exists>k n. yybackup q t = Shift k \<and> (\<forall>u. yybackup k u = Reduce n) \<and> 7 \<le> n \<and> yyr2 ! n = 1
     \<and> yyreduce env n [VTok t] = Some (VMark m) \<and> yygoto n q = 44 \<and> k \<noteq> 35"
  proof (cases t)
    case REDIRIN
    assume "q \<in> {17, 52}" "mark_of_token t = Some m"
    then show ?thesis using REDIRIN
      by (intro exI [of _ 39] exI [of _ 24]) (auto simp: tab yyreduce_def yyaction_redir_def)
  next
    case REDIROUT
    assume "q \<in> {17, 52}" "mark_of_token t = Some m"
    then show ?thesis using REDIROUT
      by (intro exI [of _ 40] exI [of _ 25]) (auto simp: tab yyreduce_def yyaction_redir_def)
  next
    case REDIROUTAPP
    assume "q \<in> {17, 52}" "mark_of_token t = Some m"
    then show ?thesis using REDIROUTAPP
      by (intro exI [of _ 41] exI [of _ 26]) (auto simp: tab yyreduce_def yyaction_redir_def)
  qed simp_all
  show "mark_of_token t = None \<Longrightarrow> yybackup 17 t = Reduce 21" "mark_of_token t = None \<Longrightarrow> yybackup 52 t = Reduce 23"
    by (cases t; simp add: tab)+
  show "yybackup 42 t = (if t = BCKGRND then Shift 50 else Reduce 27)" "yybackup 16 t = (if t = PIPE then Shift 38 else Reduce 7)"
    "yybackup 15 t = (case t of END \<Rightarrow> Shift 36 | EOC_TOK \<Rightarrow> Shift 37 | _ \<Rightarrow> Fail)"
    by (cases t; simp add: tab)+
qed

lemma steps_mark:
  assumes "q \<in> {17, 52}" and "yylex s = (t, s')" and "mark_of_token t = Some m" and "room_for 6 st"
  shows "steps env ((q, x) # st, s, 0) ((44, VMark m) # (q, x) # st, s', 0)"
proof -
  obtain k n where k: "yybackup q t = Shift k" "\<forall>u. yybackup k u = Reduce n" "7 \<le> n" "yyr2 ! n = 1"
    "yyreduce env n [VTok t] = Some (VMark m)" "yygoto n q = 44" "k \<noteq> 35"
    using redir_tables(1) [OF assms(1,3)] by blast
  have r: "room_for 5 st" using assms(4) by (rule room_for_less) simp
  have "steps env ((q, x) # st, s, 0) ((k, VTok t) # (q, x) # st, s', 0)"
    using k(1) assms(1,2) r by (intro shift) auto
  moreover have "steps env ([(k, VTok t)] @ (q, x) # st, s', 0) ((44, VMark m) # (q, x) # st, s', 0)"
    using k assms(1) r by (intro reduce [where n = n]) auto
  ultimately show ?thesis using steps_trans by fastforce
qed

text \<open>A mark without a string.\<close>

lemma mark_fails:
  assumes "q \<in> {17, 52}" and "scan_line s = (t # ts, e, r)" and "mark_of_token t = Some m" and "no_string env ts"
    and "room_for 6 st" and "base_stack ((q, x) # st)"
  shows "fails env e r ((q, x) # st, s, 0)"
proof -
  obtain s' where s': "yylex s = (t, s')" "scan_line s' = (ts, e, r)" using assms(2) by (auto elim: scan_line_Cons)
  have "yybackup 44 (fst (yylex s')) = Fail"
    using string_list_end [OF s'(2) assms(4), of 44] by (simp add: string_states_def yydefault_def yydefact_def)
  then have "fails env e r ((44, VMark m) # (q, x) # st, s', 0)"
    using s'(2) assms(5,6) by (intro fails_now) (auto simp: room_for_def)
  then show ?thesis by (rule fails_steps [OF steps_mark [OF assms(1) s'(1) assms(3,5)]])
qed

lemma read_redir_no_mark: "no_mark ts \<Longrightarrow> read_redir env ts = ([], ts)"
  using read_redir_complete [OF no_redir, of ts env] by simp

lemma next_no_mark: "scan_line s = (ts, e, r) \<Longrightarrow> no_mark ts \<Longrightarrow> mark_of_token (fst (yylex s)) = None"
  using next_token [of s ts e r] end_token [of s ts e r] by (auto simp: no_mark_def)

lemma steps_redirection:
  assumes "q \<in> {17, 52}" and "scan_line s = (m # t # ts, e, r)" and "mark_of_token m = Some k" and "string_of_token env t = Some v"
    and "quotes_close env t" and "room_for 9 st"
  obtains s' where "scan_line s' = (ts, e, r)"
    and "steps env ((q, x) # st, s, 0) ((52, VStr v) # (44, VMark k) # (q, x) # st, s', 0)"
proof -
  obtain s1 where s1: "yylex s = (m, s1)" "scan_line s1 = (t # ts, e, r)" using assms(2) by (auto elim: scan_line_Cons)
  obtain s2 where s2: "yylex s1 = (t, s2)" "scan_line s2 = (ts, e, r)" using s1(2) by (auto elim: scan_line_Cons)
  have g: "yygoto 33 44 = 52" by (simp add: yygoto_def yylookup_def yytables)
  have r: "room_for 6 st" using assms(6) by (simp add: room_for_def)
  have "steps env ((q, x) # st, s, 0) ((44, VMark k) # (q, x) # st, s1, 0)" by (rule steps_mark [OF assms(1) s1(1) assms(3) r])
  moreover have "steps env ((44, VMark k) # (q, x) # st, s1, 0) ((52, VStr v) # (44, VMark k) # (q, x) # st, s2, 0)"
    by (rule steps_string [OF _ s2(1) assms(4,5)]) (use assms(6) g in \<open>simp_all add: string_states_def room_for_def\<close>)
  ultimately show ?thesis using that s2(2) steps_trans by blast
qed

text \<open>What can follow a redirection, or come in its place.\<close>

lemma redir_cases:
  obtains (other) "no_mark ts"
  | (bare) m ts' where "ts = m # ts'" and "\<not> no_mark ts" and "no_string env ts'" and "read_redir env ts = ([], ts)"
  | (redirection) m t k v ts' where "ts = m # t # ts'" and "mark_of_token m = Some k" and "string_of_token env t = Some v"
proof (cases ts)
  case Nil
  then show ?thesis using that(1) by (simp add: no_mark_def)
next
  case (Cons m ts')
  show ?thesis
  proof (cases "no_mark ts \<or> \<not> no_string env ts'")
    case True
    then show ?thesis using that(1,3) Cons by (cases ts') (auto simp: no_mark_def no_string_def)
  next
    case False
    then show ?thesis using that(2) [OF Cons] Cons by (cases ts') (auto simp: no_mark_def no_string_def)
  qed
qed

lemma steps_around:
  assumes "if b then \<exists>s'. scan_line s' = (us, e, r) \<and> steps env c (f s') else fails env e r c" and "steps env c0 c"
    and "\<And>s'. steps env (f s') (g s')"
  shows "if b then \<exists>s'. scan_line s' = (us, e, r) \<and> steps env c0 (g s') else fails env e r c0"
proof (cases b)
  case True
  then obtain s' where "scan_line s' = (us, e, r)" "steps env c (f s')" using assms(1) by auto
  then have "steps env c0 (g s')" using assms(2,3) steps_trans by blast
  then show ?thesis using \<open>scan_line s' = (us, e, r)\<close> True by auto
next
  case False
  then show ?thesis using assms(1) fails_steps [OF assms(2)] by simp
qed

lemma steps_redir_inner:
  assumes "q \<in> {17, 52}" and "scan_line s = (m # t # ts, e, r)" and "mark_of_token m = Some k" and "string_of_token env t = Some v"
    and "list_all (quotes_close env) (t # ts)" and "room_for (length ts + 9) st" and "base_stack ((q, x) # st)"
  shows "if no_mark (snd (read_redir env ts)) then \<exists>s'. scan_line s' = (snd (read_redir env ts), e, r) \<and>
      steps env ((q, x) # st, s, 0) ((yygoto 23 q, VRedir ((k, v) # fst (read_redir env ts))) # (q, x) # st, s', 0)
    else fails env e r ((q, x) # st, s, 0)"
  using assms
proof (induction ts arbitrary: q s m t k v x st rule: length_induct)
  case (1 ts q s m t k v x st)
  note prem = 1(2-8)
  have room: "room_for 9 st" "room_for 8 st" "room_for 7 st" "room_for 6 st" "room_for 5 st" using prem(6) by (auto simp: room_for_def)
  have "quotes_close env t" using prem(5) by simp
  then obtain s' where s': "scan_line s' = (ts, e, r)"
    "steps env ((q, x) # st, s, 0) ((52, VStr v) # (44, VMark k) # (q, x) # st, s', 0)"
    using steps_redirection [OF prem(1-4) _ room(1)] by blast
  have base: "base_stack ((52, VStr v) # (44, VMark k) # (q, x) # st)" using prem(7) by simp
  show ?case
  proof (cases rule: redir_cases [where ts = ts and env = env])
    case other
    have "steps env ([(52, VStr v), (44, VMark k)] @ (q, x) # st, s', 0) ((yygoto 23 q, VRedir [(k, v)]) # (q, x) # st, s', 0)"
      using room redir_tables(3) [OF next_no_mark [OF s'(1) other]]
      by (intro reduce [where n = 23]) (simp_all add: yyr2_def yyreduce_def yyaction_redir_def)
    then show ?thesis using steps_trans [OF s'(2)] s'(1) other read_redir_no_mark [OF other] by auto
  next
    case (bare m' ts')
    then obtain k' where "mark_of_token m' = Some k'" by (auto simp: no_mark_def)
    then have "fails env e r ((52, VStr v) # (44, VMark k) # (q, x) # st, s', 0)"
      using bare s'(1) base room by (intro mark_fails) auto
    then show ?thesis using fails_steps [OF s'(2)] bare by simp
  next
    case (redirection m' t' k' v' ts')
    let ?rr = "read_redir env ts'"
    have rr: "read_redir env ts = ((k', v') # fst ?rr, snd ?rr)" using redirection by (simp add: apfst_def map_prod_def split_beta)
    have IH: "if no_mark (snd ?rr) then \<exists>s''. scan_line s'' = (snd ?rr, e, r) \<and>
        steps env ((52, VStr v) # (44, VMark k) # (q, x) # st, s', 0)
          ((yygoto 23 52, VRedir ((k', v') # fst ?rr)) # (52, VStr v) # (44, VMark k) # (q, x) # st, s'', 0)
      else fails env e r ((52, VStr v) # (44, VMark k) # (q, x) # st, s', 0)"
      using 1(1) redirection s'(1) prem(5,6) base by (intro 1(1) [rule_format]) (auto simp: room_for_def)
    have g: "yygoto 23 52 = 54" "yygoto 22 q = yygoto 23 q" by (simp_all add: yygoto_def yylookup_def yytables)
    have "steps env ([(54, VRedir ((k', v') # fst ?rr)), (52, VStr v), (44, VMark k)] @ (q, x) # st, s'', 0)
        ((yygoto 23 q, VRedir ((k, v) # (k', v') # fst ?rr)) # (q, x) # st, s'', 0)" for s''
      using room g(2) default_states by (intro reduce [where n = 22]) (simp_all add: yyr2_def yyreduce_def yyaction_redir_def)
    then show ?thesis unfolding rr fst_conv snd_conv by (intro steps_around [OF IH s'(2)]) (simp add: g)
  qed
qed

text \<open>All redirections of a command, from the state after its arguments.\<close>

lemma steps_redir:
  assumes "scan_line s = (ts, e, r)" and "list_all (quotes_close env) ts" and "room_for (length ts + 9) st"
    and "base_stack ((17, x) # st)"
  shows "if no_mark (snd (read_redir env ts)) then \<exists>s'. scan_line s' = (snd (read_redir env ts), e, r) \<and>
      steps env ((17, x) # st, s, 0) ((42, VRedir (fst (read_redir env ts))) # (17, x) # st, s', 0)
    else fails env e r ((17, x) # st, s, 0)"
proof (cases rule: redir_cases [where ts = ts and env = env])
  case other
  have "yygoto 21 17 = 42" by (simp add: yygoto_def yylookup_def yytables)
  moreover have "yybackup 17 (fst (yylex s)) = Reduce 21" by (rule redir_tables(2) [OF next_no_mark [OF assms(1) other]])
  ultimately have "steps env ((17, x) # st, s, 0) ((42, VRedir []) # (17, x) # st, s, 0)"
    by (intro step_reduce [where n = 21 and v = "VRedir []"])
      (use assms(3) in \<open>simp_all add: yyr2_def yyreduce_def yyaction_redir_def room_for_def\<close>)
  then show ?thesis using assms(1) other read_redir_no_mark [OF other] by auto
next
  case (bare m ts')
  then obtain k where "mark_of_token m = Some k" by (auto simp: no_mark_def)
  then have "fails env e r ((17, x) # st, s, 0)" using bare assms by (intro mark_fails) (auto simp: room_for_def)
  then show ?thesis using bare by simp
next
  case (redirection m t k v ts')
  let ?rr = "read_redir env ts'"
  have rr: "read_redir env ts = ((k, v) # fst ?rr, snd ?rr)" using redirection by (simp add: apfst_def map_prod_def split_beta)
  have IH: "if no_mark (snd ?rr) then \<exists>s'. scan_line s' = (snd ?rr, e, r) \<and>
      steps env ((17, x) # st, s, 0) ((yygoto 23 17, VRedir ((k, v) # fst ?rr)) # (17, x) # st, s', 0)
    else fails env e r ((17, x) # st, s, 0)"
    using redirection assms by (intro steps_redir_inner) (auto simp: room_for_def)
  have g: "yygoto 23 17 = 43" "yygoto 20 17 = 42" by (simp_all add: yygoto_def yylookup_def yytables)
  have r: "room_for 5 st" using assms(3) by (simp add: room_for_def)
  have "steps env ([(43, VRedir ms)] @ (17, x) # st, s', 0) ((42, VRedir ms) # (17, x) # st, s', 0)" for ms s'
    using r g(2) default_states by (intro reduce [where n = 20]) (simp_all add: yyr2_def yyreduce_def yyaction_redir_def)
  then show ?thesis unfolding rr fst_conv snd_conv by (intro steps_around [OF IH steps_refl]) (simp add: g)
qed

subsection \<open>Pipelines\<close>

lemma steps_bg:
  assumes "scan_line s = (ts, e, r)" and "room_for 6 st"
  obtains s' where "scan_line s' = (snd (read_bg ts), e, r)"
    and "steps env ((42, y) # st, s, 0) ((51, VBg (fst (read_bg ts))) # (42, y) # st, s', 0)"
proof (cases "ts \<noteq> [] \<and> hd ts = BCKGRND")
  case True
  then obtain us where ts: "ts = BCKGRND # us" by (cases ts) auto
  obtain s' where s': "yylex s = (BCKGRND, s')" "scan_line s' = (us, e, r)" using assms(1) ts by (auto elim: scan_line_Cons)
  have "steps env ((42, y) # st, s, 0) ([(50, VTok BCKGRND)] @ (42, y) # st, s', 0)"
    using shift [of 42 BCKGRND 50 s s' st] s'(1) assms(2) by (simp add: redir_tables room_for_def)
  moreover have "steps env ([(50, VTok BCKGRND)] @ (42, y) # st, s', 0) ((51, VBg True) # (42, y) # st, s', 0)"
    using assms(2) default_states
    by (intro reduce [where n = 28]) (simp_all add: yyr2_def yyreduce_def yyaction_redir_def room_for_def yygoto_def yylookup_def yytables)
  ultimately show ?thesis using that [of s'] s'(2) ts steps_trans by (simp add: read_bg_def)
next
  case False
  have "fst (yylex s) \<noteq> BCKGRND" using False next_token [OF assms(1)] end_token [OF assms(1)] by auto
  then have "yybackup 42 (fst (yylex s)) = Reduce 27" by (simp add: redir_tables)
  then have "steps env ((42, y) # st, s, 0) ((51, VBg False) # (42, y) # st, s, 0)"
    by (intro step_reduce [where n = 27 and v = "VBg False"])
      (use assms(2) in \<open>simp_all add: yyr2_def yyreduce_def yyaction_redir_def room_for_def yygoto_def yylookup_def yytables\<close>)
  then show ?thesis using that [of s] assms(1) False by (auto simp: read_bg_def)
qed

lemma quotes_rest:
  assumes "read_content env ts = Some (c, us)" and "list_all (quotes_close env) ts"
  shows "list_all (quotes_close env) us"
  using read_content_sound [OF assms(1)] assms(2) by (auto simp: list_all_iff)

lemma steps_cmd_top:
  assumes "begins q st ts e" and "scan_line s = (ts, e, r)" and "base_stack ((q, x) # st)" and "list_all (quotes_close env) ts"
  shows "(\<exists>c us s'. read_cmd_top env ts = Some (c, us) \<and> scan_line s' = (us, e, r) \<and>
      steps env ((q, x) # st, s, 0) ((16, VTree c) # (q, x) # st, s', 0))
    \<or> fails env e r ((q, x) # st, s, 0) \<and> read_cmds env ts = None"
proof (cases "read_content env ts")
  case None
  then show ?thesis using steps_content [OF assms] by (subst read_cmds.simps) (simp add: read_cmd_top_def)
next
  case (Some p)
  then obtain c us where c: "read_content env ts = Some (c, us)" by (cases p) auto
  note b = begins_facts [OF assms(1)]
  obtain s1 where s1: "scan_line s1 = (us, e, r)" "steps env ((q, x) # st, s, 0) ((17, VContent c) # (q, x) # st, s1, 0)"
    using steps_content [OF assms] c by auto
  have len: "length us < length ts" by (rule read_content_length [OF c])
  have room: "room_for (length us + 9) ((q, x) # st)" using assms(1) len by (simp add: begins_def room_for_def)
  let ?r = "fst (read_redir env us)" and ?us = "snd (read_redir env us)"
  have redir: "if no_mark ?us then \<exists>s'. scan_line s' = (?us, e, r) \<and>
      steps env ((17, VContent c) # (q, x) # st, s1, 0) ((42, VRedir ?r) # (17, VContent c) # (q, x) # st, s', 0)
    else fails env e r ((17, VContent c) # (q, x) # st, s1, 0)"
    by (rule steps_redir [OF s1(1) quotes_rest [OF c assms(4)] room]) (use assms(3) in simp)
  let ?b = "fst (read_bg ?us)" and ?vs = "snd (read_bg ?us)"
  have top: "read_cmd_top env ts = Some (\<lparr>tree_content = c, tree_redir = ?r, tree_bg = ?b\<rparr>, ?vs)"
    using c by (simp add: read_cmd_top_def Let_def split_beta)
  show ?thesis
  proof (cases "no_mark ?us")
    case False
    then have "?us \<noteq> []" "hd ?us \<noteq> BCKGRND" "hd ?us \<noteq> PIPE" by (auto simp: no_mark_def)
    then have "read_cmds env ts = None" using top by (subst read_cmds.simps) (simp add: read_bg_def)
    then show ?thesis using False redir fails_steps [OF s1(2)] by simp
  next
    case True
    then obtain s2 where s2: "scan_line s2 = (?us, e, r)"
      "steps env ((17, VContent c) # (q, x) # st, s1, 0) ((42, VRedir ?r) # (17, VContent c) # (q, x) # st, s2, 0)"
      using redir by auto
    have r6: "room_for 6 ((17, VContent c) # (q, x) # st)" using assms(1) len by (auto simp: begins_def room_for_def)
    obtain s3 where s3: "scan_line s3 = (?vs, e, r)" "steps env ((42, VRedir ?r) # (17, VContent c) # (q, x) # st, s2, 0)
        ((51, VBg ?b) # (42, VRedir ?r) # (17, VContent c) # (q, x) # st, s3, 0)"
      by (rule steps_bg [OF s2(1) r6])
    have "yygoto 9 q = 16" using b(1) by (auto simp: yygoto_def yylookup_def yytables)
    then have "steps env ([(51, VBg ?b), (42, VRedir ?r), (17, VContent c)] @ (q, x) # st, s3, 0)
        ((16, VTree \<lparr>tree_content = c, tree_redir = ?r, tree_bg = ?b\<rparr>) # (q, x) # st, s3, 0)"
      using b default_states by (intro reduce [where n = 9]) (simp_all add: yyr2_def yyreduce_def yyaction_cmds_def)
    then have "steps env ((q, x) # st, s, 0) ((16, VTree \<lparr>tree_content = c, tree_redir = ?r, tree_bg = ?b\<rparr>) # (q, x) # st, s3, 0)"
      using steps_trans [OF s1(2) steps_trans [OF s2(2) steps_trans [OF s3(2)]]] by simp
    then show ?thesis using top s3(1) by blast
  qed
qed

lemma steps_cmds:
  assumes "begins q st ts e" and "scan_line s = (ts, e, r)" and "base_stack ((q, x) # st)" and "list_all (quotes_close env) ts"
  shows "(\<exists>cs us s'. read_cmds env ts = (if us = [] then Some cs else None) \<and> scan_line s' = (us, e, r) \<and>
      steps env ((q, x) # st, s, 0) ((yygoto 7 q, VTrees cs) # (q, x) # st, s', 0))
    \<or> fails env e r ((q, x) # st, s, 0) \<and> read_cmds env ts = None"
  using assms
proof (induction ts arbitrary: q s x st rule: length_induct)
  case (1 ts q s x st)
  note prem = 1(2-5)
  note b = begins_facts [OF prem(1)]
  from steps_cmd_top [OF prem] show ?case
  proof
    assume "\<exists>c us s'. read_cmd_top env ts = Some (c, us) \<and> scan_line s' = (us, e, r) \<and>
      steps env ((q, x) # st, s, 0) ((16, VTree c) # (q, x) # st, s', 0)"
    then obtain c us s1 where c: "read_cmd_top env ts = Some (c, us)" and s1: "scan_line s1 = (us, e, r)"
      "steps env ((q, x) # st, s, 0) ((16, VTree c) # (q, x) # st, s1, 0)" by blast
    have len: "length us < length ts" by (rule read_cmd_top_length [OF c])
    show ?case
    proof (cases "us \<noteq> [] \<and> hd us = PIPE")
      case False
      then have "fst (yylex s1) \<noteq> PIPE" using next_token [OF s1(1)] end_token [OF s1(1)] by auto
      then have "steps env ([(16, VTree c)] @ (q, x) # st, s1, 0) ((yygoto 7 q, VTrees [c]) # (q, x) # st, s1, 0)"
        using b by (intro reduce [where n = 7]) (simp_all add: redir_tables yyr2_def yyreduce_def yyaction_cmds_def)
      moreover have "read_cmds env ts = (if us = [] then Some [c] else None)" using c False by (subst read_cmds.simps) auto
      ultimately have "read_cmds env ts = (if us = [] then Some [c] else None) \<and> scan_line s1 = (us, e, r) \<and>
          steps env ((q, x) # st, s, 0) ((yygoto 7 q, VTrees [c]) # (q, x) # st, s1, 0)"
        using s1(1) steps_trans [OF s1(2)] by simp
      then show ?thesis by blast
    next
      case True
      then obtain vs where us: "us = PIPE # vs" by (cases us) auto
      obtain s2 where s2: "yylex s1 = (PIPE, s2)" "scan_line s2 = (vs, e, r)" using s1(1) us by (auto elim: scan_line_Cons)
      let ?st = "(16, VTree c) # (q, x) # st"
      have "steps env (?st, s1, 0) ((38, VTok PIPE) # ?st, s2, 0)"
        using s2(1) b by (intro shift) (simp_all add: redir_tables)
      note piped = steps_trans [OF s1(2) this]
      have "begins 38 ?st vs e" using prem(1) len us by (auto simp: begins_def room_for_def)
      moreover have "list_all (quotes_close env) vs"
        using read_cmd_top_sound [OF c] prem(4) us by (auto simp: list_all_iff)
      moreover have "base_stack ((38, VTok PIPE) # ?st)" using prem(3) by simp
      ultimately have IH: "(\<exists>cs us s'. read_cmds env vs = (if us = [] then Some cs else None) \<and> scan_line s' = (us, e, r) \<and>
          steps env ((38, VTok PIPE) # ?st, s2, 0) ((yygoto 7 38, VTrees cs) # (38, VTok PIPE) # ?st, s', 0))
        \<or> fails env e r ((38, VTok PIPE) # ?st, s2, 0) \<and> read_cmds env vs = None"
        using 1(1) len us s2(2) by simp
      have read: "read_cmds env ts = map_option ((#) c) (read_cmds env vs)" using c us by (subst read_cmds.simps) simp
      from IH show ?thesis
      proof
        assume "\<exists>cs us s'. read_cmds env vs = (if us = [] then Some cs else None) \<and> scan_line s' = (us, e, r) \<and>
          steps env ((38, VTok PIPE) # ?st, s2, 0) ((yygoto 7 38, VTrees cs) # (38, VTok PIPE) # ?st, s', 0)"
        then obtain cs ws s3 where cs: "read_cmds env vs = (if ws = [] then Some cs else None)" "scan_line s3 = (ws, e, r)"
          "steps env ((38, VTok PIPE) # ?st, s2, 0) ((yygoto 7 38, VTrees cs) # (38, VTok PIPE) # ?st, s3, 0)" by blast
        have g: "yygoto 7 38 = 49" "yygoto 8 q = yygoto 7 q" by (simp_all add: yygoto_def yylookup_def yytables)
        have "steps env ([(49, VTrees cs), (38, VTok PIPE), (16, VTree c)] @ (q, x) # st, s3, 0)
            ((yygoto 7 q, VTrees (c # cs)) # (q, x) # st, s3, 0)"
          using b g default_states by (intro reduce [where n = 8]) (simp_all add: yyr2_def yyreduce_def yyaction_cmds_def)
        then have "steps env ((q, x) # st, s, 0) ((yygoto 7 q, VTrees (c # cs)) # (q, x) # st, s3, 0)"
          using steps_trans [OF piped steps_trans [OF cs(3) [unfolded g]]] by simp
        moreover have "read_cmds env ts = (if ws = [] then Some (c # cs) else None)" using read cs(1) by simp
        ultimately show ?thesis using cs(2) by blast
      next
        assume "fails env e r ((38, VTok PIPE) # ?st, s2, 0) \<and> read_cmds env vs = None"
        then show ?thesis using fails_steps [OF piped] read by simp
      qed
    qed
  qed simp
qed

subsection \<open>Recovery\<close>

lemma yypop_base: "base_stack st \<Longrightarrow> \<exists>v. yypop st = Some [(1, VError), (0, v)]"
  by (induction st) (auto simp: yyerror_shift_state split: if_splits simp del: One_nat_def)

lemma yyrun_once: "yystep env c = Some r \<Longrightarrow> yyrun env c = (case r of Inl res \<Rightarrow> Some res | Inr c \<Rightarrow> yyrun env c)"
  by (subst yyrun.simps) simp

lemma recovery_tables:
  "yybackup 1 t = (case t of END \<Rightarrow> Shift 20 | EOC_TOK \<Rightarrow> Shift 21 | _ \<Rightarrow> Fail)"
  by (cases t) (simp_all add: yybackup_def yydefault_def yylookup_def yytables)

text \<open>After an error, tokens are discarded up to the end of the line.\<close>

lemma yyrun_recovers:
  "scan_line s = (ts, e, r) \<Longrightarrow> yyrun env ([(1, VError), (0, v)], s, 3) = Some (Some None, e = END, r)"
proof (induction ts arbitrary: s v)
  case Nil
  note s = scan_line_Nil [OF Nil]
  let ?q = "if e = END then 20 else 21 :: nat"
  have "yystep env ([(1, VError), (0, v)], s, 3) = Some (Inr ([(?q, VTok e), (1, VError), (0, v)], r, 2))"
    using s by (auto simp: yystep_def YYMAXDEPTH_def YYFINAL_def recovery_tables simp del: One_nat_def)
  moreover have "yystep env ([(?q, VTok e), (1, VError), (0, v)], r, 2) = Some (Inl (Some None, e = END, r))"
    using s by (auto simp: yystep_def YYMAXDEPTH_def YYFINAL_def default_states yyr2_def yyaction_top_def)
  ultimately show ?case by (simp add: yyrun_once)
next
  case (Cons t ts)
  obtain s' where s': "yylex s = (t, s')" "scan_line s' = (ts, e, r)" "t \<noteq> EOC_TOK" "t \<noteq> END"
    using Cons(2) by (auto elim: scan_line_Cons)
  have "yybackup 1 t = Fail" using s'(3,4) by (cases t) (simp_all add: recovery_tables del: One_nat_def)
  moreover have "yypop [(1, VError), (0, v)] = Some [(1, VError), (0, v)]" by (simp add: yyerror_shift_state del: One_nat_def)
  ultimately have "yystep env ([(1, VError), (0, v)], s, 3) = Some (Inr ([(1, VError), (0, v)], s', 3))"
    using s'(1) by (simp add: yystep_def YYMAXDEPTH_def YYFINAL_def del: One_nat_def yypop.simps)
  then show ?case using Cons(1) [OF s'(2)] by (simp add: yyrun_once)
qed

lemma yyrun_fails:
  assumes "fails env e r c"
  shows "yyrun env c = Some (Some None, e = END, r)"
proof -
  obtain q x st s ts where f: "steps env c ((q, x) # st, s, 0)" "yybackup q (fst (yylex s)) = Fail" "scan_line s = (ts, e, r)"
    "base_stack ((q, x) # st)" "room_for 2 st" using assms by (auto simp: fails_def)
  obtain v where "yypop ((q, x) # st) = Some [(1, VError), (0, v)]" using yypop_base [OF f(4)] by blast
  moreover have "q \<noteq> 35" using f(4) by (auto split: if_splits)
  ultimately have "yystep env ((q, x) # st, s, 0) = Some (Inr ([(1, VError), (0, v)], s, 3))"
    using f(2,5) by (simp add: yystep_def YYFINAL_def room_for_def del: yypop.simps)
  then show ?thesis using yyrun_steps [OF f(1)] yyrun_recovers [OF f(3)] by (simp add: yyrun_once)
qed

subsection \<open>Lines\<close>

text \<open>What a line comes to, as \<open>yyparse\<close> returns it.\<close>

definition line_result :: "line \<Rightarrow> cmd_tree list option" where
  "line_result l = (case l of Commands cs \<Rightarrow> Some cs | _ \<Rightarrow> None)"

lemma yyrun_end:
  assumes "scan_line s = ([], e, r)"
  shows "yyrun env ([(15, VTrees cs), (0, v)], s, 0) = Some (Some (Some cs), e = END, r)"
proof -
  note s = scan_line_Nil [OF assms]
  let ?q = "if e = END then 36 else 37 :: nat"
  have "yystep env ([(15, VTrees cs), (0, v)], s, 0) = Some (Inr ([(?q, VTok e), (15, VTrees cs), (0, v)], r, 0))"
    using s by (auto simp: yystep_def YYMAXDEPTH_def YYFINAL_def redir_tables)
  moreover have "yystep env ([(?q, VTok e), (15, VTrees cs), (0, v)], r, 0) = Some (Inl (Some (Some cs), e = END, r))"
    using s by (auto simp: yystep_def YYMAXDEPTH_def YYFINAL_def default_states yyr2_def yyaction_top_def)
  ultimately show ?thesis by (simp add: yyrun_once)
qed

lemma yyrun_blank:
  assumes "scan_line s = ([], EOC_TOK, r)"
  shows "yyrun env ([(0, v)], s, 0) = Some (Some None, False, r)"
proof -
  note s = scan_line_Nil [OF assms]
  have "yybackup 0 EOC_TOK = Shift 8" by (simp add: yybackup_def yydefault_def yylookup_def yytables)
  then have "yystep env ([(0, v)], s, 0) = Some (Inr ([(8, VTok EOC_TOK), (0, v)], r, 0))"
    using s by (simp add: yystep_def YYMAXDEPTH_def YYFINAL_def)
  moreover have "yystep env ([(8, VTok EOC_TOK), (0, v)], r, 0) = Some (Inl (Some None, False, r))"
    by (simp add: yystep_def YYMAXDEPTH_def YYFINAL_def default_states yyr2_def yyaction_top_def)
  ultimately show ?thesis by (simp add: yyrun_once)
qed

lemma yyparse_line_reads:
  assumes "scan_line s = (ts, e, r)" and "length ts + 9 < YYMAXDEPTH" and "list_all (quotes_close env) ts"
  shows "yyparse_line env s = Some (Some (line_result (line_of_tokens env ts e)), e = END, r)"
proof (cases "ts = [] \<and> e = EOC_TOK")
  case True
  then show ?thesis using yyrun_blank assms(1) by (simp add: yyparse_line_def line_of_tokens_def line_result_def)
next
  case False
  then have "begins 0 [] ts e" using assms(2) end_token [OF assms(1)] by (auto simp: begins_def room_for_def)
  from steps_cmds [OF this assms(1) _ assms(3)] have "(\<exists>cs us s'. read_cmds env ts = (if us = [] then Some cs else None) \<and>
      scan_line s' = (us, e, r) \<and> steps env ([(0, VError)], s, 0) ([(yygoto 7 0, VTrees cs), (0, VError)], s', 0))
    \<or> fails env e r ([(0, VError)], s, 0) \<and> read_cmds env ts = None" by simp
  then show ?thesis
  proof
    assume "\<exists>cs us s'. read_cmds env ts = (if us = [] then Some cs else None) \<and>
      scan_line s' = (us, e, r) \<and> steps env ([(0, VError)], s, 0) ([(yygoto 7 0, VTrees cs), (0, VError)], s', 0)"
    then obtain cs us s' where read: "read_cmds env ts = (if us = [] then Some cs else None)" and s': "scan_line s' = (us, e, r)"
      and steps: "steps env ([(0, VError)], s, 0) ([(yygoto 7 0, VTrees cs), (0, VError)], s', 0)" by blast
    have g: "yygoto 7 0 = 15" by (simp add: yygoto_def yylookup_def yytables)
    show ?thesis
    proof (cases "us = []")
      case True
      then show ?thesis using yyrun_steps [OF steps] yyrun_end [of s' e r] s' read False g
        by (auto simp: yyparse_line_def line_of_tokens_def line_result_def)
    next
      case Cons: False
      then obtain t us' where us: "us = t # us'" by (cases us) auto
      then have "t \<noteq> EOC_TOK" "t \<noteq> END" "fst (yylex s') = t" using s' by (auto elim: scan_line_Cons)
      then have "yybackup 15 (fst (yylex s')) = Fail" by (cases t) (simp_all add: redir_tables)
      then have "fails env e r ([(15, VTrees cs), (0, VError)], s', 0)"
        by (intro fails_now [OF _ s']) (simp_all add: room_for_def YYMAXDEPTH_def)
      then show ?thesis using yyrun_steps [OF steps] yyrun_fails read False Cons g
        by (auto simp: yyparse_line_def line_of_tokens_def line_result_def)
    qed
  next
    assume "fails env e r ([(0, VError)], s, 0) \<and> read_cmds env ts = None"
    then show ?thesis using yyrun_fails False by (auto simp: yyparse_line_def line_of_tokens_def line_result_def)
  qed
qed

text \<open>With the actions for the whole line, the generated parser gives the script \<open>read_script\<close> gives.\<close>

definition yyparse_script :: "env \<Rightarrow> (string \<Rightarrow> string option) \<Rightarrow> string
    \<Rightarrow> (CommandHolder list option option \<times> bool \<times> string) option" where
  "yyparse_script env realpath s =
     do { (ret, ended, r) \<leftarrow> yyparse_line env s;
          (case ret of
             Some (Some cs) \<Rightarrow> do { hs \<leftarrow> top env realpath cs; Some (Some (Some hs), ended, r) }
           | Some None \<Rightarrow> Some (Some None, ended, r)
           | None \<Rightarrow> Some (None, ended, r)) }"

lemma yyparse_script_reads:
  assumes "scan_line s = (ts, e, r)" and "length ts + 9 < YYMAXDEPTH" and "list_all (quotes_close env) ts"
  shows "yyparse_script env realpath s = map_option (apfst Some) (read_script env realpath s)"
  using yyparse_line_reads [OF assms] assms(1,3)
  by (cases "line_of_tokens env ts e")
    (simp_all add: yyparse_script_def read_script_def line_result_def split: option.split, auto split: Option.bind_split)

text \<open>C32: The parser bison generated is correct: on every line whose tokens fit its stack it returns
  the parse tree the productions of the grammar derive from the tokens, or \<open>NULL\<close> if they derive
  none, has read exactly that line, and ends the shell's loop iff the line is the last of the
  input.\<close>

theorem generated_parser_correct:
  assumes "scan_line s = (ts, e, r)" and "length ts + 9 < YYMAXDEPTH" and "list_all (quotes_close env) ts"
  shows "\<exists>ret. yyparse_line env s = Some (Some ret, e = END, r) \<and> (\<forall>cs. ret = Some cs \<longleftrightarrow> derives_cmds env ts cs)"
proof -
  have "line_result (line_of_tokens env ts e) = Some cs \<longleftrightarrow> derives_cmds env ts cs" for cs
    using read_cmds_complete [of env ts cs] read_cmds_sound [of env ts cs] derives_cmds_nonempty
    by (auto simp: line_result_def line_of_tokens_def split: option.split)
  then show ?thesis using yyparse_line_reads [OF assms] by blast
qed

theorem generated_parser_correct_witness:
  "\<exists>ret. yyparse_line (\<lambda>x. None) (type_line (cmds_tokens demo_tree) @ ''exit'') = Some (Some ret, False, ''exit'')
    \<and> ret = Some demo_tree"
proof -
  have d: "demo_tree \<noteq> []" "list_all typable_cmd demo_tree"
    by (simp_all add: demo_tree_def typable_cmd_def typable_string_def BACKSLASH_def)
  have t: "list_all typable (cmds_tokens demo_tree)" "list_all (quotes_close (\<lambda>x. None)) (cmds_tokens demo_tree)"
    using typable_tokens [OF d(2), of "\<lambda>x. None"] by (simp_all add: list_all_iff)
  have "length (cmds_tokens demo_tree) + 9 < YYMAXDEPTH"
    by (simp add: demo_tree_def cmd_tokens_def redir_tokens_def YYMAXDEPTH_def)
  from generated_parser_correct [OF scan_line_typed [OF t(1), of "''exit''"] this t(2)] show ?thesis
    using derives_cmds_typed [OF d(2,1), of "\<lambda>x. None"] by auto
qed

subsection \<open>Lines that are too long\<close>

text \<open>The grammar is right recursive, so that every argument stays on the stack until the last one
  has been read.\<close>

lemma yyrun_exhausted: "YYMAXDEPTH \<le> length st \<Longrightarrow> yyrun env (st, s, k) = Some (None, False, s)"
  by (subst yyrun.simps) (simp add: yystep_def Let_def)

lemma arguments_exhaust:
  assumes "scan_line s = (ts, e, r)" and "list_all (\<lambda>t. string_of_token env t \<noteq> None \<and> quotes_close env t) ts"
    and "q \<in> args_states" and "length st + 1 < YYMAXDEPTH" and "YYMAXDEPTH \<le> length st + 1 + length ts"
  shows "\<exists>s'. yyrun env ((q, x) # st, s, 0) = Some (None, False, s')"
  using assms
proof (induction ts arbitrary: s q x st)
  case Nil
  then show ?case by simp
next
  case (Cons t ts)
  obtain s' v where s': "yylex s = (t, s')" "scan_line s' = (ts, e, r)" "string_of_token env t = Some v" "quotes_close env t"
    using Cons(2,3) by (auto elim: scan_line_Cons)
  obtain k n m i where entry: "string_entry t = (k, n, m, i)" by (metis prod_cases4)
  have q: "q \<in> string_states" "yygoto 33 q = 29" "q \<noteq> 35" using Cons(4)
    by (auto simp: args_states_def string_states_def yygoto_def yylookup_def yytables)
  show ?case
  proof (cases "length st + 2 < YYMAXDEPTH")
    case True
    have "steps env ((q, x) # st, s, 0) ((29, VStr v) # (q, x) # st, s', 0)"
      by (rule steps_string [OF q(1) s'(1,3,4)]) (use True q in \<open>simp_all add: room_for_def\<close>)
    moreover have "\<exists>s''. yyrun env ((29, VStr v) # (q, x) # st, s', 0) = Some (None, False, s'')"
      by (rule Cons(1) [OF s'(2)]) (use Cons(3,6) True in \<open>simp_all add: args_states_def\<close>)
    ultimately show ?thesis using yyrun_steps by metis
  next
    case False
    have "yystep env ((q, x) # st, s, 0) = Some (Inr ((k, VTok t) # (q, x) # st, s', 0))"
      using string_entry_tables(1) [OF q(1) s'(3,4) entry] s'(1) q(3) Cons(5) by (simp add: yystep_def YYFINAL_def)
    then show ?thesis using yyrun_exhausted [of "(k, VTok t) # (q, x) # st" env s' 0] False
      by (auto simp: yyrun_once)
  qed
qed

text \<open>C34: A line of \<open>echo\<close> with ten thousand arguments does not fit the parser's stack: \<open>yyparse\<close>
  returns without setting \<open>*__ret_cmds\<close>, so \<open>parse\<close> goes on to use a variable that was never set.\<close>

theorem too_many_arguments:
  assumes "scan_line s = (ECHO_TOK # ts, e, r)"
    and "list_all (\<lambda>t. string_of_token env t \<noteq> None \<and> quotes_close env t) ts" and "YYMAXDEPTH \<le> length ts + 2"
  shows "\<exists>s'. yyparse_script env realpath s = Some (None, False, s')"
proof -
  obtain s1 where s1: "yylex s = (ECHO_TOK, s1)" "scan_line s1 = (ts, e, r)" using assms(1) by (auto elim: scan_line_Cons)
  have "yystep env ([(0, VError)], s, 0) = Some (Inr ([(2, VTok ECHO_TOK), (0, VError)], s1, 0))"
    using s1(1) command_start(1) [of 0] by (simp add: yystep_def YYMAXDEPTH_def YYFINAL_def)
  moreover have "\<exists>s'. yyrun env ([(2, VTok ECHO_TOK), (0, VError)], s1, 0) = Some (None, False, s')"
    by (rule arguments_exhaust [OF s1(2) assms(2)]) (use assms(3) in \<open>simp_all add: args_states_def YYMAXDEPTH_def\<close>)
  ultimately show ?thesis by (auto simp: yyparse_script_def yyparse_line_def yyrun_once)
qed

theorem too_many_arguments_witness:
  "\<exists>s'. yyparse_script (\<lambda>x. None) Some (type_line (ECHO_TOK # replicate 9998 (NUM ''1''))) = Some (None, False, s')"
proof -
  have "typable (NUM ''1'')" by (simp add: is_digit_def char_nat_def)
  then have "scan_line (type_line (ECHO_TOK # replicate 9998 (NUM ''1''))) = (ECHO_TOK # replicate 9998 (NUM ''1''), EOC_TOK, [])"
    using scan_line_typed [of "ECHO_TOK # replicate 9998 (NUM ''1'')" "[]"] by (simp add: list_all_iff)
  then show ?thesis
    by (rule too_many_arguments)
      (simp_all add: list_all_iff string_of_token_def quotes_close_def YYMAXDEPTH_def)
qed

end
