(* ===== verification/Typed.thy ===== *)
theory Typed
  imports Yyparse
begin

text \<open>
  From the text of a line to the processes it starts: the scanner, the generated parser, the
  actions of the grammar, \<open>parse\<close>, \<open>run_script\<close> and the main loop put together.
\<close>

lemma runnable_command_ok: "runnable c \<Longrightarrow> command_ok c"
  by (cases c) (auto split: option.splits)

lemma pipeline_no_end: "pipeline i cs \<Longrightarrow> h \<in> set cs \<Longrightarrow> get_command_holder_type h \<noteq> EOC"
  by (induction i cs rule: pipeline.induct) (auto simp: linked_def)

lemma pipeline_script_ok:
  assumes "pipeline False cs" and "\<forall>h \<in> set cs. runnable (cmd h)" and "get_command_holder_type e = EOC"
  shows "script_ok (cs @ [e])" and "script_commands (cs @ [e]) = cs"
proof -
  show c: "script_commands (cs @ [e]) = cs"
    using pipeline_no_end [OF assms(1)] assms(3) by (auto simp: script_commands_def takeWhile_append2)
  show "script_ok (cs @ [e])" unfolding script_ok_def c using assms(2,3) runnable_command_ok by auto
qed

lemma exit_typed:
  assumes "top env realpath ts = Some (cs @ [e])" and "get_command_holder_type (hd cs) = EXIT" and "tl cs = []" and "cs \<noteq> []"
  shows "map tree_content ts = [Exit]"
proof -
  obtain c where cs: "cs = [c]" "get_command_holder_type c = EXIT" using assms(2-4) by (cases cs) auto
  have "cmds env realpath ts = Some [c]" using assms(1) cs(1) by (auto simp: top_def bind_eq_Some_conv)
  then obtain t where t: "ts = [t]" "cmd_top env realpath t = Some c"
    using cmds_pipeline [of env realpath ts "[c]"] by (cases ts) (auto simp: bind_eq_Some_conv)
  then obtain d where "cmd_content env realpath (tree_content t) = Some d" "get_command_type d = EXIT"
    using cs(2) by (auto simp: cmd_top_def bind_eq_Some_conv Let_def get_command_holder_type_def mk_command_holder_def)
  then have "tree_content t = Exit"
    by (auto simp: cmd_content_def mk_generic_command_def mk_echo_command_def mk_export_command_def mk_cd_command_def
      mk_pwd_command_def mk_jobs_command_def mk_kill_command_def split: content.splits list.splits option.splits)
  then show ?thesis using t by simp
qed

lemma typed_line_script:
  assumes "ts \<noteq> []" and "list_all typable_cmd ts" and "length (cmds_tokens ts) + 9 < YYMAXDEPTH"
    and "top env realpath ts = Some hs"
  shows "yyparse_script env realpath (type_line (cmds_tokens ts) @ r) = Some (Some (Some hs), False, r)"
proof -
  have t: "list_all typable (cmds_tokens ts)" "list_all (quotes_close env) (cmds_tokens ts)"
    using typable_tokens [OF assms(2), of env] by (simp_all add: list_all_iff)
  show ?thesis
    using yyparse_script_reads [OF scan_line_typed [OF t(1), of r] assms(3) t(2), of realpath]
      typed_line_ok [OF assms(1,2), of env realpath r] assms(4) by simp
qed

text \<open>C33: A line does what is typed: if any pipeline of commands is typed, and what \<open>yyparse\<close> returns is
  what the generated automaton computes from the text, then the round of the main loop starts one
  process for each command, waits for them or adds them to the job table as a whole if one of the
  commands is marked with \<open>&\<close>, leaves the rest of the input for the next round, gives its memory
  pool back and keeps the shell running and good.\<close>

theorem typed_line_runs:
  assumes inv: "shell_inv bs sh" and run: "is_running (quash sh)"
    and init: "initialize_memory_pool 1024 (sh_heap sh) = Some st0"
    and typed: "ts \<noteq> []" "list_all typable_cmd ts" "length (cmds_tokens ts) + 9 < YYMAXDEPTH"
    and top: "top (sh_env sh) realpath ts = Some hs"
    and y: "yyparse (sh_env sh) (cwd sh) (type_line (cmds_tokens ts) @ r) st0 = Some (ret, ended, w, st)"
    and lalr: "yyparse_script (sh_env sh) realpath (type_line (cmds_tokens ts) @ r) = Some (ret, ended, w)"
    and others: "pool_kept st0 st" and ready: "pool_ready st" and tx: "tx = script_text hs" and nul: "NUL \<notin> set tx"
    and room: "116 + 32 * length (script_strings hs) + 14 * length ts + length tx \<le> room st"
    and av: "80 + 24 * length (script_strings hs) \<le> avail (pheap st)" and small: "length tx < 2 ^ 63"
    and files: "\<forall>h \<in> set hs. files_open os h" and os: "os_willing os" and ex: "map tree_content ts \<noteq> [Exit]"
    and bytes: "script_bytes (length ts) tx sh \<le> avail (pheap st)" and job: "next_job_id sh < INT_MAX"
  shows "\<exists>sh' p. main_round yyparse os (type_line (cmds_tokens ts) @ r) sh = Some (r, sh') \<and> shell_inv (add_mset (p, length tx + 1) bs) sh'
    \<and> fd_get (fds sh') = fd_get (fds sh) \<and> length (procs sh') = length (procs sh) + length ts \<and> is_running (quash sh')
    \<and> (let (vs, msg, k) = poll_view os (polls sh) (table sh); new = child_pids os (forks sh) (length ts) in
        if \<exists>t \<in> set ts. tree_bg t
        then table sh' = vs @ [(next_job_id sh, new, tx)] \<and> waited sh' = waited sh
        else table sh' = vs \<and> waited sh' = waited sh @ new)"
proof -
  obtain cs e where hs: "hs = cs @ [e]" and e: "get_command_holder_type e = EOC" and len: "length cs = length ts"
    and pl: "pipeline False cs" and ok: "\<forall>h \<in> set cs. runnable (cmd h)"
    and bg: "has_flag (flags (hd cs)) BACKGROUND \<longleftrightarrow> (\<exists>t \<in> set ts. tree_bg t)"
    using grammar_ok [OF top] by blast
  have parsed: "yyparse (sh_env sh) (cwd sh) (type_line (cmds_tokens ts) @ r) st0 = Some (Some (Some (cs @ [e])), False, r, st)"
    using y lalr typed_line_script [OF typed top, of r] hs by simp
  have cs: "cs \<noteq> []" using len typed(1) by auto
  note script = pipeline_script_ok [OF pl ok e]
  have exit: "\<not> (get_command_holder_type (hd cs) = EXIT \<and> tl cs = [])" using exit_typed [OF top [unfolded hs]] cs ex by blast
  have commands: "commands_ok os cs" using ok files hs by (auto simp: commands_ok_def)
  from main_round_ok [where yyparse = yyparse, OF inv run init skips.here parsed others ready tx [unfolded hs] script(1) nul _ _ small pl
      commands os e exit _ job]
  show ?thesis using room av bytes len bg script(2) hs by simp
qed

text \<open>A job in the background, typed into the shell of the other examples with the automaton as its
  parser.\<close>

definition demo_typed :: "cmd_tree list" where
  "demo_typed = [\<lparr>tree_content = Program ''sleep'' [''5''], tree_redir = [], tree_bg = True\<rparr>]"

definition demo_lalr :: "env \<Rightarrow> string \<Rightarrow> string yyparse" where
  "demo_lalr env dir w st = map_option (\<lambda>(ret, ended, w'). (ret, ended, w', st)) (yyparse_script env Some w)"

theorem typed_line_runs_witness:
  "\<exists>sh'. main_round demo_lalr demo_os (type_line (cmds_tokens demo_typed) @ ''jobs'') demo_shell = Some (''jobs'', sh')
    \<and> is_running (quash sh') \<and> table sh' = [(1, [42], ''sleep 9 & ''), (2, [500], ''sleep 5 & '')]"
proof -
  obtain st where st: "initialize_memory_pool 1024 (sh_heap demo_shell) = Some st" "pool_ready st"
    "room st = 1024" "8000 \<le> avail (pheap st)" by (rule demo_pool)
  have f: "is_running (quash demo_shell)" "next_job_id demo_shell < INT_MAX" "next_job_id demo_shell = 2"
    "forks demo_shell = 0" "polls demo_shell = 0"
    by (simp_all add: demo_shell_def INT_MAX_def is_running_def)
  have t: "demo_typed \<noteq> []" "list_all typable_cmd demo_typed" "length (cmds_tokens demo_typed) + 9 < YYMAXDEPTH"
    "length demo_typed = 1" "\<exists>t \<in> set demo_typed. tree_bg t" "map tree_content demo_typed \<noteq> [Exit]"
    by (simp_all add: demo_typed_def typable_cmd_def typable_string_def BACKSLASH_def cmd_tokens_def redir_tokens_def YYMAXDEPTH_def)
  have top: "top (sh_env demo_shell) Some demo_typed = Some (demo_bg @ [demo_eoc])"
    by (simp add: top_def demo_typed_def cmd_top_def cmd_content_def Let_def mk_redirect_def demo_bg_def demo_eoc_def)
  note ev = script_text_def script_strings_def script_commands_def holder_strings_def demo_bg_def demo_eoc_def
    mk_command_holder_def mk_generic_command_def mk_eoc_def get_command_holder_type_def has_flag_def flag_defs
  have tx: "script_text (demo_bg @ [demo_eoc]) = ''sleep 5 & ''" "length (script_strings (demo_bg @ [demo_eoc])) = 4"
    by (simp_all add: ev)
  have files: "\<forall>h \<in> set (demo_bg @ [demo_eoc]). files_open demo_os h" by (simp add: files_open_def demo_os_def)
  have w: "os_willing demo_os" by (simp add: os_willing_def demo_os_def)
  have v: "poll_view demo_os (polls demo_shell) (table demo_shell) = ([(1, [42], ''sleep 9 & '')], [], 2)"
    unfolding demo_shell_table f by (simp add: demo_os_def)
  have p: "child_pids demo_os (forks demo_shell) (length demo_typed) = [500]"
    by (simp add: child_pids_def f t demo_os_def)
  have b: "script_bytes (length demo_typed) ''sleep 5 & '' demo_shell \<le> avail (pheap st)"
    using st(4) by (simp add: script_bytes_def demo_shell_table t)
  have m: "NUL \<notin> set ''sleep 5 & ''" "116 + 32 * length (script_strings (demo_bg @ [demo_eoc]))
      + 14 * length demo_typed + length ''sleep 5 & '' \<le> room st"
    "80 + 24 * length (script_strings (demo_bg @ [demo_eoc])) \<le> avail (pheap st)" "length ''sleep 5 & '' < 2 ^ 63"
    using tx t(4) st by simp_all
  let ?w = "type_line (cmds_tokens demo_typed) @ ''jobs''"
  have lalr: "yyparse_script (sh_env demo_shell) Some ?w = Some (Some (Some (demo_bg @ [demo_eoc])), False, ''jobs'')"
    by (rule typed_line_script [OF t(1-3) top])
  then have y: "demo_lalr (sh_env demo_shell) (cwd demo_shell) ?w st = Some (Some (Some (demo_bg @ [demo_eoc])), False, ''jobs'', st)"
    by (simp add: demo_lalr_def)
  from typed_line_runs [where yyparse = demo_lalr, OF demo_shell_good f(1) st(1) t(1-3) top y lalr pool_kept_refl st(2) tx(1) [symmetric]
      m files w t(6) b f(2)]
  show ?thesis using t(5) v p f(3) by auto
qed

subsection \<open>The end of the input\<close>

lemma yyparse_script_end: "yyparse_script env realpath [] = Some (Some None, True, [])"
proof -
  have "scan_line [] = ([], END, [])" by (subst scan_line.simps) (subst yylex.simps, simp)
  from yyparse_script_reads [OF this, of env realpath] show ?thesis by (simp add: read_script_end YYMAXDEPTH_def)
qed

text \<open>C31: Once the last line of the input has been read, and it did not end the shell, the shell neither
  goes on nor stops: with the generated automaton as its parser, which takes nothing from the pool
  there, any number of calls of \<open>parse\<close> returns, with no script, although the first has already ended
  the main loop; so the inner loop, and the main loop with it, have no result.\<close>

theorem main_loop_never_ends:
  assumes "is_running (quash sh)" and "initialize_memory_pool 1024 (sh_heap sh) = Some st0"
    and "\<forall>st. yyparse (sh_env sh) (cwd sh) [] st =
      map_option (\<lambda>(ret, ended, w). (ret, ended, w, st)) (yyparse_script (sh_env sh) realpath [])"
  shows "(\<forall>n. null_parses n (yyparse (sh_env sh) (cwd sh)) (quash sh) [] st0 =
      Some (if n = 0 then quash sh else end_main_loop (quash sh), [], st0))
    \<and> next_script (yyparse (sh_env sh) (cwd sh)) (quash sh) [] st0 = None \<and> main_loop yyparse os [] sh = None"
proof -
  have y: "yyparse (sh_env sh) (cwd sh) [] st = Some (Some None, True, [], st)" for st
    using assms(3) by (simp add: yyparse_script_end)
  then have e: "at_end (yyparse (sh_env sh) (cwd sh)) []" by (simp add: at_end_def)
  show ?thesis
    using null_parses_at_end [where yyparse = "yyparse (sh_env sh) (cwd sh)" and w = "[]", OF y]
      next_script_at_end [OF e] main_loop_at_end [where yyparse = yyparse and w = "[]", OF assms(1) e] by simp
qed

theorem main_loop_never_ends_witness:
  "\<exists>st. initialize_memory_pool 1024 (sh_heap demo_shell) = Some st
    \<and> null_parses 3 (demo_lalr (sh_env demo_shell) (cwd demo_shell)) (quash demo_shell) [] st
      = Some (end_main_loop (quash demo_shell), [], st)
    \<and> main_loop demo_lalr demo_os [] demo_shell = None"
proof -
  obtain st where st: "initialize_memory_pool 1024 (sh_heap demo_shell) = Some st" by (rule demo_pool)
  have "is_running (quash demo_shell)" by (simp add: demo_shell_def is_running_def)
  from main_loop_never_ends [where yyparse = demo_lalr and realpath = Some and os = demo_os, OF this st] st
  show ?thesis by (simp add: demo_lalr_def)
qed

end
