(* ===== verification/Philosophers.thy ===== *)
theory Philosophers
  imports CStrings
begin

text \<open>
  The dining philosophers of \<open>src/lab6/pthreads_dp\<close> (\<open>dining_philosophers.c\<close>,
  \<open>dp_asymmetric.c\<close>, \<open>dp_waiter.c\<close>) and of \<open>src/lab10/procfs/dine.c\<close>: five threads running
  \<open>dp_thread\<close> over five mutexes, stepped one action at a time in any order, and the main
  thread. The programs differ in how a philosopher grabs the chopsticks, a parameter here.
\<close>

subsection \<open>The table\<close>

definition NUM_PHILS :: nat where "NUM_PHILS = 5"
definition NUM_CHOPS :: nat where "NUM_CHOPS = NUM_PHILS"

text \<open>Where a thread is in \<open>dp_thread\<close>: at the loop's test, thinking (thoughts left), before its
  lock call number \<open>k\<close>, eating (mouthfuls left), before its unlock call number \<open>k\<close>, before the
  update of its progress, or finished.\<close>

datatype pc = Start | Thinking nat | Grab nat | Eating nat | Put nat | Update | Gone

record philosopher =
  at :: pc
  eat_rnd :: nat
  prog :: int
  prog_total :: int

text \<open>A mutex is held by a philosopher or free; \<open>Diners\<close>, \<open>chopstick\<close> and \<open>Stop\<close> are the
  globals. The element of \<open>Diners\<close> at \<open>i\<close> is the philosopher with \<open>id = i\<close>.\<close>

record dp_table =
  Diners :: "philosopher list"
  chopstick :: "nat option list"
  Stop :: bool
  available_chopsticks :: "int list"

definition left_phil :: "nat \<Rightarrow> nat" where
  "left_phil p = (if p = NUM_PHILS - 1 then 0 else p + 1)"

definition right_phil :: "nat \<Rightarrow> nat" where
  "right_phil p = (if p = 0 then NUM_PHILS - 1 else p - 1)"

definition left_chop :: "nat \<Rightarrow> nat" where
  "left_chop p = p"

definition right_chop :: "nat \<Rightarrow> nat" where
  "right_chop p = (if p = 0 then NUM_CHOPS - 1 else p - 1)"

subsection \<open>Grabbing\<close>

text \<open>The lock calls of a philosopher in their order.\<close>

definition symmetric :: "nat \<Rightarrow> nat list" where
  "symmetric p = [left_chop p, right_chop p]"

definition asymmetric :: "nat \<Rightarrow> nat list" where
  "asymmetric p = (if p mod 2 = 0 then [left_chop p, right_chop p] else [right_chop p, left_chop p])"

text \<open>\<open>dp_waiter.c\<close> locks only if \<open>available_chopsticks[NUM_CHOPS] == 2\<close>; the array has
  \<open>NUM_CHOPS\<close> elements, so the read is out of bounds: undefined.\<close>

definition with_waiter :: "int list \<Rightarrow> nat \<Rightarrow> nat list option" where
  "with_waiter available p =
     (if NUM_CHOPS < length available
      then Some (if available ! NUM_CHOPS = 2 then [left_chop p, right_chop p] else [])
      else None)"

text \<open>\<open>dine.c\<close> is compiled with \<open>DEADLOCK\<close> set or not.\<close>

definition dine_order :: "bool \<Rightarrow> nat \<Rightarrow> nat list" where
  "dine_order deadlock p = (if deadlock then symmetric p else asymmetric p)"

subsection \<open>One step of a thread\<close>

definition set_diner :: "nat \<Rightarrow> (philosopher \<Rightarrow> philosopher) \<Rightarrow> dp_table \<Rightarrow> dp_table" where
  "set_diner p f tb = tb\<lparr>Diners := (Diners tb)[p := f (Diners tb ! p)]\<rparr>"

text \<open>\<open>pthread_mutex_lock\<close> waits (\<open>None\<close>) while the mutex is held.\<close>

definition lock :: "nat \<Rightarrow> nat \<Rightarrow> dp_table \<Rightarrow> dp_table option" where
  "lock p c tb = (case chopstick tb ! c of
     None \<Rightarrow> Some (tb\<lparr>chopstick := (chopstick tb)[c := Some p]\<rparr>) | Some q \<Rightarrow> None)"

definition unlock :: "nat \<Rightarrow> dp_table \<Rightarrow> dp_table" where
  "unlock c tb = tb\<lparr>chopstick := (chopstick tb)[c := None]\<rparr>"

text \<open>The next action of philosopher \<open>p\<close>, \<open>None\<close> when it waits or has finished; \<open>rnd\<close> are the
  next results of \<open>rand\<close>.\<close>

definition dp_thread :: "(nat \<Rightarrow> nat list) \<Rightarrow> nat \<times> nat \<Rightarrow> nat \<Rightarrow> dp_table \<Rightarrow> dp_table option" where
  "dp_thread order rnd p tb = (let me = Diners tb ! p in case at me of
     Start \<Rightarrow>
       if Stop tb then Some (set_diner p (\<lambda>d. d\<lparr>at := Gone\<rparr>) tb)
       else Some (set_diner p (\<lambda>d. d\<lparr>at := Thinking (fst rnd mod 1000), eat_rnd := snd rnd mod 100\<rparr>) tb)
   | Thinking n \<Rightarrow> Some (set_diner p (\<lambda>d. d\<lparr>at := (if n = 0 then Grab 0 else Thinking (n - 1))\<rparr>) tb)
   | Grab k \<Rightarrow>
       if k < length (order p)
       then do { tb \<leftarrow> lock p (order p ! k) tb; Some (set_diner p (\<lambda>d. d\<lparr>at := Grab (Suc k)\<rparr>) tb) }
       else Some (set_diner p (\<lambda>d. d\<lparr>at := Eating (eat_rnd d)\<rparr>) tb)
   | Eating n \<Rightarrow> Some (set_diner p (\<lambda>d. d\<lparr>at := (if n = 0 then Put 0 else Eating (n - 1))\<rparr>) tb)
   | Put k \<Rightarrow>
       if k = 0 then Some (set_diner p (\<lambda>d. d\<lparr>at := Put 1\<rparr>) (unlock (right_chop p) tb))
       else Some (set_diner p (\<lambda>d. d\<lparr>at := Update\<rparr>) (unlock (left_chop p) tb))
   | Update \<Rightarrow> Some (set_diner p (\<lambda>d. d\<lparr>at := Start, prog := wrap32 (prog d + 1), prog_total := wrap32 (prog_total d + 1)\<rparr>) tb)
   | Gone \<Rightarrow> None)"

text \<open>The thread of \<open>dp_waiter.c\<close>; it unlocks whether it has locked or not.\<close>

definition waiter_thread :: "nat \<times> nat \<Rightarrow> nat \<Rightarrow> dp_table \<Rightarrow> dp_table option" where
  "waiter_thread rnd p tb = (case at (Diners tb ! p) of
     Grab k \<Rightarrow> do { order \<leftarrow> with_waiter (available_chopsticks tb) p; dp_thread (\<lambda>p. order) rnd p tb }
   | a \<Rightarrow> dp_thread (\<lambda>p. []) rnd p tb)"

definition set_table :: dp_table where
  "set_table = \<lparr>Diners = replicate NUM_PHILS \<lparr>at = Start, eat_rnd = 0, prog = 0, prog_total = 0\<rparr>,
     chopstick = replicate NUM_CHOPS None, Stop = False,
     available_chopsticks = replicate NUM_CHOPS 1\<rparr>"

subsection \<open>The main thread\<close>

text \<open>The loop that resets the counters is one step here, as are the two additions of a philosopher's
  update: what other threads do in between is not represented.\<close>

definition reset_progress :: "dp_table \<Rightarrow> dp_table" where
  "reset_progress tb = tb\<lparr>Diners := map (\<lambda>d. d\<lparr>prog := 0\<rparr>) (Diners tb)\<rparr>"

definition check_deadlock :: "dp_table \<Rightarrow> bool" where
  "check_deadlock tb \<longleftrightarrow> (\<forall>d \<in> set (Diners tb). prog d = 0)"

definition progress_cell :: "nat \<Rightarrow> philosopher \<Rightarrow> string" where
  "progress_cell i d = ''p'' @ show_int (int i) @ ''='' @
     pad_left 16 (CHR '' '') (show_int (prog d) @ ''/'' @ show_int (prog_total d))"

text \<open>The two loops of \<open>print_progress\<close>, five to a line: \<open>j\<close> is the place in the line.\<close>

fun progress_lines :: "nat \<Rightarrow> nat \<Rightarrow> philosopher list \<Rightarrow> string" where
  "progress_lines j i [] = (if j = 0 then [] else [NL])"
| "progress_lines j i (d # ds) =
     (if j < 4 then progress_cell i d @ ''   '' @ progress_lines (Suc j) (Suc i) ds
      else progress_cell i d @ [NL] @ progress_lines 0 (Suc i) ds)"

definition print_progress :: "dp_table \<Rightarrow> string" where
  "print_progress tb = progress_lines 0 0 (Diners tb) @ [NL]"

text \<open>A schedule: which philosopher acts next, with the results of \<open>rand\<close> it would get. A
  schedule with an action that has to wait is none (\<open>None\<close>).\<close>

type_synonym schedule = "((nat \<times> nat) \<times> nat) list"

fun run_threads :: "(nat \<Rightarrow> nat list) \<Rightarrow> schedule \<Rightarrow> dp_table \<Rightarrow> dp_table option" where
  "run_threads order [] tb = Some tb"
| "run_threads order ((rnd, p) # s) tb =
     (if p < NUM_PHILS then do { tb \<leftarrow> dp_thread order rnd p tb; run_threads order s tb } else None)"

text \<open>The accounting periods; \<open>sleep\<close> lets the threads run, one schedule for each period.\<close>

fun periods :: "(nat \<Rightarrow> nat list) \<Rightarrow> schedule list \<Rightarrow> nat \<Rightarrow> dp_table \<Rightarrow> (bool \<times> dp_table \<times> string) option" where
  "periods order [] iter tb = None"
| "periods order (s # ss) iter tb =
     do { tb \<leftarrow> run_threads order s (reset_progress tb);
          let deadlock = check_deadlock tb;
          (if \<not> deadlock \<and> Suc iter < 10
           then do { (r, tb', text) \<leftarrow> periods order ss (Suc iter) tb; Some (r, tb', print_progress tb @ text) }
           else Some (deadlock, tb, print_progress tb)) }"

text \<open>\<open>main\<close>, with a schedule for the end: the threads must finish before \<open>pthread_join\<close> returns.
  The main thread unlocks mutexes it does not hold; the C library frees them all the same.\<close>

definition dp_main :: "(nat \<Rightarrow> nat list) \<Rightarrow> schedule list \<Rightarrow> schedule \<Rightarrow> (bool \<times> dp_table \<times> string) option" where
  "dp_main order ss rest =
     do { (deadlock, tb, text) \<leftarrow> periods order ss 0 set_table;
          let tb = tb\<lparr>Stop := True, chopstick := map (\<lambda>c. None) (chopstick tb)\<rparr>;
          tb \<leftarrow> run_threads order rest tb;
          if \<forall>d \<in> set (Diners tb). at d = Gone
          then Some (deadlock, tb, [NL] @ ''Dining Philosophers Update every 5 seconds'' @ [NL]
            @ ''-------------------------------------------'' @ [NL] @ text
            @ (if deadlock then ''Deadlock Detected'' else ''Finished without Deadlock'') @ [NL])
          else None }"

subsection \<open>Reachable tables\<close>

text \<open>The threads act in any order; the main thread resets the progress or sets \<open>Stop\<close>.\<close>

inductive reachable :: "(nat \<Rightarrow> nat list) \<Rightarrow> dp_table \<Rightarrow> bool" for order where
  reach_init: "reachable order set_table"
| reach_thread: "reachable order tb \<Longrightarrow> p < NUM_PHILS \<Longrightarrow> dp_thread order rnd p tb = Some tb' \<Longrightarrow> reachable order tb'"
| reach_reset: "reachable order tb \<Longrightarrow> reachable order (reset_progress tb)"
| reach_stop: "reachable order tb \<Longrightarrow> reachable order (tb\<lparr>Stop := True\<rparr>)"

text \<open>An order locks both chopsticks of a philosopher.\<close>

definition two_chops :: "(nat \<Rightarrow> nat list) \<Rightarrow> bool" where
  "two_chops order \<longleftrightarrow> (\<forall>p < NUM_PHILS. order p = [left_chop p, right_chop p] \<or> order p = [right_chop p, left_chop p])"

text \<open>The chopsticks a philosopher holds, by where it is.\<close>

definition holds :: "(nat \<Rightarrow> nat list) \<Rightarrow> nat \<Rightarrow> pc \<Rightarrow> nat set" where
  "holds order p a = (case a of
     Grab k \<Rightarrow> set (take k (order p)) | Eating n \<Rightarrow> set (order p)
   | Put k \<Rightarrow> if k = 0 then set (order p) else {left_chop p} | b \<Rightarrow> {})"

definition diner_ok :: "philosopher \<Rightarrow> bool" where
  "diner_ok d \<longleftrightarrow> eat_rnd d < 100 \<and> (case at d of
     Thinking n \<Rightarrow> n < 1000 | Eating n \<Rightarrow> n < 100 | Grab k \<Rightarrow> k \<le> 2 | Put k \<Rightarrow> k \<le> 1 | b \<Rightarrow> True)"

definition table_inv :: "(nat \<Rightarrow> nat list) \<Rightarrow> dp_table \<Rightarrow> bool" where
  "table_inv order tb \<longleftrightarrow> length (Diners tb) = NUM_PHILS \<and> length (chopstick tb) = NUM_CHOPS
     \<and> (\<forall>c < NUM_CHOPS. \<forall>p. chopstick tb ! c = Some p \<longleftrightarrow> p < NUM_PHILS \<and> c \<in> holds order p (at (Diners tb ! p)))
     \<and> (\<forall>p < NUM_PHILS. diner_ok (Diners tb ! p))"

lemma chops_less: "p < NUM_PHILS \<Longrightarrow> left_chop p < NUM_CHOPS" "p < NUM_PHILS \<Longrightarrow> right_chop p < NUM_CHOPS"
    "p < NUM_PHILS \<Longrightarrow> left_chop p \<noteq> right_chop p"
  by (auto simp: left_chop_def right_chop_def NUM_CHOPS_def NUM_PHILS_def)

lemma two_chopsD:
  assumes "two_chops order" and "p < NUM_PHILS"
  shows "set (order p) = {left_chop p, right_chop p}" and "length (order p) = 2" and "distinct (order p)"
    and "k < 2 \<Longrightarrow> order p ! k < NUM_CHOPS"
  using assms chops_less [OF assms(2)] by (auto simp: two_chops_def less_2_cases_iff)

lemma set_diner_simps [simp]:
  "p < length (Diners tb) \<Longrightarrow> Diners (set_diner p f tb) ! q = (if q = p then f (Diners tb ! p) else Diners tb ! q)"
  "length (Diners (set_diner p f tb)) = length (Diners tb)"
  "chopstick (set_diner p f tb) = chopstick tb" "Stop (set_diner p f tb) = Stop tb"
  "Diners (unlock c tb) = Diners tb" "chopstick (unlock c tb) = (chopstick tb)[c := None]"
  by (simp_all add: set_diner_def unlock_def nth_list_update)

lemma inv_move:
  assumes "table_inv order tb" and "p < NUM_PHILS" and "diner_ok (f (Diners tb ! p))"
    and "holds order p (at (f (Diners tb ! p))) = holds order p (at (Diners tb ! p))"
  shows "table_inv order (set_diner p f tb)"
  using assms by (auto simp: table_inv_def)

lemma inv_holder:
  assumes "table_inv order tb" and "c < NUM_CHOPS"
  shows "p < NUM_PHILS \<Longrightarrow> c \<in> holds order p (at (Diners tb ! p)) \<Longrightarrow> chopstick tb ! c = Some p"
    and "chopstick tb ! c = Some p \<Longrightarrow> p < NUM_PHILS \<and> c \<in> holds order p (at (Diners tb ! p))"
  using assms by (auto simp: table_inv_def)

lemma inv_iff: "table_inv order tb \<Longrightarrow> p < NUM_PHILS \<Longrightarrow> c < NUM_CHOPS \<Longrightarrow>
    chopstick tb ! c = Some p \<longleftrightarrow> c \<in> holds order p (at (Diners tb ! p))"
  by (simp add: table_inv_def)

lemma inv_chops:
  assumes inv: "table_inv order tb" and p: "p < NUM_PHILS" and d: "diner_ok d" and l: "length cs = NUM_CHOPS"
    and own: "\<And>c q. c < NUM_CHOPS \<Longrightarrow> q \<noteq> p \<Longrightarrow> cs ! c = Some q \<longleftrightarrow> chopstick tb ! c = Some q"
    and mine: "\<And>c. c < NUM_CHOPS \<Longrightarrow> cs ! c = Some p \<longleftrightarrow> c \<in> holds order p (at d)"
  shows "table_inv order (tb\<lparr>chopstick := cs, Diners := (Diners tb)[p := d]\<rparr>)"
proof -
  have "cs ! c = Some q \<longleftrightarrow> q < NUM_PHILS \<and> c \<in> holds order q (at ((Diners tb)[p := d] ! q))" if "c < NUM_CHOPS" for c q
    using inv p own [OF that, of q] mine [OF that] that by (cases "q = p") (auto simp: table_inv_def)
  moreover have "diner_ok ((Diners tb)[p := d] ! q)" if "q < NUM_PHILS" for q
    using inv p d that by (cases "q = p") (auto simp: table_inv_def)
  ultimately show ?thesis using inv l by (simp add: table_inv_def)
qed

lemma inv_lock:
  assumes inv: "table_inv order tb" and p: "p < NUM_PHILS" and d: "diner_ok (f (Diners tb ! p))" and c: "c < NUM_CHOPS"
    and l: "lock p c tb = Some tb'"
    and h: "holds order p (at (f (Diners tb ! p))) = insert c (holds order p (at (Diners tb ! p)))"
  shows "table_inv order (set_diner p f tb')"
proof -
  have n: "length (chopstick tb) = NUM_CHOPS" using inv by (simp add: table_inv_def)
  have free: "chopstick tb ! c = None" and tb': "tb' = tb\<lparr>chopstick := (chopstick tb)[c := Some p]\<rparr>"
    using l by (auto simp: lock_def split: option.splits)
  have "table_inv order (tb\<lparr>chopstick := (chopstick tb)[c := Some p], Diners := (Diners tb)[p := f (Diners tb ! p)]\<rparr>)"
    by (rule inv_chops [OF inv p d]) (auto simp: n c free h nth_list_update inv_iff [OF inv p])
  then show ?thesis by (simp add: set_diner_def tb')
qed

lemma inv_unlock:
  assumes inv: "table_inv order tb" and p: "p < NUM_PHILS" and d: "diner_ok (f (Diners tb ! p))" and c: "c < NUM_CHOPS"
    and own: "c \<in> holds order p (at (Diners tb ! p))"
    and h: "holds order p (at (f (Diners tb ! p))) = holds order p (at (Diners tb ! p)) - {c}"
  shows "table_inv order (set_diner p f (unlock c tb))"
proof -
  have n: "length (chopstick tb) = NUM_CHOPS" using inv by (simp add: table_inv_def)
  have mine: "chopstick tb ! c = Some p" using inv_holder [OF inv c] p own by blast
  have "table_inv order (tb\<lparr>chopstick := (chopstick tb)[c := None], Diners := (Diners tb)[p := f (Diners tb ! p)]\<rparr>)"
    by (rule inv_chops [OF inv p d]) (auto simp: n c mine h nth_list_update inv_iff [OF inv p])
  then show ?thesis by (simp add: set_diner_def unlock_def)
qed

lemma dp_thread_inv:
  assumes inv: "table_inv order tb" and two: "two_chops order" and p: "p < NUM_PHILS"
    and step: "dp_thread order rnd p tb = Some tb'"
  shows "table_inv order tb'"
proof -
  let ?d = "Diners tb ! p"
  have ok: "diner_ok ?d" using inv p by (simp add: table_inv_def)
  note two = two_chopsD [OF two p] and chops = chops_less [OF p]
  note move = inv_move [OF inv p] and defs = dp_thread_def Let_def diner_ok_def holds_def
  show ?thesis
  proof (cases "at ?d")
    case Start
    then show ?thesis using step ok by (auto simp: defs intro!: move split: if_splits)
  next
    case (Thinking n)
    then show ?thesis using step ok by (cases n) (auto simp: defs intro!: move)
  next
    case (Grab k)
    show ?thesis
    proof (cases "k < 2")
      case True
      then obtain tb1 where l: "lock p (order p ! k) tb = Some tb1" and tb': "tb' = set_diner p (\<lambda>d. d\<lparr>at := Grab (Suc k)\<rparr>) tb1"
        using step Grab two(2) by (auto simp: defs bind_eq_Some_conv)
      show ?thesis unfolding tb'
        by (rule inv_lock [OF inv p _ two(4) [OF True] l])
          (use ok Grab True two(2) in \<open>auto simp: diner_ok_def holds_def take_Suc_conv_app_nth\<close>)
    next
      case False
      with Grab ok have "k = 2" by (simp add: diner_ok_def)
      then show ?thesis using step ok Grab two(2) by (auto simp: defs intro!: move)
    qed
  next
    case (Eating n)
    then show ?thesis using step ok by (cases n) (auto simp: defs intro!: move)
  next
    case (Put k)
    show ?thesis
    proof (cases "k = 0")
      case True
      then have "tb' = set_diner p (\<lambda>d. d\<lparr>at := Put 1\<rparr>) (unlock (right_chop p) tb)" using step Put by (simp add: defs)
      then show ?thesis using Put True ok two(1) chops
        by (auto simp: diner_ok_def holds_def intro!: inv_unlock [OF inv p])
    next
      case False
      then have "tb' = set_diner p (\<lambda>d. d\<lparr>at := Update\<rparr>) (unlock (left_chop p) tb)" using step Put by (simp add: defs)
      then show ?thesis using Put False ok chops
        by (auto simp: diner_ok_def holds_def intro!: inv_unlock [OF inv p])
    qed
  next
    case Update
    then show ?thesis using step ok by (auto simp: defs intro!: move)
  next
    case Gone
    then show ?thesis using step by (simp add: defs)
  qed
qed

lemma reachable_inv:
  assumes "reachable order tb" and two: "two_chops order"
  shows "table_inv order tb"
  using assms(1)
proof induction
  case reach_init
  then show ?case by (auto simp: table_inv_def set_table_def holds_def diner_ok_def)
next
  case (reach_thread tb p rnd tb')
  then show ?case using dp_thread_inv two by blast
next
  case (reach_reset tb)
  then show ?case by (auto simp: table_inv_def reset_progress_def diner_ok_def)
next
  case (reach_stop tb)
  then show ?case by (simp add: table_inv_def)
qed

subsection \<open>Progress\<close>

text \<open>A bound on the actions a thread takes before its next update of the progress.\<close>

fun rank :: "pc \<Rightarrow> nat" where
  "rank Gone = 0" | "rank Update = 1" | "rank (Put k) = 3 - k" | "rank (Eating n) = 4 + n"
| "rank (Grab k) = 106 - k" | "rank (Thinking n) = 107 + n" | "rank Start = 1107"

definition total_rank :: "dp_table \<Rightarrow> nat" where
  "total_rank tb = sum_list (map (\<lambda>d. rank (at d)) (Diners tb))"

text \<open>The meals finished during a schedule.\<close>

fun meals :: "(nat \<Rightarrow> nat list) \<Rightarrow> schedule \<Rightarrow> dp_table \<Rightarrow> nat" where
  "meals order [] tb = 0"
| "meals order ((rnd, p) # s) tb =
     (if at (Diners tb ! p) = Update then 1 else 0)
       + (case dp_thread order rnd p tb of None \<Rightarrow> 0 | Some tb' \<Rightarrow> meals order s tb')"

lemma sum_list_update_nat:
  fixes xs :: "nat list"
  shows "p < length xs \<Longrightarrow> sum_list (xs[p := x]) + xs ! p = sum_list xs + x"
  by (induction xs arbitrary: p) (auto split: nat.splits simp: less_Suc_eq_0_disj)

lemma total_rank_set: "p < length (Diners tb) \<Longrightarrow>
    total_rank (set_diner p f tb) + rank (at (Diners tb ! p)) = total_rank tb + rank (at (f (Diners tb ! p)))"
  using sum_list_update_nat [of p "map (\<lambda>d. rank (at d)) (Diners tb)" "rank (at (f (Diners tb ! p)))"]
  by (simp add: total_rank_def set_diner_def map_update)

lemma lock_Diners: "lock p c tb = Some tb' \<Longrightarrow> Diners tb' = Diners tb"
  by (auto simp: lock_def split: option.splits)

text \<open>What a step does to the diner who takes it.\<close>

lemma dp_thread_diner:
  assumes inv: "table_inv order tb" and two: "two_chops order" and p: "p < NUM_PHILS"
    and step: "dp_thread order rnd p tb = Some tb'"
  obtains f tb1 where "tb' = set_diner p f tb1" and "Diners tb1 = Diners tb"
    and "Suc (rank (at (f (Diners tb ! p)))) \<le> rank (at (Diners tb ! p)) + (if at (Diners tb ! p) = Update then 1107 else 0)"
proof -
  let ?d = "Diners tb ! p"
  have ok: "diner_ok ?d" using inv p by (simp add: table_inv_def)
  note len = two_chopsD(2) [OF two p]
  have "\<exists>f tb1. tb' = set_diner p f tb1 \<and> Diners tb1 = Diners tb
      \<and> Suc (rank (at (f ?d))) \<le> rank (at ?d) + (if at ?d = Update then 1107 else 0)"
  proof (cases "at ?d")
    case Start
    show ?thesis
    proof (cases "Stop tb")
      case True
      then show ?thesis using step Start
        by (intro exI [of _ "\<lambda>d. d\<lparr>at := Gone\<rparr>"] exI [of _ tb]) (simp add: dp_thread_def)
    next
      case False
      then show ?thesis using step Start
        by (intro exI [of _ "\<lambda>d. d\<lparr>at := Thinking (fst rnd mod 1000), eat_rnd := snd rnd mod 100\<rparr>"] exI [of _ tb])
          (simp add: dp_thread_def)
    qed
  next
    case (Thinking n)
    then show ?thesis using step
      by (intro exI [of _ "\<lambda>d. d\<lparr>at := (if n = 0 then Grab 0 else Thinking (n - 1))\<rparr>"] exI [of _ tb])
        (simp add: dp_thread_def)
  next
    case (Grab k)
    show ?thesis
    proof (cases "k < 2")
      case True
      then obtain tb1 where "lock p (order p ! k) tb = Some tb1" "tb' = set_diner p (\<lambda>d. d\<lparr>at := Grab (Suc k)\<rparr>) tb1"
        using step Grab len by (auto simp: dp_thread_def bind_eq_Some_conv)
      then show ?thesis using Grab True lock_Diners
        by (intro exI [of _ "\<lambda>d. d\<lparr>at := Grab (Suc k)\<rparr>"] exI [of _ tb1]) auto
    next
      case False
      with Grab ok have "k = 2" by (simp add: diner_ok_def)
      then show ?thesis using step ok Grab len
        by (intro exI [of _ "\<lambda>d. d\<lparr>at := Eating (eat_rnd d)\<rparr>"] exI [of _ tb]) (simp add: dp_thread_def diner_ok_def)
    qed
  next
    case (Eating n)
    then show ?thesis using step
      by (intro exI [of _ "\<lambda>d. d\<lparr>at := (if n = 0 then Put 0 else Eating (n - 1))\<rparr>"] exI [of _ tb])
        (simp add: dp_thread_def)
  next
    case (Put k)
    show ?thesis
    proof (cases "k = 0")
      case True
      then show ?thesis using step Put
        by (intro exI [of _ "\<lambda>d. d\<lparr>at := Put 1\<rparr>"] exI [of _ "unlock (right_chop p) tb"]) (simp add: dp_thread_def)
    next
      case False
      then have "k = 1" using ok Put by (simp add: diner_ok_def)
      then show ?thesis using step Put
        by (intro exI [of _ "\<lambda>d. d\<lparr>at := Update\<rparr>"] exI [of _ "unlock (left_chop p) tb"]) (simp add: dp_thread_def)
    qed
  next
    case Update
    then show ?thesis using step
      by (intro exI [of _ "\<lambda>d. d\<lparr>at := Start, prog := wrap32 (prog d + 1), prog_total := wrap32 (prog_total d + 1)\<rparr>"] exI [of _ tb])
        (simp add: dp_thread_def)
  next
    case Gone
    then show ?thesis using step by (simp add: dp_thread_def)
  qed
  then show ?thesis using that by blast
qed

lemma dp_thread_rank:
  assumes inv: "table_inv order tb" and two: "two_chops order" and p: "p < NUM_PHILS"
    and step: "dp_thread order rnd p tb = Some tb'"
  shows "Suc (total_rank tb') \<le> total_rank tb + (if at (Diners tb ! p) = Update then 1107 else 0)"
proof -
  obtain f tb1 where f: "tb' = set_diner p f tb1" "Diners tb1 = Diners tb"
    "Suc (rank (at (f (Diners tb ! p)))) \<le> rank (at (Diners tb ! p)) + (if at (Diners tb ! p) = Update then 1107 else 0)"
    by (rule dp_thread_diner [OF inv two p step])
  have "p < length (Diners tb1)" using inv p f(2) by (simp add: table_inv_def)
  from total_rank_set [OF this, of f] f show ?thesis by (simp add: total_rank_def)
qed

lemma run_threads_meals:
  assumes "table_inv order tb" and two: "two_chops order" and "run_threads order s tb = Some tb'"
  shows "length s + total_rank tb' \<le> total_rank tb + 1107 * meals order s tb"
  using assms(1,3)
proof (induction s arbitrary: tb)
  case Nil
  then show ?case by simp
next
  case (Cons a s)
  obtain rnd p where a: "a = (rnd, p)" by (cases a)
  from Cons.prems(2) a obtain tb1 where p: "p < NUM_PHILS" and st: "dp_thread order rnd p tb = Some tb1"
    and r: "run_threads order s tb1 = Some tb'" by (auto simp: bind_eq_Some_conv split: if_splits)
  from Cons.IH [OF dp_thread_inv [OF Cons.prems(1) two p st] r] dp_thread_rank [OF Cons.prems(1) two p st] show ?case
    by (simp add: a st split: if_splits)
qed

lemma total_rank_bound:
  assumes "table_inv order tb"
  shows "total_rank tb \<le> 5535"
proof -
  have "rank (at d) \<le> 1107" if "d \<in> set (Diners tb)" for d
  proof -
    have "diner_ok d" using assms that by (auto simp: table_inv_def in_set_conv_nth)
    then show ?thesis by (cases "at d") (auto simp: diner_ok_def)
  qed
  then have "sum_list (map (\<lambda>d. rank (at d)) (Diners tb)) \<le> sum_list (map (\<lambda>d. 1107) (Diners tb))"
    by (intro sum_list_mono) auto
  also have "\<dots> = 5535" using assms by (simp add: table_inv_def NUM_PHILS_def sum_list_triv)
  finally show ?thesis by (simp add: total_rank_def)
qed

subsection \<open>Deadlock\<close>

text \<open>The threads that cannot act: those that have finished and those that wait for a chopstick.\<close>

lemma dp_thread_stuck:
  assumes inv: "table_inv order tb" and two: "two_chops order" and p: "p < NUM_PHILS"
    and stuck: "dp_thread order rnd p tb = None"
  shows "at (Diners tb ! p) = Gone
    \<or> (\<exists>k q. at (Diners tb ! p) = Grab k \<and> k < 2 \<and> chopstick tb ! (order p ! k) = Some q)"
  using stuck two_chopsD(2) [OF two p]
  by (auto simp: dp_thread_def Let_def lock_def bind_eq_None_conv split: pc.splits if_splits option.splits)

lemma NUM_PHILS_cases: "p < NUM_PHILS \<Longrightarrow> p = 0 \<or> p = 1 \<or> p = 2 \<or> p = 3 \<or> p = 4"
  by (auto simp: NUM_PHILS_def)

lemma asymmetric_two_chops: "two_chops asymmetric"
  by (simp add: two_chops_def asymmetric_def)

text \<open>When every thread is stuck, the holder of a chopstick waits for its second one; then that
  is the first chopstick of its holder. Along the asymmetric order this chain ends.\<close>

lemma stuck_chain:
  assumes inv: "table_inv order tb" and two: "two_chops order"
    and stuck: "\<forall>p < NUM_PHILS. \<exists>rnd. dp_thread order rnd p tb = None"
    and p: "p < NUM_PHILS" and a: "at (Diners tb ! p) = Grab 1"
  shows "\<exists>q < NUM_PHILS. at (Diners tb ! q) = Grab 1 \<and> order q ! 0 = order p ! 1"
proof -
  obtain q where q: "chopstick tb ! (order p ! 1) = Some q"
    using stuck p dp_thread_stuck [OF inv two p] a by fastforce
  have c: "order p ! 1 < NUM_CHOPS" using two_chopsD(4) [OF two p] by simp
  from inv_holder(2) [OF inv c q] have h: "q < NUM_PHILS" "order p ! 1 \<in> holds order q (at (Diners tb ! q))" by auto
  from stuck h(1) dp_thread_stuck [OF inv two h(1)] obtain k where k: "at (Diners tb ! q) = Grab k" "k < 2"
    using h(2) by (fastforce simp: holds_def)
  with h(2) have "k = 1" by (cases k) (auto simp: holds_def)
  moreover obtain x y where "order q = [x, y]" using two h(1) by (auto simp: two_chops_def)
  ultimately show ?thesis using h k by (auto simp: holds_def)
qed

lemma asymmetric_chain_ends:
  assumes "p < NUM_PHILS" and "q < NUM_PHILS" and "asymmetric q ! 0 = asymmetric p ! 1"
  shows "p = 0 \<and> q = 4"
  using NUM_PHILS_cases [OF assms(1)] NUM_PHILS_cases [OF assms(2)] assms(3)
  by (auto simp: asymmetric_def left_chop_def right_chop_def NUM_CHOPS_def NUM_PHILS_def)

lemma asymmetric_moves:
  assumes inv: "table_inv asymmetric tb" and stuck: "\<forall>p < NUM_PHILS. \<exists>rnd. dp_thread asymmetric rnd p tb = None"
  shows "\<forall>p < NUM_PHILS. at (Diners tb ! p) = Gone"
proof -
  note two = asymmetric_two_chops and chain = stuck_chain [OF inv asymmetric_two_chops stuck]
  have none: "at (Diners tb ! p) \<noteq> Grab 1" if "p < NUM_PHILS" for p
  proof
    assume a: "at (Diners tb ! p) = Grab 1"
    from chain [OF that a] obtain q where q: "q < NUM_PHILS" "at (Diners tb ! q) = Grab 1" "asymmetric q ! 0 = asymmetric p ! 1" by blast
    from chain [OF q(1,2)] obtain r where r: "r < NUM_PHILS" "asymmetric r ! 0 = asymmetric q ! 1" by blast
    from asymmetric_chain_ends [OF that q(1,3)] asymmetric_chain_ends [OF q(1) r] show False by simp
  qed
  show ?thesis
  proof (intro allI impI)
    fix p assume p: "p < NUM_PHILS"
    show "at (Diners tb ! p) = Gone"
    proof (rule ccontr)
      assume "at (Diners tb ! p) \<noteq> Gone"
      then obtain k q where k: "at (Diners tb ! p) = Grab k" "k < 2" "chopstick tb ! (asymmetric p ! k) = Some q"
        using stuck p dp_thread_stuck [OF inv two p] by blast
      have c: "asymmetric p ! k < NUM_CHOPS" using two_chopsD(4) [OF two p k(2)] .
      from inv_holder(2) [OF inv c k(3)] have h: "q < NUM_PHILS" "asymmetric p ! k \<in> holds asymmetric q (at (Diners tb ! q))" by auto
      from stuck h(1) dp_thread_stuck [OF inv two h(1)] obtain j where j: "at (Diners tb ! q) = Grab j" "j < 2"
        using h(2) by (fastforce simp: holds_def)
      with h(2) have "j = 1" by (cases j) (auto simp: holds_def)
      with none [OF h(1)] j show False by simp
    qed
  qed
qed

text \<open>C37: With the asymmetric order the philosophers never deadlock: as long as the main thread
  has not released the chopsticks, either every thread has finished or some thread can act,
  whatever the schedule so far; two neighbours never eat at the same time; and meals are
  served: of \<open>n\<close> actions in any schedule at least \<open>(n - 5535) / 1107\<close> end a meal, so
  nobody thinks or waits for ever without somebody eating.\<close>

theorem asymmetric_lives:
  assumes "reachable asymmetric tb"
  shows "((\<forall>p < NUM_PHILS. at (Diners tb ! p) = Gone) \<or> (\<exists>p < NUM_PHILS. \<forall>rnd. dp_thread asymmetric rnd p tb \<noteq> None))
    \<and> (\<forall>p < NUM_PHILS. \<forall>m n. at (Diners tb ! p) = Eating m \<longrightarrow> at (Diners tb ! left_phil p) \<noteq> Eating n)
    \<and> (\<forall>s tb'. run_threads asymmetric s tb = Some tb' \<longrightarrow> length s \<le> 5535 + 1107 * meals asymmetric s tb)"
proof (intro conjI)
  note two = asymmetric_two_chops
  have inv: "table_inv asymmetric tb" by (rule reachable_inv [OF assms two])
  show "(\<forall>p < NUM_PHILS. at (Diners tb ! p) = Gone) \<or> (\<exists>p < NUM_PHILS. \<forall>rnd. dp_thread asymmetric rnd p tb \<noteq> None)"
    using asymmetric_moves [OF inv] by (cases "\<forall>p < NUM_PHILS. \<exists>rnd. dp_thread asymmetric rnd p tb = None") auto
  show "\<forall>p < NUM_PHILS. \<forall>m n. at (Diners tb ! p) = Eating m \<longrightarrow> at (Diners tb ! left_phil p) \<noteq> Eating n"
  proof (intro allI impI)
    fix p m n assume p: "p < NUM_PHILS" and e: "at (Diners tb ! p) = Eating m"
    have l: "left_phil p < NUM_PHILS" "left_phil p \<noteq> p" "right_chop (left_phil p) = left_chop p"
      using p by (auto simp: left_phil_def right_chop_def left_chop_def NUM_PHILS_def NUM_CHOPS_def)
    have c: "left_chop p < NUM_CHOPS" by (rule chops_less(1) [OF p])
    have mine: "chopstick tb ! left_chop p = Some p"
      using inv_holder(1) [OF inv c p] e two_chopsD(1) [OF two p] by (simp add: holds_def)
    show "at (Diners tb ! left_phil p) \<noteq> Eating n"
    proof
      assume "at (Diners tb ! left_phil p) = Eating n"
      then have "chopstick tb ! left_chop p = Some (left_phil p)"
        using inv_holder(1) [OF inv c l(1)] two_chopsD(1) [OF two l(1)] l(3) by (simp add: holds_def)
      with mine l(2) show False by simp
    qed
  qed
  show "\<forall>s tb'. run_threads asymmetric s tb = Some tb' \<longrightarrow> length s \<le> 5535 + 1107 * meals asymmetric s tb"
    using run_threads_meals [OF inv two] total_rank_bound [OF inv] by (meson add_leD1 add_le_mono1 order_trans)
qed

definition demo_meal :: schedule where
  "demo_meal = replicate 9 ((0, 0), 2)"

text \<open>A meal of philosopher 2 alone.\<close>

lemma run_threads_reachable: "reachable order tb \<Longrightarrow> run_threads order s tb = Some tb' \<Longrightarrow> reachable order tb'"
proof (induction s arbitrary: tb)
  case Nil
  then show ?case by simp
next
  case (Cons a s)
  then show ?case by (cases a) (auto simp: bind_eq_Some_conv split: if_splits dest: reach_thread)
qed

lemmas dp_eval = dp_thread_def set_table_def set_diner_def lock_def unlock_def asymmetric_def symmetric_def
  left_chop_def right_chop_def NUM_CHOPS_def NUM_PHILS_def

theorem asymmetric_lives_witness:
  "\<exists>tb. run_threads asymmetric demo_meal set_table = Some tb \<and> reachable asymmetric tb \<and> prog_total (Diners tb ! 2) = 1
    \<and> (\<exists>p < NUM_PHILS. \<forall>rnd. dp_thread asymmetric rnd p tb \<noteq> None) \<and> meals asymmetric demo_meal set_table = 1"
proof -
  let ?d = "\<lparr>at = Start, eat_rnd = 0, prog = 0, prog_total = 0\<rparr>"
  let ?tb = "\<lparr>Diners = [?d, ?d, ?d\<lparr>prog := 1, prog_total := 1\<rparr>, ?d, ?d], chopstick = replicate 5 None, Stop = False,
    available_chopsticks = replicate 5 1\<rparr>"
  have r: "run_threads asymmetric demo_meal set_table = Some ?tb" and m: "meals asymmetric demo_meal set_table = 1"
    by code_simp+
  have re: "reachable asymmetric ?tb" by (rule run_threads_reachable [OF reach_init r])
  have t: "\<not> (\<forall>p < NUM_PHILS. at (Diners ?tb ! p) = Gone)" by (auto simp: NUM_PHILS_def intro!: exI [of _ 2])
  with asymmetric_lives [OF re] have "\<exists>p < NUM_PHILS. \<forall>rnd. dp_thread asymmetric rnd p ?tb \<noteq> None" by blast
  then show ?thesis using r m re by (intro exI [of _ ?tb]) simp
qed

text \<open>Each philosopher in turn takes its first chopstick.\<close>

definition all_grab_left :: schedule where
  "all_grab_left = concat (map (\<lambda>p. replicate 3 ((0, 0), p)) [0..<NUM_PHILS])"

text \<open>C38: With the symmetric order the philosophers can deadlock: a table is reachable in
  which nobody has finished and no thread can act, so that the progress stays 0 and the main
  thread reports the deadlock after its next period.\<close>

theorem symmetric_deadlocks:
  "\<exists>tb. reachable symmetric tb \<and> run_threads symmetric all_grab_left set_table = Some tb
    \<and> list_all (\<lambda>p. at (Diners tb ! p) \<noteq> Gone \<and> (\<forall>rnd. dp_thread symmetric rnd p tb = None)) [0..<NUM_PHILS]
    \<and> check_deadlock (reset_progress tb)
    \<and> map_option fst (periods symmetric [all_grab_left] 0 set_table) = Some True"
proof -
  let ?d = "\<lparr>at = Grab 1, eat_rnd = 0, prog = 0, prog_total = 0\<rparr>"
  let ?tb = "\<lparr>Diners = replicate 5 ?d, chopstick = map Some [0, 1, 2, 3, 4], Stop = False,
    available_chopsticks = replicate 5 1\<rparr>"
  have r: "run_threads symmetric all_grab_left set_table = Some ?tb"
    by code_simp
  have "reachable symmetric ?tb" by (rule run_threads_reachable [OF reach_init r])
  moreover have "list_all (\<lambda>p. at (Diners ?tb ! p) \<noteq> Gone \<and> (\<forall>rnd. dp_thread symmetric rnd p ?tb = None)) [0..<NUM_PHILS]"
    by (simp add: dp_eval numeral_eq_Suc)
  moreover have "reset_progress set_table = set_table" by (simp add: reset_progress_def set_table_def)
  ultimately show ?thesis using r
    by (intro exI [of _ ?tb]) (simp add: check_deadlock_def reset_progress_def)
qed

end
