(* ===== verification/PageMap.thy ===== *)
theory PageMap
  imports CStrings
begin

unbundle bit_operations_syntax

text \<open>
  The address translation of \<open>src/lab8/VM_addr_map.c\<close>: sizes read from the input, a page table
  and a map of the frames in use, and demand paging that gives each page the first free frame.
  An \<open>unsigned int\<close> is a \<open>32 word\<close>; the input is the text of standard input.
\<close>

subsection \<open>The program\<close>

record vm =
  page_table :: "int list"
  mem_map :: "int list"

text \<open>\<open>1u << n\<close>, undefined from 32 on, and \<open>a >> n\<close> likewise.\<close>

definition shift_one :: "32 word \<Rightarrow> 32 word option" where
  "shift_one n = (if unat n < 32 then Some (push_bit (unat n) 1) else None)"

definition page_of :: "32 word \<Rightarrow> 32 word \<Rightarrow> 32 word option" where
  "page_of page_size a = (if unat page_size < 32 then Some (drop_bit (unat page_size) a) else None)"

definition init_vm :: "32 word \<Rightarrow> 32 word \<Rightarrow> vm" where
  "init_vm num_pages num_frames =
     \<lparr>page_table = replicate (unat num_pages) (- 1), mem_map = replicate (unat num_frames) 0\<rparr>"

text \<open>The loop that looks for a free frame: the number of frames when there is none.\<close>

fun find_frame :: "int list \<Rightarrow> nat" where
  "find_frame [] = 0"
| "find_frame (x # xs) = (if x = 0 then 0 else Suc (find_frame xs))"

text \<open>The body of the loop over the addresses. Reading or writing past the end of an array is
  undefined: a page that is not in the table, or a fault when no frame is free.\<close>

definition translate :: "32 word \<Rightarrow> 32 word \<Rightarrow> vm \<Rightarrow> (string \<times> 32 word \<times> vm) option" where
  "translate page_size logical_addr vm =
     do { one \<leftarrow> shift_one page_size;
          let offset = logical_addr AND (one - 1);
          page_num \<leftarrow> page_of page_size logical_addr;
          (if unat page_num < length (page_table vm) then Some () else None);
          (text, frame_num, vm) \<leftarrow>
            (if page_table vm ! unat page_num = - 1 then
               (let frame_num = find_frame (mem_map vm) in
                if frame_num < length (mem_map vm)
                then Some (''Page Fault!'' @ [NL], word_of_nat frame_num,
                  vm\<lparr>page_table := (page_table vm)[unat page_num := wrap32 (int frame_num)],
                     mem_map := (mem_map vm)[frame_num := 1]\<rparr>)
                else None)
             else Some ([], word_of_int (page_table vm ! unat page_num), vm));
          let physical_addr = push_bit (unat page_size) frame_num OR offset;
          Some (''Logical Address: 0x'' @ show_hex (uint logical_addr) @ [NL]
            @ ''Page Number: '' @ show_int (sint page_num) @ [NL] @ text
            @ ''Frame Number: '' @ show_int (sint frame_num) @ [NL]
            @ ''Physical Address: 0x'' @ show_hex (uint physical_addr) @ [NL, NL], physical_addr, vm) }"

lemma fgets_rest: "fgets n s = (line, rest, eof) \<Longrightarrow> length rest \<le> length s \<and> (0 < n \<longrightarrow> s \<noteq> [] \<longrightarrow> length rest < length s)"
  by (induction n s arbitrary: line rest eof rule: fgets.induct) (fastforce split: prod.splits if_splits)+

text \<open>Lines of at most 999 characters; a last line without its newline is not looked at, since
  reading it meets the end of the input. A line that is no number leaves \<open>logical_addr\<close> as it
  was, undefined on the first line.\<close>

function addresses :: "32 word option \<Rightarrow> string \<Rightarrow> 32 word list option" where
  "addresses old s =
     (let (line, rest, eof) = fgets 999 s in
      if eof \<or> s = [] then Some []
      else do { a \<leftarrow> (case Option.bind (scan_text ''0x'' line) scan_hex of
                       Some (n, r) \<Rightarrow> Some (word_of_int n) | None \<Rightarrow> old);
                as \<leftarrow> addresses (Some a) rest;
                Some (a # as) })"
  by pat_completeness auto
termination
  by (relation "measure (\<lambda>(old, s). length s)") (use fgets_rest [of 999] in \<open>simp_all del: fgets.simps, metis zero_less_numeral\<close>)

declare addresses.simps [simp del]

fun translate_all :: "32 word \<Rightarrow> 32 word list \<Rightarrow> vm \<Rightarrow> (string \<times> 32 word list \<times> vm) option" where
  "translate_all page_size [] vm = Some ([], [], vm)"
| "translate_all page_size (a # as) vm =
     do { (text, p, vm) \<leftarrow> translate page_size a vm;
          (texts, ps, vm) \<leftarrow> translate_all page_size as vm;
          Some (text @ texts, p # ps, vm) }"

text \<open>A header line: the text, the base (not used) and the exponent; \<open>%d\<close> into an \<open>unsigned\<close>.\<close>

definition scan_size :: "string \<Rightarrow> string \<Rightarrow> 32 word option" where
  "scan_size title line =
     do { r \<leftarrow> scan_text (title @ '': '') line;
          (d, r) \<leftarrow> scan_int r;
          r \<leftarrow> scan_text ''^'' r;
          (n, r) \<leftarrow> scan_int r;
          Some (word_of_int (fst n)) }"

text \<open>The exit status with the output, or the message of an error; a \<open>malloc\<close> that fails is used
  all the same, which is undefined.\<close>

definition page_map_main :: "(nat \<Rightarrow> bool) \<Rightarrow> string \<Rightarrow> (string + int \<times> string) option" where
  "page_map_main malloc_ok input =
     (let (l1, rest, e1) = fgets 999 input; (l2, rest, e2) = fgets 999 rest; (l3, rest, e3) = fgets 999 rest in
      if l1 = [] then None
      else case scan_size ''Logical address space size'' l1 of
        None \<Rightarrow> Some (Inl (''Unexpected line 1. Abort.'' @ [NL]))
      | Some log_size \<Rightarrow> (case scan_size ''Physical address space size'' (if l2 = [] then l1 else l2) of
        None \<Rightarrow> Some (Inl (''Unexpected line 2. Abort.'' @ [NL]))
      | Some phy_size \<Rightarrow> (case scan_size ''Page size'' (if l3 = [] then (if l2 = [] then l1 else l2) else l3) of
        None \<Rightarrow> Some (Inl (''Unexpected line 3. Abort.'' @ [NL]))
      | Some page_size \<Rightarrow>
          do { num_pages \<leftarrow> shift_one (log_size - page_size);
               num_frames \<leftarrow> shift_one (phy_size - page_size);
               (if malloc_ok (4 * unat num_pages) \<and> malloc_ok (4 * unat num_frames) then Some () else None);
               as \<leftarrow> addresses None rest;
               (text, ps, vm) \<leftarrow> translate_all page_size as (init_vm num_pages num_frames);
               Some (Inr (0, ''Number of Pages: '' @ show_int (sint num_pages) @ '', Number of Frames: ''
                 @ show_int (sint num_frames) @ [NL, NL] @ text)) })))"

subsection \<open>Frames in the order of first use\<close>

text \<open>The pages in the order in which they are first used, and the place of one.\<close>

fun first_uses :: "nat list \<Rightarrow> nat list \<Rightarrow> nat list" where
  "first_uses ps [] = ps"
| "first_uses ps (q # qs) = first_uses (if q \<in> set ps then ps else ps @ [q]) qs"

fun place :: "nat \<Rightarrow> nat list \<Rightarrow> nat" where
  "place q [] = 0"
| "place q (p # ps) = (if q = p then 0 else Suc (place q ps))"

definition vm_inv :: "nat list \<Rightarrow> vm \<Rightarrow> bool" where
  "vm_inv ps vm \<longleftrightarrow> distinct ps \<and> length ps \<le> length (mem_map vm) \<and> length (mem_map vm) \<le> 2 ^ 31
     \<and> (\<forall>q < length (page_table vm). page_table vm ! q = (if q \<in> set ps then int (place q ps) else - 1))
     \<and> mem_map vm = replicate (length ps) 1 @ replicate (length (mem_map vm) - length ps) 0"

lemma place_less: "q \<in> set ps \<Longrightarrow> place q ps < length ps"
  by (induction ps) auto

lemma place_append: "place q (ps @ rs) = (if q \<in> set ps then place q ps else length ps + place q rs)"
  by (induction ps) auto

lemma first_uses_prefix: "\<exists>rs. first_uses ps qs = ps @ rs"
proof (induction qs arbitrary: ps)
  case Nil
  then show ?case by simp
next
  case (Cons q qs)
  show ?case using Cons.IH [of ps] Cons.IH [of "ps @ [q]"] by auto
qed

lemma place_first_uses: "q \<in> set ps \<Longrightarrow> place q (first_uses ps qs) = place q ps"
  using first_uses_prefix [of ps qs] by (auto simp: place_append)

lemma find_frame_used: "find_frame (replicate n 1 @ replicate m 0) = n"
  by (induction n) (auto simp: neq_Nil_conv, cases m, auto)

lemma use_next: "(replicate n 1 @ replicate (Suc m) 0)[n := 1] = replicate (Suc n) 1 @ replicate m 0"
  by (induction n) auto

lemma physical_address:
  fixes a :: "32 word"
  assumes p: "p < 32" and f: "f * 2 ^ p < 2 ^ 32"
  shows "unat (push_bit p (word_of_nat f) OR (a AND (push_bit p 1 - 1))) = f * 2 ^ p + unat a mod 2 ^ p"
proof -
  have mask: "a AND (push_bit p 1 - 1) = take_bit p a"
    by (simp add: take_bit_eq_mask mask_eq_exp_minus_1 push_bit_eq_mult)
  have "f < 2 ^ 32" using f by (metis less_le_trans mult.right_neutral nat_mult_le_cancel_disj not_less one_le_numeral one_le_power)
  then have "unat (push_bit p (word_of_nat f :: 32 word)) = f * 2 ^ p"
    unfolding unsigned_push_bit_eq using f by (simp add: unat_of_nat push_bit_eq_mult take_bit_eq_mod)
  moreover have "unat (take_bit p a) = unat a mod 2 ^ p" 
    unfolding unsigned_take_bit_eq by (simp add: take_bit_eq_mod)
  moreover have "unat (push_bit p (word_of_nat f) OR take_bit p a) = push_bit p f OR take_bit p (unat a)"
    using calculation by (simp add: unsigned_or_eq unsigned_take_bit_eq push_bit_eq_mult)
  moreover have "push_bit p f OR take_bit p (unat a) = push_bit p f + take_bit p (unat a)"
    by (rule disjunctive_add_eq_or [symmetric]) (auto simp: bit_eq_iff bit_simps)
  ultimately show ?thesis unfolding mask by (simp add: push_bit_eq_mult take_bit_eq_mod)
qed


lemma translate_ok:
  assumes inv: "vm_inv ps vm" and p: "unat page_size < 32" and q: "q = unat a div 2 ^ unat page_size" "q < length (page_table vm)"
    and free: "q \<in> set ps \<or> length ps < length (mem_map vm)" and fit: "length (mem_map vm) * 2 ^ unat page_size \<le> 2 ^ 32"
  shows "\<exists>text phys vm'. translate page_size a vm = Some (text, phys, vm')
    \<and> unat phys = place q (ps @ [q]) * 2 ^ unat page_size + unat a mod 2 ^ unat page_size
    \<and> vm_inv (if q \<in> set ps then ps else ps @ [q]) vm'
    \<and> length (page_table vm') = length (page_table vm) \<and> length (mem_map vm') = length (mem_map vm)"
proof -
  let ?p = "unat page_size" and ?f = "place q (ps @ [q])"
  have page: "page_of page_size a = Some (drop_bit ?p a)" using p by (simp add: page_of_def)
  have un: "unat (drop_bit ?p a) = q" unfolding unat_drop_bit_eq by (simp add: drop_bit_eq_div q(1))
  have f: "?f < length (mem_map vm)"
    using free inv place_less [of q ps] by (auto simp: place_append vm_inv_def)
  then have "?f * 2 ^ ?p < length (mem_map vm) * 2 ^ ?p" by simp
  then have small: "?f * 2 ^ ?p < 2 ^ 32" using fit by linarith
  note phys = physical_address [OF p small, of a]
  have f31: "?f < 2 ^ 31" using f inv by (simp add: vm_inv_def)
  then have w: "wrap32 (int ?f) = int ?f" by (intro wrap32_id) (simp add: int32_iff)
  show ?thesis
  proof (cases "q \<in> set ps")
    case True
    then have e: "page_table vm ! q = int ?f" using inv q(2) by (simp add: vm_inv_def place_append)
    then show ?thesis using p page un q(2) phys inv True
      by (simp add: translate_def shift_one_def Let_def)
  next
    case False
    then have e: "page_table vm ! q = - 1" and len: "?f = length ps" using inv q(2) by (simp_all add: vm_inv_def place_append)
    have m: "mem_map vm = replicate (length ps) 1 @ replicate (length (mem_map vm) - length ps) 0"
      using inv by (simp add: vm_inv_def)
    have ff: "find_frame (mem_map vm) = length ps" by (subst m) (rule find_frame_used)
    let ?vm = "vm\<lparr>page_table := (page_table vm)[q := int (length ps)], mem_map := (mem_map vm)[length ps := 1]\<rparr>"
    have lt: "length ps < length (mem_map vm)" using free False by simp
    have upd: "(mem_map vm)[length ps := 1] = replicate (Suc (length ps)) 1 @ replicate (length (mem_map vm) - Suc (length ps)) 0"
    proof -
      have n: "length (mem_map vm) - length ps = Suc (length (mem_map vm) - Suc (length ps))" using lt by simp
      show ?thesis by (subst m) (simp only: n use_next)
    qed
    have inv': "vm_inv (ps @ [q]) ?vm"
      using inv False lt upd q(2) place_less by (auto simp: vm_inv_def nth_list_update place_append)
    have "translate page_size a vm \<noteq> None \<and> (\<forall>t ph v. translate page_size a vm = Some (t, ph, v) \<longrightarrow>
        unat ph = ?f * 2 ^ ?p + unat a mod 2 ^ ?p \<and> v = ?vm)"
      using p page un q(2) phys e ff lt w len by (simp add: translate_def shift_one_def Let_def)
    then show ?thesis using inv' False by auto
  qed
qed

lemma translate_all_ok:
  assumes "vm_inv ps vm" and p: "unat page_size < 32" and "\<forall>a \<in> set as. unat a div 2 ^ unat page_size < length (page_table vm)"
    and "length (first_uses ps (map (\<lambda>a. unat a div 2 ^ unat page_size) as)) \<le> length (mem_map vm)"
    and "length (mem_map vm) * 2 ^ unat page_size \<le> 2 ^ 32"
  shows "\<exists>text phys vm'. translate_all page_size as vm = Some (text, phys, vm')
    \<and> map unat phys = map (\<lambda>a. place (unat a div 2 ^ unat page_size) (first_uses ps (map (\<lambda>a. unat a div 2 ^ unat page_size) as))
        * 2 ^ unat page_size + unat a mod 2 ^ unat page_size) as"
  using assms(1,3,4,5)
proof (induction as arbitrary: ps vm)
  case Nil
  then show ?case by simp
next
  case (Cons a as)
  let ?q = "unat a div 2 ^ unat page_size" and ?qs = "map (\<lambda>a. unat a div 2 ^ unat page_size) as"
  let ?ps = "if ?q \<in> set ps then ps else ps @ [?q]"
  obtain rs where rs: "first_uses ?ps ?qs = ?ps @ rs" using first_uses_prefix by blast
  have "?q \<in> set ps \<or> length ps < length (mem_map vm)" using Cons.prems(3) rs by (auto split: if_splits)
  then obtain tx phys vm' where t: "translate page_size a vm = Some (tx, phys, vm')"
    "unat phys = place ?q (ps @ [?q]) * 2 ^ unat page_size + unat a mod 2 ^ unat page_size" "vm_inv ?ps vm'"
    "length (page_table vm') = length (page_table vm)" "length (mem_map vm') = length (mem_map vm)"
    using translate_ok [OF Cons.prems(1) p refl _ _ Cons.prems(4), of a] Cons.prems(2) by auto
  have "\<exists>texts ps' vm2. translate_all page_size as vm' = Some (texts, ps', vm2)
    \<and> map unat ps' = map (\<lambda>a. place (unat a div 2 ^ unat page_size) (first_uses ?ps ?qs) * 2 ^ unat page_size
        + unat a mod 2 ^ unat page_size) as"
    by (rule Cons.IH [OF t(3)]) (use Cons.prems t(4,5) in simp_all)
  then obtain texts ps' vm2 where r: "translate_all page_size as vm' = Some (texts, ps', vm2)"
    "map unat ps' = map (\<lambda>a. place (unat a div 2 ^ unat page_size) (first_uses ?ps ?qs) * 2 ^ unat page_size
        + unat a mod 2 ^ unat page_size) as" by blast
  have "place ?q (first_uses ?ps ?qs) = place ?q (ps @ [?q])"
    using place_first_uses [of ?q ?ps ?qs] by (auto simp: place_append)
  then show ?case using t r by simp
qed

text \<open>C39: The program gives each page the frame whose number is the place of the page in the
  order of first use, and keeps it: the physical address of \<open>a\<close> is that frame's address plus
  the offset of \<open>a\<close>. Nothing undefined happens while the pages used are in the table and no
  more of them than frames.\<close>

theorem translate_all_first_uses:
  assumes "unat page_size \<le> unat phy_size" and "unat phy_size \<le> 32" and "unat page_size < 32"
    and "shift_one (phy_size - page_size) = Some num_frames"
    and "\<forall>a \<in> set as. unat a div 2 ^ unat page_size < unat num_pages"
    and "length (first_uses [] (map (\<lambda>a. unat a div 2 ^ unat page_size) as)) \<le> unat num_frames"
  shows "\<exists>text phys vm. translate_all page_size as (init_vm num_pages num_frames) = Some (text, phys, vm)
    \<and> map unat phys = map (\<lambda>a. place (unat a div 2 ^ unat page_size) (first_uses [] (map (\<lambda>a. unat a div 2 ^ unat page_size) as))
        * 2 ^ unat page_size + unat a mod 2 ^ unat page_size) as"
proof -
  let ?p = "unat page_size" and ?y = "unat phy_size"
  have less: "unat (phy_size - page_size) < 32" using assms(4) by (simp add: shift_one_def split: if_splits)
  have k: "unat (phy_size - page_size) = ?y - ?p" using assms(1) by (simp add: unat_sub word_le_nat_alt)
  have "num_frames = push_bit (?y - ?p) 1" using assms(4) k by (simp add: shift_one_def split: if_splits)
  then have n: "unat num_frames = 2 ^ (?y - ?p)"
    using physical_address [of "?y - ?p" 1 0] less k power_strict_increasing [of "?y - ?p" 32 "2 :: nat"] by simp
  have "unat num_frames * 2 ^ ?p = 2 ^ ?y" unfolding n using assms(1) by (simp flip: power_add)
  also have "\<dots> \<le> 2 ^ 32" using assms(2) by (intro power_increasing) auto
  finally have fit: "unat num_frames * 2 ^ ?p \<le> 2 ^ 32" .
  have "?y - ?p \<le> 31" using less k by simp
  then have "unat num_frames \<le> 2 ^ 31" unfolding n by (intro power_increasing) auto
  then have "vm_inv [] (init_vm num_pages num_frames)" by (simp add: vm_inv_def init_vm_def)
  then show ?thesis by (rule translate_all_ok [OF _ assms(3)]) (use assms(5,6) fit in \<open>simp_all add: init_vm_def\<close>)
qed

definition demo_addresses :: "32 word list" where
  "demo_addresses = [0xd6334873, 0x74b0dc51, 0xa9495cff, 0x2ae8944a, 0x625558ec]"

theorem translate_all_first_uses_witness:
  "\<exists>tx phys vm. translate_all 30 demo_addresses (init_vm 4 4) = Some (tx, phys, vm)
    \<and> map unat phys = [0x16334873, 0x74b0dc51, 0xa9495cff, 0xeae8944a, 0x625558ec]"
proof -
  have s: "unat (30 :: 32 word) \<le> unat (32 :: 32 word)" "unat (32 :: 32 word) \<le> 32" "unat (30 :: 32 word) < 32"
    "shift_one (32 - 30) = Some (4 :: 32 word)"
    "\<forall>a \<in> set demo_addresses. unat a div 2 ^ unat (30 :: 32 word) < unat (4 :: 32 word)"
    "length (first_uses [] (map (\<lambda>a. unat a div 2 ^ unat (30 :: 32 word)) demo_addresses)) \<le> unat (4 :: 32 word)"
    by (simp_all add: shift_one_def demo_addresses_def)
  from translate_all_first_uses [OF s] show ?thesis by (simp add: demo_addresses_def)
qed

end
