(* ===== verification/Counters.thy ===== *)
theory Counters
  imports CStrings
begin

text \<open>
  The threaded counters \<open>src/lab5/ptcount_mutex.c\<close> and \<open>src/lab5/ptcount_atomic.c\<close>: three threads
  that add to the global \<open>count\<close>, under a mutex or by an atomic instruction, and the main
  thread that creates and joins them. The threads are stepped one access to shared memory at
  a time, in any order; \<open>malloc\<close> and \<open>pthread_create\<close> succeed, as the programs take for granted.
\<close>

subsection \<open>The threads\<close>

definition NUM_THREADS :: nat where "NUM_THREADS = 3"

record thread_args =
  tid :: int
  inc :: int
  loop :: int

text \<open>Where a thread is in \<open>inc_count\<close>: at the loop's test; before \<open>pthread_mutex_lock\<close>, before it
  reads \<open>count\<close>, with the sum it will store, before \<open>pthread_mutex_unlock\<close>; before the atomic
  addition; before the addition to \<open>loc\<close>; or finished.\<close>

datatype inc_pc = Test | Lock | Read | Store int | Unlock | Fetch_Add | Local | Finished

record inc_thread =
  inc_at :: inc_pc
  i :: int
  loc :: int
  my_args :: "thread_args option"

text \<open>\<open>main\<close> is about to create thread \<open>i\<close>, to join thread \<open>i\<close>, or has printed the result.\<close>

datatype main_pc = Create nat | Join nat | Done

record counters =
  main_at :: main_pc
  args :: "int \<times> int"
  threads :: "inc_thread list"
  count :: int
  count_mutex :: "nat option"
  stdout :: "string list"

definition step_to :: "nat \<Rightarrow> inc_pc \<Rightarrow> counters \<Rightarrow> counters" where
  "step_to t p s = s\<lparr>threads := (threads s)[t := (threads s ! t)\<lparr>inc_at := p\<rparr>]\<rparr>"

definition set_thread :: "nat \<Rightarrow> inc_thread \<Rightarrow> counters \<Rightarrow> counters" where
  "set_thread t me s = s\<lparr>threads := (threads s)[t := me]\<rparr>"

definition finished_line :: "int \<Rightarrow> int \<Rightarrow> string" where
  "finished_line n l = ''Thread: '' @ show_int n @ '' finished. Counted: '' @ show_int l @ [NL]"

text \<open>The next action of thread \<open>t\<close>: \<open>None\<close> while it waits for the mutex and once it has finished.
  Its arguments are freed at the end.\<close>

definition inc_count :: "bool \<Rightarrow> nat \<Rightarrow> counters \<Rightarrow> counters option" where
  "inc_count atomic t s =
     (let me = threads s ! t in
      do { a \<leftarrow> my_args me;
           (case inc_at me of
              Test \<Rightarrow>
                if i me < loop a then Some (step_to t (if atomic then Fetch_Add else Lock) s)
                else Some (set_thread t (me\<lparr>inc_at := Finished, my_args := None\<rparr>) s
                  \<lparr>stdout := stdout s @ [finished_line (tid a) (loc me)]\<rparr>)
            | Lock \<Rightarrow> (case count_mutex s of
                None \<Rightarrow> Some (step_to t Read s\<lparr>count_mutex := Some t\<rparr>) | Some q \<Rightarrow> None)
            | Read \<Rightarrow> Some (step_to t (Store (wrap32 (count s + inc a))) s)
            | Store v \<Rightarrow> Some (step_to t Unlock s\<lparr>count := v\<rparr>)
            | Unlock \<Rightarrow> Some (step_to t Local s\<lparr>count_mutex := None\<rparr>)
            | Fetch_Add \<Rightarrow> Some (step_to t Local s\<lparr>count := wrap32 (count s + inc a)\<rparr>)
            | Local \<Rightarrow> Some (set_thread t
                (me\<lparr>inc_at := Test, loc := wrap32 (loc me + inc a), i := wrap32 (i me + 1)\<rparr>) s)
            | Finished \<Rightarrow> None) })"

subsection \<open>The main thread\<close>

definition final_line :: "int \<Rightarrow> string" where
  "final_line n = ''Main(): Waited on '' @ show_int (int NUM_THREADS)
     @ '' threads. Final value of count = '' @ show_int n @ ''. Done.'' @ [NL]"

definition main_step :: "counters \<Rightarrow> counters option" where
  "main_step s = (case main_at s of
     Create t \<Rightarrow>
       if t < NUM_THREADS
       then Some (s\<lparr>main_at := Create (Suc t), threads := threads s @
         [\<lparr>inc_at = Test, i = 0, loc = 0,
           my_args = Some \<lparr>tid = int t, inc = snd (args s), loop = fst (args s)\<rparr>\<rparr>]\<rparr>)
       else Some (s\<lparr>main_at := Join 0\<rparr>)
   | Join t \<Rightarrow>
       if t < NUM_THREADS
       then (if inc_at (threads s ! t) = Finished then Some (s\<lparr>main_at := Join (Suc t)\<rparr>) else None)
       else Some (s\<lparr>main_at := Done, stdout := stdout s @ [final_line (count s)]\<rparr>)
   | Done \<Rightarrow> None)"

text \<open>What \<open>main\<close> does first: \<open>Inl\<close> is the usage message with which the program exits.\<close>

definition count_main :: "bool \<Rightarrow> string list \<Rightarrow> string + counters" where
  "count_main atomic argv = (case argv of
     [p, l, n] \<Rightarrow> Inr \<lparr>main_at = Create 0, args = (atoi l, atoi n), threads = [], count = 0,
       count_mutex = None, stdout = []\<rparr>
   | _ \<Rightarrow> Inl (''Usage: ./'' @ (if atomic then ''ptcount_atomic'' else ''ptcount_mutex'')
       @ '' LOOP_BOUND INCREMENT'' @ [NL]))"

text \<open>The thread and the start of \<open>ptcount_atomic.c\<close>; its \<open>main\<close> goes on like the other.\<close>

definition inc_count_atomic :: "nat \<Rightarrow> counters \<Rightarrow> counters option" where
  "inc_count_atomic = inc_count True"

definition count_main_atomic :: "string list \<Rightarrow> string + counters" where
  "count_main_atomic = count_main True"

inductive count_step :: "bool \<Rightarrow> counters \<Rightarrow> counters \<Rightarrow> bool" for atomic where
  main: "main_step s = Some s' \<Longrightarrow> count_step atomic s s'"
| thread: "t < length (threads s) \<Longrightarrow> inc_count atomic t s = Some s' \<Longrightarrow> count_step atomic s s'"

inductive_simps count_step_iff: "count_step atomic s s'"

text \<open>A schedule names the thread that acts next, \<open>None\<close> being the main thread.\<close>

fun count_run :: "bool \<Rightarrow> nat option list \<Rightarrow> counters \<Rightarrow> counters option" where
  "count_run atomic [] s = Some s"
| "count_run atomic (None # ts) s = do { s \<leftarrow> main_step s; count_run atomic ts s }"
| "count_run atomic (Some t # ts) s =
     (if t < length (threads s) then do { s \<leftarrow> inc_count atomic t s; count_run atomic ts s } else None)"

lemma count_run_steps: "count_run atomic ts s = Some s' \<Longrightarrow> (count_step atomic)\<^sup>*\<^sup>* s s'"
proof (induction atomic ts s rule: count_run.induct)
  case (1 atomic s)
  then show ?case by simp
next
  case (2 atomic ts s)
  then obtain s1 where "main_step s = Some s1" "count_run atomic ts s1 = Some s'"
    by (auto split: bind_splits)
  with 2 show ?case by (meson converse_rtranclp_into_rtranclp count_step.main)
next
  case (3 atomic t ts s)
  then obtain s1 where "t < length (threads s)" "inc_count atomic t s = Some s1" "count_run atomic ts s1 = Some s'"
    by (auto split: bind_splits if_splits)
  with 3 show ?case by (meson converse_rtranclp_into_rtranclp count_step.thread)
qed

subsection \<open>The invariant\<close>

lemma wrap32_add [simp]: "wrap32 (wrap32 a + b) = wrap32 (a + b)"
  by (simp add: wrap32_def mod_simps algebra_simps)

lemma wrap32_add_right [simp]: "wrap32 (a + wrap32 b) = wrap32 (a + b)"
  by (metis add.commute wrap32_add)

lemma wrap32_0 [simp]: "wrap32 0 = 0"
  by (simp add: wrap32_def)

lemma sum_list_update_int:
  fixes f :: "'a \<Rightarrow> int"
  shows "t < length xs \<Longrightarrow> (\<Sum>x\<leftarrow>xs[t := y]. f x) = (\<Sum>x\<leftarrow>xs. f x) + (f y - f (xs ! t))"
proof (induction xs arbitrary: t)
  case Nil
  then show ?case by simp
next
  case (Cons a xs)
  then show ?case by (cases t) auto
qed

text \<open>The additions to \<open>count\<close> a thread has made.\<close>

definition added :: "inc_thread \<Rightarrow> int" where
  "added me = i me + (if inc_at me = Unlock \<or> inc_at me = Local then 1 else 0)"

definition in_section :: "inc_thread \<Rightarrow> bool" where
  "in_section me \<longleftrightarrow> inc_at me = Read \<or> inc_at me = Unlock \<or> (\<exists>v. inc_at me = Store v)"

definition turns :: "counters \<Rightarrow> int" where
  "turns s = max 0 (fst (args s))"

definition thread_inv :: "bool \<Rightarrow> counters \<Rightarrow> nat \<Rightarrow> inc_thread \<Rightarrow> bool" where
  "thread_inv atomic s t me \<longleftrightarrow> 0 \<le> i me \<and> i me \<le> turns s
     \<and> (inc_at me = Finished \<longleftrightarrow> my_args me = None)
     \<and> (\<forall>a. my_args me = Some a \<longrightarrow> a = \<lparr>tid = int t, inc = snd (args s), loop = fst (args s)\<rparr>)
     \<and> (inc_at me = Finished \<longrightarrow> i me = turns s
         \<and> finished_line (int t) (wrap32 (turns s * snd (args s))) \<in> set (stdout s))
     \<and> (inc_at me \<noteq> Finished \<and> inc_at me \<noteq> Test \<longrightarrow> i me < turns s)
     \<and> (\<forall>v. inc_at me = Store v \<longrightarrow> v = wrap32 (count s + snd (args s)))
     \<and> loc me = wrap32 (i me * snd (args s))
     \<and> (in_section me \<longleftrightarrow> count_mutex s = Some t)
     \<and> (if atomic then \<not> in_section me \<and> inc_at me \<noteq> Lock else inc_at me \<noteq> Fetch_Add)"

definition count_inv :: "bool \<Rightarrow> counters \<Rightarrow> bool" where
  "count_inv atomic s \<longleftrightarrow> int32 (fst (args s)) \<and> int32 (snd (args s))
     \<and> (\<forall>t < length (threads s). thread_inv atomic s t (threads s ! t))
     \<and> (\<forall>q. count_mutex s = Some q \<longrightarrow> q < length (threads s))
     \<and> count s = wrap32 ((\<Sum>me\<leftarrow>threads s. added me) * snd (args s))
     \<and> (case main_at s of Create t \<Rightarrow> t \<le> NUM_THREADS \<and> length (threads s) = t
        | Join t \<Rightarrow> t \<le> NUM_THREADS \<and> length (threads s) = NUM_THREADS
            \<and> (\<forall>u < t. inc_at (threads s ! u) = Finished)
        | Done \<Rightarrow> length (threads s) = NUM_THREADS \<and> (\<forall>u < NUM_THREADS. inc_at (threads s ! u) = Finished)
            \<and> final_line (wrap32 (int NUM_THREADS * turns s * snd (args s))) \<in> set (stdout s))"

lemma thread_inv_keeps:
  assumes "thread_inv atomic s t me" and "args s' = args s" and "set (stdout s) \<subseteq> set (stdout s')"
    and "count s' = count s \<or> (\<forall>v. inc_at me \<noteq> Store v)"
    and "count_mutex s' = count_mutex s \<or> \<not> in_section me \<and> count_mutex s' \<noteq> Some t"
  shows "thread_inv atomic s' t me"
  using assms by (auto simp: thread_inv_def turns_def)

lemma count_inv_thread: "count_inv atomic s \<Longrightarrow> t < length (threads s) \<Longrightarrow> thread_inv atomic s t (threads s ! t)"
  by (simp add: count_inv_def)

lemma all_finished_sum:
  assumes "\<forall>t < length ms. thread_inv atomic s t (ms ! t)" and "\<forall>t < length ms. inc_at (ms ! t) = Finished"
  shows "(\<Sum>me\<leftarrow>ms. added me) = int (length ms) * turns s"
proof -
  have "map added ms = replicate (length ms) (turns s)"
    using assms by (intro nth_equalityI) (auto simp: thread_inv_def added_def)
  then show ?thesis by (simp add: sum_list_replicate)
qed

lemma main_step_inv:
  assumes inv: "count_inv atomic s" and step: "main_step s = Some s'"
  shows "count_inv atomic s'"
proof (cases "main_at s")
  case (Create t)
  show ?thesis
  proof (cases "t < NUM_THREADS")
    case True
    let ?me = "\<lparr>inc_at = Test, i = 0, loc = 0, my_args = Some \<lparr>tid = int t, inc = snd (args s), loop = fst (args s)\<rparr>\<rparr>"
    have s': "s' = s\<lparr>main_at := Create (Suc t), threads := threads s @ [?me]\<rparr>"
      using step Create True by (simp add: main_step_def)
    have "thread_inv atomic s' u (threads s' ! u)" if "u < length (threads s')" for u
    proof (cases "u < length (threads s)")
      case True
      then show ?thesis
        using thread_inv_keeps [OF count_inv_thread [OF inv True], of s'] s' by (simp add: nth_append)
    next
      case False
      have "count_mutex s \<noteq> Some t" using inv Create by (auto simp: count_inv_def)
      moreover have "u = t" "length (threads s) = t" using that False s' inv Create by (auto simp: count_inv_def)
      ultimately show ?thesis using s'
        by (simp add: nth_append thread_inv_def in_section_def turns_def)
    qed
    then show ?thesis using inv s' Create True
      by (auto simp: count_inv_def added_def turns_def less_Suc_eq)
  next
    case False
    then have s': "s' = s\<lparr>main_at := Join 0\<rparr>" using step Create by (simp add: main_step_def)
    have "\<forall>u < length (threads s). thread_inv atomic s' u (threads s ! u)"
      using thread_inv_keeps [OF count_inv_thread [OF inv]] s' by simp
    then show ?thesis using inv s' Create False by (auto simp: count_inv_def)
  qed
next
  case (Join t)
  show ?thesis
  proof (cases "t < NUM_THREADS")
    case True
    then have fin: "inc_at (threads s ! t) = Finished" and s': "s' = s\<lparr>main_at := Join (Suc t)\<rparr>"
      using step Join by (auto simp: main_step_def split: if_splits)
    have "\<forall>u < length (threads s). thread_inv atomic s' u (threads s ! u)"
      using thread_inv_keeps [OF count_inv_thread [OF inv]] s' by simp
    then show ?thesis using inv s' Join True fin
      by (auto simp: count_inv_def turns_def less_Suc_eq)
  next
    case False
    then have s': "s' = s\<lparr>main_at := Done, stdout := stdout s @ [final_line (count s)]\<rparr>"
      using step Join by (auto simp: main_step_def)
    have len: "length (threads s) = NUM_THREADS" and all: "\<forall>u < NUM_THREADS. inc_at (threads s ! u) = Finished"
      using inv Join False by (auto simp: count_inv_def)
    have "\<forall>u < length (threads s). thread_inv atomic s' u (threads s ! u)"
      by (intro allI impI, rule thread_inv_keeps [OF count_inv_thread [OF inv]]) (auto simp: s')
    moreover have "(\<Sum>me\<leftarrow>threads s. added me) = int NUM_THREADS * turns s"
      using all_finished_sum [of "threads s" atomic s] inv len all by (simp add: count_inv_def)
    ultimately show ?thesis using inv s' len all
      by (auto simp: count_inv_def turns_def)
  qed
next
  case Done
  then show ?thesis using step by (simp add: main_step_def)
qed

lemma inc_count_keeps:
  assumes inv: "count_inv atomic s" and t: "t < length (threads s)"
    and s': "threads s' = (threads s)[t := me]" "args s' = args s" "main_at s' = main_at s"
    and fin: "inc_at (threads s ! t) \<noteq> Finished"
    and out: "set (stdout s) \<subseteq> set (stdout s')"
    and me: "thread_inv atomic s' t me"
    and mutex: "count_mutex s' = count_mutex s \<or> count_mutex s = None \<and> count_mutex s' = Some t \<or> count_mutex s = Some t \<and> count_mutex s' = None"
    and count: "added me = added (threads s ! t) \<and> count s' = count s
      \<or> added me = added (threads s ! t) + 1 \<and> count s' = wrap32 (count s + snd (args s)) \<and> (atomic \<or> count_mutex s = Some t)"
  shows "count_inv atomic s'"
proof -
  have others: "thread_inv atomic s' u (threads s ! u)" if u: "u < length (threads s)" "u \<noteq> t" for u
  proof (rule thread_inv_keeps [OF count_inv_thread [OF inv u(1)] s'(2) out])
    have ti: "thread_inv atomic s u (threads s ! u)" using count_inv_thread [OF inv u(1)] .
    show "count s' = count s \<or> (\<forall>v. inc_at (threads s ! u) \<noteq> Store v)"
      using count ti u(2) by (auto simp: thread_inv_def in_section_def split: if_splits)
    show "count_mutex s' = count_mutex s \<or> \<not> in_section (threads s ! u) \<and> count_mutex s' \<noteq> Some u"
      using mutex ti u(2) by (auto simp: thread_inv_def)
  qed
  have "(\<Sum>x\<leftarrow>threads s'. added x) = (\<Sum>x\<leftarrow>threads s. added x) + (added me - added (threads s ! t))"
    using sum_list_update_int [OF t, of added me] s'(1) by simp
  moreover have "count s = wrap32 ((\<Sum>x\<leftarrow>threads s. added x) * snd (args s))" using inv by (simp add: count_inv_def)
  ultimately have c: "count s' = wrap32 ((\<Sum>x\<leftarrow>threads s'. added x) * snd (args s))"
    using count by (auto simp: algebra_simps)
  have m: "\<forall>q. count_mutex s' = Some q \<longrightarrow> q < length (threads s')"
    using inv mutex t s'(1) by (auto simp: count_inv_def)
  have th: "\<forall>u < length (threads s'). thread_inv atomic s' u (threads s' ! u)"
    using others me s'(1) t by (metis length_list_update nth_list_update)
  show ?thesis
  proof (cases "main_at s")
    case (Create n)
    then show ?thesis using inv s' c m th by (simp add: count_inv_def)
  next
    case (Join n)
    then have "\<forall>u < n. u \<noteq> t" using inv fin by (auto simp: count_inv_def)
    then have "\<forall>u < n. (threads s)[t := me] ! u = threads s ! u" by (metis nth_list_update_neq)
    then show ?thesis using Join inv s' c m th by (simp add: count_inv_def)
  next
    case Done
    then show ?thesis using inv fin t by (simp add: count_inv_def)
  qed
qed

lemma inc_count_inv:
  assumes inv: "count_inv atomic s" and t: "t < length (threads s)" and step: "inc_count atomic t s = Some s'"
  shows "count_inv atomic s'"
proof -
  let ?me = "threads s ! t"
  have ti: "thread_inv atomic s t ?me" using count_inv_thread [OF inv t] .
  obtain a where a: "my_args ?me = Some a" "inc a = snd (args s)" "loop a = fst (args s)" "tid a = int t"
    using step ti by (auto simp: inc_count_def Let_def thread_inv_def split: bind_splits)
  have fin: "inc_at ?me \<noteq> Finished" using ti a by (simp add: thread_inv_def)
  note keeps = inc_count_keeps [OF inv t _ _ _ fin]
  have i32: "wrap32 (i ?me + 1) = i ?me + 1" if "i ?me < turns s"
  proof -
    have "int32 (fst (args s))" using inv by (simp add: count_inv_def)
    then show ?thesis using that ti by (intro wrap32_id) (auto simp: thread_inv_def int32_iff turns_def max_def split: if_splits)
  qed
  note defs = inc_count_def Let_def step_to_def set_thread_def thread_inv_def in_section_def added_def turns_def
  show ?thesis
  proof (cases "inc_at ?me")
    case Test
    show ?thesis
    proof (cases "i ?me < fst (args s)")
      case True
      then show ?thesis using step ti a Test
        by (intro keeps [of _ "?me\<lparr>inc_at := (if atomic then Fetch_Add else Lock)\<rparr>"]) (auto simp: defs)
    next
      case False
      then show ?thesis using step ti a Test
        by (intro keeps [of _ "?me\<lparr>inc_at := Finished, my_args := None\<rparr>"]) (auto simp: defs max_def)
    qed
  next
    case Lock
    then show ?thesis using step ti a
      by (intro keeps [of _ "?me\<lparr>inc_at := Read\<rparr>"]) (auto simp: defs split: option.splits if_splits)
  next
    case Read
    then show ?thesis using step ti a
      by (intro keeps [of _ "?me\<lparr>inc_at := Store (wrap32 (count s + inc a))\<rparr>"]) (auto simp: defs split: if_splits)
  next
    case (Store v)
    then show ?thesis using step ti a
      by (intro keeps [of _ "?me\<lparr>inc_at := Unlock\<rparr>"]) (auto simp: defs split: if_splits)
  next
    case Unlock
    then show ?thesis using step ti a
      by (intro keeps [of _ "?me\<lparr>inc_at := Local\<rparr>"]) (auto simp: defs split: if_splits)
  next
    case Fetch_Add
    then show ?thesis using step ti a
      by (intro keeps [of _ "?me\<lparr>inc_at := Local\<rparr>"]) (auto simp: defs split: if_splits)
  next
    case Local
    then show ?thesis using step ti a i32
      by (intro keeps [of _ "?me\<lparr>inc_at := Test, loc := wrap32 (loc ?me + inc a), i := i ?me + 1\<rparr>"])
        (auto simp: defs algebra_simps split: if_splits)
  next
    case Finished
    then show ?thesis using fin by simp
  qed
qed

subsection \<open>Progress\<close>

lemma inc_count_next:
  assumes "thread_inv atomic s t (threads s ! t)" and "inc_at (threads s ! t) \<noteq> Finished"
    and "inc_at (threads s ! t) = Lock \<longrightarrow> count_mutex s = None"
  shows "\<exists>s'. inc_count atomic t s = Some s'"
proof -
  obtain a where "my_args (threads s ! t) = Some a" using assms by (auto simp: thread_inv_def)
  then show ?thesis using assms(2,3) by (cases "inc_at (threads s ! t)") (simp_all add: inc_count_def Let_def)
qed

lemma count_step_next:
  assumes inv: "count_inv atomic s" and "main_at s \<noteq> Done"
  shows "\<exists>s'. count_step atomic s s'"
proof (rule ccontr)
  assume stuck: "\<nexists>s'. count_step atomic s s'"
  then have m: "main_step s = None" by (metis count_step.main not_Some_eq)
  then obtain t where t: "main_at s = Join t" "t < NUM_THREADS" "inc_at (threads s ! t) \<noteq> Finished"
    using assms(2) by (auto simp: main_step_def split: main_pc.splits if_splits)
  have len: "length (threads s) = NUM_THREADS" using inv t by (simp add: count_inv_def)
  have no: "inc_count atomic u s = None" if "u < NUM_THREADS" for u
    using stuck that len by (metis count_step.thread not_Some_eq)
  then obtain q where q: "count_mutex s = Some q"
    using inc_count_next [OF count_inv_thread [OF inv, of t]] t len by fastforce
  then have "q < NUM_THREADS" using inv len by (simp add: count_inv_def)
  moreover have "in_section (threads s ! q)"
    using count_inv_thread [OF inv, of q] calculation len q by (simp add: thread_inv_def)
  ultimately show False
    using inc_count_next [OF count_inv_thread [OF inv, of q]] no [of q] len by (auto simp: in_section_def)
qed

text \<open>An upper bound of the steps that are left.\<close>

fun pc_left :: "inc_pc \<Rightarrow> int" where
  "pc_left Test = 1"
| "pc_left Lock = 0"
| "pc_left Fetch_Add = 0"
| "pc_left Read = - 1"
| "pc_left (Store v) = - 2"
| "pc_left Unlock = - 3"
| "pc_left Local = - 4"
| "pc_left Finished = 0"

definition thread_left :: "int \<Rightarrow> inc_thread \<Rightarrow> int" where
  "thread_left n me = 7 * (n - i me) + pc_left (inc_at me)"

definition main_left :: "int \<Rightarrow> main_pc \<Rightarrow> int" where
  "main_left n m = (case m of Create t \<Rightarrow> (int NUM_THREADS - int t) * (7 * n + 2) + int NUM_THREADS + 2
     | Join t \<Rightarrow> int NUM_THREADS - int t + 1 | Done \<Rightarrow> 0)"

definition steps_left :: "counters \<Rightarrow> int" where
  "steps_left s = main_left (turns s) (main_at s) + (\<Sum>me\<leftarrow>threads s. thread_left (turns s) me)"

lemma thread_left_nonneg: "thread_inv atomic s t me \<Longrightarrow> 0 \<le> thread_left (turns s) me"
  by (cases "inc_at me") (auto simp: thread_left_def thread_inv_def)

lemma steps_left_nonneg:
  assumes "count_inv atomic s"
  shows "0 \<le> steps_left s"
proof -
  have "0 \<le> (\<Sum>me\<leftarrow>threads s. thread_left (turns s) me)"
    using thread_left_nonneg [OF count_inv_thread [OF assms]] by (intro sum_list_nonneg) (auto simp: in_set_conv_nth)
  moreover have "0 \<le> main_left (turns s) (main_at s)"
    using assms by (auto simp: count_inv_def main_left_def turns_def split: main_pc.splits)
  ultimately show ?thesis by (simp add: steps_left_def)
qed

lemma main_step_left:
  assumes "count_inv atomic s" and "main_step s = Some s'"
  shows "args s' = args s \<and> steps_left s' < steps_left s"
  using assms
  by (auto simp: main_step_def steps_left_def main_left_def turns_def thread_left_def algebra_simps
      count_inv_def split: main_pc.splits if_splits)

lemma inc_count_left:
  assumes inv: "count_inv atomic s" and t: "t < length (threads s)" and step: "inc_count atomic t s = Some s'"
  shows "args s' = args s \<and> steps_left s' < steps_left s"
proof -
  let ?me = "threads s ! t"
  have ti: "thread_inv atomic s t ?me" using count_inv_thread [OF inv t] .
  have i32: "wrap32 (i ?me + 1) = i ?me + 1" if "i ?me < turns s"
  proof -
    have "int32 (fst (args s))" using inv by (simp add: count_inv_def)
    then show ?thesis using that ti by (intro wrap32_id) (auto simp: thread_inv_def int32_iff turns_def max_def split: if_splits)
  qed
  have "threads s' = (threads s)[t := threads s' ! t] \<and> args s' = args s \<and> main_at s' = main_at s
      \<and> thread_left (turns s) (threads s' ! t) < thread_left (turns s) ?me"
    using step ti i32 t
    by (cases "inc_at ?me")
      (auto simp: inc_count_def Let_def step_to_def set_thread_def thread_left_def thread_inv_def
        split: bind_splits option.splits if_splits)
  then show ?thesis using sum_list_update_int [OF t, of "thread_left (turns s)" "threads s' ! t"]
    by (simp add: steps_left_def turns_def)
qed

lemma count_step_left:
  "count_inv atomic s \<Longrightarrow> count_step atomic s s' \<Longrightarrow>
    count_inv atomic s' \<and> args s' = args s \<and> steps_left s' < steps_left s"
  by (auto simp: count_step_iff intro: main_step_inv inc_count_inv dest: main_step_left inc_count_left)

lemma count_steps_inv:
  assumes "count_inv atomic s" and "((count_step atomic) ^^ m) s s'"
  shows "count_inv atomic s' \<and> args s' = args s \<and> int m + steps_left s' \<le> steps_left s"
  using assms(2)
proof (induction m arbitrary: s')
  case 0
  then show ?case using assms(1) by simp
next
  case (Suc m)
  then obtain s1 where "((count_step atomic) ^^ m) s s1" "count_step atomic s1 s'" by auto
  then show ?case using Suc.IH count_step_left by fastforce
qed

lemma count_main_inv:
  assumes "count_main atomic argv = Inr s"
  shows "count_inv atomic s" and "steps_left s = int NUM_THREADS * (7 * turns s + 3) + 2"
    and "fst (args s) = atoi (argv ! 1)" and "snd (args s) = atoi (argv ! 2)"
  using assms
  by (auto simp: count_main_def count_inv_def steps_left_def main_left_def turns_def atoi_def wrap32_range algebra_simps
      split: list.splits)

subsection \<open>The properties\<close>

text \<open>C40: The threads count exactly, whatever their order: every execution is finite, it can only
  stop when \<open>main\<close> is done (there is no deadlock), and then \<open>count\<close> is three times the product
  of the loop bound and the increment, as a 32-bit integer, and each thread has reported its
  own third. At no time are two threads between lock and unlock.\<close>

theorem count_exact:
  assumes start: "count_main atomic argv = Inr s" and run: "((count_step atomic) ^^ m) s s'"
    and n: "n = max 0 (atoi (argv ! 1))" and k: "k = atoi (argv ! 2)"
  shows "int m \<le> 3 * (7 * n + 3) + 2
    \<and> ((\<nexists>s''. count_step atomic s' s'') \<longrightarrow> main_at s' = Done)
    \<and> (main_at s' = Done \<longrightarrow> final_line (wrap32 (3 * n * k)) \<in> set (stdout s')
        \<and> (\<forall>t < 3. finished_line (int t) (wrap32 (n * k)) \<in> set (stdout s')))
    \<and> (\<forall>t u. t < length (threads s') \<longrightarrow> u < length (threads s') \<longrightarrow>
        in_section (threads s' ! t) \<longrightarrow> in_section (threads s' ! u) \<longrightarrow> t = u)"
proof -
  note s = count_main_inv [OF start]
  have inv: "count_inv atomic s'" and a: "args s' = args s" and left: "int m + steps_left s' \<le> steps_left s"
    using count_steps_inv [OF s(1) run] by auto
  have tu: "turns s' = n" "turns s = n" "snd (args s') = k" using s(3,4) a n k by (simp_all add: turns_def)
  have "int m \<le> 3 * (7 * n + 3) + 2"
    using left steps_left_nonneg [OF inv] s(2) tu by (simp add: NUM_THREADS_def)
  moreover have "main_at s' = Done" if "\<nexists>s''. count_step atomic s' s''"
    using count_step_next [OF inv] that by blast
  moreover have "final_line (wrap32 (3 * n * k)) \<in> set (stdout s')
      \<and> (\<forall>t < 3. finished_line (int t) (wrap32 (n * k)) \<in> set (stdout s'))" if "main_at s' = Done"
    using inv tu that by (auto simp: count_inv_def thread_inv_def NUM_THREADS_def)
  moreover have "count_mutex s' = Some t" if "t < length (threads s')" "in_section (threads s' ! t)" for t
    using count_inv_thread [OF inv that(1)] that(2) by (simp add: thread_inv_def)
  then have "\<forall>t u. t < length (threads s') \<longrightarrow> u < length (threads s') \<longrightarrow>
      in_section (threads s' ! t) \<longrightarrow> in_section (threads s' ! u) \<longrightarrow> t = u"
    by (metis option.inject)
  ultimately show ?thesis by blast
qed

text \<open>One loop iteration for each thread, the threads taking turns at every step.\<close>

definition demo_schedule :: "nat option list" where
  "demo_schedule = [None, None, None, None, Some 0, Some 1, Some 2, Some 1, Some 1, Some 1, Some 1, Some 0,
     Some 1, Some 0, Some 1, Some 0, Some 0, Some 2, Some 2, Some 0, Some 2, Some 2, Some 2,
     Some 2, Some 0, None, None, None, None]"

theorem count_exact_witness:
  "\<exists>s s' m. count_main False [''ptcount_mutex'', ''1'', ''2000000000''] = Inr s
    \<and> count_run False demo_schedule s = Some s' \<and> ((count_step False) ^^ m) s s'
    \<and> final_line (wrap32 6000000000) \<in> set (stdout s')"
proof -
  let ?argv = "[''ptcount_mutex'', ''1'', ''2000000000'']"
  have a: "atoi ''1'' = 1" "atoi ''2000000000'' = 2000000000" by code_simp+
  obtain s where s: "count_main False ?argv = Inr s" and i: "s = \<lparr>main_at = Create 0, args = (1, 2000000000),
      threads = [], count = 0, count_mutex = None, stdout = []\<rparr>"
    by (simp add: count_main_def a)
  have "\<exists>s'. count_run False demo_schedule s = Some s' \<and> main_at s' = Done"
    by (simp add: i demo_schedule_def main_step_def inc_count_def Let_def step_to_def set_thread_def NUM_THREADS_def int32_iff
        cong: bind_left_cong)
  then obtain s' where r: "count_run False demo_schedule s = Some s'" "main_at s' = Done" by blast
  obtain m where m: "((count_step False) ^^ m) s s'"
    using count_run_steps [OF r(1)] by (metis rtranclp_power)
  have "final_line (wrap32 6000000000) \<in> set (stdout s')"
    using count_exact [OF s m refl refl] r(2) by (simp add: a)
  then show ?thesis using s r m by blast
qed

end
