(* ===== verification/Dine.thy ===== *)
theory Dine
  imports Philosophers
begin

text \<open>
  The philosophers of \<open>src/lab10/procfs/dine.c\<close>: they grab the chopsticks as those of theory
  \<open>Philosophers\<close>, and the main thread detects a deadlock by the processor times the kernel
  reports for the threads in \<open>/proc/self/task/<tid>/stat\<close>. The texts of these files are a
  parameter, one for each round; times are \<open>unsigned long\<close>.
\<close>

subsection \<open>The program\<close>

definition FIELDS_TO_IGNORE :: nat where "FIELDS_TO_IGNORE = 13"

text \<open>\<open>dining\<close> holds the mutexes, \<open>stop\<close> and where each thread is; \<open>tids\<close> the thread numbers, -1 before
  a thread has stored its own.\<close>

record dine =
  dining :: dp_table
  tids :: "int list"
  user_progress :: "64 word list"
  user_time :: "64 word list"
  sys_progress :: "64 word list"
  sys_time :: "64 word list"

text \<open>The next action of philosopher \<open>p\<close>; \<open>tid\<close> is the result of \<open>gettid\<close>, its first action.\<close>

definition dine_thread :: "bool \<Rightarrow> (nat \<Rightarrow> int) \<Rightarrow> nat \<times> nat \<Rightarrow> nat \<Rightarrow> dine \<Rightarrow> dine option" where
  "dine_thread deadlock gettid rnd p s =
     (if tids s ! p = - 1 then Some (s\<lparr>tids := (tids s)[p := gettid p]\<rparr>)
      else do {
        tb \<leftarrow> (case at (Diners (dining s) ! p) of
            Start \<Rightarrow>
              if Stop (dining s) then Some (set_diner p (\<lambda>d. d\<lparr>at := Gone\<rparr>) (dining s))
              else Some (set_diner p (\<lambda>d. d\<lparr>at := Thinking (fst rnd mod 10000), eat_rnd := snd rnd mod 10000\<rparr>) (dining s))
          | Put (Suc k) \<Rightarrow> Some (set_diner p (\<lambda>d. d\<lparr>at := Start\<rparr>) (unlock (left_chop p) (dining s)))
          | a \<Rightarrow> dp_thread (dine_order deadlock) rnd p (dining s));
        Some (s\<lparr>dining := tb\<rparr>) })"

definition dine_table :: dine where
  "dine_table = \<lparr>dining = set_table, tids = replicate NUM_PHILS (- 1),
     user_progress = replicate NUM_PHILS 0, user_time = replicate NUM_PHILS 0,
     sys_progress = replicate NUM_PHILS 0, sys_time = replicate NUM_PHILS 0\<rparr>"

fun dine_threads :: "bool \<Rightarrow> (nat \<Rightarrow> int) \<Rightarrow> schedule \<Rightarrow> dine \<Rightarrow> dine option" where
  "dine_threads deadlock gettid [] s = Some s"
| "dine_threads deadlock gettid ((rnd, p) # sc) s =
     (if p < NUM_PHILS then do { s \<leftarrow> dine_thread deadlock gettid rnd p s; dine_threads deadlock gettid sc s } else None)"

text \<open>The loop that stalls until the threads have stored their numbers; while the main thread
  sleeps the others act.\<close>

fun stall :: "bool \<Rightarrow> (nat \<Rightarrow> int) \<Rightarrow> schedule list \<Rightarrow> nat \<Rightarrow> dine \<Rightarrow> (schedule list \<times> dine) option" where
  "stall deadlock gettid ss 0 s = Some (ss, s)"
| "stall deadlock gettid [] (Suc n) s =
     (if tids s ! (NUM_PHILS - Suc n) \<noteq> - 1 then stall deadlock gettid [] n s else None)"
| "stall deadlock gettid (sc # ss) (Suc n) s =
     (if tids s ! (NUM_PHILS - Suc n) \<noteq> - 1 then stall deadlock gettid (sc # ss) n s
      else do { s \<leftarrow> dine_threads deadlock gettid sc s; stall deadlock gettid ss (Suc n) s })"

definition time_cell :: "64 word \<Rightarrow> 64 word \<Rightarrow> string" where
  "time_cell a b =
     (let buf = show_int (uint a) @ '' / '' @ show_int (uint b) in
      if length buf < 8 then buf @ [TAB, TAB] else buf @ [TAB])"

definition dine_progress :: "dine \<Rightarrow> string" where
  "dine_progress s =
     [NL] @ ''User time:'' @ [TAB] @ concat (map2 time_cell (user_progress s) (user_time s))
     @ [NL] @ ''System time:'' @ [TAB] @ concat (map2 time_cell (sys_progress s) (sys_time s)) @ [NL]"

text \<open>\<open>%*s\<close> and \<open>%lu\<close>; a sign before the digits negates the value.\<close>

definition skip_field :: "string \<Rightarrow> string" where
  "skip_field s = dropWhile (\<lambda>c. \<not> isspace c) (dropWhile isspace s)"

definition scan_ulong :: "string \<Rightarrow> (64 word \<times> string) option" where
  "scan_ulong s =
     (let (neg, t) = split_sign (dropWhile isspace s); ds = takeWhile is_digit t in
      if ds = [] then None
      else Some (if 2 ^ 64 \<le> digits_val ds then - 1 else word_of_int (if neg then - digits_val ds else digits_val ds),
        dropWhile is_digit t))"

text \<open>The times in a file: \<open>None\<close> if there is no such file or no such field, which the program does
  not look at: undefined.\<close>

definition read_times :: "string option \<Rightarrow> (64 word \<times> 64 word) option" where
  "read_times file =
     do { tx \<leftarrow> file;
          (u, r) \<leftarrow> scan_ulong ((skip_field ^^ FIELDS_TO_IGNORE) tx);
          (v, r) \<leftarrow> scan_ulong r;
          Some (u, v) }"

definition check_diner :: "(string \<Rightarrow> string option) \<Rightarrow> nat \<Rightarrow> bool \<times> dine \<Rightarrow> (bool \<times> dine) option" where
  "check_diner file i ds = (case ds of (deadlock, s) \<Rightarrow>
     do { (u, v) \<leftarrow> read_times (file (''/proc/self/task/'' @ show_int (tids s ! i) @ ''/stat''));
          Some (if u \<noteq> user_time s ! i \<or> v \<noteq> sys_time s ! i then False else deadlock,
            s\<lparr>user_progress := (user_progress s)[i := u - user_time s ! i],
              sys_progress := (sys_progress s)[i := v - sys_time s ! i],
              user_time := (user_time s)[i := u], sys_time := (sys_time s)[i := v]\<rparr>) })"

fun check_diners :: "(string \<Rightarrow> string option) \<Rightarrow> nat list \<Rightarrow> bool \<times> dine \<Rightarrow> (bool \<times> dine) option" where
  "check_diners file [] ds = Some ds"
| "check_diners file (i # is) ds = do { ds \<leftarrow> check_diner file i ds; check_diners file is ds }"

definition check_for_deadlock :: "(string \<Rightarrow> string option) \<Rightarrow> dine \<Rightarrow> (bool \<times> dine) option" where
  "check_for_deadlock file s = check_diners file [0..<NUM_PHILS] (True, s)"

text \<open>The rounds: while the main thread sleeps the others act, then it reads the files.\<close>

fun dine_rounds :: "bool \<Rightarrow> (nat \<Rightarrow> int) \<Rightarrow> (schedule \<times> (string \<Rightarrow> string option)) list \<Rightarrow> dine \<Rightarrow> (dine \<times> string) option" where
  "dine_rounds dl gettid [] s = None"
| "dine_rounds dl gettid ((sc, file) # rs) s =
     do { s \<leftarrow> dine_threads dl gettid sc s;
          (deadlock, s) \<leftarrow> check_for_deadlock file s;
          (if deadlock then Some (s, [])
           else do { (s', tx) \<leftarrow> dine_rounds dl gettid rs s; Some (s', dine_progress s @ tx) }) }"

definition dine_main :: "bool \<Rightarrow> (nat \<Rightarrow> int) \<Rightarrow> schedule list \<Rightarrow> (schedule \<times> (string \<Rightarrow> string option)) list \<Rightarrow> schedule
    \<Rightarrow> (dine \<times> string) option" where
  "dine_main dl gettid start rs rest =
     do { (ss, s) \<leftarrow> stall dl gettid start NUM_PHILS dine_table;
          (s, tx) \<leftarrow> dine_rounds dl gettid rs s;
          let tb = dining s;
          s \<leftarrow> dine_threads dl gettid rest (s\<lparr>dining := tb\<lparr>Stop := True, chopstick := map (\<lambda>c. None) (chopstick tb)\<rparr>\<rparr>);
          (if \<forall>d \<in> set (Diners (dining s)). at d = Gone then Some (s, tx @ ''Reached deadlock'' @ [NL]) else None) }"

subsection \<open>What a check finds\<close>

definition dine_ok :: "dine \<Rightarrow> bool" where
  "dine_ok s \<longleftrightarrow> length (tids s) = NUM_PHILS \<and> length (user_progress s) = NUM_PHILS \<and> length (user_time s) = NUM_PHILS
     \<and> length (sys_progress s) = NUM_PHILS \<and> length (sys_time s) = NUM_PHILS"

definition stat_of :: "(string \<Rightarrow> string option) \<Rightarrow> dine \<Rightarrow> nat \<Rightarrow> (64 word \<times> 64 word) option" where
  "stat_of file s i = read_times (file (''/proc/self/task/'' @ show_int (tids s ! i) @ ''/stat''))"

definition checked :: "nat set \<Rightarrow> (nat \<Rightarrow> 64 word) \<Rightarrow> (nat \<Rightarrow> 64 word) \<Rightarrow> dine \<Rightarrow> dine \<Rightarrow> bool" where
  "checked A us vs s s' \<longleftrightarrow> dine_ok s' \<and> tids s' = tids s \<and> dining s' = dining s
     \<and> (\<forall>i < NUM_PHILS. user_time s' ! i = (if i \<in> A then us i else user_time s ! i)
         \<and> sys_time s' ! i = (if i \<in> A then vs i else sys_time s ! i)
         \<and> user_progress s' ! i = (if i \<in> A then us i - user_time s ! i else user_progress s ! i)
         \<and> sys_progress s' ! i = (if i \<in> A then vs i - sys_time s ! i else sys_progress s ! i))"

lemma check_diners_ok:
  assumes "dine_ok s" and "\<forall>i \<in> set is. stat_of file s i = Some (us i, vs i)" and "distinct is" and "set is \<subseteq> {..<NUM_PHILS}"
  shows "\<exists>s'. check_diners file is (deadlock, s) =
      Some (deadlock \<and> (\<forall>i \<in> set is. us i = user_time s ! i \<and> vs i = sys_time s ! i), s') \<and> checked (set is) us vs s s'"
  using assms
proof (induction "is" arbitrary: deadlock s)
  case Nil
  then show ?case by (simp add: checked_def)
next
  case (Cons i "is")
  let ?s = "s\<lparr>user_progress := (user_progress s)[i := us i - user_time s ! i],
    sys_progress := (sys_progress s)[i := vs i - sys_time s ! i],
    user_time := (user_time s)[i := us i], sys_time := (sys_time s)[i := vs i]\<rparr>"
  let ?d = "if us i \<noteq> user_time s ! i \<or> vs i \<noteq> sys_time s ! i then False else deadlock"
  have i: "i < NUM_PHILS" "i \<notin> set is" using Cons.prems by auto
  have one: "check_diner file i (deadlock, s) = Some (?d, ?s)"
    using Cons.prems(2) by (auto simp: check_diner_def stat_of_def)
  have ok: "dine_ok ?s" using Cons.prems(1) by (simp add: dine_ok_def)
  have len: "i < length (user_time s)" "i < length (sys_time s)" "i < length (user_progress s)" "i < length (sys_progress s)"
    using Cons.prems(1) i(1) by (simp_all add: dine_ok_def)
  have "\<forall>j \<in> set is. stat_of file ?s j = Some (us j, vs j)" using Cons.prems(2) by (simp add: stat_of_def)
  from Cons.IH [OF ok this, of ?d] Cons.prems(3,4) obtain s' where
    r: "check_diners file is (?d, ?s) = Some (?d \<and> (\<forall>j \<in> set is. us j = user_time ?s ! j \<and> vs j = sys_time ?s ! j), s')"
    and c: "checked (set is) us vs ?s s'" by auto
  have "(\<forall>j \<in> set is. us j = user_time ?s ! j \<and> vs j = sys_time ?s ! j) \<longleftrightarrow> (\<forall>j \<in> set is. us j = user_time s ! j \<and> vs j = sys_time s ! j)"
  proof (intro ball_cong refl)
    fix j assume "j \<in> set is"
    then have "j \<noteq> i" using i(2) by auto
    then show "(us j = user_time ?s ! j \<and> vs j = sys_time ?s ! j) = (us j = user_time s ! j \<and> vs j = sys_time s ! j)" by simp
  qed
  then have "check_diners file (i # is) (deadlock, s) =
      Some (deadlock \<and> (\<forall>j \<in> set (i # is). us j = user_time s ! j \<and> vs j = sys_time s ! j), s')"
    using one r by auto
  moreover have "checked (set (i # is)) us vs s s'"
    using c i len by (auto simp: checked_def nth_list_update)
  ultimately show ?case by blast
qed

text \<open>A check reports a deadlock exactly when no thread has used processor time since the last
  one; the progress printed is what each has used.\<close>

lemma check_for_deadlock_ok:
  assumes "dine_ok s" and "\<forall>i < NUM_PHILS. stat_of file s i = Some (us i, vs i)"
  shows "\<exists>s'. check_for_deadlock file s = Some (\<forall>i < NUM_PHILS. us i = user_time s ! i \<and> vs i = sys_time s ! i, s')
    \<and> checked {..<NUM_PHILS} us vs s s'"
proof -
  have "\<forall>i \<in> set [0..<NUM_PHILS]. stat_of file s i = Some (us i, vs i)" using assms(2) by simp
  from check_diners_ok [OF assms(1) this, where deadlock = True] show ?thesis
    by (auto simp: check_for_deadlock_def atLeast0LessThan)
qed

text \<open>The text of a file with its command name in the second field.\<close>

lemma read_times_example:
  "read_times (Some ''41 (dine) S 1 2 3 4 5 6 7 8 9 10 250 17 0 0'') = Some (250, 17)"
  by (simp add: read_times_def skip_field_def scan_ulong_def FIELDS_TO_IGNORE_def eval_nat_numeral split_sign_def
      digits_val_def digit_val_def char_class_defs)

end
