(* ===== verification/FileCopy.thy ===== *)
theory FileCopy
  imports CStrings
begin

text \<open>
  The two programs of \<open>src/lab9/mmio\<close> that copy a file: \<open>read_write.c\<close> through a buffer of a given
  size, \<open>memmap.c\<close> by mapping both files into memory. A file is the list of its bytes; a byte
  that the program never determined (from \<open>malloc\<close>) is \<open>None\<close>. Files are regular, no call is
  interrupted, and writing never fails for lack of space.
\<close>

subsection \<open>Files\<close>

type_synonym bytes = "char option list"
type_synonym files = "string \<Rightarrow> bytes option"

text \<open>What the kernel allows: opening for reading, creating for writing, the sizes \<open>malloc\<close> and
  \<open>mmap\<close> can serve.\<close>

record kernel =
  may_read :: "string \<Rightarrow> bool"
  may_write :: "string \<Rightarrow> bool"
  has_memory :: "nat \<Rightarrow> bool"

text \<open>The result of a program: what it prints before it exits with an error, or the exit status 0;
  with the files it leaves. The message after the colon of \<open>perror\<close> is the C library's.\<close>

type_synonym outcome = "string option \<times> files"

text \<open>\<open>sprintf\<close> into the 256 bytes of \<open>buf\<close>, undefined beyond.\<close>

definition sprintf_buf :: "string \<Rightarrow> string option" where
  "sprintf_buf s = (if length s < 256 then Some s else None)"

definition open_in :: "kernel \<Rightarrow> string \<Rightarrow> files \<Rightarrow> bytes option" where
  "open_in k name fs = (if may_read k name then fs name else None)"

text \<open>\<open>O_CREAT | O_TRUNC\<close>.\<close>

definition open_out :: "kernel \<Rightarrow> string \<Rightarrow> files \<Rightarrow> files option" where
  "open_out k name fs = (if may_write k name then Some (fs(name \<mapsto> [])) else None)"

definition err_quit :: "string \<Rightarrow> files \<Rightarrow> outcome" where
  "err_quit mesg fs = (Some (mesg @ [NL]), fs)"

text \<open>The part both programs begin with: opening the files. The input is read through its
  descriptor later on, after the output has been truncated.\<close>

definition open_files :: "kernel \<Rightarrow> string \<Rightarrow> string \<Rightarrow> files \<Rightarrow> (string + files) option" where
  "open_files k fromfile tofile fs =
     (case open_in k fromfile fs of
        None \<Rightarrow> map_option Inl (sprintf_buf (''can't open '' @ fromfile @ '' for reading''))
      | Some file \<Rightarrow> (case open_out k tofile fs of
          None \<Rightarrow> map_option Inl (sprintf_buf (''can't create '' @ tofile @ '' for writing''))
        | Some fs \<Rightarrow> Some (Inr fs)))"

subsection \<open>Reading and writing\<close>

text \<open>\<open>read\<close> puts up to \<open>bufsz\<close> bytes at the start of the buffer; \<open>write\<close> writes all of it.\<close>

definition read_bytes :: "bytes \<Rightarrow> bytes \<Rightarrow> bytes \<times> bytes" where
  "read_bytes buf rest = (take (length buf) rest @ drop (length rest) buf, drop (length buf) rest)"

function copy_loop :: "bytes \<Rightarrow> bytes \<Rightarrow> bytes" where
  "copy_loop buf rest =
     (if buf = [] \<or> rest = [] then []
      else (let (buf, rest) = read_bytes buf rest in buf @ copy_loop buf rest))"
  by pat_completeness auto
termination
  by (relation "measure (\<lambda>(buf, rest). length rest)") (auto simp: read_bytes_def)

declare copy_loop.simps [simp del]

text \<open>\<open>malloc\<close> and \<open>read\<close> take the size as \<open>size_t\<close>, a negative one is too large for memory. With
  a buffer that is \<open>NULL\<close> or of no size the first \<open>read\<close> fails or returns 0.\<close>

definition read_write :: "kernel \<Rightarrow> string list \<Rightarrow> files \<Rightarrow> outcome option" where
  "read_write k argv fs = (case argv of
     [p, fromfile, tofile, buf_size] \<Rightarrow>
       do { r \<leftarrow> open_files k fromfile tofile fs;
            (case r of
               Inl mesg \<Rightarrow> Some (Some mesg, fs)
             | Inr fs \<Rightarrow>
                 let bufsz = atoi buf_size in
                 if 0 \<le> bufsz \<and> has_memory k (nat bufsz)
                 then do { src \<leftarrow> fs fromfile;
                           Some (None, fs(tofile \<mapsto> the (fs tofile) @ copy_loop (replicate (nat bufsz) None) src)) }
                 else Some (None, fs)) }
   | _ \<Rightarrow> Some (err_quit ''usage: read_write <fromfile> <tofile> <buf_size>'' fs))"

subsection \<open>Mapping\<close>

text \<open>\<open>lseek\<close> before the start fails; writing one byte there gives the file its size, with zeros
  before. \<open>mmap\<close> of nothing would fail, but that is not reached.\<close>

definition memmap :: "kernel \<Rightarrow> string list \<Rightarrow> files \<Rightarrow> outcome option" where
  "memmap k argv fs = (case argv of
     [p, fromfile, tofile] \<Rightarrow>
       do { r \<leftarrow> open_files k fromfile tofile fs;
            (case r of
               Inl mesg \<Rightarrow> Some (Some mesg, fs)
             | Inr fs \<Rightarrow>
                 do { src \<leftarrow> fs fromfile;
                      let st_size = length src;
                      (if st_size = 0 then Some (Some ''lseek error'', fs)
                       else let fs = fs(tofile \<mapsto> replicate (st_size - 1) (Some NUL) @ [Some NUL]) in
                         if \<not> has_memory k st_size then Some (Some ''mmap error for input'', fs)
                         else if \<not> has_memory k (2 * st_size) then Some (Some ''mmap error for output'', fs)
                         else do { src \<leftarrow> fs fromfile;
                                   dst \<leftarrow> fs tofile;
                                   Some (None, fs(tofile \<mapsto> take st_size src @ drop st_size dst)) }) }) }
   | _ \<Rightarrow> Some (err_quit ''usage: memmap <fromfile> <tofile>'' fs))"

subsection \<open>What the copy is\<close>

text \<open>The buffered copy begins with the file and is filled up to a multiple of the buffer's size.\<close>

lemma copy_loop_ok:
  assumes "buf \<noteq> []"
  shows "\<exists>tail. copy_loop buf s = s @ tail \<and> length tail < length buf \<and> length buf dvd length (s @ tail)"
  using assms
proof (induction buf s rule: copy_loop.induct)
  case (1 buf s)
  let ?b = "length buf"
  show ?case
  proof (cases "s = []")
    case True
    then show ?thesis using 1(2) by (simp add: copy_loop.simps)
  next
    case False
    let ?buf = "take ?b s @ drop (length s) buf"
    have r: "read_bytes buf s = (?buf, drop ?b s)" by (simp add: read_bytes_def)
    have c: "copy_loop buf s = ?buf @ copy_loop ?buf (drop ?b s)"
      using False 1(2) by (subst copy_loop.simps) (simp add: r)
    have len: "length ?buf = ?b" by simp
    then have ne: "?buf \<noteq> []" using 1(2) by (metis length_0_conv)
    obtain tail where t: "copy_loop ?buf (drop ?b s) = drop ?b s @ tail" "length tail < ?b"
      "?b dvd length (drop ?b s @ tail)"
      using 1(1) [OF _ r [symmetric] refl ne] False 1(2) len by auto
    show ?thesis
    proof (cases "?b \<le> length s")
      case True
      then have "copy_loop buf s = s @ tail" using c t(1) by simp
      moreover have "?b dvd length (s @ tail)"
      proof -
        have "length (s @ tail) = ?b + length (drop ?b s @ tail)" using True by simp
        then show ?thesis using t(3) by (metis dvd_add_triv_left_iff)
      qed
      ultimately show ?thesis using t(2) by blast
    next
      case False
      then have "copy_loop ?buf (drop ?b s) = []" by (simp add: copy_loop.simps)
      then have "copy_loop buf s = s @ drop (length s) buf" using c False by simp
      moreover have "length (drop (length s) buf) < ?b" "length (s @ drop (length s) buf) = ?b"
        using False \<open>s \<noteq> []\<close> by (simp_all, cases s, auto)
      ultimately show ?thesis by (metis dvd_refl)
    qed
  qed
qed

lemma copy_loop_exact:
  assumes "buf \<noteq> []"
  shows "copy_loop buf s = s \<longleftrightarrow> length buf dvd length s"
proof -
  obtain tail where t: "copy_loop buf s = s @ tail" "length tail < length buf" "length buf dvd length (s @ tail)"
    using copy_loop_ok [OF assms] by blast
  show ?thesis
  proof
    assume "copy_loop buf s = s"
    then show "length buf dvd length s" using t by simp
  next
    assume "length buf dvd length s"
    then have "length buf dvd length tail" using t(3) by (simp add: dvd_add_right_iff)
    then have "length tail = 0" using t(2) by (meson dvd_imp_le leD neq0_conv)
    then show "copy_loop buf s = s" using t(1) by simp
  qed
qed

text \<open>\<open>memmap\<close> copies every nonempty file exactly, while \<open>read_write\<close> does so if and only if
  the size of the buffer divides that of the file: it writes the whole buffer after the last,
  shorter read as well. Otherwise its copy is the file with more bytes behind it, up to the next
  multiple of the buffer's size.\<close>

lemma copies_compared:
  assumes "fs fromfile = Some s" and "s \<noteq> []" and "fromfile \<noteq> tofile" and "may_read k fromfile" and "may_write k tofile"
    and "0 < atoi buf_size" and "has_memory k (nat (atoi buf_size))" and "has_memory k (length s)" and "has_memory k (2 * length s)"
  shows "(\<exists>fs'. memmap k [p, fromfile, tofile] fs = Some (None, fs') \<and> fs' tofile = Some s \<and> fs' fromfile = Some s)
    \<and> (\<exists>fs' tail. read_write k [p, fromfile, tofile, buf_size] fs = Some (None, fs') \<and> fs' tofile = Some (s @ tail) \<and> fs' fromfile = Some s
        \<and> length tail < nat (atoi buf_size) \<and> nat (atoi buf_size) dvd length (s @ tail)
        \<and> (tail = [] \<longleftrightarrow> nat (atoi buf_size) dvd length s))"
proof -
  let ?n = "nat (atoi buf_size)"
  let ?buf = "replicate ?n (None :: char option)"
  have f: "open_files k fromfile tofile fs = Some (Inr (fs(tofile \<mapsto> [])))"
    using assms by (simp add: open_files_def open_in_def open_out_def)
  have ne: "?buf \<noteq> []" using assms(6) by simp
  obtain tail where t: "copy_loop ?buf s = s @ tail" "length tail < ?n" "?n dvd length (s @ tail)"
    using copy_loop_ok [OF ne, of s] by auto
  have "tail = [] \<longleftrightarrow> ?n dvd length s" using copy_loop_exact [OF ne, of s] t(1) by simp
  moreover have "read_write k [p, fromfile, tofile, buf_size] fs = Some (None, fs(tofile \<mapsto> s @ tail))"
    using f t assms by (simp add: read_write_def Let_def)
  moreover have "memmap k [p, fromfile, tofile] fs = Some (None, fs(tofile \<mapsto> s))"
  proof -
    have "drop (length s - (length s - Suc 0)) [b] = []" for b :: "char option" using assms(2) by (cases s) auto
    then show ?thesis using f assms by (simp add: memmap_def Let_def)
  qed
  ultimately show ?thesis using assms(1,3) t by (auto intro!: exI)
qed

definition demo_files :: files where
  "demo_files name = (if name = ''a.txt'' then Some (map Some ''hello'') else None)"

definition demo_kernel :: kernel where
  "demo_kernel = \<lparr>may_read = (\<lambda>n. True), may_write = (\<lambda>n. True), has_memory = (\<lambda>n. n < 1000)\<rparr>"

lemma copies_compared_witness:
  "\<exists>fs' tail. read_write demo_kernel [''read_write'', ''a.txt'', ''b.txt'', ''4''] demo_files = Some (None, fs')
    \<and> fs' ''b.txt'' = Some (map Some ''hello'' @ tail) \<and> length tail = 3"
proof -
  have n: "atoi ''4'' = 4" by code_simp
  have "\<exists>fs' tail. read_write demo_kernel [''read_write'', ''a.txt'', ''b.txt'', ''4''] demo_files = Some (None, fs')
    \<and> fs' ''b.txt'' = Some (map Some ''hello'' @ tail) \<and> length tail < 4 \<and> 4 dvd length (map Some ''hello'' @ tail)"
    using copies_compared [of demo_files "''a.txt''" "map Some ''hello''" "''b.txt''" demo_kernel "''4''" "''read_write''"]
    by (auto simp: n demo_files_def demo_kernel_def)
  then obtain fs' tail where r: "read_write demo_kernel [''read_write'', ''a.txt'', ''b.txt'', ''4''] demo_files = Some (None, fs')"
    "fs' ''b.txt'' = Some (map Some ''hello'' @ tail)" "length tail < 4" "4 dvd length (map Some ''hello'' @ tail)" by blast
  have "length (map Some ''hello'' @ tail) = 5 + length tail" by simp
  then have "length tail = 3" using r(3,4) by presburger
  then show ?thesis using r by blast
qed

end
