(* ===== verification/Finder.thy ===== *)
theory Finder
  imports Execute
begin

text \<open>
  \<open>src/lab3/3122729-ipc-lab/finder.c\<close>: a pipeline \<open>find | xargs grep | sort | head\<close> of four
  children. The descriptors of a process, \<open>close\<close>, \<open>dup2\<close> and the choice of the lowest free
  descriptor are those of theory \<open>Execute\<close>; \<open>pipe\<close>, \<open>fork\<close> and \<open>execl\<close> succeed.
\<close>

subsection \<open>The program\<close>

definition BSIZE :: nat where "BSIZE = 256"
definition BASH_EXEC :: string where "BASH_EXEC = ''/bin/bash''"
definition FIND_EXEC :: string where "FIND_EXEC = ''/bin/find''"
definition XARGS_EXEC :: string where "XARGS_EXEC = ''/usr/bin/xargs''"
definition GREP_EXEC :: string where "GREP_EXEC = ''/bin/grep''"
definition SORT_EXEC :: string where "SORT_EXEC = ''/bin/sort''"
definition HEAD_EXEC :: string where "HEAD_EXEC = ''/usr/bin/head''"

text \<open>Pipe number \<open>n\<close>: its read end and its write end.\<close>

definition pipe :: "nat \<Rightarrow> fdtab \<Rightarrow> (nat \<times> nat) \<times> fdtab" where
  "pipe n tab = (let (r, tab) = fd_new tab (PipeR n); (w, tab) = fd_new tab (PipeW n) in ((r, w), tab))"

definition close_pipe :: "nat \<times> nat \<Rightarrow> fdtab \<Rightarrow> fdtab" where
  "close_pipe p tab = fd_close (fd_close tab (fst p)) (snd p)"

definition close_pipes :: "nat \<times> nat \<Rightarrow> nat \<times> nat \<Rightarrow> nat \<times> nat \<Rightarrow> fdtab \<Rightarrow> fdtab" where
  "close_pipes p1 p2 p3 tab = close_pipe p3 (close_pipe p2 (close_pipe p1 tab))"

text \<open>\<open>sprintf\<close> into a buffer of \<open>BSIZE\<close> bytes.\<close>

definition sprintf_bsize :: "string \<Rightarrow> string option" where
  "sprintf_bsize s = (if length s < BSIZE then Some s else None)"

text \<open>The children: their descriptors and the arguments of \<open>execl\<close>, the path first.\<close>

definition first_child :: "string list \<Rightarrow> nat \<times> nat \<Rightarrow> nat \<times> nat \<Rightarrow> nat \<times> nat \<Rightarrow> fdtab \<Rightarrow> (fdtab \<times> string list) option" where
  "first_child argv p1 p2 p3 tab =
     do { cmdbuf \<leftarrow> sprintf_bsize (FIND_EXEC @ '' '' @ argv ! 1 @ '' -name '' @ [CHR 0x27] @ ''*'' @ [CHR 0x27] @ ''.[h]'');
          Some (close_pipes p1 p2 p3 (dup2 tab (snd p1) 1), [BASH_EXEC, BASH_EXEC, ''-c'', cmdbuf]) }"

definition second_child :: "string list \<Rightarrow> nat \<times> nat \<Rightarrow> nat \<times> nat \<Rightarrow> nat \<times> nat \<Rightarrow> fdtab \<Rightarrow> (fdtab \<times> string list) option" where
  "second_child argv p1 p2 p3 tab =
     Some (close_pipes p1 p2 p3 (dup2 (dup2 tab (fst p1) 0) (snd p2) 1), [XARGS_EXEC, XARGS_EXEC, GREP_EXEC, ''-c'', argv ! 2])"

definition third_child :: "string list \<Rightarrow> nat \<times> nat \<Rightarrow> nat \<times> nat \<Rightarrow> nat \<times> nat \<Rightarrow> fdtab \<Rightarrow> (fdtab \<times> string list) option" where
  "third_child argv p1 p2 p3 tab =
     Some (close_pipes p1 p2 p3 (dup2 (dup2 tab (fst p2) 0) (snd p3) 1),
       [SORT_EXEC, SORT_EXEC, ''-t'', '':'', ''+1.0'', ''-2.0'', ''--numeric'', ''--reverse''])"

definition fourth_child :: "string list \<Rightarrow> nat \<times> nat \<Rightarrow> nat \<times> nat \<Rightarrow> nat \<times> nat \<Rightarrow> fdtab \<Rightarrow> (fdtab \<times> string list) option" where
  "fourth_child argv p1 p2 p3 tab =
     do { headbuf \<leftarrow> sprintf_bsize (''--lines='' @ argv ! 3);
          Some (close_pipes p1 p2 p3 (dup2 tab (fst p3) 0), [HEAD_EXEC, HEAD_EXEC, headbuf]) }"

text \<open>\<open>main\<close>: the usage message, or the four children with the descriptors the parent is left with
  while it waits for them in order.\<close>

definition finder_main :: "string list \<Rightarrow> fdtab \<Rightarrow> (string + (fdtab \<times> string list) list \<times> fdtab) option" where
  "finder_main argv tab =
     (if length argv \<noteq> 4 then Some (Inl (''usage: finder DIR STR NUM_FILES'' @ [NL]))
      else let (p1, tab) = pipe 1 tab; (p2, tab) = pipe 2 tab; (p3, tab) = pipe 3 tab in
        do { c1 \<leftarrow> first_child argv p1 p2 p3 tab;
             c2 \<leftarrow> second_child argv p1 p2 p3 tab;
             c3 \<leftarrow> third_child argv p1 p2 p3 tab;
             c4 \<leftarrow> fourth_child argv p1 p2 p3 tab;
             Some (Inr ([c1, c2, c3, c4], close_pipes p1 p2 p3 tab)) })"

subsection \<open>The pipeline\<close>

lemmas fd_defs = fd_get_def fd_set_def fd_close_def dup2_def fd_new_def

text \<open>From a process with its three standard descriptors, each child reads what the one before it
  writes, and no other end of a pipe stays open, in a child or in the parent: every reader sees
  the end of its input when its writer ends.\<close>

definition all_pipes :: fdtab where
  "all_pipes = [Some (Stdio 0), Some (Stdio 1), Some (Stdio 2), Some (PipeR 1), Some (PipeW 1), Some (PipeR 2), Some (PipeW 2),
     Some (PipeR 3), Some (PipeW 3)]"

definition only :: "handle \<Rightarrow> handle \<Rightarrow> fdtab" where
  "only inp outp = [Some inp, Some outp, Some (Stdio 2)] @ replicate 6 None"

lemma three_pipes:
  "(let (p1, tab) = pipe 1 [Some (Stdio 0), Some (Stdio 1), Some (Stdio 2)]; (p2, tab) = pipe 2 tab; (p3, tab) = pipe 3 tab
    in f p1 p2 p3 tab) = f (3, 4) (5, 6) (7, 8) all_pipes"
  by (simp add: pipe_def fd_defs eval_nat_numeral all_pipes_def)

lemma close_all_pipes:
  "close_pipes (3, 4) (5, 6) (7, 8) all_pipes = only (Stdio 0) (Stdio 1)"
  "close_pipes (3, 4) (5, 6) (7, 8) (dup2 all_pipes 4 1) = only (Stdio 0) (PipeW 1)"
  "close_pipes (3, 4) (5, 6) (7, 8) (dup2 (dup2 all_pipes 3 0) 6 1) = only (PipeR 1) (PipeW 2)"
  "close_pipes (3, 4) (5, 6) (7, 8) (dup2 (dup2 all_pipes 5 0) 8 1) = only (PipeR 2) (PipeW 3)"
  "close_pipes (3, 4) (5, 6) (7, 8) (dup2 all_pipes 7 0) = only (PipeR 3) (Stdio 1)"
  by (simp_all add: close_pipes_def close_pipe_def fd_defs eval_nat_numeral all_pipes_def only_def)

lemma finder_connected:
  assumes "length dir < 227" and "length num < 248"
  shows "finder_main [prog, dir, str, num] [Some (Stdio 0), Some (Stdio 1), Some (Stdio 2)] = Some (Inr (
      [(only (Stdio 0) (PipeW 1), [BASH_EXEC, BASH_EXEC, ''-c'',
          FIND_EXEC @ '' '' @ dir @ '' -name '' @ [CHR 0x27] @ ''*'' @ [CHR 0x27] @ ''.[h]'']),
       (only (PipeR 1) (PipeW 2), [XARGS_EXEC, XARGS_EXEC, GREP_EXEC, ''-c'', str]),
       (only (PipeR 2) (PipeW 3), [SORT_EXEC, SORT_EXEC, ''-t'', '':'', ''+1.0'', ''-2.0'', ''--numeric'', ''--reverse'']),
       (only (PipeR 3) (Stdio 1), [HEAD_EXEC, HEAD_EXEC, ''--lines='' @ num])],
      only (Stdio 0) (Stdio 1)))"
proof -
  have "length (FIND_EXEC @ '' '' @ dir @ '' -name '' @ [CHR 0x27] @ ''*'' @ [CHR 0x27] @ ''.[h]'') < BSIZE"
    "length (''--lines='' @ num) < BSIZE"
    using assms by (simp_all add: BSIZE_def FIND_EXEC_def)
  then show ?thesis
    unfolding finder_main_def three_pipes
    by (simp add: first_child_def second_child_def third_child_def fourth_child_def sprintf_bsize_def close_all_pipes
        del: append_Cons append.simps length_append One_nat_def)
qed

end
