(* ===== verification/Ipc.thy ===== *)
theory Ipc
  imports CStrings
begin

text \<open>
  The programs of \<open>src/lab4/lab4_fifo\<close> on communication between processes: \<open>pipe-sync.c\<close>,
  \<open>fifo_producer.c\<close> and \<open>fifo_consumer.c\<close>, \<open>shared_memory3.c\<close> and \<open>thread-1.c\<close>. System calls
  succeed where the programs do not look. A terminal shows each line as it is printed; into a
  file or a pipe the C library writes what a process has printed when the process ends, and
  \<open>fork\<close> copies what is waiting.
\<close>

subsection \<open>Two processes in turn\<close>

text \<open>\<open>child_at\<close> and \<open>parent_at\<close> number the calls of the two processes in their order; \<open>p1\<close> and \<open>p2\<close> are the
  bytes in the pipes.\<close>

datatype line = Child_line nat | Parent_line nat

text \<open>A line of output, \<open>Child line n\<close> or \<open>Parent line n\<close>.\<close>

definition line_text :: "line \<Rightarrow> string" where
  "line_text l = (case l of Child_line n \<Rightarrow> ''Child line '' @ show_int (int n) @ [NL] | Parent_line n \<Rightarrow> ''Parent line '' @ show_int (int n) @ [NL])"

record sync =
  child_at :: nat
  parent_at :: nat
  p1 :: string
  p2 :: string
  shown :: "line list"
  child_out :: "line list"
  parent_out :: "line list"

definition sync_start :: sync where
  "sync_start = \<lparr>child_at = 0, parent_at = 0, p1 = [], p2 = [], shown = [], child_out = [], parent_out = []\<rparr>"

definition child_print :: "bool \<Rightarrow> line \<Rightarrow> sync \<Rightarrow> sync" where
  "child_print tty l s = (if tty then s\<lparr>shown := shown s @ [l]\<rparr> else s\<lparr>child_out := child_out s @ [l]\<rparr>)"

definition parent_print :: "bool \<Rightarrow> line \<Rightarrow> sync \<Rightarrow> sync" where
  "parent_print tty l s = (if tty then s\<lparr>shown := shown s @ [l]\<rparr> else s\<lparr>parent_out := parent_out s @ [l]\<rparr>)"

text \<open>The next call of a process, \<open>None\<close> while it waits and after its end. \<open>read\<close> waits while the pipe
  is empty and takes what there is.\<close>

definition child_step :: "bool \<Rightarrow> sync \<Rightarrow> sync option" where
  "child_step tty s = (
     if child_at s = 0 then Some (child_print tty (Child_line 1) s\<lparr>child_at := 1\<rparr>)
     else if child_at s = 1 then Some (s\<lparr>p1 := p1 s @ ''go'', child_at := 2\<rparr>)
     else if child_at s = 2 then (if p2 s = [] then None else Some (s\<lparr>p2 := drop 1024 (p2 s), child_at := 3\<rparr>))
     else if child_at s = 3 then Some (child_print tty (Child_line 2) s\<lparr>child_at := 4\<rparr>)
     else if child_at s = 4 then Some (s\<lparr>shown := shown s @ child_out s, child_out := [], child_at := 5\<rparr>)
     else None)"

definition parent_step :: "bool \<Rightarrow> sync \<Rightarrow> sync option" where
  "parent_step tty s = (
     if parent_at s = 0 then (if p1 s = [] then None else Some (s\<lparr>p1 := drop 1024 (p1 s), parent_at := 1\<rparr>))
     else if parent_at s = 1 then Some (parent_print tty (Parent_line 1) s\<lparr>parent_at := 2\<rparr>)
     else if parent_at s = 2 then Some (s\<lparr>p2 := p2 s @ ''go'', parent_at := 3\<rparr>)
     else if parent_at s = 3 then (if child_at s = 5 then Some (s\<lparr>parent_at := 4\<rparr>) else None)
     else if parent_at s = 4 then Some (parent_print tty (Parent_line 2) s\<lparr>parent_at := 5\<rparr>)
     else if parent_at s = 5 then Some (s\<lparr>shown := shown s @ parent_out s, parent_out := [], parent_at := 6\<rparr>)
     else None)"

inductive sync_reach :: "bool \<Rightarrow> sync \<Rightarrow> bool" for tty where
  start: "sync_reach tty sync_start"
| child: "sync_reach tty s \<Longrightarrow> child_step tty s = Some s' \<Longrightarrow> sync_reach tty s'"
| parent: "sync_reach tty s \<Longrightarrow> parent_step tty s = Some s' \<Longrightarrow> sync_reach tty s'"

text \<open>At each point only one of the two can act: these are all the states there are.\<close>

definition sync_next :: "bool \<Rightarrow> sync \<Rightarrow> sync" where
  "sync_next tty s = (case child_step tty s of Some s' \<Rightarrow> s'
     | None \<Rightarrow> (case parent_step tty s of Some s' \<Rightarrow> s' | None \<Rightarrow> s))"

fun sync_run :: "bool \<Rightarrow> nat \<Rightarrow> sync \<Rightarrow> sync list" where
  "sync_run tty 0 s = [s]"
| "sync_run tty (Suc n) s = s # sync_run tty n (sync_next tty s)"

definition sync_states :: "bool \<Rightarrow> sync list" where
  "sync_states tty = sync_run tty 11 sync_start"

definition sync_closed :: "bool \<Rightarrow> sync \<Rightarrow> bool" where
  "sync_closed tty s \<longleftrightarrow>
     (case child_step tty s of None \<Rightarrow> True | Some s' \<Rightarrow> s' \<in> set (sync_states tty))
     \<and> (case parent_step tty s of None \<Rightarrow> True | Some s' \<Rightarrow> s' \<in> set (sync_states tty))"

definition sync_order :: "bool \<Rightarrow> sync \<Rightarrow> bool" where
  "sync_order tty s \<longleftrightarrow>
     (child_step tty s = None \<and> parent_step tty s = None \<longleftrightarrow> child_at s = 5 \<and> parent_at s = 6)
     \<and> (child_at s = 5 \<and> parent_at s = 6 \<longrightarrow> shown s =
        (if tty then [Child_line 1, Parent_line 1, Child_line 2, Parent_line 2]
         else [Child_line 1, Child_line 2, Parent_line 1, Parent_line 2]))"

lemma sync_states_tty: "\<forall>s \<in> set (sync_states True). sync_closed True s \<and> sync_order True s"
  by code_simp

lemma sync_states_file: "\<forall>s \<in> set (sync_states False). sync_closed False s \<and> sync_order False s"
  by code_simp

lemma sync_states_ok: "\<forall>s \<in> set (sync_states tty). sync_closed tty s \<and> sync_order tty s"
  using sync_states_tty sync_states_file by (cases tty) simp_all

lemma sync_reach_states:
  assumes "sync_reach tty s"
  shows "s \<in> set (sync_states tty)"
  using assms
proof (induction rule: sync_reach.induct)
  case start
  show ?case by (simp add: sync_states_def eval_nat_numeral)
next
  case (child s s')
  then show ?case using sync_states_ok [of tty] by (fastforce simp: sync_closed_def)
next
  case (parent s s')
  then show ?case using sync_states_ok [of tty] by (fastforce simp: sync_closed_def)
qed

text \<open>On a terminal the four lines always come in the order the exercise asks for; written to a
  file or a pipe they never do. The processes never wait for each other for ever.\<close>

lemma pipe_sync_order: "sync_reach tty s \<Longrightarrow> sync_order tty s"
  using sync_reach_states sync_states_ok by blast

subsection \<open>The fifo\<close>

definition MAX_LENGTH :: nat where "MAX_LENGTH = 1000"

text \<open>The loop of \<open>fifo_producer.c\<close>: the texts it writes, one for each line that ends with a
  newline or fills the buffer. \<open>strlen\<close> stops at a NUL.\<close>

function producer :: "string \<Rightarrow> string list" where
  "producer s = (let (str, rest, eof) = fgets (MAX_LENGTH - 1) s in
     if eof \<or> s = [] then [] else cstr str # producer rest)"
  by pat_completeness auto

lemma fgets_less: "fgets n s = (l, r, eof) \<Longrightarrow> length r \<le> length s \<and> (0 < n \<longrightarrow> s \<noteq> [] \<longrightarrow> length r < length s)"
  by (induction n s arbitrary: l r eof rule: fgets.induct) (fastforce split: prod.splits if_splits)+

termination producer
proof (relation "measure length")
  fix s :: string and x str y rest eof
  assume "x = fgets (MAX_LENGTH - 1) s" "(str, y) = x" "(rest, eof) = y" "\<not> (eof \<or> s = [])"
  then show "(rest, s) \<in> measure length" using fgets_less [of "MAX_LENGTH - 1" s str rest eof] by (simp add: MAX_LENGTH_def)
qed simp

declare producer.simps [simp del]

text \<open>What the producer prints for each write.\<close>

definition wrote :: "string \<Rightarrow> string" where
  "wrote w = ''producer: wrote '' @ show_int (int (length w)) @ '' bytes'' @ [NL]"

text \<open>The loop of \<open>fifo_consumer.c\<close> over the pieces its calls of \<open>read\<close> return, the last of them
  empty: the NUL is stored behind the bytes read, beyond the end of the buffer if it is full.\<close>

fun consumer :: "string list \<Rightarrow> string option" where
  "consumer [] = None"
| "consumer (c # cs) =
     (if MAX_LENGTH \<le> length c then None
      else let tx = ''consumer: read '' @ show_int (int (length c)) @ '' bytes'' @ [NL] @ cstr (c @ [NUL]) in
        if c = [] then Some tx else do { rest \<leftarrow> consumer cs; Some (tx @ rest) })"

text \<open>How the bytes in the fifo may be cut into reads.\<close>

definition reads :: "string list \<Rightarrow> string list \<Rightarrow> bool" where
  "reads ws cs \<longleftrightarrow> concat cs = concat ws \<and> (\<exists>ds. cs = ds @ [[]] \<and> [] \<notin> set ds) \<and> (\<forall>c \<in> set cs. length c \<le> MAX_LENGTH)"

lemma consumer_defined:
  "\<lbrakk>[] \<notin> set ds; \<forall>c \<in> set ds. length c < MAX_LENGTH\<rbrakk> \<Longrightarrow> consumer (ds @ [[]]) \<noteq> None"
  by (induction ds) (auto simp: MAX_LENGTH_def Let_def)

text \<open>The consumer works for any reads shorter than the buffer, and overflows as soon as one fills
  it: when the producer is more than 1000 bytes ahead.\<close>

lemma consumer_overflow_iff:
  assumes "reads ws cs"
  shows "consumer cs = None \<longleftrightarrow> (\<exists>c \<in> set cs. length c = MAX_LENGTH)"
proof -
  obtain ds where ds: "cs = ds @ [[]]" "[] \<notin> set ds" and le: "\<forall>c \<in> set ds. length c \<le> MAX_LENGTH"
    using assms by (auto simp: reads_def)
  from ds(2) le have "consumer (ds @ [[]]) = None \<longleftrightarrow> (\<exists>c \<in> set ds. length c = MAX_LENGTH)"
  proof (induction ds)
    case Nil
    then show ?case by (simp add: MAX_LENGTH_def)
  next
    case (Cons c ds)
    then show ?case by (auto simp: Let_def bind_eq_None_conv)
  qed
  then show ?thesis using ds(1) by (auto simp: MAX_LENGTH_def)
qed

lemma overflow_possible:
  assumes "MAX_LENGTH \<le> length (concat ws)"
  shows "\<exists>cs. reads ws cs \<and> consumer cs = None"
proof -
  let ?t = "concat ws"
  let ?cs = "take MAX_LENGTH ?t # map (\<lambda>x. [x]) (drop MAX_LENGTH ?t) @ [[]]"
  have "concat (map (\<lambda>x. [x]) xs) = xs" for xs :: string by (induction xs) auto
  then have "concat ?cs = ?t" by simp
  moreover have "take MAX_LENGTH ?t \<noteq> []" using assms by (cases ?t) (simp_all add: MAX_LENGTH_def)
  ultimately have "reads ws ?cs"
    unfolding reads_def by (intro conjI exI [of _ "take MAX_LENGTH ?t # map (\<lambda>x. [x]) (drop MAX_LENGTH ?t)"])
      (auto simp: MAX_LENGTH_def)
  moreover have "consumer ?cs = None" using assms by simp
  ultimately show ?thesis by blast
qed

subsection \<open>Shared memory and threads\<close>

definition LEN :: nat where "LEN = 100"

text \<open>\<open>do_child\<close>: what it prints and the two buffers it leaves, \<open>None\<close> if a string does not fit.\<close>

definition STR2 :: string where "STR2 = ''Second String''"

definition do_child :: "string \<Rightarrow> string \<Rightarrow> (string \<times> string \<times> string) option" where
  "do_child shared unshared =
     (if length STR2 < LEN
      then Some (''shared_buf in child: '' @ shared @ [NL] @ ''unshared_buf in child: '' @ unshared @ [NL], STR2, STR2)
      else None)"

text \<open>\<open>main\<close>, \<open>forked\<close> saying whether \<open>fork\<close> succeeds: the child works on the shared segment and on a
  copy of the other buffer. What is printed is shown as it is on a terminal.\<close>

definition shared_memory_main :: "bool \<Rightarrow> string option" where
  "shared_memory_main forked =
     (let init = ''First String'';
          before = ''shared_buf before fork: '' @ init @ [NL] @ ''unshared_buf before fork: '' @ init @ [NL] in
      if \<not> forked then Some (before @ ''Error in fork'' @ [NL])
      else do { (tx, shared, copied) \<leftarrow> do_child init init;
                Some (before @ tx @ ''shared_buf after fork: '' @ shared @ [NL] @ ''unshared_buf after fork: '' @ init @ [NL]) })"

lemma shared_memory_shared:
  "shared_memory_main True = Some (
     ''shared_buf before fork: First String'' @ [NL] @ ''unshared_buf before fork: First String'' @ [NL] @
     ''shared_buf in child: First String'' @ [NL] @ ''unshared_buf in child: First String'' @ [NL] @
     ''shared_buf after fork: Second String'' @ [NL] @ ''unshared_buf after fork: First String'' @ [NL])"
  by (simp add: shared_memory_main_def do_child_def STR2_def LEN_def)

text \<open>\<open>thread-1.c\<close>: \<open>child_fn\<close> on the global and the local variable of its process.\<close>

definition child_fn :: "int \<times> int \<Rightarrow> int \<times> int" where
  "child_fn vars = (678, 100)"

definition thread_main :: string where
  "thread_main =
     (let show_vars = (\<lambda>title sep (g, l). title @ show_int g @ sep @ show_int l @ [NL]);
          vars = (100, 678);
          forked = child_fn vars;
          after_fork = vars;
          after_thread = child_fn after_fork
      in show_vars ''Original values, global = '' '', local = '' vars
        @ show_vars ''After fork, global = '' '', local = '' after_fork
        @ show_vars ''After thread, global = '' '' local = '' after_thread)"

subsection \<open>Forking\<close>

text \<open>\<open>fork.c\<close> in one process: what it prints on its two outputs, given its own number and what
  \<open>fork\<close> returned to it, and whether it ends with status -1.\<close>

definition fork_main :: "int \<Rightarrow> int \<Rightarrow> string \<times> string \<times> bool" where
  "fork_main pid ret =
     (let after = ''AFTER FORK (Question1), Process id = '' @ show_int ret @ [NL];
          final = ''Final statement from Process: '' @ show_int pid @ [NL] in
      if ret < 0 then (after, ''fork failed'' @ [NL], True)
      else if ret = 0 then (after @ final, ''print after execlp'' @ [NL], False)
      else (after @ ''In Parent: '' @ show_int pid @ '', Child id: '' @ show_int ret @ [NL] @ final, [], False))"

text \<open>\<open>mfork.c\<close>: all processes there are print a line and fork, three times. \<open>child n p\<close> is the number
  of the child the process \<open>p\<close> gets from its call number \<open>n\<close>.\<close>

definition fork_line :: "nat \<Rightarrow> int \<Rightarrow> string" where
  "fork_line n p = ''Fork-'' @ show_int (int n) @ '' was called from process: '' @ show_int p @ [NL]"

definition fork_all :: "(nat \<Rightarrow> int \<Rightarrow> int) \<Rightarrow> nat \<Rightarrow> int list \<times> string list \<Rightarrow> int list \<times> string list" where
  "fork_all child n s = (fst s @ map (child n) (fst s), snd s @ map (fork_line n) (fst s))"

definition mfork_main :: "(nat \<Rightarrow> int \<Rightarrow> int) \<Rightarrow> int \<Rightarrow> int list \<times> string list" where
  "mfork_main child pid = fork_all child 3 (fork_all child 2 (fork_all child 1 ([pid], [])))"

lemma mfork_processes: "length (fst (mfork_main child pid)) = 8 \<and> length (snd (mfork_main child pid)) = 7"
  by (simp add: mfork_main_def fork_all_def)

end
