(* ===== verification/Signals.thy ===== *)
theory Signals
  imports CStrings
begin

text \<open>
  The signal handlers of \<open>src/lab2/signals/signals.c\<close>. Every handler runs with all signals blocked
  but the alarm, so the handlers run one after the other; while \<open>catch_int\<close> waits for the answer
  only \<open>catch_alarm\<close> can interrupt it.
\<close>

definition CTRL_C_THRESHOLD :: int where "CTRL_C_THRESHOLD = 5"

text \<open>\<open>exited\<close> is the exit status once there is one.\<close>

record signals_state =
  ctrl_c_count :: int
  printed :: string
  exited :: "int option"

text \<open>What becomes of the question within three seconds: a line, the end of the input, or nothing.\<close>

datatype reply = Answer string | No_input | Too_late

datatype delivery = SIGINT reply | SIGTSTP | SIGALRM

definition print :: "string \<Rightarrow> signals_state \<Rightarrow> signals_state" where
  "print tx s = s\<lparr>printed := printed s @ tx\<rparr>"

definition catch_alarm :: "signals_state \<Rightarrow> signals_state" where
  "catch_alarm s = (print ''User took to long to respond, Exiting program ...'' s)\<lparr>exited := Some 0\<rparr>"

text \<open>\<open>answer\<close> has room for 29 characters and is not set at the end of the input, so that looking at
  it is undefined.\<close>

definition catch_int :: "reply \<Rightarrow> signals_state \<Rightarrow> signals_state option" where
  "catch_int reply s =
     (let s = s\<lparr>ctrl_c_count := wrap32 (ctrl_c_count s + 1)\<rparr> in
      if ctrl_c_count s \<ge> CTRL_C_THRESHOLD then
        (let s = print ([NL] @ ''Really exit? [Y/n]: '') s in
         case reply of
           Too_late \<Rightarrow> Some (catch_alarm s)
         | No_input \<Rightarrow> None
         | Answer input \<Rightarrow> (let (answer, rest, eof) = fgets 29 input in
             if answer = [] then None
             else if hd answer = CHR ''n'' \<or> hd answer = CHR ''N''
             then Some ((print ([NL] @ ''Continuing'' @ [NL]) s)\<lparr>ctrl_c_count := 0\<rparr>)
             else Some ((print ([NL] @ ''Exiting...'' @ [NL]) s)\<lparr>exited := Some 0\<rparr>)))
      else Some s)"

definition catch_tstp :: "signals_state \<Rightarrow> signals_state" where
  "catch_tstp s = print ([NL, NL] @ ''So far, '' @ [CHR 0x27] @ show_int (ctrl_c_count s) @ [CHR 0x27]
     @ '' Ctrl-C presses were counted'' @ [NL, NL]) s"

text \<open>\<open>main\<close>: the handlers are installed, then \<open>pause\<close> is called for ever.\<close>

fun pauses :: "delivery list \<Rightarrow> signals_state \<Rightarrow> signals_state option" where
  "pauses [] s = Some s"
| "pauses (d # ds) s =
     (if exited s \<noteq> None then Some s
      else case d of
        SIGINT r \<Rightarrow> do { s \<leftarrow> catch_int r s; pauses ds s }
      | SIGTSTP \<Rightarrow> pauses ds (catch_tstp s)
      | SIGALRM \<Rightarrow> pauses ds (catch_alarm s))"

definition signals_main :: "delivery list \<Rightarrow> signals_state option" where
  "signals_main ds = pauses ds \<lparr>ctrl_c_count = 0, printed = [], exited = None\<rparr>"

subsection \<open>Every fifth interrupt asks\<close>

definition presses :: "delivery list \<Rightarrow> nat" where
  "presses ds = length (filter (\<lambda>d. \<exists>r. d = SIGINT r) ds)"

definition says_no :: "delivery \<Rightarrow> bool" where
  "says_no d \<longleftrightarrow> (case d of SIGINT (Answer a) \<Rightarrow> a \<noteq> [] \<and> (hd a = CHR ''n'' \<or> hd a = CHR ''N'') | SIGINT r \<Rightarrow> False
     | SIGTSTP \<Rightarrow> True | SIGALRM \<Rightarrow> False)"

lemma fgets_hd: "a \<noteq> [] \<Longrightarrow> fst (fgets (Suc n) a) \<noteq> [] \<and> hd (fst (fgets (Suc n) a)) = hd a"
  by (cases a) (auto split: prod.splits)

lemma catch_int_no:
  assumes "says_no (SIGINT r)" and "0 \<le> ctrl_c_count s" "ctrl_c_count s < 5"
  shows "\<exists>s'. catch_int r s = Some s' \<and> ctrl_c_count s' = (ctrl_c_count s + 1) mod 5 \<and> exited s' = exited s"
proof -
  obtain a where a: "r = Answer a" "a \<noteq> []" "hd a = CHR ''n'' \<or> hd a = CHR ''N''"
    using assms(1) by (auto simp: says_no_def split: reply.splits)
  have w: "wrap32 (ctrl_c_count s + 1) = ctrl_c_count s + 1" using assms by (intro wrap32_id) (simp add: int32_iff)
  obtain l q e where f: "fgets 29 a = (l, q, e)" by (cases "fgets 29 a") auto
  have l: "l \<noteq> []" "hd l = hd a" using fgets_hd [OF a(2), of 28] f by (simp_all add: eval_nat_numeral)
  show ?thesis
  proof (cases "ctrl_c_count s = 4")
    case True
    then show ?thesis using a f l w by (auto simp: catch_int_def Let_def CTRL_C_THRESHOLD_def print_def)
  next
    case False
    then show ?thesis using assms w by (simp add: catch_int_def Let_def CTRL_C_THRESHOLD_def)
  qed
qed

text \<open>As long as the user answers no, the program goes on and counts the interrupts modulo five:
  it asks at every fifth one.\<close>

lemma ctrl_c_count_mod:
  assumes "\<forall>d \<in> set ds. says_no d" and "0 \<le> ctrl_c_count s" "ctrl_c_count s < 5" and "exited s = None"
  shows "\<exists>s'. pauses ds s = Some s' \<and> ctrl_c_count s' = (ctrl_c_count s + int (presses ds)) mod 5 \<and> exited s' = None"
  using assms
proof (induction ds arbitrary: s)
  case Nil
  then show ?case by (simp add: presses_def)
next
  case (Cons d ds)
  show ?case
  proof (cases d)
    case (SIGINT r)
    have "says_no (SIGINT r)" using Cons.prems(1) SIGINT by simp
    from catch_int_no [OF this Cons.prems(2,3)] obtain s1 where
      s1: "catch_int r s = Some s1" "ctrl_c_count s1 = (ctrl_c_count s + 1) mod 5" "exited s1 = None" using Cons.prems(4) by auto
    have "\<exists>s'. pauses ds s1 = Some s' \<and> ctrl_c_count s' = (ctrl_c_count s1 + int (presses ds)) mod 5 \<and> exited s' = None"
      by (rule Cons.IH) (use Cons.prems(1) s1 in simp_all)
    then show ?thesis using s1 SIGINT Cons.prems(4) by (auto simp: presses_def mod_simps algebra_simps)
  next
    case SIGTSTP
    have "\<exists>s'. pauses ds (catch_tstp s) = Some s' \<and> ctrl_c_count s' = (ctrl_c_count (catch_tstp s) + int (presses ds)) mod 5 \<and> exited s' = None"
      by (rule Cons.IH) (use Cons.prems in \<open>simp_all add: catch_tstp_def print_def\<close>)
    then show ?thesis using SIGTSTP Cons.prems(4) by (simp add: presses_def catch_tstp_def print_def)
  next
    case SIGALRM
    then show ?thesis using Cons.prems(1) by (simp add: says_no_def)
  qed
qed

text \<open>Fewer than five interrupts never end the program, whatever the answers.\<close>

lemma few_presses_go_on:
  assumes "SIGALRM \<notin> set ds" and "0 \<le> ctrl_c_count s" and "ctrl_c_count s + int (presses ds) < 5" and "exited s = None"
  shows "\<exists>s'. pauses ds s = Some s' \<and> exited s' = None"
  using assms
proof (induction ds arbitrary: s)
  case Nil
  then show ?case by simp
next
  case (Cons d ds)
  show ?case
  proof (cases d)
    case (SIGINT r)
    have lt: "ctrl_c_count s + 1 + int (presses ds) < 5" using Cons.prems(3) SIGINT by (simp add: presses_def)
    have w: "wrap32 (ctrl_c_count s + 1) = ctrl_c_count s + 1" using Cons.prems(2) lt by (intro wrap32_id) (simp add: int32_iff)
    then have c: "catch_int r s = Some (s\<lparr>ctrl_c_count := ctrl_c_count s + 1\<rparr>)"
      using lt by (simp add: catch_int_def Let_def CTRL_C_THRESHOLD_def)
    have "\<exists>s'. pauses ds (s\<lparr>ctrl_c_count := ctrl_c_count s + 1\<rparr>) = Some s' \<and> exited s' = None"
      by (rule Cons.IH) (use Cons.prems lt in simp_all)
    then show ?thesis using c SIGINT Cons.prems(4) by simp
  next
    case SIGTSTP
    have "\<exists>s'. pauses ds (catch_tstp s) = Some s' \<and> exited s' = None"
      by (rule Cons.IH) (use Cons.prems SIGTSTP in \<open>simp_all add: catch_tstp_def print_def presses_def\<close>)
    then show ?thesis using SIGTSTP Cons.prems(4) by simp
  next
    case SIGALRM
    then show ?thesis using Cons.prems(1) by simp
  qed
qed

end
