(* ===== verification/Leaks.thy ===== *)
theory Leaks
  imports MemoryPool CStrings
begin

text \<open>
  The two exercises on memory errors in \<open>src/lab1\<close>, \<open>bugs.c\<close> and \<open>valgrind_test.c\<close>, on the heap of
  theory \<open>CHeap\<close>.
\<close>

subsection \<open>\<open>valgrind_test.c\<close>\<close>

text \<open>One round of the loop; storing through a pointer \<open>malloc\<close> did not return is undefined.\<close>

definition lost_round :: "heap \<Rightarrow> heap option" where
  "lost_round h =
     do { (definitely_lost, h) \<leftarrow> malloc 8 h;
          (if definitely_lost = 0 then None
           else do { (p, h) \<leftarrow> malloc 7 h;
                     h \<leftarrow> free p h;
                     free definitely_lost h }) }"

fun lost_loop :: "nat \<Rightarrow> heap \<Rightarrow> heap option" where
  "lost_loop 0 h = Some h"
| "lost_loop (Suc n) h = do { h \<leftarrow> lost_round h; lost_loop n h }"

text \<open>\<open>main\<close>: the number counts from 0 to 99; \<open>original\<close> still points to the start of the block.\<close>

definition valgrind_test_main :: "heap \<Rightarrow> heap option" where
  "valgrind_test_main h =
     do { h \<leftarrow> lost_loop 100 h;
          (still_reachable, h) \<leftarrow> malloc 42 h;
          (original, h) \<leftarrow> malloc 10 h;
          h \<leftarrow> free original h;
          free still_reachable h }"

lemma malloc_ok:
  assumes "heap_ok h" and "n \<le> avail h"
  obtains p h' where "malloc n h = Some (p, h')" and "p \<noteq> 0" and "heap_ok h'"
    and "mset (blocks h') = add_mset (p, n) (mset (blocks h))" and "avail h' = avail h - n"
proof -
  have "0 < brk h" using assms(1) by (simp add: heap_ok_def)
  then obtain h' where m: "malloc n h = Some (brk h, h')" "brk h \<noteq> 0" using malloc_room assms(2) by blast
  show ?thesis using that [OF m malloc_blocks(1-3) [OF assms(1) m]] .
qed

definition same_heap :: "heap \<Rightarrow> heap \<Rightarrow> bool" where
  "same_heap h h' \<longleftrightarrow> heap_ok h' \<and> mset (blocks h') = mset (blocks h) \<and> avail h' = avail h"

lemma lost_round_ok:
  assumes "heap_ok h" and "15 \<le> avail h"
  shows "\<exists>h'. lost_round h = Some h' \<and> same_heap h h'"
proof -
  obtain p h1 where 1: "malloc 8 h = Some (p, h1)" "p \<noteq> 0" "heap_ok h1" "mset (blocks h1) = add_mset (p, 8) (mset (blocks h))"
    "avail h1 = avail h - 8"
    by (rule malloc_ok [OF assms(1), of 8]) (use assms(2) in simp_all)
  obtain q h2 where 2: "malloc 7 h1 = Some (q, h2)" "heap_ok h2" "mset (blocks h2) = add_mset (q, 7) (mset (blocks h1))"
    "avail h2 = avail h1 - 7"
    by (rule malloc_ok [OF 1(3), of 7]) (use assms(2) 1(5) in simp_all)
  obtain h3 where 3: "free q h2 = Some h3" "heap_ok h3" "mset (blocks h3) = mset (blocks h1)" "avail h3 = avail h2 + 7"
    using free_blocks [OF 2(2,3)] by blast
  obtain h4 where 4: "free p h3 = Some h4" "heap_ok h4" "mset (blocks h4) = mset (blocks h)" "avail h4 = avail h3 + 8"
    using free_blocks [OF 3(2) 3(3) [unfolded 1(4)]] by blast
  show ?thesis using 1 2 3 4 assms(2) by (simp add: lost_round_def same_heap_def)
qed

lemma lost_loop_ok:
  "\<lbrakk>heap_ok h; 15 \<le> avail h\<rbrakk> \<Longrightarrow> \<exists>h'. lost_loop n h = Some h' \<and> same_heap h h'"
proof (induction n arbitrary: h)
  case 0
  then show ?case by (simp add: same_heap_def)
next
  case (Suc n)
  obtain h1 where h1: "lost_round h = Some h1" "same_heap h h1" using lost_round_ok [OF Suc.prems] by blast
  then have "\<exists>h'. lost_loop n h1 = Some h' \<and> same_heap h1 h'"
    using Suc.prems by (intro Suc.IH) (simp_all add: same_heap_def)
  then show ?case using h1 by (auto simp: same_heap_def)
qed

text \<open>Nothing is lost, whatever the comments of the program announce: every block is freed.\<close>

lemma valgrind_test_frees_all:
  assumes "heap_ok h" and "52 \<le> avail h"
  shows "\<exists>h'. valgrind_test_main h = Some h' \<and> same_heap h h'"
proof -
  obtain h0 where 0: "lost_loop 100 h = Some h0" "same_heap h h0" using lost_loop_ok [OF assms(1)] assms(2) by fastforce
  obtain p h1 where 1: "malloc 42 h0 = Some (p, h1)" "heap_ok h1" "mset (blocks h1) = add_mset (p, 42) (mset (blocks h0))"
    "avail h1 = avail h0 - 42"
    by (rule malloc_ok [of h0 42]) (use 0(2) assms(2) in \<open>simp_all add: same_heap_def\<close>)
  obtain q h2 where 2: "malloc 10 h1 = Some (q, h2)" "heap_ok h2" "mset (blocks h2) = add_mset (q, 10) (mset (blocks h1))"
    "avail h2 = avail h1 - 10"
    by (rule malloc_ok [OF 1(2), of 10]) (use 0(2) 1(4) assms(2) in \<open>simp_all add: same_heap_def\<close>)
  obtain h3 where 3: "free q h2 = Some h3" "heap_ok h3" "mset (blocks h3) = mset (blocks h1)" "avail h3 = avail h2 + 10"
    using free_blocks [OF 2(2,3)] by blast
  obtain h4 where 4: "free p h3 = Some h4" "heap_ok h4" "mset (blocks h4) = mset (blocks h0)" "avail h4 = avail h3 + 42"
    using free_blocks [OF 3(2) 3(3) [unfolded 1(3)]] by blast
  show ?thesis using 0 1 2 3 4 assms(2) by (simp add: valgrind_test_main_def same_heap_def del: lost_loop.simps)
qed

subsection \<open>\<open>bugs.c\<close>\<close>

text \<open>A \<open>char*\<close>: its address, 0 for \<open>NULL\<close>, and the text there.\<close>

type_synonym char_ptr = "nat \<times> string"

definition dup :: "string \<Rightarrow> heap \<Rightarrow> (char_ptr \<times> heap) option" where
  "dup s h = do { (p, h) \<leftarrow> malloc (length s + 1) h; Some ((p, s), h) }"

text \<open>Both functions walk to the \<open>NULL\<close> at the end of the array; beyond it they are undefined.\<close>

fun echo :: "char_ptr list \<Rightarrow> string option" where
  "echo [] = None"
| "echo ((p, s) # strs) = (if p = 0 then Some [] else do { tx \<leftarrow> echo strs; Some (s @ '' '' @ tx) })"

fun forwards :: "char_ptr list \<Rightarrow> nat \<Rightarrow> (string \<times> nat) option" where
  "forwards [] i = None"
| "forwards ((p, s) # strs) i =
     (if p = 0 then Some ([], i) else do { (tx, j) \<leftarrow> forwards strs (Suc i); Some (s @ '' '' @ tx, j) })"

fun backwards :: "char_ptr list \<Rightarrow> nat \<Rightarrow> string" where
  "backwards strs 0 = []"
| "backwards strs (Suc i) = snd (strs ! i) @ '' '' @ backwards strs i"

definition echoohce :: "char_ptr list \<Rightarrow> string option" where
  "echoohce strs = do { (tx, i) \<leftarrow> forwards strs 0; Some (tx @ backwards strs i @ [NL]) }"

fun dup_all :: "string list \<Rightarrow> heap \<Rightarrow> (char_ptr list \<times> heap) option" where
  "dup_all [] h = Some ([], h)"
| "dup_all (s # ss) h = do { (p, h) \<leftarrow> dup s h; (ps, h) \<leftarrow> dup_all ss h; Some (p # ps, h) }"

fun free_all :: "char_ptr list \<Rightarrow> heap \<Rightarrow> heap option" where
  "free_all [] h = Some h"
| "free_all ((p, s) # ps) h = do { h \<leftarrow> free p h; free_all ps h }"

definition population_line :: "string \<Rightarrow> int \<Rightarrow> string" where
  "population_line planet n = ''The current bug population of '' @ planet @ '' is about: '' @ show_int n @ [NL]"

definition bugs_main :: "heap \<Rightarrow> (string \<times> heap) option" where
  "bugs_main h =
     (let num_bugs_on_earth = 7400000000 * 200000000; num_bugs_on_mars = 0; num_bugs_on_venus = 0 in
      do { (sentence, h) \<leftarrow> dup_all [''The'', ''most'', ''useless'', ''bug'', ''is'', ''a''] h;
           let sentence = sentence @ [(0, ''(null)'')];
           let planets = population_line ''Earth'' num_bugs_on_earth @ population_line ''Mars'' num_bugs_on_mars
             @ population_line ''Venus'' num_bugs_on_venus
             @ ''The total bug population of the solar system is: ''
             @ show_int (num_bugs_on_mars + num_bugs_on_venus + num_bugs_on_earth) @ [NL];
           line1 \<leftarrow> echo sentence;
           h \<leftarrow> free (fst (sentence ! 2)) h;
           (adjective, h) \<leftarrow> dup ''colorful'' h;
           let sentence = sentence[2 := adjective];
           line2 \<leftarrow> echo sentence;
           line3 \<leftarrow> echoohce sentence;
           h \<leftarrow> free_all (take 6 sentence) h;
           let sentence = sentence[2 := (0, ''(null)'')];
           Some (planets @ line1 @ ''mosquito'' @ [NL] @ line2 @ ''butterfly'' @ [NL] @ line3
             @ ''The current bug adjective is: '' @ snd (sentence ! 2) @ [NL]
             @ ''Bugs didn'' @ [CHR 0x27] @ ''t cause me to crash!'' @ [NL, NL], h) })"

definition words_of :: "string list \<Rightarrow> string" where
  "words_of ss = concat (map (\<lambda>s. s @ '' '') ss)"

lemma echo_words:
  "\<forall>c \<in> set cs. fst c \<noteq> 0 \<Longrightarrow> echo (cs @ [(0, x)]) = Some (words_of (map snd cs))"
  by (induction cs) (auto simp: words_of_def)

lemma forth_words:
  "\<forall>c \<in> set cs. fst c \<noteq> 0 \<Longrightarrow> forwards (cs @ [(0, x)]) i = Some (words_of (map snd cs), i + length cs)"
  by (induction cs arbitrary: i) (auto simp: words_of_def)

lemma back_words: "i \<le> length cs \<Longrightarrow> backwards cs i = words_of (rev (map snd (take i cs)))"
  by (induction i) (auto simp: words_of_def take_Suc_conv_app_nth)

text \<open>Both loops of \<open>echoohce\<close> stop where they should: the words and the words backwards.\<close>

lemma echoohce_words:
  assumes "\<forall>c \<in> set cs. fst c \<noteq> 0"
  shows "echoohce (cs @ [(0, x)]) = Some (words_of (map snd cs @ rev (map snd cs)) @ [NL])"
  using forth_words [OF assms, of x 0] back_words [of "length cs" "cs @ [(0, x)]"]
  by (simp add: echoohce_def words_of_def)

definition bytes_of :: "char_ptr list \<Rightarrow> (nat \<times> nat) multiset" where
  "bytes_of cs = mset (map (\<lambda>(p, s). (p, length s + 1)) cs)"

lemma dup_ok:
  assumes "heap_ok h" and "length s + 1 \<le> avail h"
  obtains p h' where "dup s h = Some ((p, s), h')" and "p \<noteq> 0" and "heap_ok h'"
    and "mset (blocks h') = add_mset (p, length s + 1) (mset (blocks h))" and "avail h' = avail h - (length s + 1)"
  by (rule malloc_ok [OF assms]) (use that in \<open>auto simp: dup_def\<close>)

lemma dup_all_ok:
  assumes "heap_ok h" and "sum_list (map (\<lambda>s. length s + 1) ss) \<le> avail h"
  shows "\<exists>cs h'. dup_all ss h = Some (cs, h') \<and> map snd cs = ss \<and> (\<forall>c \<in> set cs. fst c \<noteq> 0) \<and> heap_ok h'
    \<and> mset (blocks h') = bytes_of cs + mset (blocks h) \<and> avail h' = avail h - sum_list (map (\<lambda>s. length s + 1) ss)"
  using assms
proof (induction ss arbitrary: h)
  case Nil
  then show ?case by (simp add: bytes_of_def)
next
  case (Cons s ss)
  obtain p h1 where 1: "dup s h = Some ((p, s), h1)" "p \<noteq> 0" "heap_ok h1"
    "mset (blocks h1) = add_mset (p, length s + 1) (mset (blocks h))" "avail h1 = avail h - (length s + 1)"
    by (rule dup_ok [OF Cons.prems(1), of s]) (use Cons.prems(2) in simp_all)
  have "sum_list (map (\<lambda>s. length s + 1) ss) \<le> avail h1" using Cons.prems(2) 1(5) by simp
  from Cons.IH [OF 1(3) this] obtain cs h2 where "dup_all ss h1 = Some (cs, h2)" "map snd cs = ss"
    "\<forall>c \<in> set cs. fst c \<noteq> 0" "heap_ok h2" "mset (blocks h2) = bytes_of cs + mset (blocks h1)"
    "avail h2 = avail h1 - sum_list (map (\<lambda>s. length s + 1) ss)" by blast
  then show ?case using 1 by (intro exI [of _ "(p, s) # cs"] exI [of _ h2]) (simp add: bytes_of_def)
qed

lemma free_all_ok:
  assumes "heap_ok h" and "mset (blocks h) = bytes_of cs + bs"
  shows "\<exists>h'. free_all cs h = Some h' \<and> heap_ok h' \<and> mset (blocks h') = bs"
  using assms
proof (induction cs arbitrary: h)
  case Nil
  then show ?case by (simp add: bytes_of_def)
next
  case (Cons c cs)
  obtain p s where c: "c = (p, s)" by (cases c)
  have "mset (blocks h) = add_mset (p, length s + 1) (bytes_of cs + bs)" using Cons.prems(2) c by (simp add: bytes_of_def)
  from free_blocks [OF Cons.prems(1) this] Cons.IH c show ?case by fastforce
qed

text \<open>The program prints what its comments announce and frees every string.\<close>

lemma bugs_main_ok:
  assumes "heap_ok h" and "50 \<le> avail h"
  shows "\<exists>tx h'. bugs_main h = Some (tx, h') \<and> heap_ok h' \<and> mset (blocks h') = mset (blocks h)
    \<and> (\<exists>planets. tx = planets @ ''The most useless bug is a mosquito'' @ [NL] @ ''The most colorful bug is a butterfly'' @ [NL]
      @ ''The most colorful bug is a a is bug colorful most The '' @ [NL] @ ''The current bug adjective is: (null)'' @ [NL]
      @ ''Bugs didn'' @ [CHR 0x27] @ ''t cause me to crash!'' @ [NL, NL])"
proof -
  let ?ss = "[''The'', ''most'', ''useless'', ''bug'', ''is'', ''a'']"
  obtain cs h1 where 1: "dup_all ?ss h = Some (cs, h1)" "map snd cs = ?ss" "\<forall>c \<in> set cs. fst c \<noteq> 0" "heap_ok h1"
    "mset (blocks h1) = bytes_of cs + mset (blocks h)" "avail h1 = avail h - 26"
    using dup_all_ok [OF assms(1), of ?ss] assms(2) by auto
  obtain a b c d e f where cs: "cs = [(a, ''The''), (b, ''most''), (c, ''useless''), (d, ''bug''), (e, ''is''), (f, ''a'')]"
    using 1(2) by auto
  have "mset (blocks h1) = add_mset (c, 8) (bytes_of [(a, ''The''), (b, ''most''), (d, ''bug''), (e, ''is''), (f, ''a'')] + mset (blocks h))"
    using 1(5) cs by (simp add: bytes_of_def)
  from free_blocks [OF 1(4) this] obtain h2 where 2: "free c h1 = Some h2" "heap_ok h2"
    "mset (blocks h2) = bytes_of [(a, ''The''), (b, ''most''), (d, ''bug''), (e, ''is''), (f, ''a'')] + mset (blocks h)" "avail h2 = avail h1 + 8"
    by blast
  obtain g h3 where 3: "dup ''colorful'' h2 = Some ((g, ''colorful''), h3)" "g \<noteq> 0" "heap_ok h3"
    "mset (blocks h3) = add_mset (g, 9) (mset (blocks h2))"
    by (rule dup_ok [OF 2(2), of "''colorful''"]) (use assms(2) 1(6) 2(4) in simp_all)
  let ?cs = "[(a, ''The''), (b, ''most''), (g, ''colorful''), (d, ''bug''), (e, ''is''), (f, ''a'')]"
  have "mset (blocks h3) = bytes_of ?cs + mset (blocks h)" using 3(4) 2(3) by (simp add: bytes_of_def)
  from free_all_ok [OF 3(3) this] obtain h4 where 4: "free_all ?cs h3 = Some h4" "heap_ok h4" "mset (blocks h4) = mset (blocks h)"
    by blast
  have nz: "\<forall>c \<in> set ?cs. fst c \<noteq> 0" using 1(3) cs 3(2) by auto
  have lines: "echo (cs @ [(0, ''(null)'')]) = Some (words_of ?ss)"
    "echo (?cs @ [(0, ''(null)'')]) = Some (words_of (map snd ?cs))"
    "echoohce (?cs @ [(0, ''(null)'')]) = Some (words_of (map snd ?cs @ rev (map snd ?cs)) @ [NL])"
    using echo_words [OF 1(3)] echo_words [OF nz] echoohce_words [OF nz] 1(2) by simp_all
  have "(cs @ [(0, ''(null)'')])[2 := (g, ''colorful'')] = ?cs @ [(0, ''(null)'')]" "fst ((cs @ [(0, ''(null)'')]) ! 2) = c"
    "take 6 (?cs @ [(0, ''(null)'')]) = ?cs" "snd ((?cs @ [(0, ''(null)'')])[2 := (0, ''(null)'')] ! 2) = ''(null)''"
    by (simp_all add: cs eval_nat_numeral)
  with 1(1) 2(1) 3(1) 4(1) lines have "\<exists>planets. bugs_main h = Some (planets @ words_of ?ss @ ''mosquito'' @ [NL] @ words_of (map snd ?cs) @ ''butterfly'' @ [NL]
      @ (words_of (map snd ?cs @ rev (map snd ?cs)) @ [NL]) @ ''The current bug adjective is: '' @ ''(null)'' @ [NL]
      @ ''Bugs didn'' @ [CHR 0x27] @ ''t cause me to crash!'' @ [NL, NL], h4)"
    unfolding bugs_main_def Let_def by (simp only: bind.bind_lunit prod.case) blast
  then show ?thesis using 4 by (auto simp: words_of_def)
qed

end
