(* ===== verification/Spec2Isabelle.thy ===== *)
theory Spec2Isabelle
  imports Buddy BuddySim SchedSim ParseText Quash Grammar Scanner Reader Automaton Yyparse Typed Philosophers PageMap Counters
    Dine FileCopy Finder Ipc Signals Leaks
begin

text \<open>
  Verification of the operating systems course work of this repository: its own programs under
  \<open>src/project1\<close>, \<open>src/project2\<close> and \<open>src/lab1\<close> to \<open>src/lab10\<close>, in C. This theory imports all
  others; each opens with what it holds.

  \<^bold>\<open>The programs and the theories that model them.\<close>

  The buddy allocator, \<open>src/project2/buddy\<close>. \<open>KernelList\<close> models the intrusive doubly linked
  lists of \<open>list.h\<close> as a map from node addresses to their two links. \<open>Buddy\<close> models \<open>buddy.c\<close>: the
  array \<open>g_pages\<close>, the list of free blocks of each order, and every function (\<open>buddy_init\<close>,
  \<open>buddy_split\<close>, \<open>buddy_alloc\<close>, \<open>buddy_free\<close> with its coalescing loop, \<open>buddy_dump\<close>). \<open>BuddySim\<close> models
  \<open>simulator.c\<close>, which reads commands and keeps the blocks in variables. The lemmas relate the
  free lists to a partition of memory into blocks (\<open>buddy_rel\<close>, \<open>buddy_inv\<close>); the properties
  say that what is granted is aligned, large enough and disjoint, when \<open>NULL\<close> is returned, that
  freeing coalesces, after any history of calls (\<open>client\<close>), and which requests are undefined.

  The scheduler, \<open>src/lab7/eecs678-scheduler\<close>. \<open>PriQueue\<close> models \<open>libpriqueue.c\<close> (nodes on a heap with
  \<open>malloc\<close> and \<open>free\<close>) and \<open>queuetest.c\<close>, \<open>Float32\<close> the \<open>float\<close> arithmetic of the averages,
  \<open>Scheduler\<close> the functions of \<open>libscheduler.c\<close>, \<open>SchedSim\<close> the simulator that drives them. The
  queue is proved to refine insertion into a list in priority order; \<open>sched_ok\<close> is the
  invariant of all reachable states of the scheduler.

  The shell quash, \<open>src/project1/quash/src\<close>. \<open>CHeap\<close> is the C heap. \<open>Deque\<close> models the template
  \<open>deque.h\<close> once, over an allocator given by the locale \<open>allocator\<close>; it is interpreted with
  \<open>malloc\<close> (\<open>Deque\<close>) and with the memory pool (\<open>PoolDeque\<close>). \<open>MemoryPool\<close> models \<open>memory_pool.c\<close>,
  itself a deque of pools. \<open>Command\<close> models \<open>command.c\<close>, \<open>ParseIface\<close> and \<open>ParseText\<close>
  \<open>parsing_interface.c\<close>, \<open>Grammar\<close> the semantic actions of \<open>parse.y\<close>, \<open>Scanner\<close> the rules of
  \<open>parse.l\<close>, \<open>Reader\<close> the productions of \<open>parse.y\<close> and a reader for them, \<open>Automaton\<close> the
  tables and the loop of the generated \<open>parse.tab.c\<close>, which \<open>Yyparse\<close> proves to accept what the
  productions derive, \<open>Execute\<close> all of \<open>execute.c\<close>, \<open>Quash\<close> the main loop of \<open>quash.c\<close>. \<open>Jobs\<close>, \<open>Pipeline\<close> and \<open>Script\<close> hold the lemmas on
  the job table, on the descriptors of a pipeline and on whole scripts. Parts meet as in the
  code: \<open>main_round\<close> opens a pool on the shell's heap, calls \<open>parse\<close>, which uses deques in
  the pool and on the heap, hands the script to \<open>run_script\<close>, and destroys the pool; \<open>Typed\<close> follows
  a line from its text to its processes; the
  invariants \<open>pool_inv\<close> and \<open>shell_inv\<close> account for every block of that heap by its owner.

  The laboratories. \<open>Philosophers\<close> models the three programs of \<open>src/lab6/pthreads_dp\<close> and \<open>Dine\<close>
  that of \<open>src/lab10/procfs\<close>, \<open>Counters\<close> the threads of \<open>src/lab5\<close>: threads are stepped one action
  at a time, in any order. \<open>PageMap\<close> models the address translation of \<open>src/lab8\<close>, \<open>FileCopy\<close> the two
  programs of \<open>src/lab9/mmio\<close>, \<open>Ipc\<close> the exercises of \<open>src/lab4/lab4_fifo\<close>, \<open>Finder\<close> the pipeline of
  \<open>src/lab3\<close>, \<open>Signals\<close> the handlers of \<open>src/lab2\<close>, \<open>Leaks\<close> the two programs of \<open>src/lab1\<close>.

  \<open>Prelude\<close> holds C's integers, the collections of simplification rules and the lemmas on lists
  that everything shares; \<open>CStrings\<close> holds strings, character classes, \<open>scanf\<close>, \<open>strtol\<close>, \<open>fgets\<close>
  and \<open>printf\<close> as far as the programs use them.

  \<^bold>\<open>How the code is translated.\<close> A struct is a record with the fields of the code, an enum or a
  tagged union a datatype, a function a definition of the same name. A 32-bit \<open>int\<close> is an \<open>int\<close>
  with \<open>wrap32\<close> where the code computes, an \<open>unsigned\<close> or \<open>unsigned long\<close> a word, a \<open>size_t\<close> a \<open>nat\<close>
  with \<open>size64\<close>. Mutable structures reached through pointers are maps from addresses (lists,
  queue nodes) or records holding the address of their array (deques, pools). A function that
  can meet undefined behaviour, an assertion that fails or a call of \<open>abort\<close> returns an option, with
  \<open>None\<close> there; an error the code handles is a value of a sum type or an exit status. What a
  program prints is a string in its state. What the operating system answers (\<open>fork\<close>, \<open>pipe\<close>,
  \<open>open\<close>, \<open>exec\<close>, \<open>waitpid\<close>, the order in which threads run) is a parameter.

  \<^bold>\<open>Loops.\<close> Loops over data are structural recursion, or recursive functions with a measure. Those
  that may not end are partial functions, with \<open>None\<close> for not returning, and no fuel is used: the
  walks over linked lists (\<open>list_walk\<close>, \<open>offer_loop\<close>, \<open>remove_loop\<close>, \<open>destroy_list\<close>, \<open>free_queue\<close>),
  which return on every list that satisfies its invariant; \<open>find_room\<close> (the memory pool grows; it
  returns within stated bounds); \<open>interpret_loop\<close>, which always ends; \<open>wait_pids\<close>, \<open>run_simulation\<close>;
  \<open>yyrun\<close>, the loop of the generated parser, which ends on every line that fits
  its stack of ten thousand states; \<open>next_script\<close> and \<open>main_loop\<close>, which do not return at the end of the input
  (\<open>Typed.main_loop_never_ends\<close>). The periods of the main threads of the philosophers are given by a
  list of schedules.

  \<^bold>\<open>Interfaces.\<close> \<open>intrusive_list\<close> (\<open>KernelList\<close>) states what the operations of \<open>list.h\<close> do to the
  lists they represent; the allocator uses its interpretation \<open>kl\<close>. \<open>pri_queue\<close> (\<open>PriQueue\<close>) states
  offering and polling; the scheduler uses its interpretation \<open>pq\<close>. \<open>allocator\<close> (\<open>Deque\<close>) promises
  that blocks served are apart and stay served; \<open>deque_alloc\<close> extends it by the size of an
  element and holds the lemmas on deques. They are interpreted with \<open>malloc\<close> and \<open>free\<close>, and with
  the memory pool for the three element types of the parser.

  \<^bold>\<open>Not modelled.\<close> Vendored sources (\<open>src/lab1/valgrind-3.22.0\<close>, \<open>src/lab3/3122729-ipc-lab/bash-4.2\<close>) and
  the third-party \<open>procstat.c\<close>; the tables and buffers of the generated scanner
  (\<open>lex.yy.c\<close>), for which the rules of \<open>parse.l\<close> stand by the documented behaviour of flex; the use the
  parser makes of the memory pool: \<open>yyparse\<close> is a parameter of \<open>parse\<close>, and \<open>Typed\<close> takes one whose results are
  those of the generated automaton, which \<open>Yyparse.yyparse_script_reads\<close> shows to be those of the grammar; shell and Perl scripts; the copies of the two projects and of \<open>lab4\<close>; command line parsing by \<open>getopt\<close>, which
  enters as its result. Running threads on hardware with weaker memory than interleaving is
  outside the model.
\<close>

end
